(* ===== verification/Prelude.thy ===== *)
theory Prelude
  imports Main "HOL-Library.Word" "HOL-Library.Code_Target_Nat"
begin

text \<open>
  Shared vocabulary of the development: the Python exceptions the modules raise, results
  that are either an exception or a value, byte strings with the slicing and the
  \<^verbatim>\<open>struct\<close> operations the code uses, and the generic lemmas on digits, lists and
  association lists that the component theories rest on.
\<close>

unbundle bit_operations_syntax

named_theorems bytes_simps \<open>rewrite rules for byte strings and fixed-width integers\<close>
named_theorems result_simps \<open>rewrite rules for results\<close>

section \<open>Exceptions and results\<close>

text \<open>The exception classes of the source, with the message where the code compares or shows it.\<close>

datatype py_error =
    ValueError string
  | RuntimeError string
  | KeyError
  | TypeError
  | IndexError
  | StructError
  | DpError string
  | EventError string
  | EventGap string
  | Unsupported string

type_synonym 'a res = "py_error + 'a"

definition rbind :: "'a res \<Rightarrow> ('a \<Rightarrow> 'b res) \<Rightarrow> 'b res" where
  "rbind r f = (case r of Inl e \<Rightarrow> Inl e | Inr x \<Rightarrow> f x)"

lemma rbind_simps [simp]:
  "rbind (Inl e) f = Inl e"
  "rbind (Inr x) f = f x"
  by (simp_all add: rbind_def)

lemma rbind_Inr_iff [result_simps]: "rbind r f = Inr y \<longleftrightarrow> (\<exists>x. r = Inr x \<and> f x = Inr y)"
  by (cases r) auto

lemma rbind_cong [fundef_cong]:
  "r = r' \<Longrightarrow> (\<And>x. r' = Inr x \<Longrightarrow> f x = f' x) \<Longrightarrow> rbind r f = rbind r' f'"
  by (cases r') auto

text \<open>\<open>ok b e x\<close> raises \<open>e\<close> when the condition \<open>b\<close> of the guard fails.\<close>

definition ok :: "bool \<Rightarrow> py_error \<Rightarrow> 'a res \<Rightarrow> 'a res" where
  "ok b e k = (if b then k else Inl e)"

lemma ok_simps [simp]:
  "ok True e k = k"
  "ok False e k = Inl e"
  by (simp_all add: ok_def)

lemma ok_Inr_iff [result_simps]: "ok b e k = Inr y \<longleftrightarrow> b \<and> k = Inr y"
  by (simp add: ok_def)

section \<open>Digits in a base\<close>

text \<open>
  \<^verbatim>\<open>int.from_bytes\<close> and \<^verbatim>\<open>struct\<close> read the most significant digit first;
  \<open>digits B n v\<close> is \<open>v\<close> as \<open>n\<close> digits, what does not fit being lost.
\<close>

definition from_digits :: "nat \<Rightarrow> nat list \<Rightarrow> nat" where
  "from_digits B ds = foldl (\<lambda>a d. a * B + d) 0 ds"

primrec digits :: "nat \<Rightarrow> nat \<Rightarrow> nat \<Rightarrow> nat list" where
  "digits B 0 v = []"
| "digits B (Suc n) v = digits B n (v div B) @ [v mod B]"

lemma from_digits_Nil [simp]: "from_digits B [] = 0"
  by (simp add: from_digits_def)

lemma from_digits_snoc [simp]: "from_digits B (ds @ [d]) = from_digits B ds * B + d"
  by (simp add: from_digits_def)

lemma from_digits_append:
  "from_digits B (xs @ ys) = from_digits B xs * B ^ length ys + from_digits B ys"
proof (induction ys rule: rev_induct)
  case (snoc y ys)
  have "from_digits B (xs @ ys @ [y]) = from_digits B ((xs @ ys) @ [y])" by simp
  also have "\<dots> = (from_digits B xs * B ^ length ys + from_digits B ys) * B + y"
    by (simp only: from_digits_snoc snoc.IH)
  finally show ?case by (simp add: algebra_simps)
qed simp

lemma from_digits_Cons: "from_digits B (d # ds) = d * B ^ length ds + from_digits B ds"
proof -
  have "from_digits B [d] = d" by (simp add: from_digits_def)
  then show ?thesis using from_digits_append [of B "[d]" ds] by simp
qed

lemma length_digits [simp]: "length (digits B n v) = n"
  by (induction n arbitrary: v) simp_all

lemma digits_bound: "0 < B \<Longrightarrow> d \<in> set (digits B n v) \<Longrightarrow> d < B"
  by (induction n arbitrary: v) auto

lemma nth_digits_bound: "0 < B \<Longrightarrow> i < n \<Longrightarrow> digits B n v ! i < B"
  by (rule digits_bound [of B _ n v]) simp_all

lemma from_digits_digits: "from_digits B (digits B n v) = v mod B ^ n"
proof (induction n arbitrary: v)
  case (Suc n)
  have "v mod B ^ Suc n = (v div B mod B ^ n) * B + v mod B"
    by (simp add: mod_mult2_eq ac_simps)
  then show ?case by (simp add: Suc.IH)
qed simp

lemma from_digits_less: "(\<And>d. d \<in> set ds \<Longrightarrow> d < B) \<Longrightarrow> from_digits B ds < B ^ length ds"
proof (induction ds rule: rev_induct)
  case (snoc d ds)
  then have lt: "from_digits B ds < B ^ length ds" and d: "d < B" by auto
  from lt have "Suc (from_digits B ds) * B \<le> B ^ length ds * B"
    by (intro mult_right_mono) auto
  with d show ?case by (simp add: algebra_simps)
qed simp

lemma digits_from_digits:
  "(\<And>d. d \<in> set ds \<Longrightarrow> d < B) \<Longrightarrow> digits B (length ds) (from_digits B ds) = ds"
proof (induction ds rule: rev_induct)
  case (snoc d ds)
  then have "d < B" by simp
  moreover from this have "(from_digits B ds * B + d) div B = from_digits B ds"
    and "(from_digits B ds * B + d) mod B = d" by (simp_all add: div_mult_self3)
  ultimately show ?case using snoc by simp
qed simp

lemma digits_inject:
  "0 < B \<Longrightarrow> v < B ^ n \<Longrightarrow> w < B ^ n \<Longrightarrow> digits B n v = digits B n w \<Longrightarrow> v = w"
  by (metis from_digits_digits mod_less)

text \<open>Casting out \<open>B - 1\<close>: the value and the digit sum agree modulo \<open>B - 1\<close>.\<close>

lemma from_digits_mod_pred: "0 < B \<Longrightarrow> from_digits B ds mod (B - 1) = sum_list ds mod (B - 1)"
proof (induction ds rule: rev_induct)
  case (snoc d ds)
  have "from_digits B ds * B = from_digits B ds + from_digits B ds * (B - 1)"
    using snoc.prems by (cases B) simp_all
  then have "from_digits B (ds @ [d]) mod (B - 1) = (from_digits B ds + d) mod (B - 1)"
    by (simp add: mod_simps) (metis add.commute add.left_commute mod_mult_self1)
  also have "\<dots> = (sum_list ds + d) mod (B - 1)"
    using snoc by (metis mod_add_left_eq)
  finally show ?case by simp
qed simp

lemma from_digits_update:
  assumes "i < length ds"
  shows "from_digits B (ds[i := d]) + ds ! i * B ^ (length ds - Suc i)
       = from_digits B ds + d * B ^ (length ds - Suc i)"
proof -
  have old: "ds = take i ds @ ds ! i # drop (Suc i) ds"
    using assms by (simp add: id_take_nth_drop)
  have new: "ds[i := d] = take i ds @ d # drop (Suc i) ds"
    using assms by (simp add: upd_conv_take_nth_drop)
  have "from_digits B ds = from_digits B (take i ds) * B ^ Suc (length ds - Suc i)
      + ds ! i * B ^ (length ds - Suc i) + from_digits B (drop (Suc i) ds)"
    using assms by (subst old) (simp add: from_digits_append from_digits_Cons)
  moreover have "from_digits B (ds[i := d]) = from_digits B (take i ds) * B ^ Suc (length ds - Suc i)
      + d * B ^ (length ds - Suc i) + from_digits B (drop (Suc i) ds)"
    using assms by (subst new) (simp add: from_digits_append from_digits_Cons)
  ultimately show ?thesis by simp
qed

section \<open>Byte strings\<close>

type_synonym byte = "8 word"
type_synonym bytes = "byte list"

text \<open>Python's \<^verbatim>\<open>b[i:j]\<close> for \<open>0 \<le> i\<close>: out of range it is shorter, never an error.\<close>

definition seg :: "nat \<Rightarrow> nat \<Rightarrow> 'a list \<Rightarrow> 'a list" where
  "seg i j xs = take (j - i) (drop i xs)"

lemma length_seg [simp]: "length (seg i j xs) = min (j - i) (length xs - i)"
  by (simp add: seg_def min.commute)

lemma seg_alt: "seg i j xs = drop i (take j xs)"
  by (simp add: seg_def drop_take)

lemma seg_append_left [bytes_simps]: "j \<le> length xs \<Longrightarrow> seg i j (xs @ ys) = seg i j xs"
  by (cases "i \<le> j") (auto simp: seg_def)

lemma seg_append_right [bytes_simps]:
  "length xs \<le> i \<Longrightarrow> seg i j (xs @ ys) = seg (i - length xs) (j - length xs) ys"
  by (simp add: seg_def)

lemma seg_all [bytes_simps]: "length xs \<le> j \<Longrightarrow> seg 0 j xs = xs"
  by (simp add: seg_def)

lemma seg_split: "i \<le> j \<Longrightarrow> j \<le> k \<Longrightarrow> seg i k xs = seg i j xs @ seg j k xs"
proof -
  assume a: "i \<le> j" "j \<le> k"
  then have "take (k - i) (drop i xs) = take (j - i + (k - j)) (drop i xs)" by simp
  then show ?thesis using a by (simp only: take_add seg_def drop_drop) simp
qed

text \<open>
  \<^verbatim>\<open>struct.pack_into\<close> and seg assignment of the same length overwrite the bytes at
  an offset.
\<close>

definition put :: "nat \<Rightarrow> 'a list \<Rightarrow> 'a list \<Rightarrow> 'a list" where
  "put i new xs = take i xs @ new @ drop (i + length new) xs"

lemma length_put [simp]: "i + length new \<le> length xs \<Longrightarrow> length (put i new xs) = length xs"
  by (simp add: put_def)

lemma put_take [bytes_simps]: "i \<le> length xs \<Longrightarrow> take i (put i new xs) = take i xs"
  by (simp add: put_def)

lemma seg_put_same [bytes_simps]:
  "i + length new \<le> length xs \<Longrightarrow> j = i + length new \<Longrightarrow> seg i j (put i new xs) = new"
  by (simp add: seg_def put_def)

lemma seg_put_before [bytes_simps]:
  "j \<le> i \<Longrightarrow> i + length new \<le> length xs \<Longrightarrow> seg k j (put i new xs) = seg k j xs"
  by (simp add: seg_alt put_def)

lemma seg_put_after [bytes_simps]:
  "i + length new \<le> k \<Longrightarrow> i + length new \<le> length xs \<Longrightarrow>
     seg k j (put i new xs) = seg k j xs"
  by (simp add: seg_def put_def drop_append)

lemma nth_put [bytes_simps]:
  "i + length new \<le> length xs \<Longrightarrow> k < length xs \<Longrightarrow>
     put i new xs ! k = (if i \<le> k \<and> k < i + length new then new ! (k - i) else xs ! k)"
  by (auto simp: put_def nth_append min_def)

definition from_be :: "bytes \<Rightarrow> nat" where
  "from_be bs = from_digits 256 (map unat bs)"

definition to_be :: "nat \<Rightarrow> nat \<Rightarrow> bytes" where
  "to_be n v = map of_nat (digits 256 n v)"

definition from_le :: "bytes \<Rightarrow> nat" where
  "from_le bs = from_be (rev bs)"

definition to_le :: "nat \<Rightarrow> nat \<Rightarrow> bytes" where
  "to_le n v = rev (to_be n v)"

lemma unat_byte_less [simp]: "unat (b :: byte) < 256"
  using unsigned_less [of b, where 'a = nat] by simp

lemma unat_byte_le [simp]: "unat (b :: byte) \<le> 255"
  using unat_byte_less [of b] by linarith

lemma unat_of_nat_byte: "n < 256 \<Longrightarrow> unat (of_nat n :: byte) = n"
  by (simp add: unat_of_nat)

lemma length_to_be [simp]: "length (to_be n v) = n"
  by (simp add: to_be_def)

lemma length_to_le [simp]: "length (to_le n v) = n"
  by (simp add: to_le_def)

lemma from_be_to_be [bytes_simps]: "from_be (to_be n v) = v mod 256 ^ n"
proof -
  have "map (unat \<circ> (of_nat :: nat \<Rightarrow> byte)) (digits 256 n v) = digits 256 n v"
    by (rule map_idI) (use digits_bound [of 256 _ n v] in \<open>auto simp: unat_of_nat_byte\<close>)
  then show ?thesis by (simp add: from_be_def to_be_def from_digits_digits)
qed

lemma to_be_from_be [bytes_simps]: "to_be (length bs) (from_be bs) = bs"
proof -
  have "digits 256 (length (map unat bs)) (from_digits 256 (map unat bs)) = map unat bs"
    by (rule digits_from_digits) auto
  then show ?thesis by (simp add: to_be_def from_be_def comp_def)
qed

lemma to_be_from_be_len: "length bs = n \<Longrightarrow> to_be n (from_be bs) = bs"
  using to_be_from_be by blast

lemma from_be_less: "from_be bs < 256 ^ length bs"
proof -
  have "from_digits 256 (map unat bs) < 256 ^ length (map unat bs)"
    by (rule from_digits_less) auto
  then show ?thesis by (simp add: from_be_def)
qed

lemma from_be_append: "from_be (xs @ ys) = from_be xs * 256 ^ length ys + from_be ys"
  by (simp add: from_be_def from_digits_append)

lemma from_le_to_le [bytes_simps]: "from_le (to_le n v) = v mod 256 ^ n"
  by (simp add: from_le_def to_le_def from_be_to_be)

lemma to_le_from_le [bytes_simps]: "to_le (length bs) (from_le bs) = bs"
  using to_be_from_be [of "rev bs"] by (simp add: to_le_def from_le_def)

lemma from_le_less: "from_le bs < 256 ^ length bs"
  using from_be_less [of "rev bs"] by (simp add: from_le_def)

lemma to_be_1: "to_be (Suc 0) v = [of_nat (v mod 256)]"
  by (simp add: to_be_def)

lemma nth_to_be_1: "to_be (Suc 0) v ! 0 = of_nat (v mod 256)"
  by (simp add: to_be_1)

lemma to_be_2: "to_be 2 v = [of_nat (v div 256 mod 256), of_nat (v mod 256)]"
  by (simp add: to_be_def numeral_2_eq_2)

lemma push_bit_or_eq_add:
  assumes "t < 2 ^ (m - n)" "n \<le> m"
  shows "push_bit m k OR push_bit n t = push_bit m k + push_bit n (t :: nat)"
proof -
  have t: "t = take_bit (m - n) t" using assms by (simp add: take_bit_nat_eq_self)
  have "push_bit m k + push_bit n (take_bit (m - n) t) = push_bit m k OR push_bit n (take_bit (m - n) t)"
    using assms(2) by (intro disjunctive_add) (auto simp: bit_simps)
  with t show ?thesis by simp
qed

lemma from_be_Cons: "from_be (b # bs) = unat b * 256 ^ length bs + from_be bs"
  by (simp add: from_be_def from_digits_Cons)

lemma from_be_Nil [simp]: "from_be [] = 0"
  by (simp add: from_be_def)

lemma first_byte:
  assumes "bs \<noteq> []"
  shows "unat (bs ! 0) = from_be bs div 256 ^ (length bs - 1)"
proof -
  obtain a r where bs: "bs = a # r" using assms by (cases bs) auto
  show ?thesis using from_be_less [of r] by (simp add: bs from_be_Cons)
qed

lemma put_put: "i + length a \<le> length xs \<Longrightarrow> length a = length b \<Longrightarrow> put i b (put i a xs) = put i b xs"
  by (simp add: put_def)

lemma fold_update_length: "length (fold (\<lambda>(i, b) r. r[i := b]) ps xs) = length xs"
  by (induction ps arbitrary: xs) auto

lemma fold_update_other:
  "k \<notin> set is \<Longrightarrow> fold (\<lambda>(i, b) r. r[i := b]) (zip is bs) xs ! k = xs ! k"
proof (induction "is" arbitrary: bs xs)
  case (Cons i "is")
  then show ?case by (cases bs) auto
qed simp

lemma fold_update_map:
  assumes "distinct is" "\<forall>i \<in> set is. i < length xs" "length bs = length is"
  shows "map (\<lambda>i. fold (\<lambda>(i, b) r. r[i := b]) (zip is bs) xs ! i) is = bs"
  using assms
proof (induction "is" arbitrary: bs xs)
  case (Cons i "is")
  then obtain b bs' where bs: "bs = b # bs'" by (cases bs) auto
  with Cons show ?case by (simp add: fold_update_other)
qed simp

lemma from_be_take_drop: "from_be bs = from_be (take s bs) * 256 ^ (length bs - s) + from_be (drop s bs)"
  using from_be_append [of "take s bs" "drop s bs"] by simp

lemma from_be_eq_0: "from_be bs = 0 \<longleftrightarrow> (\<forall>b \<in> set bs. b = 0)"
  by (induction bs) (auto simp: from_be_Cons unat_eq_0)

lemma nth_digits: "j < n \<Longrightarrow> digits B n v ! j = v div B ^ (n - Suc j) mod B"
proof (induction n arbitrary: v)
  case (Suc n)
  show ?case
  proof (cases "j = n")
    case False
    with Suc.prems have "B ^ (n - j) = B * B ^ (n - Suc j)" by (simp add: Suc_diff_Suc flip: power_Suc)
    with False Suc show ?thesis by (simp add: nth_append div_mult2_eq)
  qed (simp add: nth_append)
qed simp

lemma digits_cong_mod:
  assumes "j < n" "v mod M = w mod M" "B ^ (n - j) dvd M" "0 < B"
  shows "digits B n v ! j = digits B n w ! j"
proof -
  let ?k = "n - Suc j"
  have e: "B ^ (n - j) = B ^ ?k * B" using assms(1) by (simp add: Suc_diff_Suc flip: power_Suc2)
  have "v mod B ^ (n - j) = w mod B ^ (n - j)"
    using assms(2,3) by (metis mod_mod_cancel)
  moreover have "u div B ^ ?k mod B = u mod (B ^ ?k * B) div B ^ ?k" for u
    using assms(4) by (simp add: mod_mult2_eq)
  ultimately show ?thesis using assms(1) by (simp add: nth_digits e)
qed

lemma mod_split_low:
  assumes "r < M" "M dvd N" "0 < N"
  shows "(q * M + r) mod N = q * M mod N + (r :: nat)"
proof -
  obtain k where N: "N = M * k" using assms(2) by (auto simp: dvd_def)
  have "(q * M + r) mod (M * k) = M * ((q * M + r) div M mod k) + (q * M + r) mod M"
    by (rule mod_mult2_eq)
  then show ?thesis using assms N by (simp add: mod_mult2_eq mult.commute [of q M])
qed

lemma from_digits_update_mod:
  assumes i: "i < length ds" and ds: "\<And>d. d \<in> set ds \<Longrightarrow> d < B" and d: "d < B"
    and N: "B ^ (length ds - i) dvd N" "0 < N"
  shows "from_digits B (ds[i := d]) mod N + ds ! i * B ^ (length ds - Suc i)
       = from_digits B ds mod N + d * B ^ (length ds - Suc i)"
proof -
  let ?q = "from_digits B (take i ds)" and ?M = "B ^ (length ds - i)" and ?r = "drop i ds"
  have split: "(from_digits B (take i ds @ r)) mod N = ?q * ?M mod N + from_digits B r"
    if "length r = length ds - i" "\<And>e. e \<in> set r \<Longrightarrow> e < B" for r
    using that from_digits_less [of r B] N by (simp add: from_digits_append mod_split_low)
  have e: "ds[i := d] = take i ds @ ?r[0 := d]"
    using i by (simp add: upd_conv_take_nth_drop Cons_nth_drop_Suc [symmetric])
  have "from_digits B (ds[i := d]) mod N = ?q * ?M mod N + from_digits B (?r[0 := d])"
    unfolding e using ds d set_update_subset_insert [of ?r 0 d] by (intro split) (auto dest: in_set_dropD)
  moreover have "from_digits B ds mod N = ?q * ?M mod N + from_digits B ?r"
    using split [of ?r] ds by (auto dest: in_set_dropD)
  moreover have "from_digits B (?r[0 := d]) + ds ! i * B ^ (length ds - Suc i)
      = from_digits B ?r + d * B ^ (length ds - Suc i)"
    using from_digits_update [of 0 ?r B d] i by simp
  ultimately show ?thesis by simp
qed

lemma add_low_less:
  assumes "B < N" "B mod M = 0" "r < M" "M dvd N"
  shows "B + r < (N :: nat)"
proof -
  obtain k j where "B = M * k" "N = M * j" using assms(2,4) by (auto simp: dvd_def mod_eq_0_iff_dvd)
  with assms(1) have "Suc k \<le> j" by simp
  then have "M * Suc k \<le> N" using \<open>N = M * j\<close> by (metis mult_le_mono2)
  then show ?thesis using assms(3) \<open>B = M * k\<close> by simp
qed

lemma mask_or_nat:
  assumes "B mod 2 ^ h = 0"
  shows "B OR (m AND (2 ^ h - 1)) = B + m mod (2 :: nat) ^ h"
proof -
  have "m AND (2 ^ h - 1) = take_bit h m" by (simp add: take_bit_eq_mask mask_eq_exp_minus_1)
  moreover obtain k where "B = push_bit h k"
    using assms by (metis push_bit_eq_mult mod_0_imp_dvd dvd_def mult.commute)
  moreover have "push_bit h k + take_bit h m = push_bit h k OR take_bit h m"
    by (rule disjunctive_add) (auto simp: bit_simps)
  ultimately show ?thesis by (simp add: take_bit_eq_mod)
qed

section \<open>Strings\<close>

text \<open>\<^verbatim>\<open>str.lower\<close> on ASCII strings.\<close>

definition lower_char :: "char \<Rightarrow> char" where
  "lower_char c = (let n = (of_char c :: nat) in if 65 \<le> n \<and> n \<le> 90 then char_of (n + 32) else c)"

definition py_lower :: "string \<Rightarrow> string" where
  "py_lower s = map lower_char s"

section \<open>Dictionaries that keep insertion order\<close>

text \<open>
  A Python \<^verbatim>\<open>dict\<close> iterates in insertion order, so where the code iterates over
  one it is an association list: storing at a present key keeps the key's position,
  storing at a new key appends.
\<close>

type_synonym ('k, 'v) odict = "('k \<times> 'v) list"

fun dict_set :: "'k \<Rightarrow> 'v \<Rightarrow> ('k, 'v) odict \<Rightarrow> ('k, 'v) odict" where
  "dict_set k v [] = [(k, v)]"
| "dict_set k v ((k', v') # d) = (if k = k' then (k, v) # d else (k', v') # dict_set k v d)"

definition dict_del :: "'k \<Rightarrow> ('k, 'v) odict \<Rightarrow> ('k, 'v) odict" where
  "dict_del k d = filter (\<lambda>(k', _). k' \<noteq> k) d"

lemma map_of_dict_set [simp]: "map_of (dict_set k v d) = (map_of d)(k \<mapsto> v)"
  by (induction d) auto

lemma map_of_dict_del [simp]: "map_of (dict_del k d) = (map_of d)(k := None)"
  by (induction d) (auto simp: dict_del_def fun_upd_def)

lemma keys_dict_set: "fst ` set (dict_set k v d) = insert k (fst ` set d)"
  by (induction k v d rule: dict_set.induct) (auto split: if_splits)

lemma distinct_dict_set: "distinct (map fst d) \<Longrightarrow> distinct (map fst (dict_set k v d))"
proof (induction d)
  case (Cons p d)
  then show ?case using keys_dict_set [of k v d] by (cases p) auto
qed simp

lemma distinct_dict_del: "distinct (map fst d) \<Longrightarrow> distinct (map fst (dict_del k d))"
  unfolding dict_del_def by (rule distinct_map_filter)

lemma distinct_dict_filter: "distinct (map fst d) \<Longrightarrow> distinct (map fst (filter P d))"
  by (rule distinct_map_filter)

end
