(* ===== verification/Inet_Checksum.thy ===== *)
theory Inet_Checksum
  imports Prelude
begin

text \<open>
  The Internet checksum as an interface. Two modules compute it, each in its own way
  (\<^verbatim>\<open>ffn_ipv6_translation.checksum\<close> and \<^verbatim>\<open>ffn_dhcp_server.checksum\<close>).
  Both sum the big-endian 16-bit words of the zero-padded data, fold the carries with the
  same loop and complement. The locale states what a client relies on (a 16-bit result that
  completes the word sum to a multiple of 65535), and proves once that a header whose
  checksum field has been filled in verifies.
\<close>

section \<open>Word sums\<close>

text \<open>\<^verbatim>\<open>struct.unpack('!%dH')\<close> on data of even length.\<close>

fun words16 :: "bytes \<Rightarrow> nat list" where
  "words16 (a # b # r) = (unat a * 256 + unat b) # words16 r"
| "words16 r = []"

definition pad_even :: "bytes \<Rightarrow> bytes" where
  "pad_even raw = raw @ replicate (length raw mod 2) 0"

definition word_sum :: "bytes \<Rightarrow> nat" where
  "word_sum raw = sum_list (words16 (pad_even raw))"

lemma words16_append: "even (length xs) \<Longrightarrow> words16 (xs @ ys) = words16 xs @ words16 ys"
  by (induction xs rule: words16.induct) auto

lemma pad_even_append: "even (length xs) \<Longrightarrow> pad_even (xs @ ys) = xs @ pad_even ys"
  by (simp add: pad_even_def mod_add_eq [symmetric] mod2_eq_if)

lemma word_sum_append:
  "even (length xs) \<Longrightarrow> word_sum (xs @ ys) = word_sum xs + word_sum ys"
proof -
  assume e: "even (length xs)"
  then have "pad_even xs = xs" by (simp add: pad_even_def)
  with e show ?thesis by (simp add: word_sum_def pad_even_append words16_append)
qed

lemma word_sum_Nil [simp]: "word_sum [] = 0"
  by (simp add: word_sum_def pad_even_def)

lemma word_sum_pair [simp]: "word_sum [a, b] = unat a * 256 + unat b"
  by (simp add: word_sum_def pad_even_def)

lemma word_sum_to_be_2: "word_sum (to_be 2 v) = v mod 65536"
proof -
  have "v mod 65536 = v div 256 mod 256 * 256 + v mod 256"
    using mod_mult2_eq [of v 256 256] by (simp add: ac_simps)
  then show ?thesis
    by (simp add: to_be_def numeral_2_eq_2 unat_of_nat_byte word_sum_def pad_even_def)
qed

lemma word_sum_put2:
  assumes "even i" "i + 2 \<le> length xs"
  shows "word_sum (put i (to_be 2 c) xs) = word_sum (put i [0, 0] xs) + c mod 65536"
proof -
  have e: "even (length (take i xs))" using assms by (simp add: min_def)
  have "word_sum (put i n xs) = word_sum (take i xs) + (word_sum n + word_sum (drop (i + 2) xs))"
    if "length n = 2" for n
    using e that by (simp add: put_def word_sum_append)
  from this [of "to_be 2 c"] this [of "[0, 0]"] show ?thesis by (simp add: word_sum_to_be_2)
qed

lemma mod_mult_one_add: "p mod m = 1 \<Longrightarrow> (x * p + y) mod m = (x + y) mod (m :: nat)"
  by (metis mod_add_left_eq mod_mult_right_eq mult.right_neutral)

lemma word_sum_be_mod: "even (length bs) \<Longrightarrow> word_sum bs mod 65535 = from_be bs mod 65535"
proof (induction bs rule: words16.induct)
  case (1 a b r)
  have "from_be (a # b # r) = from_be [a, b] * 256 ^ length r + from_be r"
    using from_be_append [of "[a, b]" r] by simp
  moreover have "(256 :: nat) ^ length r mod 65535 = 1"
  proof -
    obtain k where "length r = 2 * k" using 1 by auto
    then show ?thesis using power_mod [of "65536 :: nat" 65535 k] by (simp add: power_mult)
  qed
  ultimately have "from_be (a # b # r) mod 65535 = (from_be [a, b] + from_be r) mod 65535"
    by (simp only: mod_mult_one_add)
  moreover have "word_sum (a # b # r) = from_be [a, b] + word_sum r"
    using word_sum_append [of "[a, b]" r] by (simp add: from_be_Cons)
  ultimately show ?case using 1 by (metis even_Suc length_Cons mod_add_right_eq)
qed (auto simp: word_sum_def pad_even_def)

text \<open>The loop \<^verbatim>\<open>while total >> 16: total = (total & 0xFFFF) + (total >> 16)\<close>.\<close>

function fold_carry :: "nat \<Rightarrow> nat" where
  "fold_carry t = (if t div 65536 \<noteq> 0 then fold_carry (t mod 65536 + t div 65536) else t)"
  by pat_completeness auto
termination
proof (relation "measure id")
  fix t :: nat assume "t div 65536 \<noteq> 0"
  moreover have "t = t mod 65536 + 65536 * (t div 65536)" by simp
  ultimately have "t mod 65536 + t div 65536 < t" by linarith
  then show "(t mod 65536 + t div 65536, t) \<in> measure id" by simp
qed simp

declare fold_carry.simps [simp del]

lemma fold_carry_spec:
  "fold_carry t < 65536 \<and> fold_carry t mod 65535 = t mod 65535 \<and> (fold_carry t = 0 \<longleftrightarrow> t = 0)"
proof (induction t rule: fold_carry.induct)
  case (1 t)
  show ?case
  proof (cases "t div 65536 = 0")
    case True
    then have "t < 65536" by (simp add: div_eq_0_iff)
    with True show ?thesis by (simp add: fold_carry.simps [of t])
  next
    case False
    have "t = t mod 65536 + t div 65536 + 65535 * (t div 65536)"
      using div_mult_mod_eq [of t 65536] by linarith
    then have "(t mod 65536 + t div 65536) mod 65535 = t mod 65535"
      by (metis mod_mult_self2)
    moreover have "t mod 65536 + t div 65536 = 0 \<longleftrightarrow> t = 0" using False by auto
    ultimately show ?thesis using 1 [OF False] False by (simp add: fold_carry.simps [of t])
  qed
qed

lemmas fold_carry_less = fold_carry_spec [THEN conjunct1]
lemmas fold_carry_mod = fold_carry_spec [THEN conjunct2, THEN conjunct1]
lemmas fold_carry_eq_0 = fold_carry_spec [THEN conjunct2, THEN conjunct2]

text \<open>The complement of a 16-bit value is the distance to 65535.\<close>

lemma complement16:
  assumes "x < 65536"
  shows "(65535 - x) + x = 65535" and "65535 - x < (65536 :: nat)"
  using assms by simp_all

lemma take_bit_not_16:
  assumes "x < 65536"
  shows "take_bit 16 (NOT (int x)) = 65535 - int x"
proof -
  have "take_bit 16 (int x) = int x" using assms by (simp add: take_bit_eq_mod)
  then show ?thesis
    using take_bit_not_eq_mask_diff [of 16 "int x"] by (simp add: mask_eq_exp_minus_1)
qed

lemma nat_xor_65535:
  assumes "x < 65536"
  shows "x XOR 65535 = 65535 - (x :: nat)"
proof -
  have t: "take_bit 16 (int x) = int x" using assms by (simp add: take_bit_eq_mod)
  have "int x XOR mask 16 = take_bit 16 (NOT (int x))"
    by (subst t [symmetric]) (rule bit_eqI, auto simp: bit_simps)
  also have "\<dots> = 65535 - int x" by (rule take_bit_not_16 [OF assms])
  finally have "int (x XOR 65535) = int (65535 - x)"
    using assms by (simp add: of_nat_xor_eq mask_eq_exp_minus_1 of_nat_diff)
  then show ?thesis by (simp only: of_nat_eq_iff)
qed

lemma nat_not_and_65535:
  assumes "x < 65536"
  shows "nat (NOT (int x) AND 65535) = 65535 - (x :: nat)"
proof -
  have "NOT (int x) AND 65535 = take_bit 16 (NOT (int x))"
    by (simp add: take_bit_eq_mask mask_eq_exp_minus_1)
  then show ?thesis using assms by (simp add: take_bit_not_16)
qed

section \<open>The interface\<close>

locale inet_checksum =
  fixes csum :: "bytes \<Rightarrow> nat"
  assumes csum_less: "csum bs < 65536"
    and csum_completes: "(csum bs + word_sum bs) mod 65535 = 0"
    and csum_all_ones: "csum bs = 65535 \<longleftrightarrow> word_sum bs = 0"
begin

text \<open>A receiver accepts: the checksum over data that includes a correct one is zero.\<close>

lemma csum_zero_iff: "csum bs = 0 \<longleftrightarrow> word_sum bs \<noteq> 0 \<and> word_sum bs mod 65535 = 0"
proof
  assume "csum bs = 0"
  then show "word_sum bs \<noteq> 0 \<and> word_sum bs mod 65535 = 0"
    using csum_completes [of bs] csum_all_ones [of bs] by auto
next
  assume a: "word_sum bs \<noteq> 0 \<and> word_sum bs mod 65535 = 0"
  then have "csum bs mod 65535 = 0"
    using csum_completes [of bs] by (metis add.commute add_0_right mod_add_right_eq mod_0)
  moreover have "csum bs < 65535" using a csum_less [of bs] csum_all_ones [of bs] by linarith
  ultimately show "csum bs = 0" by simp
qed

lemma csum_cong: "word_sum xs = word_sum ys \<Longrightarrow> csum xs = 0 \<longleftrightarrow> csum ys = 0"
  by (simp add: csum_zero_iff)

text \<open>Storing the checksum (or 65535 for a zero one, as UDP does) completes the sum.\<close>

lemma csum_stored:
  assumes w: "word_sum with_field = word_sum zeroed + c"
    and c: "c = csum zeroed \<or> c = (if csum zeroed = 0 then 65535 else csum zeroed)"
  shows "csum with_field = 0"
proof -
  have z: "(csum zeroed + word_sum zeroed) mod 65535 = 0" by (rule csum_completes)
  have "(c + word_sum zeroed) mod 65535 = 0"
  proof (cases "csum zeroed = 0")
    case True
    then have "c = 0 \<or> c = 65535" using c by auto
    then show ?thesis using z True by (auto simp: mod_add_self1)
  next
    case False
    then show ?thesis using z c by auto
  qed
  moreover have "c + word_sum zeroed \<noteq> 0"
    using c csum_all_ones [of zeroed] by auto
  ultimately show ?thesis using w by (simp add: csum_zero_iff add.commute)
qed

text \<open>The same, for a two-byte field at an even offset of a packet that follows a pseudo header.\<close>

lemma csum_filled:
  assumes "even (length ps)" "even i" "i + 2 \<le> length xs" "put i [0, 0] xs = xs"
    and c: "c = csum (ps @ xs) \<or> c = (if csum (ps @ xs) = 0 then 65535 else csum (ps @ xs))"
  shows "csum (ps @ put i (to_be 2 c) xs) = 0"
proof (rule csum_stored [OF _ c])
  have "c < 65536" using c csum_less [of "ps @ xs"] by auto
  then show "word_sum (ps @ put i (to_be 2 c) xs) = word_sum (ps @ xs) + c"
    using assms(1-4) word_sum_put2 [of i xs c] by (simp add: word_sum_append)
qed

end

text \<open>Complementing the folded word sum is an implementation of the interface.\<close>

lemma complement_checksum:
  assumes "\<And>bs. c bs = 65535 - fold_carry (word_sum bs)"
  shows "inet_checksum c"
proof
  fix bs
  let ?f = "fold_carry (word_sum bs)"
  have f: "?f < 65536" by (rule fold_carry_less)
  show "c bs < 65536" using f by (simp add: assms)
  have "(65535 - ?f + word_sum bs) mod 65535 = (65535 - ?f + ?f) mod 65535"
    by (metis fold_carry_mod mod_add_right_eq)
  then show "(c bs + word_sum bs) mod 65535 = 0" using f by (simp add: assms)
  show "c bs = 65535 \<longleftrightarrow> word_sum bs = 0"
    using f fold_carry_eq_0 [of "word_sum bs"] by (auto simp: assms)
qed

end
