(* ===== verification/Ipv6_Translation.thy ===== *)
theory Ipv6_Translation
  imports Inet_Checksum
begin

text \<open>
  \<^verbatim>\<open>src/opt/ffn_ipv6_translation.py\<close>: NAT64 address synthesis (RFC 6052), the NAT64
  packet rewrite oracle, and NPTv6 prefix translation (RFC 6296).

  An address is its integer value; an address or network text is the value Python's
  \<^verbatim>\<open>ipaddress\<close> module reads from it, with \<^const>\<open>None\<close> for a text that
  module rejects. A network text keeps the address as written (host bits included), because
  the code asks for \<^verbatim>\<open>strict=True\<close>. Rendering an address with \<^verbatim>\<open>str\<close>
  and reading it back is the identity, so results are values too.
\<close>

section \<open>Addresses and networks of the ipaddress module\<close>

type_synonym ipv6_text = "nat option"
type_synonym ipv4_text = "nat option"
type_synonym net_text = "(nat \<times> nat) option"

record ipv6_network =
  network_address :: nat
  prefixlen :: nat

definition masked :: "nat \<Rightarrow> nat \<Rightarrow> nat" where
  "masked a l = a div 2 ^ (128 - l) * 2 ^ (128 - l)"

definition in_network :: "nat \<Rightarrow> ipv6_network \<Rightarrow> bool" where
  "in_network a n \<longleftrightarrow> masked a (prefixlen n) = network_address n"

definition broadcast_address :: "ipv6_network \<Rightarrow> nat" where
  "broadcast_address n = network_address n + (2 ^ (128 - prefixlen n) - 1)"

definition overlaps :: "ipv6_network \<Rightarrow> ipv6_network \<Rightarrow> bool" where
  "overlaps a b \<longleftrightarrow> in_network (network_address a) b \<or> in_network (broadcast_address a) b
     \<or> in_network (network_address b) a \<or> in_network (broadcast_address b) a"

definition in_v4 :: "nat \<Rightarrow> nat \<Rightarrow> nat \<Rightarrow> bool" where
  "in_v4 a net l \<longleftrightarrow> a div 2 ^ (32 - l) = net div 2 ^ (32 - l)"

definition quad :: "nat \<Rightarrow> nat \<Rightarrow> nat \<Rightarrow> nat \<Rightarrow> nat" where
  "quad a b c d = ((a * 256 + b) * 256 + c) * 256 + d"

definition v4_multicast :: "nat \<Rightarrow> bool" where "v4_multicast a = in_v4 a (quad 224 0 0 0) 4"
definition v4_unspecified :: "nat \<Rightarrow> bool" where "v4_unspecified a = (a = 0)"
definition v4_loopback :: "nat \<Rightarrow> bool" where "v4_loopback a = in_v4 a (quad 127 0 0 0) 8"
definition v4_link_local :: "nat \<Rightarrow> bool" where "v4_link_local a = in_v4 a (quad 169 254 0 0) 16"

definition v4_private :: "nat \<Rightarrow> bool" where
  "v4_private a \<longleftrightarrow>
     list_ex (\<lambda>(n, l). in_v4 a n l)
       [(quad 0 0 0 0, 8), (quad 10 0 0 0, 8), (quad 127 0 0 0, 8), (quad 169 254 0 0, 16),
        (quad 172 16 0 0, 12), (quad 192 0 0 0, 24), (quad 192 0 0 170, 31), (quad 192 0 2 0, 24),
        (quad 192 168 0 0, 16), (quad 198 18 0 0, 15), (quad 198 51 100 0, 24),
        (quad 203 0 113 0, 24), (quad 240 0 0 0, 4), (quad 255 255 255 255, 32)]
     \<and> a \<noteq> quad 192 0 0 9 \<and> a \<noteq> quad 192 0 0 10"

definition v4_global :: "nat \<Rightarrow> bool" where
  "v4_global a \<longleftrightarrow> \<not> in_v4 a (quad 100 64 0 0) 10 \<and> \<not> v4_private a"

section \<open>Prefixes\<close>

definition reserved_networks :: "ipv6_network list" where
  "reserved_networks =
     [\<lparr>network_address = 0xff00 * 2 ^ 112, prefixlen = 8\<rparr>,
      \<lparr>network_address = 0xfe80 * 2 ^ 112, prefixlen = 10\<rparr>,
      \<lparr>network_address = 0, prefixlen = 128\<rparr>,
      \<lparr>network_address = 1, prefixlen = 128\<rparr>,
      \<lparr>network_address = 0xffff * 2 ^ 32, prefixlen = 96\<rparr>]"

definition prefix :: "net_text \<Rightarrow> string \<Rightarrow> ipv6_network res" where
  "prefix value kind =
     (let bad = Inl (ValueError (kind @ '' requires a unicast IPv6 network prefix without host bits''))
      in case value of None \<Rightarrow> bad
       | Some (a, l) \<Rightarrow>
           (let network = \<lparr>network_address = a, prefixlen = l\<rparr>
            in if masked a l \<noteq> a then bad
               else if l = 0 \<or> list_ex (overlaps network) reserved_networks then bad
               else Inr network))"

definition NAT64_LENGTHS :: "nat list" where
  "NAT64_LENGTHS = [32, 40, 48, 56, 64, 96]"

definition packed6 :: "nat \<Rightarrow> bytes" where "packed6 a = to_be 16 a"
definition packed4 :: "nat \<Rightarrow> bytes" where "packed4 a = to_be 4 a"

definition nat64_prefix :: "net_text \<Rightarrow> ipv6_network res" where
  "nat64_prefix value =
     rbind (prefix value ''NAT64'') (\<lambda>network.
       ok (prefixlen network \<in> set NAT64_LENGTHS)
          (ValueError ''NAT64 prefix length must be /32, /40, /48, /56, /64 or /96'')
       (ok (\<not> (prefixlen network = 96 \<and> packed6 (network_address network) ! 8 \<noteq> 0))
          (ValueError ''NAT64 reserved u octet must be zero'')
       (Inr network)))"

section \<open>NAT64 addresses\<close>

definition nat64_positions :: "nat \<Rightarrow> nat list" where
  "nat64_positions start =
     (if start = 12 then [12..<16] else take 4 (filter (\<lambda>i. i \<noteq> 8) [start..<16]))"

definition nat64_embed :: "ipv4_text \<Rightarrow> net_text \<Rightarrow> nat res" where
  "nat64_embed value net =
     rbind (nat64_prefix net) (\<lambda>network.
       case value of None \<Rightarrow> Inl (ValueError ''address'')
       | Some v \<Rightarrow>
          (let v4 = packed4 v;
               raw = packed6 (network_address network);
               start = prefixlen network div 8
           in Inr (from_be (fold (\<lambda>(i, b) r. r[i := b]) (zip (nat64_positions start) v4) raw))))"

definition nat64_extract :: "ipv6_text \<Rightarrow> net_text \<Rightarrow> nat res" where
  "nat64_extract value net =
     rbind (nat64_prefix net) (\<lambda>network.
       case value of None \<Rightarrow> Inl (ValueError ''address'')
       | Some address \<Rightarrow>
          (let raw = packed6 address
           in ok (in_network address network) (ValueError ''Address is outside the NAT64 prefix'')
             (ok (raw ! 8 = 0) (ValueError ''NAT64 reserved u octet must be zero'')
               (Inr (from_be (map (\<lambda>i. raw ! i) (nat64_positions (prefixlen network div 8))))))))"

definition nat64_destination :: "ipv6_text \<Rightarrow> net_text \<Rightarrow> nat res" where
  "nat64_destination value net =
     rbind (nat64_extract value net) (\<lambda>address.
       ok (\<not> (v4_multicast address \<or> v4_unspecified address \<or> v4_loopback address
               \<or> v4_link_local address))
          (ValueError ''NAT64 destination must be routable unicast'')
       (rbind (nat64_prefix net) (\<lambda>network.
         ok (\<not> (network = \<lparr>network_address = 0x64ff9b * 2 ^ 96, prefixlen = 96\<rparr> \<and> \<not> v4_global address))
            (ValueError ''The NAT64 well-known prefix cannot translate non-global IPv4 destinations'')
         (Inr address))))"

section \<open>The Internet checksum\<close>

definition checksum :: "bytes \<Rightarrow> nat" where
  "checksum raw = fold_carry (sum_list (words16 (raw @ replicate (length raw mod 2) 0))) XOR 65535"

section \<open>NAT64 packet rewriting\<close>

datatype ip_address = IPv4Address nat | IPv6Address nat

fun ip_version :: "ip_address \<Rightarrow> nat" where
  "ip_version (IPv4Address a) = 4"
| "ip_version (IPv6Address a) = 6"

fun packed :: "ip_address \<Rightarrow> bytes" where
  "packed (IPv4Address a) = packed4 a"
| "packed (IPv6Address a) = packed6 a"

text \<open>The locals that the first half of \<^verbatim>\<open>nat64_packet\<close> reads from the input packet.\<close>

record nat64_in =
  version :: nat
  protocol :: nat
  ttl :: nat
  traffic :: nat
  oldsrc :: bytes
  olddst :: bytes
  payload :: bytes
  pseudo :: bytes

definition nat64_parse :: "bytes \<Rightarrow> nat \<Rightarrow> nat64_in res" where
  "nat64_parse packet src_version =
     (let ver = unat (packet ! 0) div 16 in
      if ver = 6 then
        ok (\<not> (length packet < 40 \<or> length packet \<noteq> 40 + from_be (seg 4 6 packet)))
           (ValueError ''Incomplete IPv6 packet'')
        (let proto = unat (packet ! 6); hop = unat (packet ! 7);
             cls = from_be (seg 0 4 packet) div 2 ^ 20 mod 256;
             s = seg 8 24 packet; d = seg 24 40 packet; body = drop 40 packet
         in ok (\<not> (src_version \<noteq> 4 \<or> proto \<notin> {6, 17, 58}))
               (ValueError ''NAT64 oracle does not support IPv6 extensions or this protocol'')
            (Inr \<lparr>version = ver, protocol = proto, ttl = hop, traffic = cls, oldsrc = s, olddst = d,
                  payload = body,
                  pseudo = s @ d @ to_be 4 (length body) @ [0, 0, 0] @ to_be 1 proto\<rparr>))
      else if ver = 4 then
        ok (\<not> (length packet < 20 \<or> packet ! 0 \<noteq> 0x45 \<or> length packet \<noteq> from_be (seg 2 4 packet)
                \<or> checksum (seg 0 20 packet) \<noteq> 0))
           (ValueError ''Invalid or unsupported IPv4 header'')
        (ok (from_be (seg 6 8 packet) AND 0xbfff = 0)
           (ValueError ''NAT64 oracle requires unfragmented IPv4 without options'')
        (let proto = unat (packet ! 9); hop = unat (packet ! 8); cls = unat (packet ! 1);
             s = seg 12 16 packet; d = seg 16 20 packet; body = drop 20 packet
         in ok (\<not> (src_version \<noteq> 6 \<or> proto \<notin> {6, 17, 1}))
               (ValueError ''Unsupported NAT64 input protocol'')
            (Inr \<lparr>version = ver, protocol = proto, ttl = hop, traffic = cls, oldsrc = s, olddst = d,
                  payload = body,
                  pseudo = (if proto \<noteq> 1 then s @ d @ [0] @ to_be 1 proto @ to_be 2 (length body)
                            else [])\<rparr>)))
      else Inl (ValueError ''Unsupported input IP version''))"

definition set_port :: "int option \<Rightarrow> nat \<Rightarrow> bytes \<Rightarrow> bytes res" where
  "set_port port index body =
     (case port of None \<Rightarrow> Inr body
      | Some p \<Rightarrow> ok (1 \<le> p \<and> p \<le> 65535) (ValueError ''Invalid translated port'')
                     (Inr (put index (to_be 2 (nat p)) body)))"

text \<open>The transport step: the rewritten payload, the checksum's offset, the output protocol.\<close>

definition nat64_transport ::
  "nat64_in \<Rightarrow> int option \<Rightarrow> int option \<Rightarrow> (bytes \<times> nat \<times> nat) res" where
  "nat64_transport i source_port destination_port =
     (let body = payload i; proto = protocol i in
      if proto = 6 \<or> proto = 17 then
        (let minimum = (if proto = 6 then 20 else 8); offset = (if proto = 6 then 16 else 6);
             zero = (seg offset (offset + 2) body = [0, 0])
         in ok (\<not> length body < minimum) (ValueError ''Truncated transport header'')
           (ok (\<not> (proto = 6 \<and> \<not> (20 \<le> unat (body ! 12) div 16 * 4
                     \<and> unat (body ! 12) div 16 * 4 \<le> length body)))
               (ValueError ''Invalid TCP header size'')
           (ok (\<not> (proto = 17 \<and> from_be (seg 4 6 body) \<noteq> length body))
               (ValueError ''Invalid UDP length'')
           (ok (\<not> (proto = 17 \<and> version i = 6 \<and> zero)) (ValueError ''IPv6 UDP checksum is required'')
           (ok (\<not> (\<not> (proto = 17 \<and> version i = 4 \<and> zero) \<and> checksum (pseudo i @ body) \<noteq> 0))
               (ValueError ''Invalid transport checksum'')
           (rbind (set_port source_port 0 body) (\<lambda>b1.
            rbind (set_port destination_port 2 b1) (\<lambda>b2.
              Inr (b2, offset, proto)))))))))
      else
        ok (\<not> (source_port \<noteq> None \<or> destination_port \<noteq> None))
           (ValueError ''ICMP identifiers require a separate binding allocator'')
        (ok (\<not> (length body < 8 \<or> body ! 1 \<noteq> 0 \<or> checksum (pseudo i @ body) \<noteq> 0))
           (ValueError ''Invalid ICMP echo packet'')
        (let types = (if version i = 6 then [128 \<mapsto> 8, 129 \<mapsto> 0] else [8 \<mapsto> 128, 0 \<mapsto> 129])
         in case types (unat (body ! 0)) of
              None \<Rightarrow> Inl (ValueError ''NAT64 ICMP error translation is not qualified'')
            | Some t \<Rightarrow> Inr (body[0 := of_nat t], 2, if version i = 6 then 1 else 58))))"

text \<open>
  The output step: clear the checksum field, build the other version's header and pseudo
  header, then store the recomputed checksum (UDP never stores zero).
\<close>

definition nat64_output ::
  "nat64_in \<Rightarrow> ip_address \<Rightarrow> ip_address \<Rightarrow> bytes \<Rightarrow> nat \<Rightarrow> nat \<Rightarrow> bytes res" where
  "nat64_output i src dst body offset output_protocol =
     (let cleared = put offset [0, 0] body;
          finish = (\<lambda>header ps.
            (let value = checksum (ps @ cleared);
                 stored = (if output_protocol = 17 \<and> value = 0 then 65535 else value)
             in Inr (header @ put offset (to_be 2 stored) cleared)))
      in if ip_version src = 4 then
           ok (\<not> length cleared > 65515) (ValueError ''NAT64 packet requires fragmentation'')
           (let ps = (if output_protocol \<noteq> 1
                      then packed src @ packed dst @ [0] @ to_be 1 output_protocol @ to_be 2 (length cleared)
                      else []);
                h = [0x45] @ to_be 1 (traffic i) @ to_be 2 (20 + length cleared) @ to_be 2 0
                    @ to_be 2 0x4000 @ to_be 1 (ttl i - 1) @ to_be 1 output_protocol @ to_be 2 0
                    @ packed src @ packed dst
            in finish (put 10 (to_be 2 (checksum h)) h) ps)
         else
           (let ps = packed src @ packed dst @ to_be 4 (length cleared) @ [0, 0, 0]
                     @ to_be 1 output_protocol;
                h = to_be 4 (0x60000000 OR push_bit 20 (traffic i)) @ to_be 2 (length cleared)
                    @ to_be 1 output_protocol @ to_be 1 (ttl i - 1) @ packed src @ packed dst
            in finish h ps))"

definition nat64_packet ::
  "bytes \<Rightarrow> ip_address \<Rightarrow> ip_address \<Rightarrow> int option \<Rightarrow> int option \<Rightarrow> bytes res" where
  "nat64_packet packet src dst source_port destination_port =
     ok (\<not> (ip_version src \<noteq> ip_version dst \<or> packet = []
             \<or> unat (packet ! 0) div 16 = ip_version src))
        (ValueError ''NAT64 must change IP version'')
     (rbind (nat64_parse packet (ip_version src)) (\<lambda>i.
      ok (\<not> ttl i \<le> 1) (ValueError ''NAT64 hop limit expired; provider must generate ICMP'')
      (rbind (nat64_transport i source_port destination_port) (\<lambda>(body, offset, output_protocol).
        nat64_output i src dst body offset output_protocol))))"

section \<open>NPTv6\<close>

definition nptv6_prefixes :: "net_text \<Rightarrow> net_text \<Rightarrow> (ipv6_network \<times> ipv6_network) res" where
  "nptv6_prefixes internal external =
     rbind (prefix internal ''NPTv6'') (\<lambda>a.
     rbind (prefix external ''NPTv6'') (\<lambda>b.
       (let len = max (prefixlen a) (prefixlen b);
            a' = a\<lparr>prefixlen := len\<rparr>; b' = b\<lparr>prefixlen := len\<rparr>
        in ok (\<not> len > 64) (ValueError ''NPTv6 prefixes must be /64 or shorter'')
          (ok (\<not> overlaps a' b')
              (ValueError ''NPTv6 internal and external prefixes must not overlap'')
          (Inr (a', b'))))))"

definition hextets :: "nat \<Rightarrow> nat list" where
  "hextets a = digits 65536 8 a"

definition nptv6_index :: "nat \<Rightarrow> nat list \<Rightarrow> nat res" where
  "nptv6_index len words =
     (if len \<le> 48 then
        ok (words ! 3 \<noteq> 65535) (ValueError ''NPTv6 subnet 0xffff has no reversible mapping'') (Inr 3)
      else case find (\<lambda>i. words ! i \<noteq> 65535) [4..<8] of
             None \<Rightarrow> Inl (ValueError ''NPTv6 all-ones interface identifier has no mapping'')
           | Some i \<Rightarrow> Inr i)"

definition join_host :: "nat \<Rightarrow> nat \<Rightarrow> nat \<Rightarrow> nat" where
  "join_host net mapped h = net OR (mapped AND (2 ^ h - 1))"

definition nptv6_map :: "nat \<Rightarrow> ipv6_network \<Rightarrow> ipv6_network \<Rightarrow> nat res" where
  "nptv6_map address a b =
     ok (in_network address a) (ValueError ''Address is outside the effective NPTv6 prefix'')
     (let words = hextets address
      in rbind (nptv6_index (prefixlen a) words) (\<lambda>index.
        (let adjustment = (int (sum_list (hextets (network_address a)))
                           - int (sum_list (hextets (network_address b)))) mod 65535;
             words' = words[index := nat ((int (words ! index) + adjustment) mod 65535)];
             mapped = from_digits 65536 words'
         in Inr (join_host (network_address b) mapped (128 - prefixlen a)))))"

definition nptv6_address :: "ipv6_text \<Rightarrow> net_text \<Rightarrow> net_text \<Rightarrow> bool \<Rightarrow> nat res" where
  "nptv6_address value internal external reverse =
     rbind (nptv6_prefixes internal external) (\<lambda>(a, b).
       case value of None \<Rightarrow> Inl (ValueError ''address'')
       | Some address \<Rightarrow> if reverse then nptv6_map address b a else nptv6_map address a b)"

datatype direction = Outbound | Inbound | Hairpin

definition nptv6_rewrite :: "nat \<Rightarrow> bool \<Rightarrow> net_text \<Rightarrow> net_text \<Rightarrow> bytes \<Rightarrow> bytes res" where
  "nptv6_rewrite offset reverse internal external raw =
     rbind (nptv6_address (Some (from_be (seg offset (offset + 16) raw))) internal external reverse)
       (\<lambda>a. Inr (put offset (packed6 a) raw))"

definition nptv6_packet :: "bytes \<Rightarrow> net_text \<Rightarrow> net_text \<Rightarrow> direction \<Rightarrow> bytes res" where
  "nptv6_packet packet internal external dir =
     ok (\<not> (length packet < 40 \<or> unat (packet ! 0) div 16 \<noteq> 6
             \<or> length packet \<noteq> 40 + from_be (seg 4 6 packet)))
        (ValueError ''Expected one complete IPv6 packet'')
     (ok (\<not> (packet ! 6 \<notin> {6, 17, 58} \<or> packet ! 6 = 58 \<and> (length packet < 48 \<or> packet ! 40 < 128)))
        (ValueError ''NPTv6 packet oracle supports TCP, UDP and informational ICMPv6 without extensions'')
     (rbind (if dir = Inbound then Inr packet else nptv6_rewrite 8 False internal external packet)
       (\<lambda>raw. if dir = Outbound then Inr raw else nptv6_rewrite 24 True internal external raw)))"

section \<open>Notions of the proofs\<close>

text \<open>
  A network whose address has no bit below its prefix length, as every network that
  \<open>prefix\<close> accepts and \<open>nptv6_prefixes\<close> widens.
\<close>

definition wf_net :: "ipv6_network \<Rightarrow> bool" where
  "wf_net n \<longleftrightarrow> 1 \<le> prefixlen n \<and> prefixlen n \<le> 64 \<and> network_address n < 2 ^ 128
     \<and> network_address n mod 2 ^ (128 - prefixlen n) = 0"

text \<open>
  One translation step: the image in the target prefix, with the host part moved by the
  adjustment of one 16-bit word.
\<close>

definition npt_step :: "ipv6_network \<Rightarrow> ipv6_network \<Rightarrow> nat \<Rightarrow> nat \<Rightarrow> nat \<Rightarrow> nat \<Rightarrow> bool" where
  "npt_step a b x y i w \<longleftrightarrow>
     nptv6_index (prefixlen a) (hextets x) = Inr i
   \<and> w = nat ((int (hextets x ! i) + (int (sum_list (hextets (network_address a)))
                 - int (sum_list (hextets (network_address b)))) mod 65535) mod 65535)
   \<and> w < 65535
   \<and> in_network y b
   \<and> y + hextets x ! i * 65536 ^ (7 - i) + network_address a
       = x + w * 65536 ^ (7 - i) + network_address b
   \<and> (\<forall>j<8. 16 * (8 - j) \<le> 128 - prefixlen a \<longrightarrow>
          hextets y ! j = (if j = i then w else hextets x ! j))
   \<and> y < 2 ^ 128"

text \<open>The bytes that the transport checksum of an IPv6 packet covers.\<close>

definition ipv6_covered :: "bytes \<Rightarrow> bytes" where
  "ipv6_covered p = seg 8 24 p @ seg 24 40 p @ to_be 4 (length p - 40) @ [0, 0, 0, p ! 6] @ drop 40 p"

definition npt_same :: "bytes \<Rightarrow> bytes \<Rightarrow> bool" where
  "npt_same p q \<longleftrightarrow> length q = length p \<and> take 8 q = take 8 p \<and> drop 40 q = drop 40 p
     \<and> word_sum (seg 8 24 q @ seg 24 40 q) mod 65535 = word_sum (seg 8 24 p @ seg 24 40 p) mod 65535"

definition v4_header :: "nat64_in \<Rightarrow> ip_address \<Rightarrow> ip_address \<Rightarrow> nat \<Rightarrow> nat \<Rightarrow> bytes" where
  "v4_header i src dst n op = [0x45] @ to_be 1 (traffic i) @ to_be 2 (20 + n) @ to_be 2 0
     @ to_be 2 0x4000 @ to_be 1 (ttl i - 1) @ to_be 1 op @ to_be 2 0 @ packed src @ packed dst"

definition v6_header :: "nat64_in \<Rightarrow> ip_address \<Rightarrow> ip_address \<Rightarrow> nat \<Rightarrow> nat \<Rightarrow> bytes" where
  "v6_header i src dst n op = to_be 4 (0x60000000 OR push_bit 20 (traffic i)) @ to_be 2 n
     @ to_be 1 op @ to_be 1 (ttl i - 1) @ packed src @ packed dst"

text \<open>Concrete inputs for the witnesses: a UDP datagram from \<^verbatim>\<open>2001:db8::1\<close> to
  \<^verbatim>\<open>64:ff9b::192.0.2.1\<close> and its translation, and two /48 prefixes.\<close>

definition udp6 :: bytes where
  "udp6 = [96, 0, 0, 0, 0, 10, 17, 64, 32, 1, 13, 184, 0, 0, 0, 0, 0, 0, 0, 0, 0, 0, 0, 1,
     0, 100, 255, 155, 0, 0, 0, 0, 0, 0, 0, 0, 192, 0, 2, 1, 
     4, 210, 0, 53, 0, 10, 162, 174, 104, 105]"

definition ex_src :: ip_address where "ex_src = IPv4Address (quad 203 0 113 1)"
definition ex_dst :: ip_address where "ex_dst = IPv4Address (quad 192 0 2 1)"

definition udp4 :: bytes where
  "udp4 = (case nat64_packet udp6 ex_src ex_dst (Some 4000) None of Inr q \<Rightarrow> q | Inl _ \<Rightarrow> [])"

definition ex_internal :: net_text where "ex_internal = Some (0xfd010203040500000000000000000000, 48)"
definition ex_external :: net_text where "ex_external = Some (0x20010db8000100000000000000000000, 48)"

definition ex_packet :: bytes where
  "ex_packet = [96, 0, 0, 0, 0, 0, 17, 64] @ packed6 0xfd010203040500010000000000001234
     @ packed6 0x20010db8000900000000000000000001"

section \<open>The checksum meets the interface\<close>

interpretation ck: inet_checksum checksum
proof (rule complement_checksum)
  fix bs show "checksum bs = 65535 - fold_carry (word_sum bs)"
    using fold_carry_less by (simp add: checksum_def word_sum_def pad_even_def nat_xor_65535)
qed

lemma ipv6_first_word: "t < (256 :: nat) \<Longrightarrow> 0x60000000 OR push_bit 20 t = 0x60000000 + t * 2 ^ 20"
  using push_bit_or_eq_add [of t 28 20 6] by (simp add: push_bit_eq_mult)

lemma length_packed: "length (packed a) = (if ip_version a = 4 then 4 else 16)"
  by (cases a) (simp_all add: packed4_def packed6_def)

lemma nat64_transport_result:
  assumes "nat64_transport i sp dp = Inr (body, offset, op)"
  shows "length body = length (payload i)" "even offset" "offset + 2 \<le> length body"
    "op = (if protocol i = 6 \<or> protocol i = 17 then protocol i else if version i = 6 then 1 else 58)"
  using assms
  by (auto simp: nat64_transport_def set_port_def Let_def result_simps split: if_splits option.splits)

lemma nat64_parse_result:
  assumes "nat64_parse p v = Inr i"
  shows "version i = unat (p ! 0) div 16" "traffic i < 256" "ttl i < 256"
    "version i = 6 \<Longrightarrow> protocol i \<in> {6, 17, 58} \<and> v = 4"
    "version i = 4 \<Longrightarrow> protocol i \<in> {6, 17, 1} \<and> length (payload i) < 65516 \<and> v = 6"
    "version i = 4 \<or> version i = 6"
proof -
  show "version i = unat (p ! 0) div 16" "traffic i < 256" "ttl i < 256"
    "version i = 6 \<Longrightarrow> protocol i \<in> {6, 17, 58} \<and> v = 4"
    "version i = 4 \<or> version i = 6"
    using assms by (auto simp: nat64_parse_def Let_def result_simps split: if_splits)
  show "version i = 4 \<Longrightarrow> protocol i \<in> {6, 17, 1} \<and> length (payload i) < 65516 \<and> v = 6"
    using assms from_be_less [of "seg 2 4 p"]
    by (auto simp: nat64_parse_def Let_def result_simps min_def split: if_splits)
qed

text \<open>The body that leaves: the checksum field completes the pseudo header and the payload.\<close>

lemma stored_checksum_verifies:
  assumes "even offset" "offset + 2 \<le> length body" "even (length ps)"
    and "value = checksum (ps @ put offset [0, 0] body)"
  shows "checksum (ps @ put offset (to_be 2 (if u \<and> value = 0 then 65535 else value)) (put offset [0, 0] body)) = 0"
proof (rule ck.csum_stored)
  let ?c = "if u \<and> value = 0 then 65535 else value"
  have v: "value < 65536" using assms(4) ck.csum_less by simp
  show "word_sum (ps @ put offset (to_be 2 ?c) (put offset [0, 0] body)) = word_sum (ps @ put offset [0, 0] body) + ?c"
    using assms(1-3) v by (simp add: word_sum_append word_sum_put2) (simp add: put_def)
  show "?c = checksum (ps @ put offset [0, 0] body) \<or>
    ?c = (if checksum (ps @ put offset [0, 0] body) = 0 then 65535 else checksum (ps @ put offset [0, 0] body))"
    using assms(4) by auto
qed

lemma v4_header_checksum:
  assumes "ip_version src = 4" "ip_version dst = 4"
  shows "length (v4_header i src dst n op) = 20"
    "checksum (put 10 (to_be 2 (checksum (v4_header i src dst n op))) (v4_header i src dst n op)) = 0"
proof -
  let ?h = "v4_header i src dst n op"
  show l: "length ?h = 20" using assms by (simp add: v4_header_def length_packed)
  have z: "put 10 [0, 0] ?h = ?h"
    by (simp add: v4_header_def put_def to_be_1 to_be_2)
  show "checksum (put 10 (to_be 2 (checksum ?h)) ?h) = 0"
    by (rule ck.csum_stored [of _ ?h "checksum ?h"])
      (use word_sum_put2 [of 10 ?h "checksum ?h"] ck.csum_less [of ?h] in \<open>simp_all add: l z\<close>)
qed

lemma nat64_parse_v4_header:
  assumes v: "ip_version src = 4" "ip_version dst = 4"
    and len: "length body \<le> 65515" and t: "traffic i < 256" "ttl i \<le> 256" and op: "op \<in> {6, 17, 1}"
    and h: "h = v4_header i src dst (length body) op"
  shows "nat64_parse (put 10 (to_be 2 (checksum h)) h @ body) 6 =
    Inr \<lparr>version = 4, protocol = op, ttl = ttl i - 1, traffic = traffic i, oldsrc = packed src,
      olddst = packed dst, payload = body,
      pseudo = (if op \<noteq> 1 then packed src @ packed dst @ [0] @ to_be 1 op @ to_be 2 (length body) else [])\<rparr>"
proof -
  let ?h = "put 10 (to_be 2 (checksum h)) h"
  have l: "length h = 20" "length ?h = 20" using v4_header_checksum [OF v] by (simp_all add: h)
  have c: "checksum (seg 0 20 (?h @ body)) = 0"
    using v4_header_checksum(2) [OF v] l by (simp add: h bytes_simps)
  have nb: "(?h @ body) ! k = h ! k" if "k < 10" for k
    using that l by (simp add: nth_append nth_put)
  have sl: "seg a b (?h @ body) = seg a b h" if "b \<le> 10" for a b
    using that l by (simp add: seg_append_left seg_put_before)
  have sr: "seg a b (?h @ body) = seg a b h" if "12 \<le> a" "b \<le> 20" for a b
    using that l by (simp add: seg_append_left seg_put_after)
  have p4: "length (packed src) = 4" "length (packed dst) = 4" using v by (simp_all add: length_packed)
  have hh: "h = to_be 1 0x45 @ to_be 1 (traffic i) @ to_be 2 (20 + length body) @ to_be 2 0
     @ to_be 2 0x4000 @ to_be 1 (ttl i - 1) @ to_be 1 op @ to_be 2 0 @ packed src @ packed dst"
    by (simp add: h v4_header_def to_be_1)
  have op': "op < 256" using op by auto
  have f: "h ! 0 = 0x45" "h ! 1 = of_nat (traffic i)" "h ! 8 = of_nat (ttl i - 1)" "h ! 9 = of_nat op"
    "from_be (seg 2 4 h) = 20 + length body" "from_be (seg 6 8 h) = 0x4000"
    "seg 12 16 h = packed src" "seg 16 20 h = packed dst"
    using t op' len p4 by (simp_all add: hh nth_append nth_to_be_1 bytes_simps)
  show ?thesis
    using l c f t op len by (auto simp: nat64_parse_def Let_def nb sl sr unat_of_nat_byte)
qed

lemma nat64_parse_v6_header:
  assumes v: "ip_version src = 6" "ip_version dst = 6"
    and len: "length body < 65536" and t: "traffic i < 256" "ttl i \<le> 256" and op: "op \<in> {6, 17, 58}"
  shows "nat64_parse (v6_header i src dst (length body) op @ body) 4 =
    Inr \<lparr>version = 6, protocol = op, ttl = ttl i - 1, traffic = traffic i, oldsrc = packed src,
      olddst = packed dst, payload = body,
      pseudo = packed src @ packed dst @ to_be 4 (length body) @ [0, 0, 0] @ to_be 1 op\<rparr>"
proof -
  let ?w = "0x60000000 + traffic i * 2 ^ 20" and ?p = "v6_header i src dst (length body) op @ body"
  have p16: "length (packed src) = 16" "length (packed dst) = 16" using v by (simp_all add: length_packed)
  have pp: "?p = to_be 4 ?w @ to_be 2 (length body) @ to_be 1 op @ to_be 1 (ttl i - 1)
     @ packed src @ packed dst @ body"
    using t by (simp add: v6_header_def ipv6_first_word)
  have op': "op < 256" using op by auto
  have wl: "?w < 256 ^ 4" using t by simp
  have w0: "unat (?p ! 0) div 16 = 6"
  proof -
    have "unat (to_be 4 ?w ! 0) = ?w div 256 ^ 3"
      using first_byte [of "to_be 4 ?w"] wl by (simp add: from_be_to_be flip: length_0_conv)
    then show ?thesis using t unfolding pp by (simp add: nth_append)
  qed
  have f: "?p ! 6 = of_nat op" "?p ! 7 = of_nat (ttl i - 1)" "from_be (seg 4 6 ?p) = length body"
    "from_be (seg 0 4 ?p) = ?w" "seg 8 24 ?p = packed src" "seg 24 40 ?p = packed dst"
    "drop 40 ?p = body" "length ?p = 40 + length body"
    using t op' len p16 wl unfolding pp by (simp_all add: nth_append nth_to_be_1 bytes_simps)
  have tr: "?w div 2 ^ 20 mod 256 = traffic i"
    using t mod_mult_self3 [of 6 256 "traffic i"] by simp
  show ?thesis
    using w0 f tr t op unfolding nat64_parse_def by (auto simp: Let_def unat_of_nat_byte)
qed

lemma nat64_output_v4:
  assumes out: "nat64_output i src dst body offset op = Inr q"
    and v: "ip_version src = 4" "ip_version dst = 4"
    and off: "even offset" "offset + 2 \<le> length body"
    and t: "traffic i < 256" "ttl i \<le> 256" and op: "op \<in> {6, 17, 1}"
  shows "\<exists>j c. nat64_parse q 6 = Inr j \<and> version j = 4 \<and> protocol j = op \<and> ttl j = ttl i - 1
    \<and> traffic j = traffic i \<and> oldsrc j = packed src \<and> olddst j = packed dst
    \<and> payload j = put offset (to_be 2 c) body \<and> checksum (pseudo j @ payload j) = 0"
proof -
  define cl where "cl = put offset [0, 0] body"
  define ps where "ps = (if op \<noteq> 1 then packed src @ packed dst @ [0] @ to_be 1 op @ to_be 2 (length cl) else [])"
  define c where "c = (if op = 17 \<and> checksum (ps @ cl) = 0 then 65535 else checksum (ps @ cl))"
  define b where "b = put offset (to_be 2 c) cl"
  let ?h = "v4_header i src dst (length b) op"
  have lc: "length cl = length body" and lb: "length b = length cl" and pb: "b = put offset (to_be 2 c) body"
    using off by (simp_all add: cl_def b_def put_put)
  have q: "q = put 10 (to_be 2 (checksum ?h)) ?h @ b" and n: "length b \<le> 65515"
    using out v lb by (auto simp: nat64_output_def v4_header_def Let_def result_simps b_def c_def ps_def cl_def)
  have "checksum (ps @ b) = 0"
    unfolding b_def c_def cl_def
    by (rule stored_checksum_verifies [OF off]) (use v in \<open>auto simp: ps_def cl_def length_packed\<close>)
  with nat64_parse_v4_header [OF v n t op refl] show ?thesis
    unfolding q using lb pb by (auto simp: ps_def simp del: length_put intro: exI [of _ c])
qed

lemma nat64_output_v6:
  assumes out: "nat64_output i src dst body offset op = Inr q"
    and v: "ip_version src = 6" "ip_version dst = 6"
    and off: "even offset" "offset + 2 \<le> length body" "length body < 65536"
    and t: "traffic i < 256" "ttl i \<le> 256" and op: "op \<in> {6, 17, 58}"
  shows "\<exists>j c. nat64_parse q 4 = Inr j \<and> version j = 6 \<and> protocol j = op \<and> ttl j = ttl i - 1
    \<and> traffic j = traffic i \<and> oldsrc j = packed src \<and> olddst j = packed dst
    \<and> payload j = put offset (to_be 2 c) body \<and> checksum (pseudo j @ payload j) = 0"
proof -
  define cl where "cl = put offset [0, 0] body"
  define ps where "ps = packed src @ packed dst @ to_be 4 (length cl) @ [0, 0, 0] @ to_be 1 op"
  define c where "c = (if op = 17 \<and> checksum (ps @ cl) = 0 then 65535 else checksum (ps @ cl))"
  define b where "b = put offset (to_be 2 c) cl"
  have lc: "length cl = length body" and lb: "length b = length cl" and pb: "b = put offset (to_be 2 c) body"
    using off by (simp_all add: cl_def b_def put_put)
  have q: "q = v6_header i src dst (length b) op @ b"
    using out v lb by (auto simp: nat64_output_def v6_header_def Let_def result_simps b_def c_def ps_def cl_def)
  have "checksum (ps @ b) = 0"
    unfolding b_def c_def cl_def
    by (rule stored_checksum_verifies [OF off(1,2)]) (use v in \<open>auto simp: ps_def cl_def length_packed\<close>)
  moreover have "length b < 65536" using off lc lb by simp
  ultimately show ?thesis
    using nat64_parse_v6_header [OF v _ t op, of b]
    unfolding q using lb pb by (auto simp: ps_def simp del: length_put intro: exI [of _ c])
qed

text \<open>(C32) Every packet the NAT64 oracle emits is accepted by the oracle's own input checks of the
  other IP version: the header is complete (and its IPv4 checksum verifies), the transport
  checksum over the new pseudo header verifies, the addresses are the given ones, the traffic
  class is kept, the hop limit is one less and the protocol is mapped (ICMP to ICMPv6 and
  back).\<close>

theorem nat64_packet_valid:
  assumes "nat64_packet p src dst sp dp = Inr q"
  shows "\<exists>i j. nat64_parse p (ip_version src) = Inr i \<and> nat64_parse q (version i) = Inr j
    \<and> version j = ip_version src \<and> traffic j = traffic i \<and> ttl j + 1 = ttl i
    \<and> protocol j = (if protocol i = 58 then 1 else if protocol i = 1 then 58 else protocol i)
    \<and> oldsrc j = packed src \<and> olddst j = packed dst
    \<and> length (payload j) = length (payload i) \<and> checksum (pseudo j @ payload j) = 0"
proof -
  from assms obtain i body offset op where
    i: "nat64_parse p (ip_version src) = Inr i" and hop: "1 < ttl i"
    and tr: "nat64_transport i sp dp = Inr (body, offset, op)"
    and out: "nat64_output i src dst body offset op = Inr q"
    and vs: "ip_version src = ip_version dst" "version i \<noteq> ip_version src"
    by (auto simp: nat64_packet_def result_simps nat64_parse_result(1))
  note t = nat64_transport_result [OF tr] and r = nat64_parse_result [OF i]
  have ops: "op = (if protocol i = 58 then 1 else if protocol i = 1 then 58 else protocol i)"
    using t(4) r(4-6) by auto
  have tt: "traffic i < 256" "ttl i \<le> 256" using r(2,3) by auto
  show ?thesis
  proof (cases "version i = 6")
    case True
    then have v: "ip_version src = 4" "ip_version dst = 4" and op: "op \<in> {6, 17, 1}"
      using vs r(4) ops by auto
    from nat64_output_v4 [OF out v t(2,3) tt op] show ?thesis
      using i v True ops hop t by auto
  next
    case False
    then have v: "ip_version src = 6" "ip_version dst = 6" and op: "op \<in> {6, 17, 58}"
      and len: "length body < 65536" and v4: "version i = 4"
      using vs r(5,6) ops t(1) by auto
    from nat64_output_v6 [OF out v t(2,3) len tt op] show ?thesis
      using i v v4 ops hop t by auto
  qed
qed

lemma masked_bytes:
  assumes "length bs = 16" "s \<le> 16"
  shows "masked (from_be bs) (8 * s) = from_be (take s bs) * 256 ^ (16 - s)"
proof -
  have e: "(2 :: nat) ^ (128 - 8 * s) = 256 ^ (16 - s)"
    using assms(2) power_mult [of "2 :: nat" 8 "16 - s"] by (simp add: diff_mult_distrib2)
  have "from_be (drop s bs) < 256 ^ (16 - s)"
    using from_be_less [of "drop s bs"] assms by simp
  then have "from_be bs div 256 ^ (16 - s) = from_be (take s bs)"
    by (subst from_be_take_drop [of bs s]) (simp add: assms(1))
  then show ?thesis by (simp add: masked_def e)
qed

lemma prefix_Inr:
  "prefix (Some (n, l)) k = Inr network \<Longrightarrow>
     network = \<lparr>network_address = n, prefixlen = l\<rparr> \<and> masked n l = n \<and> 0 < l"
  by (auto simp: prefix_def Let_def split: if_splits)

lemma nat64_prefix_Inr:
  assumes "nat64_prefix (Some (n, l)) = Inr network"
  shows "network = \<lparr>network_address = n, prefixlen = l\<rparr>" "masked n l = n" "l \<in> set NAT64_LENGTHS"
    "l = 96 \<Longrightarrow> packed6 n ! 8 = 0"
  using assms by (auto simp: nat64_prefix_def result_simps dest!: prefix_Inr)

lemma nat64_positions_props:
  assumes "l \<in> set NAT64_LENGTHS"
  shows "l = 8 * (l div 8)" "distinct (nat64_positions (l div 8))" "length (nat64_positions (l div 8)) = 4"
    "\<forall>i \<in> set (nat64_positions (l div 8)). l div 8 \<le> i \<and> i < 16 \<and> i \<noteq> 8"
  using assms by (auto simp: NAT64_LENGTHS_def nat64_positions_def)

text \<open>The u octet (byte 8) of an accepted NAT64 prefix is zero.\<close>

lemma nat64_prefix_u_octet:
  assumes p: "nat64_prefix (Some (n, l)) = Inr network" and n: "n < 2 ^ 128"
  shows "packed6 n ! 8 = 0"
proof (cases "l = 96")
  case True
  then show ?thesis using nat64_prefix_Inr(4) [OF p] by simp
next
  case False
  let ?raw = "packed6 n" and ?s = "l div 8"
  note N = nat64_prefix_Inr [OF p] and P = nat64_positions_props [OF nat64_prefix_Inr(3) [OF p]]
  have s: "?s \<le> 8" using False N(3) by (auto simp: NAT64_LENGTHS_def)
  have raw: "length ?raw = 16" "from_be ?raw = n" using n by (simp_all add: packed6_def from_be_to_be)
  have "from_be (drop ?s ?raw) = 0"
    using masked_bytes [OF raw(1), of ?s] from_be_take_drop [of ?raw ?s] raw N(2) P(1) s by simp
  moreover have "drop ?s ?raw ! (8 - ?s) \<in> set (drop ?s ?raw)"
    using raw(1) s by (intro nth_mem) simp
  ultimately have "drop ?s ?raw ! (8 - ?s) = 0" unfolding from_be_eq_0 by blast
  then show ?thesis using raw(1) s by simp
qed

text \<open>RFC 6052 round trip: extracting from a synthesised address gives back the embedded IPv4
  address, for every prefix length the code accepts.\<close>

theorem nat64_extract_embed:
  assumes e: "nat64_embed (Some v) (Some (n, l)) = Inr a" and v: "v < 2 ^ 32" and n: "n < 2 ^ 128"
  shows "nat64_extract (Some a) (Some (n, l)) = Inr v"
proof -
  from e obtain network where p: "nat64_prefix (Some (n, l)) = Inr network"
    by (auto simp: nat64_embed_def result_simps)
  note N = nat64_prefix_Inr [OF p] and P = nat64_positions_props [OF nat64_prefix_Inr(3) [OF p]]
  let ?is = "nat64_positions (l div 8)" and ?raw = "packed6 n" and ?s = "l div 8"
  define raw where "raw = fold (\<lambda>(i, b) r. r[i := b]) (zip ?is (packed4 v)) ?raw"
  have rl: "length ?raw = 16" "from_be ?raw = n" "length raw = 16"
    using n by (simp_all add: raw_def fold_update_length packed6_def from_be_to_be)
  have other: "raw ! k = ?raw ! k" if "k \<notin> set ?is" for k
    using that by (simp add: raw_def fold_update_other)
  have a: "a = from_be raw" and pa: "packed6 a = raw"
    using e p N(1) rl to_be_from_be [of raw] by (auto simp: nat64_embed_def raw_def packed6_def)
  have s: "?s \<le> 16" using P(1) N(3) by (auto simp: NAT64_LENGTHS_def)
  have "take ?s raw = take ?s ?raw"
    using rl P(4) s by (intro nth_take_lemma) (auto intro!: other)
  then have "in_network a network"
    using masked_bytes [OF rl(3) s] masked_bytes [OF rl(1) s] P(1) N(1,2) rl(2)
    by (simp add: in_network_def a)
  moreover have "raw ! 8 = 0"
    using other [of 8] P(4) nat64_prefix_u_octet [OF p n] by auto
  moreover have "from_be (map (\<lambda>i. raw ! i) ?is) = v"
    unfolding raw_def using P(2-4) rl(1) v
    by (subst fold_update_map) (simp_all add: packed4_def from_be_to_be)
  ultimately show ?thesis by (simp add: nat64_extract_def p pa N(1))
qed

lemma hextets_sum_mod: "x < 2 ^ 128 \<Longrightarrow> sum_list (hextets x) mod 65535 = x mod 65535"
  using from_digits_mod_pred [of 65536 "hextets x"] by (simp add: hextets_def from_digits_digits)

lemma from_hextets: "x < 2 ^ 128 \<Longrightarrow> from_digits 65536 (hextets x) = x"
  by (simp add: hextets_def from_digits_digits)

lemma masked_eq: "masked x l = x - x mod 2 ^ (128 - l)"
  by (simp add: masked_def minus_mod_eq_div_mult)

lemma masked_self: "masked x l = x \<longleftrightarrow> x mod 2 ^ (128 - l) = 0"
  by (metis masked_eq diff_zero mod_less_eq_dividend diff_diff_cancel diff_self_eq_0)

text \<open>The index of the adjusted word, and that the words at it are free of the prefix.\<close>

lemma nptv6_index_props:
  assumes "nptv6_index l W = Inr i" "l \<le> 64"
  shows "i < 8" "W ! i \<noteq> 65535" "16 * (8 - i) \<le> 128 - l"
  using assms by (auto simp: nptv6_index_def result_simps split: if_splits option.splits)

lemma nptv6_index_stable:
  assumes i: "nptv6_index l W = Inr i" "l \<le> 64" and w: "w \<noteq> 65535"
    and W': "\<And>j. j < 8 \<Longrightarrow> 16 * (8 - j) \<le> 128 - l \<Longrightarrow> W' ! j = (if j = i then w else W ! j)"
  shows "nptv6_index l W' = Inr i"
proof (cases "l \<le> 48")
  case True
  then show ?thesis using i w W' [of 3] by (auto simp: nptv6_index_def result_simps)
next
  case False
  with i(2) W' have "W' ! j = (if j = i then w else W ! j)" if "4 \<le> j" "j < 8" for j
    using that by auto
  from this [of 4] this [of 5] this [of 6] this [of 7] show ?thesis
    using i(1) w False by (auto simp: nptv6_index_def result_simps split: if_splits option.splits)
qed

text \<open>On an aligned target prefix the bit operations are a sum and a remainder.\<close>

lemma join_host_code [code]:
  "join_host net m h = (let n = 2 ^ h in if net mod n = 0 then net + m mod n else net OR (m AND (n - 1)))"
  using mask_or_nat [of net h m] by (simp add: join_host_def Let_def)

lemma nptv6_map_step:
  assumes m: "nptv6_map x a b = Inr y" and a: "wf_net a" and b: "wf_net b"
    and l: "prefixlen a = prefixlen b" and x: "x < 2 ^ 128"
  shows "\<exists>i w. npt_step a b x y i w"
proof -
  let ?h = "128 - prefixlen a" and ?A = "network_address a" and ?B = "network_address b"
  from m obtain i where i: "nptv6_index (prefixlen a) (hextets x) = Inr i" and inn: "in_network x a"
    by (auto simp: nptv6_map_def Let_def result_simps)
  define w where "w = nat ((int (hextets x ! i) + (int (sum_list (hextets ?A))
                     - int (sum_list (hextets ?B))) mod 65535) mod 65535)"
  define K :: nat where "K = 65536 ^ (7 - i)"
  define mp where "mp = from_digits 65536 ((hextets x)[i := w])"
  note I = nptv6_index_props [OF i] 
  have l64: "prefixlen a \<le> 64" using a by (simp add: wf_net_def)
  have w: "w < 65535" by (simp add: w_def nat_less_iff)
  have xa: "x = ?A + x mod 2 ^ ?h"
    using inn by (simp add: in_network_def masked_eq) (metis le_add_diff_inverse2 mod_less_eq_dividend)
  have y: "y = ?B + mp mod 2 ^ ?h"
    using m i inn b l mask_or_nat [of ?B ?h mp, folded join_host_def]
    by (simp add: nptv6_map_def Let_def wf_net_def) (simp add: mp_def w_def)
  then have yh: "y mod 2 ^ ?h = mp mod 2 ^ ?h" using b l by (simp add: wf_net_def mod_add_left_eq [symmetric])
  have upd: "mp + hextets x ! i * K = x + w * K"
    using from_digits_update [of i "hextets x" 65536 w] I(1) l64 x
    by (simp add: mp_def K_def from_hextets) (simp add: hextets_def)
  have dig: "hextets mp = (hextets x)[i := w]"
  proof -
    have "d < 65536" if "d \<in> set ((hextets x)[i := w])" for d
      using that w set_update_subset_insert [of "hextets x" i w] digits_bound [of 65536 d 8 x]
      by (auto simp: hextets_def)
    then show ?thesis
      using digits_from_digits [of "(hextets x)[i := w]" 65536] by (simp add: hextets_def mp_def)
  qed
  have pw: "(65536 :: nat) ^ k = 2 ^ (16 * k)" for k by (simp add: power_mult)
  have hx: "hextets y ! j = (if j = i then w else hextets x ! j)" if "j < 8" "16 * (8 - j) \<le> ?h" for j
  proof -
    have "hextets y ! j = hextets mp ! j"
      unfolding hextets_def using that yh
      by (intro digits_cong_mod [where M = "2 ^ ?h"]) (auto simp: pw le_imp_power_dvd)
    then show ?thesis using that by (simp add: dig) (simp add: hextets_def)
  qed
  have hd: "mp mod 2 ^ ?h + hextets x ! i * K = x mod 2 ^ ?h + w * K"
  proof -
    have "65536 ^ (8 - i) dvd (2 :: nat) ^ ?h" using I(3) l64 by (simp add: pw le_imp_power_dvd)
    then show ?thesis
      using from_digits_update_mod [of i "hextets x" 65536 w "2 ^ ?h"] I(1) l64 w x digits_bound [of 65536 _ 8 x]
      by (simp add: mp_def K_def from_hextets) (simp add: hextets_def)
  qed
  have "y < 2 ^ 128"
    using add_low_less [of ?B "2 ^ 128" "2 ^ ?h" "mp mod 2 ^ ?h"] b l y
      le_imp_power_dvd [of ?h 128 "2 :: nat"] by (simp add: wf_net_def)
  moreover have "in_network y b"
    using y yh l by (simp add: in_network_def masked_eq)
  moreover have "y + hextets x ! i * K + ?A = x + w * K + ?B"
    using y hd xa by linarith
  ultimately have "npt_step a b x y i w"
    unfolding npt_step_def using i w w_def K_def hx by blast
  then show ?thesis by blast
qed

lemma npt_step_neutral:
  assumes st: "npt_step a b x y i w" and a: "network_address a < 2 ^ 128" and b: "network_address b < 2 ^ 128"
  shows "y mod 65535 = x mod 65535"
proof -
  define K :: nat where "K = 65536 ^ (7 - i)"
  let ?A = "network_address a" and ?B = "network_address b"
  have k1: "int K mod 65535 = 1 mod 65535"
    using power_mod [of 65536 "65535 :: int" "7 - i"] by (simp add: K_def)
  have w: "w = nat ((int (hextets x ! i) + (int (sum_list (hextets ?A))
                 - int (sum_list (hextets ?B))) mod 65535) mod 65535)"
    and h: "y + hextets x ! i * K + ?A = x + w * K + ?B"
    using st unfolding npt_step_def K_def by blast+
  have s: "int (sum_list (hextets n)) mod 65535 = int n mod 65535" if "n < 2 ^ 128" for n
    using hextets_sum_mod [OF that] by (metis of_nat_mod of_nat_numeral)
  obtain t where t: "int K = 1 + 65535 * t" using k1 by (metis mod_eqE mult.commute)
  obtain p where p: "int (sum_list (hextets ?A)) = int ?A + 65535 * p"
    using s [OF a] by (metis mod_eqE mult.commute)
  obtain q where q: "int (sum_list (hextets ?B)) = int ?B + 65535 * q"
    using s [OF b] by (metis mod_eqE mult.commute)
  have "int w mod 65535 = (int (hextets x ! i) + (int ?A - int ?B) + 65535 * (p - q)) mod 65535"
    by (simp add: w p q mod_simps algebra_simps)
  then obtain u where u: "int w = int (hextets x ! i) + (int ?A - int ?B) + 65535 * u"
    by (metis mod_eqE mod_mult_self2 mult.commute)
  have "int y + int (hextets x ! i) * int K + int ?A = int x + int w * int K + int ?B"
    using arg_cong [OF h, of int] by simp
  then have "int y = int x + (int w - int (hextets x ! i)) * int K + int ?B - int ?A"
    by (simp add: algebra_simps)
  also have "\<dots> = int x + 65535 * (u + (int ?A - int ?B + 65535 * u) * t)"
    by (simp add: u t algebra_simps)
  finally have e: "int y = int x + 65535 * (u + (int ?A - int ?B + 65535 * u) * t)" .
  have "int y mod 65535 = int x mod 65535" unfolding e by (rule mod_mult_self2)
  then have "int (y mod 65535) = int (x mod 65535)" by (simp add: of_nat_mod)
  then show ?thesis by (simp only: of_nat_eq_iff)
qed

lemma nptv6_map_inverse:
  assumes m: "nptv6_map x a b = Inr y" and a: "wf_net a" and b: "wf_net b"
    and l: "prefixlen a = prefixlen b" and x: "x < 2 ^ 128"
  shows "nptv6_map y b a = Inr x"
proof -
  let ?A = "network_address a" and ?B = "network_address b" and ?h = "128 - prefixlen a"
  obtain i w where st: "npt_step a b x y i w" using nptv6_map_step [OF assms] by blast
  then have i: "nptv6_index (prefixlen a) (hextets x) = Inr i" and w2: "w < 65535"
    and hy: "\<And>j. j < 8 \<Longrightarrow> 16 * (8 - j) \<le> ?h \<Longrightarrow> hextets y ! j = (if j = i then w else hextets x ! j)"
    and y: "y < 2 ^ 128" "in_network y b"
    by (auto simp: npt_step_def)
  have l64: "prefixlen a \<le> 64" using a by (simp add: wf_net_def)
  note I = nptv6_index_props [OF i l64]
  have i': "nptv6_index (prefixlen b) (hextets y) = Inr i"
    using nptv6_index_stable [OF i l64 _ hy] w2 l by simp
  then obtain z where z: "nptv6_map y b a = Inr z"
    using y(2) by (auto simp: nptv6_map_def Let_def)
  then obtain i2 w3 where st2: "npt_step b a y z i2 w3" using nptv6_map_step [OF z b a l [symmetric] y(1)] by blast
  have ii: "i2 = i" using i' st2 by (simp add: npt_step_def)
  have yi: "hextets y ! i = w" using hy [of i] I by simp
  have xi: "hextets x ! i < 65535"
    using I(1,2) nth_digits_bound [of 65536 i 8 x] by (simp add: hextets_def)
  have "int w = (int (hextets x ! i) + (int (sum_list (hextets ?A)) - int (sum_list (hextets ?B))) mod 65535) mod 65535"
    and "int w3 = (int w + (int (sum_list (hextets ?B)) - int (sum_list (hextets ?A))) mod 65535) mod 65535"
    using st st2 by (simp_all add: npt_step_def ii yi)
  then have "int w3 = int (hextets x ! i) mod 65535" by (simp add: mod_simps)
  then have "w3 = hextets x ! i" using xi by simp
  then have "z = x" using st st2 by (simp add: npt_step_def ii yi)
  then show ?thesis using z by simp
qed

lemma nptv6_prefixes_wf:
  assumes "nptv6_prefixes (Some (n, ln)) (Some (e, le)) = Inr (a, b)" "n < 2 ^ 128" "e < 2 ^ 128"
  shows "wf_net a" "wf_net b" "prefixlen a = prefixlen b"
proof -
  have d: "x mod 2 ^ (128 - max l l') = 0" if "masked x l = x" for x l l' :: nat
  proof -
    have "2 ^ (128 - max l l') dvd (2 :: nat) ^ (128 - l)" by (rule le_imp_power_dvd) simp
    then show ?thesis using that by (metis masked_self dvd_eq_mod_eq_0 dvd_trans)
  qed
  show "wf_net a" "wf_net b" "prefixlen a = prefixlen b"
    using assms d [of n ln le] d [of e le ln]
    by (auto simp: nptv6_prefixes_def wf_net_def Let_def result_simps max.commute dest!: prefix_Inr)
qed

text \<open>RFC 6296 reversibility: an address that translates in one direction translates back to
  itself in the other, for every pair of prefixes the code accepts.\<close>

theorem nptv6_roundtrip:
  assumes "nptv6_address (Some x) (Some (n, ln)) (Some (e, le)) rv = Inr y"
    and "x < 2 ^ 128" "n < 2 ^ 128" "e < 2 ^ 128"
  shows "nptv6_address (Some y) (Some (n, ln)) (Some (e, le)) (\<not> rv) = Inr x"
proof -
  from assms(1) obtain a b where p: "nptv6_prefixes (Some (n, ln)) (Some (e, le)) = Inr (a, b)"
    and m: "(if rv then nptv6_map x b a else nptv6_map x a b) = Inr y"
    by (auto simp: nptv6_address_def result_simps)
  note W = nptv6_prefixes_wf [OF p assms(3,4)]
  show ?thesis
    using m p W assms(2) by (cases rv) (auto simp: nptv6_address_def intro: nptv6_map_inverse)
qed

lemma nptv6_map_neutral:
  assumes "nptv6_map x a b = Inr y" "wf_net a" "wf_net b" "prefixlen a = prefixlen b" "x < 2 ^ 128"
  shows "y mod 65535 = x mod 65535 \<and> y < 2 ^ 128"
proof -
  obtain i w where st: "npt_step a b x y i w" using nptv6_map_step [OF assms] by blast
  then have "y < 2 ^ 128" unfolding npt_step_def by blast
  with npt_step_neutral [OF st] assms(2,3) show ?thesis by (simp add: wf_net_def)
qed

lemma nptv6_address_neutral:
  assumes "nptv6_address (Some x) (Some (n, ln)) (Some (e, le)) rv = Inr y"
    and "x < 2 ^ 128" "n < 2 ^ 128" "e < 2 ^ 128"
  shows "y mod 65535 = x mod 65535 \<and> y < 2 ^ 128"
proof -
  from assms(1) obtain a b where p: "nptv6_prefixes (Some (n, ln)) (Some (e, le)) = Inr (a, b)"
    and m: "(if rv then nptv6_map x b a else nptv6_map x a b) = Inr y"
    by (auto simp: nptv6_address_def result_simps)
  note W = nptv6_prefixes_wf [OF p assms(3,4)]
  show ?thesis
    using m W nptv6_map_neutral [OF _ _ _ _ assms(2)] by (cases rv) simp_all
qed

lemma npt_same_refl: "npt_same p p"
  by (simp add: npt_same_def)

lemma npt_same_trans: "npt_same p q \<Longrightarrow> npt_same q r \<Longrightarrow> npt_same p r"
  by (simp add: npt_same_def)

lemma nptv6_rewrite_same:
  assumes r: "nptv6_rewrite off rv (Some (n, ln)) (Some (e, le)) p = Inr q"
    and o: "off = 8 \<or> off = 24" and l: "40 \<le> length p" and b: "n < 2 ^ 128" "e < 2 ^ 128"
  shows "npt_same p q"
proof -
  let ?x = "from_be (seg off (off + 16) p)"
  from r obtain y where y: "nptv6_address (Some ?x) (Some (n, ln)) (Some (e, le)) rv = Inr y"
    and q: "q = put off (packed6 y) p"
    by (auto simp: nptv6_rewrite_def result_simps)
  have x: "?x < 2 ^ 128"
    using from_be_less [of "seg off (off + 16) p"] o l by auto
  have "y mod 65535 = ?x mod 65535" and "y < 2 ^ 128"
    using nptv6_address_neutral [OF y x b] by auto
  then have "word_sum (packed6 y) mod 65535 = word_sum (seg off (off + 16) p) mod 65535"
    using word_sum_be_mod [of "packed6 y"] word_sum_be_mod [of "seg off (off + 16) p"] o l
    by (auto simp: packed6_def from_be_to_be)
  moreover have "length (packed6 y) = 16" by (simp add: packed6_def)
  ultimately have w: "word_sum (seg off (off + 16) q) mod 65535 = word_sum (seg off (off + 16) p) mod 65535"
    and k: "seg (32 - off) (48 - off) q = seg (32 - off) (48 - off) p"
    and len: "length (packed6 y) = 16"
    using o l unfolding q by (auto simp: bytes_simps)
  have f: "length q = length p" "take 8 q = take 8 p" "drop 40 q = drop 40 p"
    using o l len unfolding q by (auto simp: put_def min_def)
  have s: "word_sum (seg 8 24 r @ seg 24 40 r) = word_sum (seg off (off + 16) r) + word_sum (seg (32 - off) (48 - off) r)"
    if "40 \<le> length r" for r
    using o that by (auto simp: word_sum_append)
  from w k f s [of p] s [of q] l show ?thesis
    unfolding npt_same_def by (metis mod_add_left_eq)
qed

text \<open>Checksum neutrality: NPTv6 rewrites only the two addresses, and the transport checksum of
  the rewritten packet verifies exactly when that of the original did, in every direction.\<close>

theorem nptv6_packet_checksum_neutral:
  assumes "nptv6_packet p (Some (n, ln)) (Some (e, le)) dir = Inr q" and b: "n < 2 ^ 128" "e < 2 ^ 128"
  shows "length q = length p \<and> take 8 q = take 8 p \<and> drop 40 q = drop 40 p
    \<and> (checksum (ipv6_covered q) = 0 \<longleftrightarrow> checksum (ipv6_covered p) = 0)"
proof -
  from assms(1) obtain r where l: "40 \<le> length p" and nh: "p ! 6 \<in> {6, 17, 58}"
    and r: "(if dir = Inbound then Inr p else nptv6_rewrite 8 False (Some (n, ln)) (Some (e, le)) p) = Inr r"
    and q: "(if dir = Outbound then Inr r else nptv6_rewrite 24 True (Some (n, ln)) (Some (e, le)) r) = Inr q"
    by (auto simp: nptv6_packet_def result_simps)
  have pr: "npt_same p r"
    using r l b nptv6_rewrite_same [of 8 False n ln e le p r] by (auto simp: npt_same_refl split: if_splits)
  then have "npt_same r q"
    using q l b nptv6_rewrite_same [of 24 True n ln e le r q]
    by (auto simp: npt_same_refl npt_same_def split: if_splits)
  with pr have same: "npt_same p q" by (rule npt_same_trans)
  then have f: "length q = length p" "take 8 q = take 8 p" "drop 40 q = drop 40 p"
    and w: "word_sum (seg 8 24 q @ seg 24 40 q) mod 65535 = word_sum (seg 8 24 p @ seg 24 40 p) mod 65535"
    by (simp_all add: npt_same_def)
  have q6: "q ! 6 = p ! 6" using arg_cong [OF f(2), of "\<lambda>x. x ! 6"] by simp
  define t where "t = word_sum (to_be 4 (length p - 40) @ [0, 0, 0, p ! 6] @ drop 40 p)"
  have c: "word_sum (ipv6_covered x) = word_sum (seg 8 24 x @ seg 24 40 x) + t"
    if "length x = length p" "x ! 6 = p ! 6" "drop 40 x = drop 40 p" for x
    using that l by (simp add: ipv6_covered_def t_def word_sum_append)
  have "0 < unat (p ! 6)" using nh by auto
  then have "t \<noteq> 0"
    using word_sum_append [of "to_be 4 (length p - 40)" "[0, 0, 0, p ! 6] @ drop 40 p"]
      word_sum_append [of "[0, 0, 0, p ! 6]" "drop 40 p"]
    by (simp add: t_def) (simp add: word_sum_def pad_even_def)
  then show ?thesis
    using f w q6 c [of p] c [of q] by (simp add: ck.csum_zero_iff) (metis mod_add_left_eq)
qed

lemma set_port_nth:
  assumes "set_port port index body = Inr b" "index + 2 \<le> length body" "k < length body"
  shows "length b = length body" "\<not> (index \<le> k \<and> k < index + 2) \<Longrightarrow> b ! k = body ! k"
  using assms by (auto simp: set_port_def result_simps nth_put split: option.splits)

lemma nat64_transport_nth:
  assumes "nat64_transport i sp dp = Inr (body, offset, op)" "4 \<le> k" "k < length (payload i)"
  shows "body ! k = payload i ! k"
  using assms
  by (auto simp: nat64_transport_def Let_def result_simps set_port_nth split: if_splits option.splits)

text \<open>The NAT64 rewrite touches no payload byte other than the ports (or the ICMP type) and the
  checksum field.\<close>

theorem nat64_payload_preserved:
  assumes "nat64_packet p src dst sp dp = Inr q"
    and "nat64_parse p (ip_version src) = Inr i" and "nat64_parse q (version i) = Inr j"
    and "4 \<le> k" and "k < length (payload i)"
    and "k \<notin> (if protocol i = 6 then {16, 17} else if protocol i = 17 then {6, 7} else {})"
  shows "payload j ! k = payload i ! k"
proof -
  from assms(1,2) obtain body offset op where
    tr: "nat64_transport i sp dp = Inr (body, offset, op)"
    and out: "nat64_output i src dst body offset op = Inr q"
    and vs: "ip_version src = ip_version dst" "version i \<noteq> ip_version src"
    by (auto simp: nat64_packet_def result_simps nat64_parse_result(1))
  note t = nat64_transport_result [OF tr] and r = nat64_parse_result [OF assms(2)]
  have off: "offset = (if protocol i = 6 then 16 else if protocol i = 17 then 6 else 2)"
    using tr by (auto simp: nat64_transport_def Let_def result_simps split: if_splits option.splits)
  have tt: "traffic i < 256" "ttl i \<le> 256" using r(2,3) by auto
  have "\<exists>c. payload j = put offset (to_be 2 c) body"
  proof (cases "version i = 6")
    case True
    then have v: "ip_version src = 4" "ip_version dst = 4" and op: "op \<in> {6, 17, 1}"
      using vs r(4) t(4) by auto
    from nat64_output_v4 [OF out v t(2,3) tt op] show ?thesis using True assms(3) by auto
  next
    case False
    then have v: "ip_version src = 6" "ip_version dst = 6" and op: "op \<in> {6, 17, 58}"
      and len: "length body < 65536" and v4: "version i = 4"
      using vs r(5,6) t(1,4) by auto
    from nat64_output_v6 [OF out v t(2,3) len tt op] show ?thesis using v4 assms(3) by auto
  qed
  then obtain c where "payload j = put offset (to_be 2 c) body" by blast
  then have "payload j ! k = body ! k"
    using t assms(4-6) off by (auto simp: nth_put split: if_splits)
  then show ?thesis using nat64_transport_nth [OF tr assms(4,5)] by simp
qed

section \<open>Witnesses\<close>

lemma udp_example: "nat64_packet udp6 ex_src ex_dst (Some 4000) None = Inr udp4"
  by code_simp

theorem nat64_packet_valid_witness:
  "\<exists>i j. nat64_parse udp6 4 = Inr i \<and> nat64_parse udp4 (version i) = Inr j \<and> version j = 4
     \<and> ttl j + 1 = ttl i \<and> checksum (pseudo j @ payload j) = 0"
  using nat64_packet_valid [OF udp_example] by (auto simp: ex_src_def)

theorem nat64_payload_preserved_witness:
  "payload (projr (nat64_parse udp4 6)) ! 9 = payload (projr (nat64_parse udp6 4)) ! 9"
proof (rule nat64_payload_preserved [OF udp_example])
  show "nat64_parse udp6 (ip_version ex_src) = Inr (projr (nat64_parse udp6 4))"
    and "nat64_parse udp4 (version (projr (nat64_parse udp6 4))) = Inr (projr (nat64_parse udp4 6))"
    by code_simp+
  show "9 < length (payload (projr (nat64_parse udp6 4)))"
    and "9 \<notin> (if protocol (projr (nat64_parse udp6 4)) = 6 then {16, 17}
       else if protocol (projr (nat64_parse udp6 4)) = 17 then {6, 7} else {} :: nat set)"
    by code_simp+
qed simp

theorem nat64_extract_embed_witness:
  "nat64_extract (Some 0x0064ff9b0000000000000000c0000201) (Some (0x0064ff9b000000000000000000000000, 96)) =
    Inr 0xc0000201"
proof (rule nat64_extract_embed)
  show "nat64_embed (Some 0xc0000201) (Some (0x0064ff9b000000000000000000000000, 96)) =
      Inr 0x0064ff9b0000000000000000c0000201"
    by code_simp
qed simp_all

lemma ex_prefixes: "nptv6_prefixes ex_internal ex_external =
    Inr (\<lparr>network_address = 0xfd010203040500000000000000000000, prefixlen = 48\<rparr>,
         \<lparr>network_address = 0x20010db8000100000000000000000000, prefixlen = 48\<rparr>)"
  by code_simp

lemma ex_mapped: "nptv6_map 0xfd010203040500010000000000001234
     \<lparr>network_address = 0xfd010203040500000000000000000000, prefixlen = 48\<rparr>
     \<lparr>network_address = 0x20010db8000100000000000000000000, prefixlen = 48\<rparr>
   = Inr 0x20010db80001d5500000000000001234"
  by code_simp

lemma ex_outbound: "nptv6_packet ex_packet ex_internal ex_external Outbound =
    Inr (put 8 (packed6 0x20010db80001d5500000000000001234) ex_packet)"
proof -
  have "from_be (seg 8 (8 + 16) ex_packet) = 0xfd010203040500010000000000001234"
    and "length ex_packet = 40" "unat (ex_packet ! 0) div 16 = 6" "from_be (seg 4 6 ex_packet) = 0"
    "ex_packet ! 6 = 17"
    by code_simp+
  then show ?thesis
    by (simp add: nptv6_packet_def nptv6_rewrite_def nptv6_address_def ex_prefixes ex_mapped)
qed

theorem nptv6_roundtrip_witness:
  "nptv6_address (Some 0x20010db80001d5500000000000001234) ex_internal ex_external True
     = Inr 0xfd010203040500010000000000001234"
proof -
  have "nptv6_address (Some 0xfd010203040500010000000000001234) ex_internal ex_external False
     = Inr 0x20010db80001d5500000000000001234"
    by (simp add: nptv6_address_def ex_prefixes ex_mapped)
  then show ?thesis
    unfolding ex_internal_def ex_external_def by (rule nptv6_roundtrip [where rv = False, simplified]) simp_all
qed

theorem nptv6_packet_checksum_neutral_witness:
  "nptv6_packet ex_packet ex_internal ex_external Outbound =
     Inr (put 8 (packed6 0x20010db80001d5500000000000001234) ex_packet)
   \<and> (checksum (ipv6_covered (put 8 (packed6 0x20010db80001d5500000000000001234) ex_packet)) = 0
        \<longleftrightarrow> checksum (ipv6_covered ex_packet) = 0)"
  using ex_outbound
    nptv6_packet_checksum_neutral [OF ex_outbound [unfolded ex_internal_def ex_external_def]] by simp

end
