(* ===== verification/Dhcp_Codec.thy ===== *)
theory Dhcp_Codec
  imports Inet_Checksum
begin

text \<open>
  The codec of \<^verbatim>\<open>src/opt/ffn_dhcp_server.py\<close>: the header checksum, the parser of
  received Ethernet/IPv4/UDP/DHCP frames, the option encoder and the builder of reply frames.
  The builder's random IP identification is an argument.
\<close>

section \<open>Constants\<close>

definition DISCOVER :: nat where "DISCOVER = 1"
definition OFFER :: nat where "OFFER = 2"
definition REQUEST :: nat where "REQUEST = 3"
definition DECLINE :: nat where "DECLINE = 4"
definition ACK :: nat where "ACK = 5"
definition NAK :: nat where "NAK = 6"
definition RELEASE :: nat where "RELEASE = 7"
definition INFORM :: nat where "INFORM = 8"

lemmas message_types = DISCOVER_def OFFER_def REQUEST_def DECLINE_def ACK_def NAK_def RELEASE_def INFORM_def

definition CLIENT_MESSAGES :: "nat list" where
  "CLIENT_MESSAGES = [DISCOVER, REQUEST, DECLINE, RELEASE, INFORM]"

definition MAGIC :: bytes where "MAGIC = [0x63, 0x82, 0x53, 0x63]"
definition BROADCAST_MAC :: bytes where "BROADCAST_MAC = replicate 6 0xff"

section \<open>The checksum\<close>

definition checksum :: "bytes \<Rightarrow> nat" where
  "checksum raw =
     (let data = (if length raw mod 2 \<noteq> 0 then raw @ [0] else raw);
          total = fold_carry (sum_list (words16 data))
      in nat (NOT (int total) AND 0xFFFF))"

section \<open>Parsing\<close>

record dhcp_message =
  src_mac :: bytes
  dst_mac :: bytes
  src_ip :: bytes
  xid :: nat
  secs :: nat
  flags :: nat
  ciaddr :: bytes
  yiaddr :: bytes
  giaddr :: bytes
  chaddr :: bytes
  mtype :: nat
  options :: "nat \<rightharpoonup> bytes"
  sport :: nat

text \<open>The option loop over the bytes after the magic cookie; \<^verbatim>\<open>setdefault\<close> keeps the first value.\<close>

fun parse_options :: "bytes \<Rightarrow> (nat \<rightharpoonup> bytes) \<Rightarrow> (nat \<rightharpoonup> bytes)" where
  "parse_options [] opts = opts"
| "parse_options (tag # r) opts =
     (if tag = 0 then parse_options r opts
      else if tag = 255 then opts
      else case r of [] \<Rightarrow> opts
        | len # r' \<Rightarrow>
            (let value = take (unat len) r'
             in if length value < unat len then opts
                else parse_options (drop (unat len) r')
                       (if opts (unat tag) = None then opts(unat tag \<mapsto> value) else opts)))"

text \<open>
  The parser in its two halves: the checks on the Ethernet, IPv4 and UDP headers, which cut
  out the UDP payload, and the checks on the BOOTP fields and the message type option.
\<close>

definition udp_payload :: "bytes \<Rightarrow> (nat \<times> bytes) option" where
  "udp_payload frame =
     (if length frame < 14 + 20 + 8 + 240 then None
      else if seg 12 14 frame \<noteq> [0x08, 0x00] then None
      else
       (let ihl = unat (frame ! 14) mod 16 * 4 in
        if ihl < 20 \<or> frame ! 23 \<noteq> 17 \<or> from_be (seg 20 22 frame) mod 8192 \<noteq> 0 then None
        else
         (let ip_len = from_be (seg 16 18 frame); udp = 14 + ihl in
          if udp + 8 > length frame then None
          else
           (let sp = from_be (seg udp (udp + 2) frame);
                dport = from_be (seg (udp + 2) (udp + 4) frame);
                udp_len = from_be (seg (udp + 4) (udp + 6) frame) in
            if dport \<noteq> 67 then None
            else Some (sp, seg (udp + 8) (min (length frame) (min (14 + ip_len) (udp + udp_len))) frame)))))"

definition parse_bootp :: "bytes \<Rightarrow> nat \<Rightarrow> bytes \<Rightarrow> dhcp_message option" where
  "parse_bootp frame sp data =
     (if length data < 240 \<or> seg 236 240 data \<noteq> MAGIC then None
      else if data ! 0 \<noteq> 1 \<or> data ! 1 \<noteq> 1 \<or> data ! 2 \<noteq> 6 then None
      else
       (let opts = parse_options (drop 240 data) Map.empty in
        case opts 53 of
          Some [t] \<Rightarrow>
            if unat t \<in> set CLIENT_MESSAGES then
              Some \<lparr>src_mac = seg 6 12 frame, dst_mac = seg 0 6 frame, src_ip = seg 26 30 frame,
                    xid = from_be (seg 4 8 data), secs = from_be (seg 8 10 data),
                    flags = from_be (seg 10 12 data),
                    ciaddr = seg 12 16 data, yiaddr = seg 16 20 data, giaddr = seg 24 28 data,
                    chaddr = seg 28 34 data, mtype = unat t, options = opts, sport = sp\<rparr>
            else None
        | _ \<Rightarrow> None))"

definition parse :: "bytes \<Rightarrow> dhcp_message option" where
  "parse frame = (case udp_payload frame of None \<Rightarrow> None | Some (sp, data) \<Rightarrow> parse_bootp frame sp data)"

section \<open>Building\<close>

text \<open>
  The values the server sends come from a validated specification or have a fixed length; they
  are shorter than 256 bytes, so the length fits its byte and \<^verbatim>\<open>bytes\<close> does not raise.
\<close>

definition dhcp_option :: "nat \<Rightarrow> bytes \<Rightarrow> bytes" where
  "dhcp_option tag value = [of_nat tag, of_nat (length value)] @ value"

definition dhcp_fields ::
  "nat \<Rightarrow> dhcp_message \<Rightarrow> bytes \<Rightarrow> bytes \<Rightarrow> bytes \<Rightarrow> bytes" where
  "dhcp_fields rep m server_ip yi opts =
     (let lease_fields = [2, 1, 6, 0] @ to_be 4 (xid m) @ to_be 2 0 @ to_be 2 (flags m)
      in lease_fields @ (if rep \<noteq> NAK then ciaddr m else replicate 4 0) @ yi @ replicate 4 0
         @ giaddr m @ chaddr m @ replicate 10 0 @ replicate 64 0 @ replicate 128 0 @ MAGIC
         @ dhcp_option 53 [of_nat rep] @ dhcp_option 54 server_ip @ opts @ [0xff])"

definition dhcp_body ::
  "nat \<Rightarrow> dhcp_message \<Rightarrow> bytes \<Rightarrow> bytes \<Rightarrow> bytes \<Rightarrow> bytes" where
  "dhcp_body rep m server_ip yi opts =
     (let body = dhcp_fields rep m server_ip yi opts
      in if length body < 300 then body @ replicate (300 - length body) 0 else body)"

definition build_udp :: "nat \<Rightarrow> bytes \<Rightarrow> bytes \<Rightarrow> bytes \<Rightarrow> bytes" where
  "build_udp sp body server_ip dst_ip =
     (let udp = to_be 2 67 @ to_be 2 (if sp \<noteq> 67 then 68 else 67) @ to_be 2 (8 + length body)
                @ to_be 2 0 @ body;
          pseudo = server_ip @ dst_ip @ [0, 17] @ to_be 2 (length udp);
          c = checksum (pseudo @ udp)
      in take 6 udp @ to_be 2 (if c = 0 then 0xFFFF else c) @ drop 8 udp)"

definition build_ip :: "nat \<Rightarrow> nat \<Rightarrow> bytes \<Rightarrow> bytes \<Rightarrow> bytes" where
  "build_ip ident udp_len server_ip dst_ip =
     (let ip = [0x45, 0] @ to_be 2 (20 + udp_len) @ to_be 2 ident @ to_be 2 0 @ [64, 17] @ to_be 2 0
               @ server_ip @ dst_ip
      in take 10 ip @ to_be 2 (checksum ip) @ drop 12 ip)"

definition build ::
  "nat \<Rightarrow> nat \<Rightarrow> dhcp_message \<Rightarrow> bytes \<Rightarrow> bytes \<Rightarrow> bytes \<Rightarrow> bytes \<Rightarrow> bytes \<Rightarrow> bytes \<Rightarrow> bytes" where
  "build ident rep m server_ip server_mac yi opts dmac dip =
     (let udp = build_udp (sport m) (dhcp_body rep m server_ip yi opts) server_ip dip
      in dmac @ server_mac @ [0x08, 0x00] @ build_ip ident (length udp) server_ip dip @ udp)"

section \<open>The checksum meets the interface\<close>

interpretation dhcp_ck: inet_checksum checksum
proof (rule complement_checksum)
  fix bs :: bytes
  have "(if length bs mod 2 \<noteq> 0 then bs @ [0] else bs) = pad_even bs"
    by (cases "length bs mod 2") (auto simp: pad_even_def)
  then show "checksum bs = 65535 - fold_carry (word_sum bs)"
    using fold_carry_less by (simp add: checksum_def word_sum_def nat_not_and_65535)
qed

lemma build_ip_verifies:
  assumes "length server_ip = 4" "length dst_ip = 4"
  shows "checksum (build_ip ident n server_ip dst_ip) = 0" "length (build_ip ident n server_ip dst_ip) = 20"
proof -
  define ip where "ip = [0x45, 0] @ to_be 2 (20 + n) @ to_be 2 ident @ to_be 2 0 @ [64, 17] @ to_be 2 0
               @ server_ip @ dst_ip"
  have b: "build_ip ident n server_ip dst_ip = put 10 (to_be 2 (checksum ip)) ip"
    unfolding build_ip_def Let_def ip_def [symmetric] by (simp add: put_def)
  have z: "put 10 [0, 0] ip = ip" by (simp add: ip_def put_def to_be_2)
  have l: "length ip = 20" using assms by (simp add: ip_def)
  then show "length (build_ip ident n server_ip dst_ip) = 20" by (simp add: b)
  show "checksum (build_ip ident n server_ip dst_ip) = 0"
    using dhcp_ck.csum_filled [of "[]" 10 ip "checksum ip"] z l by (simp add: b)
qed

lemma build_udp_verifies:
  assumes "even (length server_ip)" "even (length dst_ip)"
  shows "checksum (server_ip @ dst_ip @ [0, 17] @ to_be 2 (8 + length body)
           @ build_udp sp body server_ip dst_ip) = 0"
    and "length (build_udp sp body server_ip dst_ip) = 8 + length body"
    and "drop 8 (build_udp sp body server_ip dst_ip) = body"
proof -
  define udp where "udp = to_be 2 67 @ to_be 2 (if sp \<noteq> 67 then 68 else 67)
      @ to_be 2 (8 + length body) @ to_be 2 0 @ body"
  define ps where "ps = server_ip @ dst_ip @ [0, 17] @ to_be 2 (length udp)"
  define c where "c = (if checksum (ps @ udp) = 0 then 0xFFFF else checksum (ps @ udp))"
  have b: "build_udp sp body server_ip dst_ip = put 6 (to_be 2 c) udp"
    unfolding build_udp_def Let_def udp_def [symmetric] ps_def [symmetric] c_def [symmetric]
    by (simp add: put_def)
  have l: "length udp = 8 + length body" and d: "drop 8 udp = body" by (simp_all add: udp_def)
  show "length (build_udp sp body server_ip dst_ip) = 8 + length body"
    "drop 8 (build_udp sp body server_ip dst_ip) = body"
    using l d by (simp_all add: b put_def)
  have "put 6 [0, 0] udp = udp" by (simp add: udp_def put_def to_be_2)
  then have "checksum (ps @ put 6 (to_be 2 c) udp) = 0"
    using assms l by (intro dhcp_ck.csum_filled) (simp_all add: ps_def c_def)
  then show "checksum (server_ip @ dst_ip @ [0, 17] @ to_be 2 (8 + length body)
           @ build_udp sp body server_ip dst_ip) = 0"
    by (simp add: b ps_def l)
qed

text \<open>The sections of a built frame.\<close>

lemma build_sections:
  assumes "length server_ip = 4" "length dip = 4" "length dmac = 6" "length server_mac = 6"
    and q: "q = build ident rep m server_ip server_mac yi opts dmac dip"
  shows "seg 0 6 q = dmac" "seg 6 12 q = server_mac" "seg 14 34 q = build_ip ident
      (8 + length (dhcp_body rep m server_ip yi opts)) server_ip dip"
    "drop 34 q = build_udp (sport m) (dhcp_body rep m server_ip yi opts) server_ip dip"
  using assms(1-4) build_ip_verifies(2) build_udp_verifies(2)
  by (simp_all add: q build_def Let_def seg_def)

text \<open>What a receiver of a built frame sees.\<close>

lemma build_verifies:
  assumes "length server_ip = 4" "length dip = 4" "length dmac = 6" "length server_mac = 6"
    and "q = build ident rep m server_ip server_mac yi opts dmac dip"
  shows "seg 0 6 q = dmac \<and> seg 6 12 q = server_mac \<and> seg 12 14 q = [0x08, 0x00]
    \<and> seg 26 30 q = server_ip \<and> seg 30 34 q = dip
    \<and> checksum (seg 14 34 q) = 0
    \<and> checksum (server_ip @ dip @ [0, 17] @ to_be 2 (length q - 34) @ drop 34 q) = 0"
proof -
  note S = build_sections [OF assms]
  let ?b = "dhcp_body rep m server_ip yi opts"
  have l: "length q = 42 + length ?b"
    using assms build_ip_verifies(2) [OF assms(1,2)] build_udp_verifies(2) by (simp add: build_def Let_def)
  have "checksum (seg 14 34 q) = 0" using S(3) build_ip_verifies [OF assms(1,2)] by simp
  moreover have "checksum (server_ip @ dip @ [0, 17] @ to_be 2 (length q - 34) @ drop 34 q) = 0"
    using build_udp_verifies(1) [of server_ip dip ?b "sport m"] assms(1,2) S(4) l by simp
  moreover have "seg 26 30 q = server_ip" "seg 30 34 q = dip" "seg 12 14 q = [0x08, 0x00]"
    using assms by (simp_all add: build_def build_ip_def Let_def seg_def)
  ultimately show ?thesis using S(1,2) by blast
qed

section \<open>What the parser returns\<close>

text \<open>
  The option loop inverts the option encoder: the first occurrence of a tag wins, everything
  after the end marker is ignored.
\<close>

definition encodable :: "nat \<times> bytes \<Rightarrow> bool" where
  "encodable = (\<lambda>(tag, value). 0 < tag \<and> tag < 255 \<and> length value < 256)"

lemma parse_options_step:
  assumes "encodable (tag, value)"
  shows "parse_options (dhcp_option tag value @ rest) opts
    = parse_options rest (if opts tag = None then opts(tag \<mapsto> value) else opts)"
proof -
  have u: "unat (of_nat tag :: byte) = tag"
    using assms by (simp add: encodable_def unat_of_nat_byte)
  have tag: "(of_nat tag :: byte) \<noteq> 0" "(of_nat tag :: byte) \<noteq> 255"
  proof -
    show "(of_nat tag :: byte) \<noteq> 0" using u assms by (auto simp: encodable_def)
    show "(of_nat tag :: byte) \<noteq> 255"
    proof
      assume "(of_nat tag :: byte) = 255"
      with u have "tag = 255" by simp
      with assms show False by (simp add: encodable_def)
    qed
  qed
  have "unat (of_nat (length value) :: byte) = length value"
    using assms by (simp add: encodable_def unat_of_nat_byte)
  then show ?thesis using u tag by (simp add: dhcp_option_def Let_def)
qed

lemma parse_options_encoded:
  "list_all encodable ps \<Longrightarrow>
     parse_options (concat (map (\<lambda>(t, v). dhcp_option t v) ps) @ 255 # rest) opts = map_of ps ++ opts"
proof (induction ps arbitrary: opts)
  case (Cons p ps)
  obtain t v where p: "p = (t, v)" by (cases p)
  have "map_of ps ++ (if opts t = None then opts(t \<mapsto> v) else opts) = map_of (p # ps) ++ opts"
    by (auto simp: p fun_upd_def map_add_def fun_eq_iff split: option.splits)
  then show ?case using Cons by (simp add: p parse_options_step fun_upd_def)
qed simp

text \<open>
  Encoding a list of options with \<^verbatim>\<open>option\<close>, closing it with the end marker and parsing
  it again gives back the options, the first value of a repeated tag, whatever follows the marker.
\<close>

theorem options_roundtrip:
  "list_all encodable ps \<Longrightarrow>
     parse_options (concat (map (\<lambda>(t, v). dhcp_option t v) ps) @ 255 # rest) Map.empty = map_of ps"
  by (simp add: parse_options_encoded)

theorem options_roundtrip_witness:
  "parse_options (dhcp_option 53 [1] @ dhcp_option 61 [1, 2, 3] @ dhcp_option 53 [3] @ 255 # [9, 9]) Map.empty
    = map_of [(53, [1]), (61, [1, 2, 3]), (53, [3])]"
  using options_roundtrip [of "[(53, [1]), (61, [1, 2, 3]), (53, [3])]" "[9, 9]"]
  by (simp add: encodable_def)

text \<open>The shape of every accepted message.\<close>

definition wf_message :: "dhcp_message \<Rightarrow> bool" where
  "wf_message m \<longleftrightarrow> length (src_mac m) = 6 \<and> length (dst_mac m) = 6 \<and> length (ciaddr m) = 4
     \<and> length (giaddr m) = 4 \<and> length (chaddr m) = 6 \<and> xid m < 2 ^ 32 \<and> flags m < 2 ^ 16
     \<and> mtype m \<in> set CLIENT_MESSAGES \<and> options m 53 = Some [of_nat (mtype m)]"

lemma unat_255_byte: "unat (255 :: byte) = 255"
  by simp

lemma parse_options_sound:
  assumes "\<And>t v. opts t = Some v \<Longrightarrow> 0 < t \<and> t < 255 \<and> length v < 256"
  shows "parse_options bs opts t = Some v \<Longrightarrow> 0 < t \<and> t < 255 \<and> length v < 256"
  using assms
proof (induction bs opts arbitrary: t v rule: parse_options.induct)
  case (2 tag r opts)
  show ?case
  proof (cases "tag = 0 \<or> tag = 255 \<or> r = []")
    case True
    then show ?thesis using 2 by (auto split: if_splits)
  next
    case False
    then obtain len r' where r: "r = len # r'" by (cases r) auto
    have "unat tag \<noteq> 255" using False by (metis unat_255_byte word_unat_eq_iff)
    then have tag: "unat tag < 255" "0 < unat tag"
      using False by (metis unat_byte_le le_neq_implies_less) (use False in \<open>simp add: unat_gt_0\<close>)
    show ?thesis
    proof (cases "length (take (unat len) r') < unat len")
      case True
      then have "opts t = Some v" using "2.prems"(1) False r by (simp split: if_splits)
      then show ?thesis by (rule "2.prems"(2))
    next
      case ge: False
      show ?thesis
      proof (rule "2.IH"(2) [OF _ _ r refl ge])
        show "parse_options (drop (unat len) r') (if opts (unat tag) = None then
            opts(unat tag \<mapsto> take (unat len) r') else opts) t = Some v"
          using "2.prems"(1) False r ge by simp
      qed (use False "2.prems"(2) tag in \<open>auto simp: min_less_iff_disj split: if_splits\<close>)
    qed
  qed
qed auto

lemma parse_wf:
  assumes "parse frame = Some m"
  shows "wf_message m"
proof -
  obtain sp data where u: "udp_payload frame = Some (sp, data)" and b: "parse_bootp frame sp data = Some m"
    using assms by (auto simp: parse_def split: option.splits)
  have f: "12 \<le> length frame" using u by (simp add: udp_payload_def split: if_splits)
  have d: "240 \<le> length data" using b by (simp add: parse_bootp_def split: if_splits)
  obtain t where t: "parse_options (drop 240 data) Map.empty 53 = Some [t]" "unat t \<in> set CLIENT_MESSAGES"
    and m: "m = \<lparr>src_mac = seg 6 12 frame, dst_mac = seg 0 6 frame, src_ip = seg 26 30 frame,
                    xid = from_be (seg 4 8 data), secs = from_be (seg 8 10 data),
                    flags = from_be (seg 10 12 data),
                    ciaddr = seg 12 16 data, yiaddr = seg 16 20 data, giaddr = seg 24 28 data,
                    chaddr = seg 28 34 data, mtype = unat t,
                    options = parse_options (drop 240 data) Map.empty, sport = sp\<rparr>"
    using b by (auto simp: parse_bootp_def Let_def split: if_splits option.splits list.splits)
  have "from_be (seg 4 8 data) < 2 ^ 32" "from_be (seg 10 12 data) < 2 ^ 16"
    using d from_be_less [of "seg 4 8 data"] from_be_less [of "seg 10 12 data"] by simp_all
  then show ?thesis using f d t by (simp add: wf_message_def m)
qed

lemma parse_options_bound:
  assumes "parse frame = Some m" "options m t = Some v"
  shows "0 < t \<and> t < 255 \<and> length v < 256"
proof -
  obtain data where "options m = parse_options (drop 240 data) Map.empty"
    using assms(1) by (auto simp: parse_def parse_bootp_def Let_def split: if_splits option.splits list.splits)
  then show ?thesis using assms(2) parse_options_sound [of Map.empty] by auto
qed

section \<open>What a client reads in a reply\<close>

text \<open>The message type and the offered address are at fixed places of a reply frame.\<close>

definition frame_type :: "bytes \<Rightarrow> nat" where
  "frame_type q = unat (q ! 284)"

definition frame_yiaddr :: "bytes \<Rightarrow> bytes" where
  "frame_yiaddr q = seg 58 62 q"

lemma dhcp_body_fields:
  assumes "length (ciaddr m) = 4" "length (giaddr m) = 4" "length (chaddr m) = 6" "length yi = 4"
  shows "dhcp_body rep m sip yi os ! 242 = of_nat rep" "seg 16 20 (dhcp_body rep m sip yi os) = yi"
    "300 \<le> length (dhcp_body rep m sip yi os)"
proof -
  define pre where "pre = [2, 1, 6, 0] @ to_be 4 (xid m) @ to_be 2 0 @ to_be 2 (flags m)
    @ (if rep \<noteq> NAK then ciaddr m else replicate 4 0)"
  define mid where "mid = replicate 4 0 @ giaddr m @ chaddr m @ replicate 10 0 @ replicate 64 0
    @ replicate 128 0 @ MAGIC @ [53, 1]"
  have l: "length pre = 16" "length mid = 222" using assms by (simp_all add: pre_def mid_def MAGIC_def)
  have f: "dhcp_fields rep m sip yi os = pre @ yi @ mid @ of_nat rep # dhcp_option 54 sip @ os @ [255]"
    by (simp add: dhcp_fields_def pre_def mid_def dhcp_option_def)
  have "\<exists>pad. dhcp_body rep m sip yi os = dhcp_fields rep m sip yi os @ pad"
    by (simp add: dhcp_body_def Let_def)
  then obtain rest where b: "dhcp_body rep m sip yi os = pre @ yi @ mid @ of_nat rep # rest"
    using f by auto
  show "dhcp_body rep m sip yi os ! 242 = of_nat rep" "seg 16 20 (dhcp_body rep m sip yi os) = yi"
    using l assms(4) by (simp_all add: b nth_append seg_def)
  show "300 \<le> length (dhcp_body rep m sip yi os)"
    by (simp add: dhcp_body_def Let_def)
qed

lemma build_observed:
  assumes lens: "length sip = 4" "length dip = 4" "length dmac = 6" "length smac = 6" "length yi = 4"
    and m: "wf_message m" and rep: "rep < 256"
    and q: "q = build ident rep m sip smac yi os dmac dip"
  shows "frame_type q = rep" "frame_yiaddr q = yi"
proof -
  let ?b = "dhcp_body rep m sip yi os"
  have m': "length (ciaddr m) = 4" "length (giaddr m) = 4" "length (chaddr m) = 6"
    using m by (simp_all add: wf_message_def)
  note b = dhcp_body_fields [OF m' lens(5), of rep sip os]
  have "drop 8 (drop 34 q) = drop 8 (build_udp (sport m) ?b sip dip)"
    using build_sections(4) [OF lens(1-4) q] by (rule arg_cong)
  then have d: "drop 42 q = ?b" using build_udp_verifies(3) [of sip dip "sport m"] lens by simp
  have "length (drop 42 q) = length ?b" using d by simp
  then have l: "342 \<le> length q" using b(3) by simp
  have "q ! 284 = drop 42 q ! 242" using l by (subst nth_drop) simp_all
  then show "frame_type q = rep" using b(1) rep by (simp add: frame_type_def d unat_of_nat_byte)
  have "seg 58 62 q = seg 16 20 (drop 42 q)" by (simp add: seg_def)
  then show "frame_yiaddr q = yi" using b(2) by (simp add: frame_yiaddr_def d)
qed

section \<open>The frames of a client\<close>

text \<open>
  The frame a client sends for a message whose options are encoded in the order of a list, as a
  reference encoder for the parser: Ethernet, an IPv4 header without options, UDP to port 67, the
  BOOTP fields, the magic cookie, the options, the end marker.
\<close>

definition client_bootp :: "dhcp_message \<Rightarrow> (nat \<times> bytes) list \<Rightarrow> bytes" where
  "client_bootp m ps =
     [1, 1, 6, 0] @ to_be 4 (xid m) @ to_be 2 (secs m) @ to_be 2 (flags m) @ ciaddr m @ yiaddr m @ replicate 4 0
     @ giaddr m @ chaddr m @ replicate 202 0 @ MAGIC @ concat (map (\<lambda>(t, v). dhcp_option t v) ps) @ [255]"

definition client_frame :: "dhcp_message \<Rightarrow> (nat \<times> bytes) list \<Rightarrow> bytes" where
  "client_frame m ps =
     dst_mac m @ src_mac m @ [8, 0]
     @ [0x45, 0] @ to_be 2 (28 + length (client_bootp m ps)) @ [0, 0, 0, 0, 64, 17, 0, 0] @ src_ip m @ replicate 4 0xff
     @ to_be 2 (sport m) @ to_be 2 67 @ to_be 2 (8 + length (client_bootp m ps)) @ [0, 0] @ client_bootp m ps"

definition client_message :: "dhcp_message \<Rightarrow> (nat \<times> bytes) list \<Rightarrow> bool" where
  "client_message m ps \<longleftrightarrow> wf_message m \<and> length (src_ip m) = 4 \<and> length (yiaddr m) = 4 \<and> secs m < 2 ^ 16
     \<and> sport m < 2 ^ 16 \<and> list_all encodable ps \<and> options m = map_of ps \<and> length (client_bootp m ps) < 65500"

lemma client_bootp_parses:
  assumes "client_message m ps"
  shows "240 \<le> length (client_bootp m ps)" "seg 236 240 (client_bootp m ps) = MAGIC"
    "client_bootp m ps ! 0 = 1" "client_bootp m ps ! 1 = 1" "client_bootp m ps ! 2 = 6"
    "seg 4 8 (client_bootp m ps) = to_be 4 (xid m)" "seg 8 10 (client_bootp m ps) = to_be 2 (secs m)"
    "seg 10 12 (client_bootp m ps) = to_be 2 (flags m)" "seg 12 16 (client_bootp m ps) = ciaddr m"
    "seg 16 20 (client_bootp m ps) = yiaddr m" "seg 24 28 (client_bootp m ps) = giaddr m"
    "seg 28 34 (client_bootp m ps) = chaddr m"
    "drop 240 (client_bootp m ps) = concat (map (\<lambda>(t, v). dhcp_option t v) ps) @ [255]"
  using assms by (simp_all add: client_message_def wf_message_def client_bootp_def seg_def MAGIC_def)

lemma client_frame_payload:
  assumes "client_message m ps"
  shows "udp_payload (client_frame m ps) = Some (sport m, client_bootp m ps)"
proof -
  let ?b = "client_bootp m ps" and ?f = "client_frame m ps"
  have lens: "length (dst_mac m) = 6" "length (src_mac m) = 6" "length (src_ip m) = 4" "length ?b < 65500" "sport m < 65536"
    using assms by (simp_all add: client_message_def wf_message_def)
  have L: "length ?f = 42 + length ?b" using lens by (simp add: client_frame_def)
  have b: "240 \<le> length ?b" using client_bootp_parses(1) [OF assms] .
  have n: "?f ! 14 = 0x45" "?f ! 23 = 17" using lens by (simp_all add: client_frame_def nth_append)
  have segs: "seg 12 14 ?f = [8, 0]" "seg 16 18 ?f = to_be 2 (28 + length ?b)" "seg 20 22 ?f = [0, 0]"
    "seg 34 36 ?f = to_be 2 (sport m)" "seg 36 38 ?f = to_be 2 67" "seg 38 40 ?f = to_be 2 (8 + length ?b)"
    "seg 42 (42 + length ?b) ?f = ?b"
    using lens by (simp_all add: client_frame_def seg_def)
  have "from_be [0 :: byte, 0] = 0" by (simp add: from_be_Cons)
  then show ?thesis
    using b lens n segs L by (simp add: udp_payload_def Let_def from_be_to_be min_def)
qed

lemma client_frame_parses:
  assumes "client_message m ps"
  shows "parse (client_frame m ps) = Some m"
proof -
  let ?b = "client_bootp m ps"
  note b = client_bootp_parses [OF assms]
  have o: "parse_options (drop 240 ?b) Map.empty = options m"
    using assms parse_options_encoded [of ps "[]" Map.empty] b(13) by (simp add: client_message_def)
  have t: "mtype m \<in> set CLIENT_MESSAGES" "options m 53 = Some [of_nat (mtype m)]" "mtype m < 256"
    using assms by (auto simp: client_message_def wf_message_def CLIENT_MESSAGES_def message_types)
  have f: "seg 6 12 (client_frame m ps) = src_mac m" "seg 0 6 (client_frame m ps) = dst_mac m"
    "seg 26 30 (client_frame m ps) = src_ip m"
    using assms by (simp_all add: client_message_def wf_message_def client_frame_def seg_def)
  have "xid m < 2 ^ 32" "secs m < 2 ^ 16" "flags m < 2 ^ 16"
    using assms by (simp_all add: client_message_def wf_message_def)
  then have "from_be (to_be 4 (xid m)) = xid m" "from_be (to_be 2 (secs m)) = secs m" "from_be (to_be 2 (flags m)) = flags m"
    by (simp_all add: from_be_to_be)
  then have "parse_bootp (client_frame m ps) (sport m) ?b = Some m"
    using b(1-12) o t f by (simp add: parse_bootp_def unat_of_nat_byte)
  then show ?thesis by (simp add: parse_def client_frame_payload [OF assms])
qed

text \<open>
  The parser accepts every well-formed client message and returns exactly its fields:
  parsing inverts the reference encoder, for all addresses, transaction identifiers and options.
\<close>

theorem parse_client_frame:
  assumes "client_message m ps"
  shows "parse (client_frame m ps) = Some m"
  using assms by (rule client_frame_parses)

definition ex_message :: "byte \<Rightarrow> nat \<Rightarrow> (nat \<times> bytes) list \<Rightarrow> dhcp_message" where
  "ex_message c kind ps = \<lparr>src_mac = [2, 0, 0, 0, 0, c], dst_mac = BROADCAST_MAC, src_ip = [0, 0, 0, 0],
     xid = 0x1234, secs = 0, flags = 0, ciaddr = [0, 0, 0, 0], yiaddr = [0, 0, 0, 0],
     giaddr = [0, 0, 0, 0], chaddr = [2, 0, 0, 0, 0, c], mtype = kind, options = map_of ps, sport = 68\<rparr>"

lemma ex_message_ok:
  "list_all encodable ps \<Longrightarrow> kind \<in> set CLIENT_MESSAGES \<Longrightarrow> map_of ps 53 = Some [of_nat kind] \<Longrightarrow>
     length (concat (map (\<lambda>(t, v). dhcp_option t v) ps)) < 1000 \<Longrightarrow> client_message (ex_message c kind ps) ps"
  by (simp add: client_message_def ex_message_def wf_message_def client_bootp_def BROADCAST_MAC_def MAGIC_def)

theorem parse_client_frame_witness:
  "parse (client_frame (ex_message 1 REQUEST [(53, [3]), (50, [10, 0, 0, 10])]) [(53, [3]), (50, [10, 0, 0, 10])])
    = Some (ex_message 1 REQUEST [(53, [3]), (50, [10, 0, 0, 10])])"
  by (intro parse_client_frame ex_message_ok)
    (simp_all add: encodable_def dhcp_option_def CLIENT_MESSAGES_def REQUEST_def)

end
