(* ===== verification/Transition.thy ===== *)
theory Transition
  imports Prelude
begin

text \<open>
  Components that are driven by a sequence of inputs. A component is a function from an input
  and a state to the next state; the locale says what its invariant promises and derives what
  holds after any sequence of inputs.
\<close>

definition run :: "('i \<Rightarrow> 's \<Rightarrow> 's) \<Rightarrow> 'i list \<Rightarrow> 's \<Rightarrow> 's" where
  "run step is s = fold step is s"

lemma run_simps [simp]:
  "run step [] s = s"
  "run step (i # is) s = run step is (step i s)"
  "run step (is @ js) s = run step js (run step is s)"
  by (simp_all add: run_def)

locale invariant_system =
  fixes step :: "'i \<Rightarrow> 's \<Rightarrow> 's" and inv :: "'s \<Rightarrow> bool"
  assumes inv_step: "inv s \<Longrightarrow> inv (step i s)"
begin

lemma inv_run: "inv s \<Longrightarrow> inv (run step is s)"
  by (induction "is" arbitrary: s) (auto intro: inv_step)

text \<open>What one input keeps, as long as it satisfies a side condition, a run of such inputs keeps.\<close>

lemma stable_run:
  assumes "\<And>i s. inv s \<Longrightarrow> allowed i \<Longrightarrow> P s \<Longrightarrow> P (step i s)"
    and "inv s" "P s" "list_all allowed is"
  shows "P (run step is s)"
  using assms(2-4)
  by (induction "is" arbitrary: s) (auto intro: inv_step assms(1))

text \<open>A quantity that no input decreases does not decrease along a run.\<close>

lemma monotone_run:
  fixes f :: "'s \<Rightarrow> 'o :: order"
  assumes "\<And>i s. inv s \<Longrightarrow> f s \<le> f (step i s)" and "inv s"
  shows "f s \<le> f (run step is s)"
  using assms(2)
proof (induction "is" arbitrary: s)
  case (Cons i "is")
  then have "f s \<le> f (step i s)" "f (step i s) \<le> f (run step is (step i s))"
    by (auto intro: inv_step assms(1))
  then show ?case by simp
qed simp

end

section \<open>Bounded queues\<close>

text \<open>
  A queue in some store: an end that adds (and refuses when the queue is full), an end that
  removes, the list of what is queued. What one producer adds, one consumer receives, in order.
\<close>

primrec enqs :: "('d \<Rightarrow> 'm \<Rightarrow> 'm option) \<Rightarrow> 'd list \<Rightarrow> 'm \<Rightarrow> 'm option" where
  "enqs enq [] m = Some m"
| "enqs enq (d # ds) m = (case enq d m of None \<Rightarrow> None | Some m' \<Rightarrow> enqs enq ds m')"

primrec deqs :: "('m \<Rightarrow> ('d \<times> 'm) option) \<Rightarrow> nat \<Rightarrow> 'm \<Rightarrow> 'd list \<times> 'm" where
  "deqs deq 0 m = ([], m)"
| "deqs deq (Suc n) m =
     (case deq m of None \<Rightarrow> ([], m) | Some (d, m') \<Rightarrow> (let (ds, m'') = deqs deq n m' in (d # ds, m'')))"

locale bounded_fifo =
  fixes enq :: "'d \<Rightarrow> 'm \<Rightarrow> 'm option" and deq :: "'m \<Rightarrow> ('d \<times> 'm) option"
    and queue :: "'m \<Rightarrow> 'd list" and cap :: nat and inv :: "'m \<Rightarrow> bool" and fits :: "'d \<Rightarrow> bool"
  assumes enq_room: "inv m \<Longrightarrow> fits d \<Longrightarrow> length (queue m) < cap \<Longrightarrow> enq d m \<noteq> None"
    and enq_full: "inv m \<Longrightarrow> length (queue m) = cap \<Longrightarrow> enq d m = None"
    and enq_queue: "inv m \<Longrightarrow> fits d \<Longrightarrow> enq d m = Some m' \<Longrightarrow> inv m' \<and> queue m' = queue m @ [d]"
    and deq_empty: "inv m \<Longrightarrow> deq m = None \<longleftrightarrow> queue m = []"
    and deq_queue: "inv m \<Longrightarrow> deq m = Some (d, m') \<Longrightarrow> inv m' \<and> queue m = d # queue m'"
begin

lemma enqs_queue:
  "inv m \<Longrightarrow> list_all fits ds \<Longrightarrow> length (queue m) + length ds \<le> cap \<Longrightarrow>
     \<exists>m'. enqs enq ds m = Some m' \<and> inv m' \<and> queue m' = queue m @ ds"
proof (induction ds arbitrary: m)
  case (Cons d ds)
  then obtain m1 where m1: "enq d m = Some m1" using enq_room [of m d] by auto
  then have "inv m1" "queue m1 = queue m @ [d]" using enq_queue [of m d m1] Cons by auto
  then show ?case using Cons.IH [of m1] Cons.prems m1 by auto
qed simp

lemma deqs_queue:
  "inv m \<Longrightarrow> deqs deq n m = (ds, m') \<Longrightarrow> ds = take n (queue m) \<and> queue m' = drop n (queue m) \<and> inv m'"
proof (induction n arbitrary: m ds m')
  case (Suc n)
  show ?case
  proof (cases "deq m")
    case None
    then have "queue m = []" using deq_empty Suc by blast
    then show ?thesis using Suc None by auto
  next
    case (Some p)
    obtain d m1 where p: "p = (d, m1)" by (cases p)
    obtain ds1 m2 where q: "deqs deq n m1 = (ds1, m2)" by (cases "deqs deq n m1")
    have "inv m1" "queue m = d # queue m1" using deq_queue [of m d m1] Suc Some p by auto
    then show ?thesis using Suc.IH [of m1 ds1 m2] Suc.prems Some p q by auto
  qed
qed simp

lemma transfer:
  assumes "inv m" "list_all fits ds" "length (queue m) + length ds \<le> cap"
  shows "\<exists>m'. enqs enq ds m = Some m' \<and> fst (deqs deq (length (queue m) + length ds) m') = queue m @ ds"
proof -
  obtain m' where m': "enqs enq ds m = Some m'" "inv m'" "queue m' = queue m @ ds"
    using enqs_queue [OF assms] by blast
  obtain r m'' where r: "deqs deq (length (queue m) + length ds) m' = (r, m'')"
    by (cases "deqs deq (length (queue m) + length ds) m'")
  then show ?thesis using m' deqs_queue [OF m'(2) r] by simp
qed

end

section \<open>Stores\<close>

text \<open>
  A store of values under keys: what a lookup finds after a write or a deletion. A sequence of
  writes and deletions leaves, at each key, the last thing written there.
\<close>

datatype ('k, 'v) update = Put 'k 'v | Del 'k

primrec update_key :: "('k, 'v) update \<Rightarrow> 'k" where
  "update_key (Put k v) = k"
| "update_key (Del k) = k"

primrec update_value :: "('k, 'v) update \<Rightarrow> 'v option" where
  "update_value (Put k v) = Some v"
| "update_value (Del k) = None"

locale kv_store =
  fixes lookup :: "'s \<Rightarrow> 'k \<Rightarrow> 'v option" and insert_at :: "'k \<Rightarrow> 'v \<Rightarrow> 's \<Rightarrow> 's" and delete_at :: "'k \<Rightarrow> 's \<Rightarrow> 's"
    and key_ok :: "'k \<Rightarrow> bool"
  assumes lookup_insert: "key_ok k \<Longrightarrow> lookup (insert_at k v s) k' = (if k' = k then Some v else lookup s k')"
    and lookup_delete: "lookup (delete_at k s) k' = (if k' = k then None else lookup s k')"
begin

definition apply_update :: "('k, 'v) update \<Rightarrow> 's \<Rightarrow> 's" where
  "apply_update w s = (case w of Put k v \<Rightarrow> insert_at k v s | Del k \<Rightarrow> delete_at k s)"

lemma lookup_update:
  "key_ok (update_key w) \<Longrightarrow> lookup (apply_update w s) k = (if k = update_key w then update_value w else lookup s k)"
  by (cases w) (simp_all add: apply_update_def lookup_insert lookup_delete)

lemma last_update_wins:
  "list_all (\<lambda>w. key_ok (update_key w)) ws \<Longrightarrow>
     lookup (run apply_update ws s) k =
       (case List.find (\<lambda>w. update_key w = k) (rev ws) of Some w \<Rightarrow> update_value w | None \<Rightarrow> lookup s k)"
proof (induction ws rule: rev_induct)
  case (snoc w ws)
  then show ?case by (auto simp: lookup_update)
qed simp

end

interpretation odict: kv_store "map_of" "dict_set" "dict_del" "\<lambda>_. True"
  by unfold_locales auto

end
