(* ===== verification/Dhcp_Server.thy ===== *)
theory Dhcp_Server
  imports Dhcp_Codec Transition
begin

text \<open>
  The lease table and the protocol engine of \<^verbatim>\<open>src/opt/ffn_dhcp_server.py\<close>
  (classes \<^verbatim>\<open>Leases\<close> and \<^verbatim>\<open>Server\<close>). Addresses are the integers of
  \<^verbatim>\<open>ipaddress.IPv4Address\<close>, MAC addresses and client identifiers their bytes, times
  integers. The state of the server holds the lease table in memory and the table last written
  by \<^verbatim>\<open>save\<close>. What a call takes from outside, the answer of the ARP probe, the UTF-8
  decoder, the random IP identification, is a record of arguments.
\<close>

section \<open>Leases\<close>

definition OFFER_SECONDS :: int where "OFFER_SECONDS = 60"
definition DECLINE_SECONDS :: int where "DECLINE_SECONDS = 600"
definition INFINITE :: nat where "INFINITE = 0xFFFFFFFF"
definition STATUS_LEASES :: nat where "STATUS_LEASES = 1024"

type_synonym ip4 = nat
type_synonym mac = bytes

text \<open>The client key, \<^verbatim>\<open>'id:' + hex\<close> of a client identifier or \<^verbatim>\<open>'mac:' + mac\<close>.\<close>

datatype client_key = IdKey bytes | MacKey mac

datatype lease_state = Offered | Bound | Declined

record lease_row =
  state :: lease_state
  key :: "client_key option"
  row_mac :: "mac option"
  hostname :: string
  since :: int
  expires :: "int option"

type_synonym lease_rows = "(ip4, lease_row) odict"

definition live :: "int \<Rightarrow> lease_row \<Rightarrow> bool" where
  "live now row = (case expires row of None \<Rightarrow> True | Some e \<Rightarrow> now < e)"

definition expire :: "int \<Rightarrow> lease_rows \<Rightarrow> bool \<times> lease_rows" where
  "expire now rs =
     (let stale = map fst (filter (\<lambda>(ip, row). \<not> live now row) rs)
      in (stale \<noteq> [], fold dict_del stale rs))"

fun held_by :: "client_key \<Rightarrow> lease_rows \<Rightarrow> (ip4 \<times> lease_row) option" where
  "held_by k [] = None"
| "held_by k ((ip, row) # rs) =
     (if key row = Some k \<and> state row \<in> {Offered, Bound} then Some (ip, row) else held_by k rs)"

section \<open>The server\<close>

record dhcp_options =
  gateway :: "ip4 option"
  subnet_mask :: "ip4 option"
  dns :: "ip4 list"
  ntp :: "ip4 list"
  wins :: "ip4 list"
  domain :: string

record server_spec =
  interface :: string
  address :: ip4
  prefixlen :: nat
  pools :: "(ip4 \<times> ip4) list"
  reserved :: "(mac, ip4) odict"
  lease :: "nat option"
  probe :: bool
  opts :: dhcp_options

record dhcp_server =
  spec :: server_spec
  mac :: mac
  rows :: lease_rows
  disk :: lease_rows
  counters :: "string \<Rightarrow> nat"
  last_event :: "int option"

record dhcp_env =
  answers :: "ip4 \<Rightarrow> bool"
  decode :: "bytes \<Rightarrow> string"
  ident :: nat

definition network_size :: "server_spec \<Rightarrow> nat" where
  "network_size sp = 2 ^ (32 - prefixlen sp)"

definition network_address :: "server_spec \<Rightarrow> ip4" where
  "network_address sp = address sp div network_size sp * network_size sp"

definition broadcast_address :: "server_spec \<Rightarrow> ip4" where
  "broadcast_address sp = network_address sp + network_size sp - 1"

definition netmask :: "server_spec \<Rightarrow> ip4" where
  "netmask sp = 2 ^ 32 - network_size sp"

definition in_network :: "ip4 \<Rightarrow> server_spec \<Rightarrow> bool" where
  "in_network ip sp \<longleftrightarrow> network_address sp \<le> ip \<and> ip \<le> broadcast_address sp"

definition packed :: "ip4 \<Rightarrow> bytes" where
  "packed ip = to_be 4 ip"

definition server_ip :: "server_spec \<Rightarrow> bytes" where
  "server_ip sp = packed (address sp)"

definition reserved_ips :: "server_spec \<Rightarrow> ip4 set" where
  "reserved_ips sp = snd ` set (reserved sp)"

definition count :: "string \<Rightarrow> dhcp_server \<Rightarrow> dhcp_server" where
  "count name s = s\<lparr>counters := (counters s)(name := counters s name + 1)\<rparr>"

definition save :: "dhcp_server \<Rightarrow> dhcp_server" where
  "save s = s\<lparr>disk := rows s\<rparr>"

subsection \<open>Allocation\<close>

definition in_pool :: "server_spec \<Rightarrow> ip4 \<Rightarrow> bool" where
  "in_pool sp ip = (\<exists>(a, b) \<in> set (pools sp). a \<le> ip \<and> ip \<le> b)"

definition candidates :: "server_spec \<Rightarrow> ip4 list" where
  "candidates sp = concat (map (\<lambda>(a, b). filter (\<lambda>ip. ip \<notin> reserved_ips sp) [a ..< b + 1]) (pools sp))"

definition conflict_row :: "int \<Rightarrow> lease_row" where
  "conflict_row now = \<lparr>state = Declined, key = None, row_mac = None, hostname = [], since = now,
     expires = Some (now + DECLINE_SECONDS)\<rparr>"

definition taken :: "client_key \<Rightarrow> lease_rows \<Rightarrow> ip4 \<Rightarrow> bool" where
  "taken k rs ip = (case map_of rs ip of None \<Rightarrow> False | Some row \<Rightarrow> key row \<noteq> Some k)"

fun alloc_loop :: "dhcp_env \<Rightarrow> client_key \<Rightarrow> int \<Rightarrow> ip4 list \<Rightarrow> dhcp_server \<Rightarrow> ip4 option \<times> dhcp_server" where
  "alloc_loop env k now [] s = (None, s)"
| "alloc_loop env k now (ip # ips) s =
     (if taken k (rows s) ip then alloc_loop env k now ips s
      else if probe (spec s) \<and> answers env ip
      then alloc_loop env k now ips (count ''conflict'' (s\<lparr>rows := dict_set ip (conflict_row now) (rows s)\<rparr>))
      else (Some ip, s))"

definition allocate ::
  "dhcp_env \<Rightarrow> client_key \<Rightarrow> mac \<Rightarrow> ip4 option \<Rightarrow> int \<Rightarrow> dhcp_server \<Rightarrow> ip4 option \<times> dhcp_server" where
  "allocate env k m requested now s =
     (case map_of (reserved (spec s)) m of
        Some ip \<Rightarrow> (Some ip, s)
      | None \<Rightarrow>
          (case held_by k (rows s) of
             Some (held, _) \<Rightarrow> (Some held, s)
           | None \<Rightarrow>
               (let wanted = (case requested of
                       None \<Rightarrow> []
                     | Some r \<Rightarrow> if in_pool (spec s) r \<and> r \<notin> reserved_ips (spec s) then [r] else [])
                in alloc_loop env k now (wanted @ candidates (spec s)) s)))"

definition bind_row ::
  "server_spec \<Rightarrow> client_key \<Rightarrow> mac \<Rightarrow> string \<Rightarrow> int \<Rightarrow> lease_state \<Rightarrow> lease_row" where
  "bind_row sp k m host now st =
     \<lparr>state = st, key = Some k, row_mac = Some m, hostname = host, since = now,
      expires = (if st = Bound \<and> lease sp = None then None
                 else if st = Bound then Some (now + int (the (lease sp)))
                 else Some (now + OFFER_SECONDS))\<rparr>"

definition bind ::
  "ip4 \<Rightarrow> client_key \<Rightarrow> mac \<Rightarrow> string \<Rightarrow> int \<Rightarrow> lease_state \<Rightarrow> dhcp_server \<Rightarrow> dhcp_server" where
  "bind ip k m host now st s =
     save (s\<lparr>rows := dict_set ip (bind_row (spec s) k m host now st) (rows s)\<rparr>)"

definition release :: "ip4 \<Rightarrow> client_key \<Rightarrow> dhcp_server \<Rightarrow> bool \<times> dhcp_server" where
  "release ip k s =
     (case map_of (rows s) ip of
        Some row \<Rightarrow> if key row = Some k then (True, save (s\<lparr>rows := dict_del ip (rows s)\<rparr>)) else (False, s)
      | None \<Rightarrow> (False, s))"

subsection \<open>Replies\<close>

definition lease_options :: "server_spec \<Rightarrow> bool \<Rightarrow> bytes" where
  "lease_options sp with_lease =
     (if with_lease then
        dhcp_option 51 (to_be 4 (case lease sp of None \<Rightarrow> INFINITE | Some n \<Rightarrow> n))
        @ (case lease sp of None \<Rightarrow> []
           | Some n \<Rightarrow> dhcp_option 58 (to_be 4 (n div 2)) @ dhcp_option 59 (to_be 4 (n * 7 div 8)))
      else [])
     @ dhcp_option 1 (packed (case subnet_mask (opts sp) of None \<Rightarrow> netmask sp | Some m \<Rightarrow> m))
     @ dhcp_option 28 (packed (broadcast_address sp))
     @ dhcp_option 3 (packed (case gateway (opts sp) of None \<Rightarrow> address sp | Some g \<Rightarrow> g))
     @ concat (map (\<lambda>(tag, vs). if vs = [] then [] else dhcp_option tag (concat (map packed vs)))
         [(6, dns (opts sp)), (42, ntp (opts sp)), (44, wins (opts sp))])
     @ (if domain (opts sp) = [] then [] else dhcp_option 15 (map of_char (domain (opts sp))))"

definition reply :: "dhcp_env \<Rightarrow> dhcp_server \<Rightarrow> nat \<Rightarrow> dhcp_message \<Rightarrow> bytes \<Rightarrow> bytes \<Rightarrow> bytes" where
  "reply env s kind m yi os =
     (let (dst_mac, dst_ip) =
        (if kind = NAK \<or> flags m div 0x8000 mod 2 = 1 \<and> ciaddr m = replicate 4 0
         then (BROADCAST_MAC, replicate 4 0xff)
         else if ciaddr m \<noteq> replicate 4 0 then (src_mac m, ciaddr m)
         else (chaddr m, yi));
        os' = (case options m 61 of Some v \<Rightarrow> if kind \<noteq> NAK then os @ dhcp_option 61 v else os | None \<Rightarrow> os)
      in build (ident env) kind m (server_ip (spec s)) (mac s) yi os' dst_mac dst_ip)"

definition nak :: "dhcp_env \<Rightarrow> dhcp_message \<Rightarrow> string \<Rightarrow> dhcp_server \<Rightarrow> dhcp_server \<times> bytes list" where
  "nak env m reason s =
     (let s = count ''nak'' s
      in (s, [reply env s NAK m (replicate 4 0) (dhcp_option 56 (take 64 (map of_char reason)))]))"

definition offered_to :: "dhcp_server \<Rightarrow> ip4 \<Rightarrow> client_key \<Rightarrow> mac \<Rightarrow> bool \<Rightarrow> bool" where
  "offered_to s ip k m bound_only =
     (if map_of (reserved (spec s)) m = Some ip then True
      else if ip \<in> reserved_ips (spec s) then False
      else case map_of (rows s) ip of
          None \<Rightarrow> False
        | Some row \<Rightarrow> key row = Some k \<and> (state row = Bound \<or> \<not> bound_only \<and> state row = Offered))"

subsection \<open>Handling a message\<close>

definition client_key_of :: "dhcp_message \<Rightarrow> client_key" where
  "client_key_of m = (case options m 61 of Some (b # bs) \<Rightarrow> IdKey (b # bs) | _ \<Rightarrow> MacKey (chaddr m))"

definition host_of :: "dhcp_env \<Rightarrow> dhcp_message \<Rightarrow> string" where
  "host_of env m = take 64 (decode env (case options m 12 of None \<Rightarrow> [] | Some v \<Rightarrow> v))"

definition requested_of :: "dhcp_message \<Rightarrow> ip4 option" where
  "requested_of m = (case options m 50 of Some v \<Rightarrow> if length v = 4 then Some (from_be v) else None | None \<Rightarrow> None)"

definition ciaddr_of :: "dhcp_message \<Rightarrow> ip4 option" where
  "ciaddr_of m = (if ciaddr m \<noteq> replicate 4 0 then Some (from_be (ciaddr m)) else None)"

definition handle_discover ::
  "dhcp_env \<Rightarrow> int \<Rightarrow> dhcp_message \<Rightarrow> dhcp_server \<Rightarrow> dhcp_server \<times> bytes list" where
  "handle_discover env now m s =
     (let (found, s) = allocate env (client_key_of m) (chaddr m) (requested_of m) now s in
      case found of
        None \<Rightarrow> (count ''exhausted'' s, [])
      | Some ip \<Rightarrow>
          (let s = count ''offer'' (bind ip (client_key_of m) (chaddr m) (host_of env m) now Offered s)
           in (s, [reply env s OFFER m (packed ip) (lease_options (spec s) True)])))"

definition grant ::
  "dhcp_env \<Rightarrow> int \<Rightarrow> dhcp_message \<Rightarrow> ip4 \<Rightarrow> dhcp_server \<Rightarrow> dhcp_server \<times> bytes list" where
  "grant env now m target s =
     (let s = count ''ack'' (bind target (client_key_of m) (chaddr m) (host_of env m) now Bound s)
      in (s, [reply env s ACK m (packed target) (lease_options (spec s) True)]))"

definition handle_request ::
  "dhcp_env \<Rightarrow> int \<Rightarrow> dhcp_message \<Rightarrow> dhcp_server \<Rightarrow> dhcp_server \<times> bytes list" where
  "handle_request env now m s =
     (let k = client_key_of m; hw = chaddr m in
      case options m 54 of
        Some server \<Rightarrow>
          if server \<noteq> server_ip (spec s) then
            (count ''other_server''
               (case held_by k (rows s) of
                  Some (held, row) \<Rightarrow> if state row = Offered then snd (release held k s) else s
                | None \<Rightarrow> s), [])
          else (case requested_of m of
              None \<Rightarrow> nak env m ''requested address was not offered'' s
            | Some target \<Rightarrow>
                if offered_to s target k hw False then grant env now m target s
                else nak env m ''requested address was not offered'' s)
      | None \<Rightarrow>
          (case requested_of m of
             Some target \<Rightarrow>
               if \<not> in_network target (spec s) then nak env m ''wrong network'' s
               else if offered_to s target k hw True then grant env now m target s
               else nak env m ''address is not leased to this client'' s
           | None \<Rightarrow>
               (case ciaddr_of m of
                  Some target \<Rightarrow>
                    if in_network target (spec s) \<and> offered_to s target k hw True then grant env now m target s
                    else nak env m ''lease is not held by this client'' s
                | None \<Rightarrow> (count ''ignored'' s, []))))"

definition declined_row :: "mac \<Rightarrow> int \<Rightarrow> lease_row" where
  "declined_row m now = \<lparr>state = Declined, key = None, row_mac = Some m, hostname = [], since = now,
     expires = Some (now + DECLINE_SECONDS)\<rparr>"

definition handle_decline ::
  "int \<Rightarrow> dhcp_message \<Rightarrow> dhcp_server \<Rightarrow> dhcp_server \<times> bytes list" where
  "handle_decline now m s =
     (case requested_of m of
        Some ip \<Rightarrow> if in_pool (spec s) ip
          then (save (s\<lparr>rows := dict_set ip (declined_row (chaddr m) now) (rows s)\<rparr>), []) else (s, [])
      | None \<Rightarrow> (s, []))"

definition handle_release :: "dhcp_message \<Rightarrow> dhcp_server \<Rightarrow> dhcp_server \<times> bytes list" where
  "handle_release m s =
     (case ciaddr_of m of Some ip \<Rightarrow> (snd (release ip (client_key_of m) s), []) | None \<Rightarrow> (s, []))"

definition handle_inform :: "dhcp_env \<Rightarrow> dhcp_message \<Rightarrow> dhcp_server \<Rightarrow> dhcp_server \<times> bytes list" where
  "handle_inform env m s =
     (case ciaddr_of m of
        None \<Rightarrow> (count ''ignored'' s, [])
      | Some _ \<Rightarrow> (let s = count ''ack'' s
                  in (s, [reply env s ACK m (replicate 4 0) (lease_options (spec s) False)])))"

definition NAMES :: "nat \<Rightarrow> string" where
  "NAMES kind =
     (if kind = DISCOVER then ''discover'' else if kind = OFFER then ''offer''
      else if kind = REQUEST then ''request'' else if kind = DECLINE then ''decline''
      else if kind = ACK then ''ack'' else if kind = NAK then ''nak''
      else if kind = RELEASE then ''release'' else ''inform'')"

definition expire_rows :: "int \<Rightarrow> dhcp_server \<Rightarrow> dhcp_server" where
  "expire_rows now s =
     (let (any, rs) = expire now (rows s) in if any then save (s\<lparr>rows := rs\<rparr>) else s\<lparr>rows := rs\<rparr>)"

definition handle_message ::
  "dhcp_env \<Rightarrow> int \<Rightarrow> dhcp_message \<Rightarrow> dhcp_server \<Rightarrow> dhcp_server \<times> bytes list" where
  "handle_message env now m s =
     (if mtype m = DISCOVER then handle_discover env now m s
      else if mtype m = REQUEST then handle_request env now m s
      else if mtype m = DECLINE then handle_decline now m s
      else if mtype m = RELEASE then handle_release m s
      else if mtype m = INFORM then handle_inform env m s
      else (s, []))"

definition note_message :: "int \<Rightarrow> dhcp_message \<Rightarrow> dhcp_server \<Rightarrow> dhcp_server" where
  "note_message now m s = (count (NAMES (mtype m)) (expire_rows now s))\<lparr>last_event := Some now\<rparr>"

definition handle :: "dhcp_env \<Rightarrow> int \<Rightarrow> bytes \<Rightarrow> dhcp_server \<Rightarrow> dhcp_server \<times> bytes list" where
  "handle env now frame s =
     (case parse frame of
        None \<Rightarrow> (s, [])
      | Some m \<Rightarrow>
          (let s = note_message now m s
           in if giaddr m \<noteq> replicate 4 0 then (count ''relayed'' s, [])
              else handle_message env now m s))"

subsection \<open>The status view\<close>

record lease_view =
  view_ip :: ip4
  view_mac :: "mac option"
  view_hostname :: string
  view_state :: lease_state
  view_since :: int
  view_expires :: "int option"

record server_summary =
  pool_size :: int
  reserved_count :: nat
  bound :: nat
  offered :: nat
  declined :: nat
  leases :: "lease_view list"

definition count_state :: "lease_state \<Rightarrow> lease_rows \<Rightarrow> nat" where
  "count_state st rs = length (filter (\<lambda>(ip, row). state row = st) rs)"

definition view_row :: "ip4 \<times> lease_row \<Rightarrow> lease_view" where
  "view_row = (\<lambda>(ip, row). \<lparr>view_ip = ip, view_mac = row_mac row, view_hostname = hostname row, view_state = state row,
     view_since = since row, view_expires = expires row\<rparr>)"

definition summary :: "dhcp_server \<Rightarrow> server_summary" where
  "summary s =
     (let rs = sort_key fst (rows s)
      in \<lparr>pool_size = sum_list (map (\<lambda>(a, b). int b - int a + 1) (pools (spec s))),
          reserved_count = length (reserved (spec s)),
          bound = count_state Bound rs, offered = count_state Offered rs, declined = count_state Declined rs,
          leases = map view_row (take STATUS_LEASES rs)\<rparr>)"

text \<open>
  A restart: \<^verbatim>\<open>Leases.__init__\<close> reads the table last saved, \<^verbatim>\<open>Server.__init__\<close>
  starts with zero counters.
\<close>

definition restart :: "dhcp_server \<Rightarrow> dhcp_server" where
  "restart s = s\<lparr>rows := disk s, counters := (\<lambda>_. 0), last_event := None\<rparr>"

section \<open>The lease table\<close>

lemma count_fields [simp]:
  "rows (count n s) = rows s" "disk (count n s) = disk s" "spec (count n s) = spec s" "mac (count n s) = mac s"
  by (simp_all add: count_def)

lemma save_fields [simp]:
  "rows (save s) = rows s" "disk (save s) = rows s" "spec (save s) = spec s" "mac (save s) = mac s"
  by (simp_all add: save_def)

lemma map_of_dict_dels: "map_of (fold dict_del ks d) k = (if k \<in> set ks then None else map_of d k)"
  by (induction ks arbitrary: d) auto

lemma distinct_dict_dels: "distinct (map fst d) \<Longrightarrow> distinct (map fst (fold dict_del ks d))"
  by (induction ks arbitrary: d) (auto intro: distinct_dict_del)

lemma map_of_expire:
  assumes "distinct (map fst rs)"
  shows "map_of (snd (expire now rs)) ip
    = (case map_of rs ip of Some row \<Rightarrow> if live now row then Some row else None | None \<Rightarrow> None)"
proof (cases "map_of rs ip")
  case None
  then have "ip \<notin> fst ` set rs" by (simp add: map_of_eq_None_iff)
  with None show ?thesis by (auto simp: expire_def Let_def map_of_dict_dels)
next
  case (Some row)
  then have "ip \<in> set (map fst (filter (\<lambda>(ip, row). \<not> live now row) rs)) \<longleftrightarrow> \<not> live now row"
    using assms by (force simp: image_iff dest: map_of_SomeD eq_key_imp_eq_value)
  then show ?thesis using Some by (simp add: expire_def Let_def map_of_dict_dels)
qed

lemma expire_nothing: "fst (expire now rs) = False \<Longrightarrow> snd (expire now rs) = rs"
  by (simp add: expire_def Let_def)

lemma held_by_Some:
  "held_by k rs = Some (ip, row) \<Longrightarrow> distinct (map fst rs) \<Longrightarrow>
     map_of rs ip = Some row \<and> key row = Some k \<and> state row \<in> {Offered, Bound}"
proof (induction k rs rule: held_by.induct)
  case (2 k ip' row' rs)
  show ?case
  proof (cases "key row' = Some k \<and> state row' \<in> {Offered, Bound}")
    case True
    then show ?thesis using 2 by auto
  next
    case False
    then have "held_by k rs = Some (ip, row)" using 2 by (simp split: if_splits)
    then have *: "map_of rs ip = Some row \<and> key row = Some k \<and> state row \<in> {Offered, Bound}"
      using 2 False by simp
    then have "ip \<in> fst ` set rs" using map_of_SomeD by force
    then have "ip \<noteq> ip'" using 2 by auto
    then show ?thesis using * by simp
  qed
qed simp

lemma held_by_None: "held_by k rs = None \<Longrightarrow> (ip, row) \<in> set rs \<Longrightarrow> key row = Some k \<Longrightarrow> state row = Declined"
  by (induction k rs rule: held_by.induct) (auto split: if_splits intro: lease_state.exhaust)

subsection \<open>The invariant\<close>

text \<open>
  A declined row belongs to nobody, offered and bound rows to a client; only a bound row may be
  unlimited. Every bound row in memory is the row on disk.
\<close>

definition wf_row :: "lease_row \<Rightarrow> bool" where
  "wf_row row \<longleftrightarrow> (state row = Declined \<longleftrightarrow> key row = None) \<and> (state row \<noteq> Bound \<longrightarrow> expires row \<noteq> None)"

definition wf_rows :: "lease_rows \<Rightarrow> bool" where
  "wf_rows rs \<longleftrightarrow> distinct (map fst rs) \<and> (\<forall>ip row. map_of rs ip = Some row \<longrightarrow> wf_row row)"

definition durable :: "dhcp_server \<Rightarrow> bool" where
  "durable s \<longleftrightarrow> (\<forall>ip row. map_of (rows s) ip = Some row \<longrightarrow> state row = Bound \<longrightarrow> map_of (disk s) ip = Some row)"

definition lease_inv :: "dhcp_server \<Rightarrow> bool" where
  "lease_inv s \<longleftrightarrow> wf_rows (rows s) \<and> durable s"

lemma wf_rows_set: "wf_rows rs \<Longrightarrow> wf_row row \<Longrightarrow> wf_rows (dict_set ip row rs)"
  by (auto simp: wf_rows_def distinct_dict_set)

lemma wf_rows_del: "wf_rows rs \<Longrightarrow> wf_rows (dict_del ip rs)"
  by (auto simp: wf_rows_def distinct_dict_del split: if_splits)

lemma wf_rows_expire: "wf_rows rs \<Longrightarrow> wf_rows (snd (expire now rs))"
proof -
  assume wf: "wf_rows rs"
  then have "distinct (map fst (snd (expire now rs)))"
    by (simp add: expire_def Let_def distinct_dict_dels wf_rows_def)
  with wf show ?thesis by (auto simp: wf_rows_def map_of_expire split: option.splits if_splits)
qed

lemma inv_count [simp]: "lease_inv (count n s) = lease_inv s"
  by (simp add: lease_inv_def durable_def)

lemma inv_last_event [simp]: "lease_inv (s\<lparr>last_event := t\<rparr>) = lease_inv s"
  by (simp add: lease_inv_def durable_def)

lemma inv_save: "wf_rows (rows s) \<Longrightarrow> lease_inv (save s)"
  by (simp add: lease_inv_def durable_def)

lemma inv_set_unbound:
  "lease_inv s \<Longrightarrow> wf_row row \<Longrightarrow> state row \<noteq> Bound \<Longrightarrow> lease_inv (s\<lparr>rows := dict_set ip row (rows s)\<rparr>)"
  by (auto simp: lease_inv_def durable_def wf_rows_set split: if_splits)

lemma wf_rows_of_inv: "lease_inv s \<Longrightarrow> wf_rows (rows s)"
  by (simp add: lease_inv_def)

lemma distinct_of_inv: "lease_inv s \<Longrightarrow> distinct (map fst (rows s))"
  by (simp add: lease_inv_def wf_rows_def)

lemma wf_new_rows [simp]:
  "wf_row (conflict_row now)" "wf_row (declined_row m now)" "wf_row (bind_row sp k m host now st) \<longleftrightarrow> st \<noteq> Declined"
  by (auto simp: wf_row_def conflict_row_def declined_row_def bind_row_def)

subsection \<open>Allocation\<close>

text \<open>
  The search keeps everything but the addresses that answered a probe, and it only touches
  addresses without a row of another client.
\<close>

lemma alloc_loop_cases [consumes 0, case_names taken conflict free]:
  assumes "taken k (rows s) ip \<Longrightarrow> P"
    and "\<not> taken k (rows s) ip \<Longrightarrow> probe (spec s) \<and> answers env ip \<Longrightarrow> P"
    and "\<not> taken k (rows s) ip \<Longrightarrow> \<not> (probe (spec s) \<and> answers env ip) \<Longrightarrow> P"
  shows P
  using assms by blast

lemma taken_set: "taken k (dict_set ip row rs) ip' = (if ip' = ip then key row \<noteq> Some k else taken k rs ip')"
  by (simp add: taken_def)

definition keeps :: "client_key \<Rightarrow> dhcp_server \<Rightarrow> dhcp_server \<Rightarrow> bool" where
  "keeps k s s' \<longleftrightarrow> spec s' = spec s \<and> mac s' = mac s \<and> disk s' = disk s \<and> (lease_inv s \<longrightarrow> lease_inv s')
     \<and> (\<forall>ip row. map_of (rows s) ip = Some row \<longrightarrow> key row \<noteq> Some k \<longrightarrow> map_of (rows s') ip = Some row)"

lemma keeps_refl: "keeps k s s"
  by (simp add: keeps_def)

lemma keeps_trans: "keeps k s t \<Longrightarrow> keeps k t u \<Longrightarrow> keeps k s u"
  by (simp add: keeps_def)

lemma keeps_conflict:
  assumes "\<not> taken k (rows s) ip"
  shows "keeps k s (count ''conflict'' (s\<lparr>rows := dict_set ip (conflict_row now) (rows s)\<rparr>))"
proof -
  have "state (conflict_row now) \<noteq> Bound" by (simp add: conflict_row_def)
  then show ?thesis using assms inv_set_unbound [of s "conflict_row now" ip]
    by (auto simp: keeps_def taken_def)
qed

lemma alloc_loop_keeps: "alloc_loop env k now ips s = (r, s') \<Longrightarrow> keeps k s s'"
proof (induction env k now ips s rule: alloc_loop.induct)
  case (2 env k now ip ips s)
  show ?case
  proof (cases rule: alloc_loop_cases [of k s ip _ env])
    case conflict
    then show ?thesis using 2 keeps_trans [OF keeps_conflict] by simp
  qed (use 2 keeps_refl in \<open>auto split: if_splits\<close>)
qed (simp add: keeps_refl)

lemma alloc_loop_found:
  "alloc_loop env k now ips s = (Some ip, s') \<Longrightarrow>
     ip \<in> set ips \<and> \<not> taken k (rows s) ip \<and> (probe (spec s) \<longrightarrow> \<not> answers env ip)"
proof (induction env k now ips s rule: alloc_loop.induct)
  case (2 env k now ip' ips s)
  show ?case
  proof (cases rule: alloc_loop_cases [of k s ip' _ env])
    case conflict
    then show ?thesis using 2 by (auto simp: taken_set conflict_row_def split: if_splits)
  qed (use 2 in auto)
qed simp

lemma alloc_loop_none:
  "alloc_loop env k now ips s = (None, s') \<Longrightarrow> ip \<in> set ips \<Longrightarrow>
     probe (spec s) \<and> answers env ip \<or> taken k (rows s) ip"
proof (induction env k now ips s rule: alloc_loop.induct)
  case (2 env k now ip' ips s)
  show ?case
  proof (cases rule: alloc_loop_cases [of k s ip' _ env])
    case conflict
    then show ?thesis using 2 by (auto simp: taken_set split: if_splits)
  qed (use 2 in auto)
qed simp

lemma candidates_iff: "ip \<in> set (candidates sp) \<longleftrightarrow> in_pool sp ip \<and> ip \<notin> reserved_ips sp"
  by (auto simp: candidates_def in_pool_def less_Suc_eq_le simp del: upt_Suc)

lemma allocate_keeps:
  assumes "allocate env k m req now s = (r, s')"
  shows "keeps k s s'"
proof (cases "map_of (reserved (spec s)) m")
  case nr: None
  show ?thesis
  proof (cases "held_by k (rows s)")
    case None
    with assms nr alloc_loop_keeps show ?thesis unfolding allocate_def Let_def by simp
  qed (use assms nr in \<open>simp add: allocate_def keeps_refl split: prod.splits\<close>)
qed (use assms in \<open>simp add: allocate_def keeps_refl\<close>)

lemma allocate_found:
  assumes "allocate env k m req now s = (Some ip, s')" "lease_inv s"
  shows "map_of (reserved (spec s)) m = Some ip
     \<or> map_of (reserved (spec s)) m = None \<and> (\<exists>row. map_of (rows s) ip = Some row \<and> key row = Some k \<and> state row \<noteq> Declined)
     \<or> map_of (reserved (spec s)) m = None \<and> in_pool (spec s) ip \<and> ip \<notin> reserved_ips (spec s)
        \<and> map_of (rows s) ip = None \<and> (probe (spec s) \<longrightarrow> \<not> answers env ip)"
proof (cases "map_of (reserved (spec s)) m")
  case (Some a)
  then show ?thesis using assms by (simp add: allocate_def)
next
  case nr: None
  show ?thesis
  proof (cases "held_by k (rows s)")
    case (Some h)
    then show ?thesis using assms nr held_by_Some [OF _ distinct_of_inv [OF assms(2)], of k]
      by (auto simp: allocate_def split: prod.splits)
  next
    case None
    let ?w = "case req of None \<Rightarrow> [] | Some r \<Rightarrow> if in_pool (spec s) r \<and> r \<notin> reserved_ips (spec s) then [r] else []"
    have loop: "alloc_loop env k now (?w @ candidates (spec s)) s = (Some ip, s')"
      using assms(1) nr None by (simp add: allocate_def)
    note found = alloc_loop_found [OF this]
    have "map_of (rows s) ip = None"
    proof (rule ccontr)
      assume "map_of (rows s) ip \<noteq> None"
      then obtain row where row: "map_of (rows s) ip = Some row" by auto
      then have "key row = Some k" using found by (simp add: taken_def)
      moreover have "state row = Declined"
        using held_by_None [OF None map_of_SomeD [OF row]] \<open>key row = Some k\<close> .
      ultimately show False using row assms(2) by (auto simp: lease_inv_def wf_rows_def wf_row_def)
    qed
    moreover have "in_pool (spec s) ip \<and> ip \<notin> reserved_ips (spec s)"
      using found by (auto simp: candidates_iff split: option.splits if_splits)
    ultimately show ?thesis using found nr by blast
  qed
qed

lemma allocate_none:
  assumes "allocate env k m req now s = (None, t)" "ip \<in> set (candidates (spec s))"
  shows "probe (spec s) \<and> answers env ip \<or> taken k (rows s) ip"
proof (cases "map_of (reserved (spec s)) m")
  case nr: None
  show ?thesis
  proof (cases "held_by k (rows s)")
    case None
    with assms(1) nr obtain w where "alloc_loop env k now (w @ candidates (spec s)) s = (None, t)"
      by (simp add: allocate_def)
    then show ?thesis by (rule alloc_loop_none) (simp add: assms(2))
  qed (use assms nr in \<open>auto simp: allocate_def\<close>)
qed (use assms in \<open>simp add: allocate_def\<close>)

subsection \<open>The handlers\<close>

lemma expire_rows_fields [simp]:
  "spec (expire_rows now s) = spec s" "mac (expire_rows now s) = mac s"
  by (simp_all add: expire_rows_def split: prod.splits)

lemma rows_expire_rows: "rows (expire_rows now s) = snd (expire now (rows s))"
  by (simp add: expire_rows_def split: prod.splits)

lemma inv_expire_rows: "lease_inv s \<Longrightarrow> lease_inv (expire_rows now s)"
proof (cases "fst (expire now (rows s))")
  case True
  assume "lease_inv s"
  then have "wf_rows (snd (expire now (rows s)))" by (simp add: wf_rows_expire wf_rows_of_inv)
  then show ?thesis using True by (simp add: expire_rows_def inv_save split_beta)
next
  case False
  assume "lease_inv s"
  then show ?thesis using False expire_nothing [of now "rows s"]
    by (auto simp: expire_rows_def lease_inv_def durable_def split_beta)
qed

lemma note_message_fields [simp]:
  "spec (note_message now m s) = spec s" "mac (note_message now m s) = mac s"
  "rows (note_message now m s) = snd (expire now (rows s))"
  by (simp_all add: note_message_def rows_expire_rows)

lemma inv_note_message: "lease_inv s \<Longrightarrow> lease_inv (note_message now m s)"
  by (simp add: note_message_def inv_expire_rows)

lemma bind_fields [simp]:
  "spec (bind ip k m h now st s) = spec s" "mac (bind ip k m h now st s) = mac s"
  "rows (bind ip k m h now st s) = dict_set ip (bind_row (spec s) k m h now st) (rows s)"
  "disk (bind ip k m h now st s) = dict_set ip (bind_row (spec s) k m h now st) (rows s)"
  by (simp_all add: bind_def)

lemma inv_bind: "lease_inv s \<Longrightarrow> st \<noteq> Declined \<Longrightarrow> lease_inv (bind ip k m h now st s)"
  by (simp add: bind_def inv_save wf_rows_set wf_rows_of_inv)

lemma release_keeps:
  "spec (snd (release ip k s)) = spec s \<and> mac (snd (release ip k s)) = mac s
   \<and> (lease_inv s \<longrightarrow> lease_inv (snd (release ip k s)))
   \<and> (\<forall>ip' row. map_of (rows s) ip' = Some row \<longrightarrow> key row \<noteq> Some k \<longrightarrow> map_of (rows (snd (release ip k s))) ip' = Some row)"
  by (auto simp: release_def inv_save wf_rows_del wf_rows_of_inv split: option.splits)

lemma nak_fields [simp]:
  "rows (fst (nak env m why s)) = rows s" "spec (fst (nak env m why s)) = spec s" "mac (fst (nak env m why s)) = mac s"
  "lease_inv (fst (nak env m why s)) = lease_inv s"
  by (simp_all add: nak_def Let_def)

lemma grant_fields [simp]:
  "rows (fst (grant env now m ip s)) = dict_set ip (bind_row (spec s) (client_key_of m) (chaddr m) (host_of env m) now Bound) (rows s)"
  "spec (fst (grant env now m ip s)) = spec s" "mac (fst (grant env now m ip s)) = mac s"
  by (simp_all add: grant_def Let_def)

lemma inv_grant: "lease_inv s \<Longrightarrow> lease_inv (fst (grant env now m ip s))"
  by (simp add: grant_def Let_def inv_bind)

text \<open>The outcomes of a request.\<close>

lemma handle_request_cases:
  obtains (granted) target where "handle_request env now m s = grant env now m target s"
      "\<exists>b. offered_to s target (client_key_of m) (chaddr m) b"
      "requested_of m = Some target \<or> options m 54 = None \<and> ciaddr_of m = Some target"
  | (refused) why where "handle_request env now m s = nak env m why s"
  | (other) ip row where "handle_request env now m s = (count ''other_server'' (snd (release ip (client_key_of m) s)), [])"
      "held_by (client_key_of m) (rows s) = Some (ip, row)" "state row = Offered"
  | (silent) n where "handle_request env now m s = (count n s, [])"
proof (cases "options m 54")
  case (Some server)
  consider "server \<noteq> server_ip (spec s)" "held_by (client_key_of m) (rows s) = None"
    | h row where "server \<noteq> server_ip (spec s)" "held_by (client_key_of m) (rows s) = Some (h, row)"
    | "server = server_ip (spec s)" "requested_of m = None"
    | t where "server = server_ip (spec s)" "requested_of m = Some t"
    by (cases "held_by (client_key_of m) (rows s)"; cases "requested_of m") auto
  then show ?thesis
  proof cases
    case (2 h row)
    then show ?thesis using Some other silent
      by (cases "state row = Offered") (auto simp: handle_request_def Let_def)
  next
    case (4 t)
    then show ?thesis using Some granted [of t] refused
      by (cases "offered_to s t (client_key_of m) (chaddr m) False") (auto simp: handle_request_def Let_def)
  qed (use Some silent refused in \<open>auto simp: handle_request_def Let_def\<close>)
next
  case n54: None
  show ?thesis
  proof (cases "requested_of m")
    case (Some t)
    then show ?thesis using n54 granted [of t] refused
      by (cases "in_network t (spec s)"; cases "offered_to s t (client_key_of m) (chaddr m) True")
        (auto simp: handle_request_def Let_def)
  next
    case nr: None
    show ?thesis
    proof (cases "ciaddr_of m")
      case (Some t)
      then show ?thesis using n54 nr granted [of t] refused
        by (cases "in_network t (spec s) \<and> offered_to s t (client_key_of m) (chaddr m) True")
          (auto simp: handle_request_def Let_def)
    qed (use n54 nr silent in \<open>auto simp: handle_request_def Let_def\<close>)
  qed
qed

lemma handle_discover_cases:
  obtains (offered) ip t where "allocate env (client_key_of m) (chaddr m) (requested_of m) now s = (Some ip, t)"
      "handle_discover env now m s = (let u = count ''offer'' (bind ip (client_key_of m) (chaddr m) (host_of env m) now Offered t)
         in (u, [reply env u OFFER m (packed ip) (lease_options (spec u) True)]))"
  | (exhausted) t where "allocate env (client_key_of m) (chaddr m) (requested_of m) now s = (None, t)"
      "handle_discover env now m s = (count ''exhausted'' t, [])"
proof (cases "allocate env (client_key_of m) (chaddr m) (requested_of m) now s")
  case (Pair found t)
  then show ?thesis using offered exhausted by (cases found) (auto simp: handle_discover_def)
qed

lemma types_distinct [simp]:
  "REQUEST \<noteq> DISCOVER" "DECLINE \<noteq> DISCOVER" "DECLINE \<noteq> REQUEST"
  "RELEASE \<noteq> DISCOVER" "RELEASE \<noteq> REQUEST" "RELEASE \<noteq> DECLINE"
  "INFORM \<noteq> DISCOVER" "INFORM \<noteq> REQUEST" "INFORM \<noteq> DECLINE" "INFORM \<noteq> RELEASE"
  by (simp_all add: message_types)

section \<open>Every message keeps the invariant\<close>

lemma inv_handle_message:
  assumes "lease_inv s"
  shows "lease_inv (fst (handle_message env now m s))"
proof -
  have "lease_inv (fst (handle_discover env now m s))"
    using assms allocate_keeps by (cases rule: handle_discover_cases [of env m now s])
      (auto simp: keeps_def Let_def intro!: inv_bind)
  moreover have "lease_inv (fst (handle_request env now m s))"
    using assms release_keeps by (cases rule: handle_request_cases [of env now m s]) (auto simp: inv_grant)
  moreover have "lease_inv (fst (handle_decline now m s))"
    using assms by (auto simp: handle_decline_def inv_save wf_rows_set wf_rows_of_inv split: option.splits)
  moreover have "lease_inv (fst (handle_release m s))"
    using assms release_keeps by (auto simp: handle_release_def split: option.splits)
  moreover have "lease_inv (fst (handle_inform env m s))"
    using assms by (auto simp: handle_inform_def Let_def split: option.splits)
  ultimately show ?thesis using assms by (simp add: handle_message_def)
qed

lemma inv_handle: "lease_inv s \<Longrightarrow> lease_inv (fst (handle env now frame s))"
  by (auto simp: handle_def Let_def inv_note_message inv_handle_message split: option.splits)

lemma spec_handle_message:
  "spec (fst (handle_message env now m s)) = spec s" "mac (fst (handle_message env now m s)) = mac s"
proof -
  have "spec (fst (handle_discover env now m s)) = spec s \<and> mac (fst (handle_discover env now m s)) = mac s"
    using allocate_keeps by (cases rule: handle_discover_cases [of env m now s]) (auto simp: keeps_def Let_def)
  moreover have "spec (fst (handle_request env now m s)) = spec s \<and> mac (fst (handle_request env now m s)) = mac s"
    using release_keeps by (cases rule: handle_request_cases [of env now m s]) auto
  moreover have "spec (fst (handle_decline now m s)) = spec s \<and> mac (fst (handle_decline now m s)) = mac s"
    by (auto simp: handle_decline_def split: option.splits)
  moreover have "spec (fst (handle_release m s)) = spec s \<and> mac (fst (handle_release m s)) = mac s"
    using release_keeps by (auto simp: handle_release_def split: option.splits)
  moreover have "spec (fst (handle_inform env m s)) = spec s \<and> mac (fst (handle_inform env m s)) = mac s"
    by (auto simp: handle_inform_def Let_def split: option.splits)
  ultimately show "spec (fst (handle_message env now m s)) = spec s" "mac (fst (handle_message env now m s)) = mac s"
    by (simp_all add: handle_message_def)
qed

lemma spec_handle [simp]:
  "spec (fst (handle env now frame s)) = spec s" "mac (fst (handle env now frame s)) = mac s"
  by (auto simp: handle_def Let_def spec_handle_message split: option.splits)

section \<open>A binding belongs to its client\<close>

text \<open>
  A message concerns an address when it may change the row of another client at that address: a
  DECLINE of it, or any message of the client the address is reserved for.
\<close>

definition concerns :: "server_spec \<Rightarrow> dhcp_message \<Rightarrow> ip4 \<Rightarrow> bool" where
  "concerns sp m ip \<longleftrightarrow> map_of (reserved sp) (chaddr m) = Some ip
     \<or> mtype m = DECLINE \<and> requested_of m = Some ip \<and> in_pool sp ip"

lemma handle_message_stable:
  assumes inv: "lease_inv s" and row: "map_of (rows s) ip = Some row" "key row \<noteq> Some (client_key_of m)"
    and nc: "\<not> concerns (spec s) m ip"
  shows "map_of (rows (fst (handle_message env now m s))) ip = Some row"
proof -
  have nr: "map_of (reserved (spec s)) (chaddr m) \<noteq> Some ip" using nc by (auto simp: concerns_def)
  have "map_of (rows (fst (handle_discover env now m s))) ip = Some row"
  proof (cases rule: handle_discover_cases [of env m now s])
    case (offered ip' t)
    have "ip' \<noteq> ip" using allocate_found [OF offered(1) inv] row nr by auto
    then show ?thesis using offered(2) allocate_keeps [OF offered(1)] row by (simp add: keeps_def Let_def)
  next
    case (exhausted t)
    then show ?thesis using allocate_keeps [OF exhausted(1)] row by (simp add: keeps_def)
  qed
  moreover have "map_of (rows (fst (handle_request env now m s))) ip = Some row"
  proof (cases rule: handle_request_cases [of env now m s])
    case (granted target)
    then have "target \<noteq> ip" using row nr by (auto simp: offered_to_def split: if_splits)
    then show ?thesis using granted row by simp
  qed (use row release_keeps in simp_all)
  moreover have "map_of (rows (fst (handle_release m s))) ip = Some row"
    using row release_keeps by (simp add: handle_release_def split: option.splits)
  moreover have "mtype m = DECLINE \<Longrightarrow> map_of (rows (fst (handle_decline now m s))) ip = Some row"
    using row nc by (auto simp: handle_decline_def concerns_def split: option.splits)
  moreover have "map_of (rows (fst (handle_inform env m s))) ip = Some row"
    using row by (simp add: handle_inform_def Let_def split: option.splits)
  ultimately show ?thesis using row by (simp add: handle_message_def)
qed

lemma handle_stable:
  assumes "lease_inv s" "map_of (rows s) ip = Some row" "live now row"
    and "\<And>m. parse frame = Some m \<Longrightarrow> key row \<noteq> Some (client_key_of m) \<and> \<not> concerns (spec s) m ip"
  shows "map_of (rows (fst (handle env now frame s))) ip = Some row"
proof (cases "parse frame")
  case (Some m)
  have "map_of (rows (note_message now m s)) ip = Some row"
    using assms(1-3) by (simp add: map_of_expire distinct_of_inv)
  then show ?thesis
    using Some assms inv_note_message [OF assms(1)] handle_message_stable
    by (simp add: handle_def Let_def)
qed (use assms in \<open>simp add: handle_def\<close>)

section \<open>What the replies say\<close>

lemma length_packed4 [simp]: "length (packed ip) = 4" "length (server_ip sp) = 4"
  by (simp_all add: packed_def server_ip_def)

lemma reply_observed:
  assumes "wf_message m" "length (mac s) = 6" "length yi = 4" "kind < 256" "q = reply env s kind m yi os"
  shows "frame_type q = kind" "frame_yiaddr q = yi"
    and "seg 6 12 q = mac s \<and> seg 26 30 q = server_ip (spec s) \<and> checksum (seg 14 34 q) = 0
      \<and> checksum (seg 26 34 q @ [0, 17] @ to_be 2 (length q - 34) @ drop 34 q) = 0"
proof -
  have m: "length (ciaddr m) = 4" "length (src_mac m) = 6" "length (chaddr m) = 6"
    using assms(1) by (simp_all add: wf_message_def)
  obtain dmac dip os' where q: "q = build (ident env) kind m (server_ip (spec s)) (mac s) yi os' dmac dip"
    and d: "length dmac = 6" "length dip = 4"
    using m assms(3,5) by (auto simp: reply_def BROADCAST_MAC_def split: if_splits prod.splits)
  show "frame_type q = kind" "frame_yiaddr q = yi"
    using build_observed [OF _ d(2,1) assms(2,3,1,4) q] by simp_all
  note v = build_verifies [OF _ d(2,1) assms(2) q, simplified]
  have "seg 26 34 q = seg 26 30 q @ seg 30 34 q" by (simp add: seg_split)
  then show "seg 6 12 q = mac s \<and> seg 26 30 q = server_ip (spec s) \<and> checksum (seg 14 34 q) = 0
      \<and> checksum (seg 26 34 q @ [0, 17] @ to_be 2 (length q - 34) @ drop 34 q) = 0"
    using v by simp
qed

lemma handle_replies:
  assumes "q \<in> set (snd (handle env now frame s))"
  obtains (replied) m t kind yi os where "parse frame = Some m" "wf_message m" "q = reply env t kind m yi os"
    "length yi = 4" "kind < 256" "spec t = spec s" "mac t = mac s"
proof -
  obtain m where m: "parse frame = Some m" and g: "giaddr m = replicate 4 0"
    and q: "q \<in> set (snd (handle_message env now m (note_message now m s)))"
    using assms by (auto simp: handle_def Let_def split: option.splits if_splits)
  let ?s = "note_message now m s"
  note sp = spec_handle_message [of env now m ?s]
  have *: thesis if "q = reply env t kind m yi os" "length yi = 4" "kind < 256" "spec t = spec s" "mac t = mac s" for t kind yi os
    using that m parse_wf [OF m] by (intro replied [of m t kind yi os])
  consider "mtype m = DISCOVER" | "mtype m = REQUEST" | "mtype m = DECLINE" | "mtype m = RELEASE" | "mtype m = INFORM"
    using parse_wf [OF m] by (auto simp: wf_message_def CLIENT_MESSAGES_def)
  then show thesis
  proof cases
    case 1
    then have e: "handle_message env now m ?s = handle_discover env now m ?s" by (simp add: handle_message_def)
    show ?thesis
      by (cases rule: handle_discover_cases [of env m now ?s])
        (use q e sp * in \<open>auto simp: Let_def message_types\<close>)
  next
    case 2
    then have e: "handle_message env now m ?s = handle_request env now m ?s"
      by (simp add: handle_message_def message_types)
    show ?thesis
      by (cases rule: handle_request_cases [of env now m ?s])
        (use q e sp * in \<open>auto simp: Let_def message_types nak_def grant_def\<close>)
  next
    case 5
    then have e: "handle_message env now m ?s = handle_inform env m ?s"
      by (simp add: handle_message_def message_types)
    then show ?thesis
      using q sp * by (auto simp: handle_inform_def Let_def message_types split: option.splits)
  qed (use q in \<open>auto simp: handle_message_def message_types handle_decline_def handle_release_def
      split: option.splits if_splits\<close>)
qed

section \<open>Runs of the server\<close>

type_synonym dhcp_event = "dhcp_env \<times> int \<times> bytes"

definition dhcp_step :: "dhcp_event \<Rightarrow> dhcp_server \<Rightarrow> dhcp_server" where
  "dhcp_step = (\<lambda>(env, now, frame) s. fst (handle env now frame s))"

interpretation dhcp: invariant_system dhcp_step lease_inv
  by unfold_locales (auto simp: dhcp_step_def inv_handle)

lemma spec_dhcp_run [simp]: "spec (run dhcp_step es s) = spec s"
  by (induction es arbitrary: s) (auto simp: dhcp_step_def)

text \<open>An event that comes before the lease ends and neither comes from its holder nor concerns its address.\<close>

definition foreign :: "server_spec \<Rightarrow> ip4 \<Rightarrow> lease_row \<Rightarrow> dhcp_event \<Rightarrow> bool" where
  "foreign sp ip row = (\<lambda>(env, now, frame). live now row \<and> (case parse frame of None \<Rightarrow> True
     | Some m \<Rightarrow> key row \<noteq> Some (client_key_of m) \<and> \<not> concerns sp m ip))"

lemma binding_stable_run:
  assumes "lease_inv s" "map_of (rows s) ip = Some row" "list_all (foreign (spec s) ip row) es"
  shows "map_of (rows (run dhcp_step es s)) ip = Some row"
proof -
  define sp where "sp = spec s"
  have "map_of (rows (run dhcp_step es s)) ip = Some row \<and> spec (run dhcp_step es s) = sp"
  proof (rule dhcp.stable_run [where allowed = "foreign sp ip row"])
    fix e t assume "lease_inv t" "foreign sp ip row e" "map_of (rows t) ip = Some row \<and> spec t = sp"
    then show "map_of (rows (dhcp_step e t)) ip = Some row \<and> spec (dhcp_step e t) = sp"
      by (auto simp: dhcp_step_def foreign_def split: prod.splits intro!: handle_stable)
  qed (use assms sp_def in auto)
  then show ?thesis by simp
qed

lemma from_be_4: "length v = 4 \<Longrightarrow> from_be v < 2 ^ 32"
  using from_be_less [of v] by simp

lemma packed_inject:
  assumes "packed a = packed b" "a < 2 ^ 32" "b < 2 ^ 32"
  shows "a = b"
proof -
  have "a mod 256 ^ 4 = b mod 256 ^ 4"
    using arg_cong [OF assms(1), of from_be] unfolding packed_def from_be_to_be .
  then show ?thesis using assms(2,3) by simp
qed

lemma ack_of_request:
  assumes inv: "lease_inv s" and mac: "length (mac s) = 6"
    and p: "parse frame = Some m" and r: "mtype m = REQUEST"
    and h: "handle env now frame s = (s', qs)" and q: "q \<in> set qs" "frame_type q = ACK"
  obtains ip where "frame_yiaddr q = packed ip"
    "\<exists>b. offered_to (note_message now m s) ip (client_key_of m) (chaddr m) b"
    "rows s' = dict_set ip (bind_row (spec s) (client_key_of m) (chaddr m) (host_of env m) now Bound)
       (snd (expire now (rows s)))" "disk s' = rows s'"
    "requested_of m = Some ip \<or> options m 54 = None \<and> ciaddr_of m = Some ip"
proof -
  let ?s = "note_message now m s"
  have wf: "wf_message m" by (rule parse_wf [OF p])
  have hr: "giaddr m = replicate 4 0" "handle_request env now m ?s = (s', qs)"
    using h p r q by (auto simp: handle_def Let_def handle_message_def message_types split: if_splits)
  show thesis
  proof (cases rule: handle_request_cases [of env now m ?s])
    case (granted ip)
    then have g: "grant env now m ip ?s = (s', qs)" using hr by simp
    then have "s' = fst (grant env now m ip ?s)" "qs = snd (grant env now m ip ?s)" by simp_all
    moreover have "frame_yiaddr q = packed ip"
      using q calculation(2) reply_observed(2) [OF wf, of _ "packed ip"] mac
      by (auto simp: grant_def Let_def ACK_def)
    ultimately show ?thesis using granted that [of ip] by (simp add: grant_def Let_def)
  next
    case (refused why)
    then have "frame_type q = NAK"
      using hr q reply_observed(1) [OF wf, of _ "replicate 4 0"] mac by (auto simp: nak_def Let_def NAK_def)
    then show ?thesis using q by (simp add: message_types)
  qed (use hr q in auto)
qed

section \<open>Properties\<close>

text \<open>
  (C3) An acknowledged REQUEST: the address the reply carries is the reservation of the client's
  MAC, or an unreserved address whose live row was already held by this client; and when the
  reply is sent the row is bound to the client, with the configured lease time, in memory and
  on disk.
\<close>

theorem dhcp_ack_sound:
  assumes "lease_inv s" "length (mac s) = 6" "parse frame = Some m" "mtype m = REQUEST"
    and "handle env now frame s = (s', qs)" "q \<in> set qs" "frame_type q = ACK"
  shows "\<exists>ip row. frame_yiaddr q = packed ip \<and> map_of (rows s') ip = Some row \<and> map_of (disk s') ip = Some row
    \<and> state row = Bound \<and> key row = Some (client_key_of m)
    \<and> expires row = map_option (\<lambda>n. now + int n) (lease (spec s))
    \<and> (map_of (reserved (spec s)) (chaddr m) = Some ip
       \<or> ip \<notin> reserved_ips (spec s) \<and> (\<exists>old. map_of (rows s) ip = Some old \<and> live now old
            \<and> key old = Some (client_key_of m) \<and> state old \<noteq> Declined))"
proof -
  obtain ip b where a: "frame_yiaddr q = packed ip"
    "offered_to (note_message now m s) ip (client_key_of m) (chaddr m) b"
    "rows s' = dict_set ip (bind_row (spec s) (client_key_of m) (chaddr m) (host_of env m) now Bound)
       (snd (expire now (rows s)))" "disk s' = rows s'"
    using ack_of_request [OF assms] by metis
  let ?row = "bind_row (spec s) (client_key_of m) (chaddr m) (host_of env m) now Bound"
  have "map_of (rows s') ip = Some ?row" "map_of (disk s') ip = Some ?row" using a by simp_all
  moreover have "state ?row = Bound" "key ?row = Some (client_key_of m)"
    "expires ?row = map_option (\<lambda>n. now + int n) (lease (spec s))"
    by (auto simp: bind_row_def)
  moreover have "map_of (reserved (spec s)) (chaddr m) = Some ip
       \<or> ip \<notin> reserved_ips (spec s) \<and> (\<exists>old. map_of (rows s) ip = Some old \<and> live now old
            \<and> key old = Some (client_key_of m) \<and> state old \<noteq> Declined)"
    using a(2) assms(1)
    by (auto simp: offered_to_def map_of_expire distinct_of_inv split: if_splits option.splits)
  ultimately show ?thesis using a(1) by blast
qed

text \<open>
  (C1) No double lease: while a client's lease runs, and as long as the holder sends nothing and
  no message concerns its address (a DECLINE of it, or one of the MAC it is reserved for), no
  sequence of messages of other clients changes the row, and none of their REQUESTs is
  acknowledged with that address.
\<close>

theorem dhcp_no_double_lease:
  assumes "lease_inv s" "length (mac s) = 6" "map_of (rows s) ip = Some row" "ip < 2 ^ 32"
    and "list_all (foreign (spec s) ip row) (es @ [(env, now, frame)])"
  shows "map_of (rows (run dhcp_step (es @ [(env, now, frame)]) s)) ip = Some row
    \<and> (\<forall>m q. parse frame = Some m \<longrightarrow> mtype m = REQUEST \<longrightarrow>
      q \<in> set (snd (handle env now frame (run dhcp_step es s))) \<longrightarrow> frame_type q = ACK \<longrightarrow> frame_yiaddr q \<noteq> packed ip)"
proof -
  let ?t = "run dhcp_step es s"
  have row': "map_of (rows (run dhcp_step (es @ [(env, now, frame)]) s)) ip = Some row"
    by (rule binding_stable_run [OF assms(1,3,5)])
  have "frame_yiaddr q \<noteq> packed ip"
    if p: "parse frame = Some m" "mtype m = REQUEST" and q: "q \<in> set (snd (handle env now frame ?t))" "frame_type q = ACK"
    for m q
  proof -
    have "mac ?t = mac s" by (induction es arbitrary: s) (auto simp: dhcp_step_def)
    then have "length (mac ?t) = 6" "lease_inv ?t" using assms(1,2) by (simp_all add: dhcp.inv_run)
    then obtain a where a: "frame_yiaddr q = packed a"
      "rows (fst (handle env now frame ?t)) = dict_set a (bind_row (spec ?t) (client_key_of m) (chaddr m) (host_of env m) now Bound)
         (snd (expire now (rows ?t)))" "requested_of m = Some a \<or> options m 54 = None \<and> ciaddr_of m = Some a"
      using ack_of_request [OF _ _ p, of ?t env now "fst (handle env now frame ?t)" "snd (handle env now frame ?t)" q] q
      by (metis prod.collapse)
    have "length (ciaddr m) = 4" using parse_wf [OF p(1)] by (simp add: wf_message_def)
    then have "a < 2 ^ 32"
      using a(3) from_be_4 by (auto simp: requested_of_def ciaddr_of_def split: option.splits if_splits)
    have "key row \<noteq> Some (client_key_of m)" using assms(5) p by (simp add: foreign_def)
    moreover have "rows (run dhcp_step (es @ [(env, now, frame)]) s) = rows (fst (handle env now frame ?t))"
      by (simp add: dhcp_step_def)
    ultimately have "a \<noteq> ip" using row' a(2) by (auto simp: bind_row_def)
    then show ?thesis using a(1) packed_inject [of a ip] \<open>a < 2 ^ 32\<close> assms(4) by auto
  qed
  with row' show ?thesis by blast
qed

text \<open>
  An offered address is the client's reservation, or an address the client already holds,
  or a free address of a pool: not reserved, without a live row, and silent to the ARP probe
  when probing is on. The offer is on disk when the reply is sent.
\<close>

theorem dhcp_offer_sound:
  assumes "lease_inv s" "parse frame = Some m" "mtype m = DISCOVER" "giaddr m = replicate 4 0" "length (mac s) = 6"
    and "handle env now frame s = (s', qs)" "q \<in> set qs"
  shows "\<exists>ip row. frame_type q = OFFER \<and> frame_yiaddr q = packed ip \<and> map_of (disk s') ip = Some row
    \<and> state row = Offered \<and> key row = Some (client_key_of m) \<and> expires row = Some (now + OFFER_SECONDS)
    \<and> (map_of (reserved (spec s)) (chaddr m) = Some ip
       \<or> (\<exists>old. map_of (rows s) ip = Some old \<and> live now old \<and> key old = Some (client_key_of m) \<and> state old \<noteq> Declined)
       \<or> in_pool (spec s) ip \<and> ip \<notin> reserved_ips (spec s) \<and> (\<forall>old. map_of (rows s) ip = Some old \<longrightarrow> \<not> live now old)
          \<and> (probe (spec s) \<longrightarrow> \<not> answers env ip))"
proof -
  let ?s = "note_message now m s"
  have h: "handle_discover env now m ?s = (s', qs)"
    using assms by (simp add: handle_def handle_message_def)
  show ?thesis
  proof (cases rule: handle_discover_cases [of env m now ?s])
    case (offered ip t)
    let ?u = "count ''offer'' (bind ip (client_key_of m) (chaddr m) (host_of env m) now Offered t)"
    have k: "spec t = spec s" "mac t = mac s" using allocate_keeps [OF offered(1)] by (simp_all add: keeps_def)
    have s': "s' = ?u" "q = reply env ?u OFFER m (packed ip) (lease_options (spec ?u) True)"
      using h offered(2) assms(7) by (auto simp: Let_def)
    have "frame_type q = OFFER" "frame_yiaddr q = packed ip"
      using reply_observed(1,2) [OF parse_wf [OF assms(2)] _ _ _ s'(2)] assms(5) k by (simp_all add: OFFER_def)
    moreover have "map_of (disk s') ip = Some (bind_row (spec s) (client_key_of m) (chaddr m) (host_of env m) now Offered)"
      by (simp add: s'(1) k)
    moreover have "map_of (reserved (spec s)) (chaddr m) = Some ip
       \<or> (\<exists>old. map_of (rows s) ip = Some old \<and> live now old \<and> key old = Some (client_key_of m) \<and> state old \<noteq> Declined)
       \<or> in_pool (spec s) ip \<and> ip \<notin> reserved_ips (spec s) \<and> (\<forall>old. map_of (rows s) ip = Some old \<longrightarrow> \<not> live now old)
          \<and> (probe (spec s) \<longrightarrow> \<not> answers env ip)"
      using allocate_found [OF offered(1) inv_note_message [OF assms(1)]] distinct_of_inv [OF assms(1)]
      by (cases "map_of (rows s) ip") (auto simp: map_of_expire split: if_splits)
    ultimately show ?thesis by (intro exI conjI) (auto simp: bind_row_def)
  qed (use h assms(7) in auto)
qed

text \<open>
  A client without a reservation is always served while its pools have room: when it holds
  nothing and some pool address is unreserved, without a live row, and silent, DISCOVER is
  answered.
\<close>

theorem dhcp_discover_served:
  assumes "lease_inv s" "parse frame = Some m" "mtype m = DISCOVER" "giaddr m = replicate 4 0"
    and "in_pool (spec s) ip" "ip \<notin> reserved_ips (spec s)" "\<not> answers env ip"
    and "\<forall>row. map_of (rows s) ip = Some row \<longrightarrow> \<not> live now row"
  shows "length (snd (handle env now frame s)) = 1"
proof -
  let ?s = "note_message now m s" and ?k = "client_key_of m"
  have h: "handle env now frame s = handle_discover env now m ?s"
    using assms by (simp add: handle_def handle_message_def)
  have "\<not> taken ?k (rows ?s) ip"
    using assms(8) distinct_of_inv [OF assms(1)]
    by (cases "map_of (rows s) ip") (simp_all add: taken_def map_of_expire)
  moreover have "ip \<in> set (candidates (spec ?s))" using assms by (simp add: candidates_iff)
  ultimately have "allocate env ?k (chaddr m) (requested_of m) now ?s \<noteq> (None, t)" for t
    using allocate_none assms(7) by blast
  then show ?thesis
    using h by (cases rule: handle_discover_cases [of env m now ?s]) (auto simp: Let_def)
qed

text \<open>
  Crash safety: from a table that satisfies the invariant, after any sequence of received
  frames, a restart (which reads the saved table back) still has every bound row that was in
  memory.
\<close>

theorem dhcp_bound_survives_restart:
  assumes "lease_inv s" "map_of (rows (run dhcp_step es s)) ip = Some row" "state row = Bound"
  shows "map_of (rows (restart (run dhcp_step es s))) ip = Some row"
  using dhcp.inv_run [OF assms(1), of es] assms(2,3) by (simp add: restart_def lease_inv_def durable_def)

text \<open>
  Every frame the server sends, in answer to any frame in any state, has a verifying IPv4
  header checksum and UDP checksum, and comes from the server's addresses.
\<close>

theorem dhcp_replies_verify:
  assumes "length (mac s) = 6" "q \<in> set (snd (handle env now frame s))"
  shows "seg 6 12 q = mac s \<and> seg 26 30 q = server_ip (spec s) \<and> checksum (seg 14 34 q) = 0
    \<and> checksum (seg 26 34 q @ [0, 17] @ to_be 2 (length q - 34) @ drop 34 q) = 0"
  using assms(2)
proof (cases rule: handle_replies)
  case (replied m t kind yi os)
  then show ?thesis using reply_observed(3) [of m t yi kind q env os] assms(1) by simp
qed

text \<open>
  The published view accounts for the whole table: the three counts add up to the number of
  rows, and the listed leases are rows of the table in the order of their addresses, all of them
  when there are at most 1024.
\<close>

theorem dhcp_summary_complete:
  assumes "lease_inv s"
  shows "bound (summary s) + offered (summary s) + declined (summary s) = length (rows s)
    \<and> sorted_wrt (<) (map view_ip (leases (summary s)))
    \<and> set (leases (summary s)) \<subseteq> view_row ` set (rows s)
    \<and> (length (rows s) \<le> STATUS_LEASES \<longrightarrow> set (leases (summary s)) = view_row ` set (rows s))"
proof -
  let ?rs = "sort_key fst (rows s)"
  have c: "count_state Bound rs + count_state Offered rs + count_state Declined rs = length rs" for rs
  proof (induction rs)
    case (Cons p rs)
    then show ?case by (cases "state (snd p)") (auto simp: count_state_def split_beta)
  qed (simp add: count_state_def)
  have ips: "map view_ip (map view_row xs) = map fst xs" for xs
    by (induction xs) (auto simp: view_row_def)
  have "sorted (map fst ?rs)" by simp
  moreover have "distinct (map fst ?rs)"
    using distinct_of_inv [OF assms] by (simp add: distinct_map)
  ultimately have "sorted_wrt (<) (map fst ?rs)" by (simp add: strict_sorted_iff)
  then have "sorted_wrt (<) (map fst (take STATUS_LEASES ?rs))"
    by (metis take_map sorted_wrt_take)
  moreover have "set (take STATUS_LEASES ?rs) \<subseteq> set (rows s)"
    using set_take_subset [of STATUS_LEASES ?rs] by simp
  ultimately show ?thesis
    using c [of ?rs] ips [of "take STATUS_LEASES ?rs"] by (auto simp: summary_def Let_def simp del: map_map)
qed

text \<open>
  A DECLINE is not checked against the row: whatever the table holds for the named pool
  address, also the running lease of another client, becomes a declined row without an owner,
  in memory and on disk.
\<close>

theorem dhcp_decline_evicts:
  assumes "parse frame = Some m" "mtype m = DECLINE" "giaddr m = replicate 4 0"
    and "requested_of m = Some ip" "in_pool (spec s) ip"
  shows "map_of (rows (fst (handle env now frame s))) ip = Some (declined_row (chaddr m) now)
    \<and> map_of (disk (fst (handle env now frame s))) ip = Some (declined_row (chaddr m) now)"
  using assms by (simp add: handle_def Let_def handle_message_def handle_decline_def)

text \<open>
  A DISCOVER of a client that has a running lease replaces the bound row by a 60 second
  offer, in memory and on disk: the rest of the lease is lost unless the client goes on to
  request the address.
\<close>

theorem dhcp_discover_downgrades:
  assumes "lease_inv s" "parse frame = Some m" "mtype m = DISCOVER" "giaddr m = replicate 4 0"
    and "map_of (reserved (spec s)) (chaddr m) = None"
    and "held_by (client_key_of m) (snd (expire now (rows s))) = Some (ip, row)" "state row = Bound"
  shows "\<exists>row'. map_of (rows (fst (handle env now frame s))) ip = Some row' \<and> state row' = Offered
    \<and> expires row' = Some (now + OFFER_SECONDS) \<and> map_of (disk (fst (handle env now frame s))) ip = Some row'"
  using assms by (simp add: handle_def Let_def handle_message_def handle_discover_def allocate_def bind_row_def)

text \<open>
  A client that holds an address which the configuration now reserves for another MAC is
  offered that address again on DISCOVER, while a REQUEST for it naming this server is refused,
  and its offer stays in the table: it cannot obtain an address as long as its row lives.
\<close>

theorem dhcp_reserved_holder_refused:
  assumes "lease_inv s" "parse d = Some md" "mtype md = DISCOVER" "giaddr md = replicate 4 0"
    and "parse r = Some mr" "mtype mr = REQUEST" "giaddr mr = replicate 4 0" "chaddr mr = chaddr md"
    and "client_key_of mr = client_key_of md" "options mr 54 = Some (server_ip (spec s))" "requested_of mr = Some ip"
    and "map_of (reserved (spec s)) (chaddr md) = None" "ip \<in> reserved_ips (spec s)"
    and "held_by (client_key_of md) (snd (expire now (rows s))) = Some (ip, row)"
    and "s' = fst (handle env now d s)" "now \<le> later" "later < now + OFFER_SECONDS"
  shows "handle env later r s' = nak env mr ''requested address was not offered'' (note_message later mr s')
    \<and> (\<exists>row'. map_of (rows (fst (handle env later r s'))) ip = Some row' \<and> state row' = Offered
        \<and> key row' = Some (client_key_of md))"
proof -
  let ?row = "bind_row (spec s) (client_key_of md) (chaddr md) (host_of env md) now Offered"
  have s': "map_of (rows s') ip = Some ?row" "spec s' = spec s"
    using assms by (simp_all add: handle_def Let_def handle_message_def handle_discover_def allocate_def)
  have "lease_inv s'" using assms(1,15) by (simp add: inv_handle)
  moreover have "live later ?row" using assms(17) by (simp add: live_def bind_row_def)
  ultimately have keep: "map_of (rows (note_message later mr s')) ip = Some ?row"
    using s' by (simp add: map_of_expire distinct_of_inv)
  have "handle env later r s' = nak env mr ''requested address was not offered'' (note_message later mr s')"
    using assms s' by (simp add: handle_def handle_message_def handle_request_def offered_to_def Let_def)
  then show ?thesis using keep by (simp add: bind_row_def)
qed

section \<open>A concrete server and its clients\<close>

definition ex_spec :: server_spec where
  "ex_spec = \<lparr>interface = ''ethernet1/5'', address = 0x0A000001, prefixlen = 24,
     pools = [(0x0A00000A, 0x0A00000C)], reserved = [([2, 0, 0, 0, 0, 7], 0x0A00000B)],
     lease = Some 3600, probe = False,
     opts = \<lparr>gateway = None, subnet_mask = None, dns = [0x08080808], ntp = [], wins = [], domain = []\<rparr>\<rparr>"

definition ex_server :: "lease_rows \<Rightarrow> dhcp_server" where
  "ex_server rs = \<lparr>spec = ex_spec, mac = [2, 0, 0, 0, 0, 9], rows = rs, disk = rs, counters = (\<lambda>_. 0), last_event = None\<rparr>"

definition ex_env :: dhcp_env where
  "ex_env = \<lparr>answers = (\<lambda>_. False), decode = map (\<lambda>b. char_of (unat b)), ident = 7\<rparr>"

definition ex_row :: "byte \<Rightarrow> lease_row" where
  "ex_row c = \<lparr>state = Bound, key = Some (MacKey [2, 0, 0, 0, 0, c]), row_mac = Some [2, 0, 0, 0, 0, c], hostname = [],
     since = 0, expires = Some 3600\<rparr>"

text \<open>Clients 1 and 2 send DISCOVER, REQUEST and DECLINE with the address 10.0.0.10 requested.\<close>

abbreviation ex_m :: "byte \<Rightarrow> nat \<Rightarrow> dhcp_message" where
  "ex_m c kind \<equiv> ex_message c kind [(53, [of_nat kind]), (50, [10, 0, 0, 10])]"

definition ex_f :: "byte \<Rightarrow> nat \<Rightarrow> bytes" where
  "ex_f c kind = client_frame (ex_m c kind) [(53, [of_nat kind]), (50, [10, 0, 0, 10])]"

abbreviation ex_leased :: dhcp_server where
  "ex_leased \<equiv> ex_server [(0x0A00000A, ex_row 1)]"

lemma ex_inv: "lease_inv (ex_server [])" "lease_inv ex_leased"
  by (auto simp: lease_inv_def wf_rows_def durable_def ex_server_def wf_row_def ex_row_def split: if_splits)

lemma ex_fields [simp]: "length (mac (ex_server rs)) = 6" "spec (ex_server rs) = ex_spec" "rows (ex_server rs) = rs"
  by (simp_all add: ex_server_def)

lemma ex_parse: "kind \<in> set CLIENT_MESSAGES \<Longrightarrow> parse (ex_f c kind) = Some (ex_m c kind)"
  unfolding ex_f_def by (intro client_frame_parses ex_message_ok) (simp_all add: encodable_def dhcp_option_def)

lemma replicate_4: "replicate 4 x = [x, x, x, x]"
  by (simp add: numeral_eq_Suc)

lemma ex_message_fields [simp]:
  "mtype (ex_message c kind ps) = kind" "giaddr (ex_message c kind ps) = replicate 4 0" "chaddr (ex_m c kind) = [2, 0, 0, 0, 0, c]"
  "requested_of (ex_m c kind) = Some 0x0A00000A" "client_key_of (ex_m c kind) = MacKey [2, 0, 0, 0, 0, c]"
  "options (ex_m c kind) 54 = None"
  by (simp_all add: ex_message_def requested_of_def client_key_of_def from_be_Cons replicate_4)

lemma ex_pool: "in_pool ex_spec 0x0A00000A" "0x0A00000A \<notin> reserved_ips ex_spec" "in_network 0x0A00000A ex_spec"
  by (simp_all add: ex_spec_def in_pool_def reserved_ips_def in_network_def network_address_def broadcast_address_def network_size_def)

lemma ex_types: "DISCOVER \<in> set CLIENT_MESSAGES" "REQUEST \<in> set CLIENT_MESSAGES" "DECLINE \<in> set CLIENT_MESSAGES"
  by (simp_all add: CLIENT_MESSAGES_def)

lemma ex_row_fields [simp]: "state (ex_row c) = Bound" "key (ex_row c) = Some (MacKey [2, 0, 0, 0, 0, c])"
  "live now (ex_row c) \<longleftrightarrow> now < 3600"
  by (simp_all add: ex_row_def live_def)

lemma ex_handle_request:
  "handle ex_env 10 (ex_f 1 REQUEST) ex_leased
    = grant ex_env 10 (ex_m 1 REQUEST) 0x0A00000A (note_message 10 (ex_m 1 REQUEST) ex_leased)"
  using ex_pool by (simp add: handle_def ex_parse ex_types handle_message_def handle_request_def
      offered_to_def expire_def Let_def)

lemma ex_ack:
  obtains q s' where "handle ex_env 10 (ex_f 1 REQUEST) ex_leased = (s', [q])" "frame_type q = ACK"
proof -
  let ?s = "note_message 10 (ex_m 1 REQUEST) ex_leased"
  obtain s' q where g: "grant ex_env 10 (ex_m 1 REQUEST) 0x0A00000A ?s = (s', [q])"
    by (simp add: grant_def Let_def)
  have "frame_type q = ACK"
    using g reply_observed(1) [OF parse_wf [OF ex_parse [OF ex_types(2)]], of _ "packed 0x0A00000A" ACK q]
    by (auto simp: grant_def Let_def ACK_def)
  with g show thesis using that ex_handle_request by metis
qed

theorem dhcp_ack_sound_witness:
  "\<exists>q s' qs ip row. handle ex_env 10 (ex_f 1 REQUEST) ex_leased = (s', qs) \<and> q \<in> set qs
     \<and> frame_yiaddr q = packed ip \<and> map_of (disk s') ip = Some row \<and> expires row = Some 3610"
proof -
  obtain q s' where h: "handle ex_env 10 (ex_f 1 REQUEST) ex_leased = (s', [q])" "frame_type q = ACK" by (rule ex_ack)
  have "lease ex_spec = Some 3600" by (simp add: ex_spec_def)
  then show ?thesis
    using dhcp_ack_sound [OF ex_inv(2) _ ex_parse [OF ex_types(2)] _ h(1) _ h(2)] h(1) by auto
qed

theorem dhcp_no_double_lease_witness:
  "map_of (rows (run dhcp_step ([(ex_env, 5, ex_f 2 DISCOVER)] @ [(ex_env, 10, ex_f 2 REQUEST)]) ex_leased)) 0x0A00000A
     = Some (ex_row 1)"
proof -
  have n: "\<not> concerns ex_spec (ex_m 2 kind) 0x0A00000A" if "kind \<noteq> DECLINE" for kind
    using that by (simp add: concerns_def ex_spec_def)
  have "list_all (foreign (spec ex_leased) 0x0A00000A (ex_row 1)) ([(ex_env, 5, ex_f 2 DISCOVER)] @ [(ex_env, 10, ex_f 2 REQUEST)])"
    using n [of DISCOVER] n [of REQUEST] types_distinct(2,3) [symmetric]
    by (simp add: foreign_def ex_parse ex_types)
  from dhcp_no_double_lease [OF ex_inv(2) _ _ _ this] show ?thesis by simp
qed

theorem dhcp_offer_sound_witness:
  "\<exists>q s' ip row. handle ex_env 10 (ex_f 1 DISCOVER) (ex_server []) = (s', [q])
     \<and> frame_type q = OFFER \<and> frame_yiaddr q = packed ip \<and> map_of (disk s') ip = Some row \<and> state row = Offered"
proof -
  have "handle ex_env 10 (ex_f 1 DISCOVER) (ex_server [])
      = handle_discover ex_env 10 (ex_m 1 DISCOVER) (note_message 10 (ex_m 1 DISCOVER) (ex_server []))"
    by (simp add: handle_def ex_parse ex_types handle_message_def)
  moreover have "fst (allocate ex_env (MacKey [2, 0, 0, 0, 0, 1]) [2, 0, 0, 0, 0, 1] (Some 0x0A00000A) 10
      (note_message 10 (ex_m 1 DISCOVER) (ex_server []))) \<noteq> None"
    using ex_pool by (simp add: allocate_def expire_def) (simp add: ex_spec_def taken_def expire_def)
  ultimately obtain q s' where h: "handle ex_env 10 (ex_f 1 DISCOVER) (ex_server []) = (s', [q])"
    by (cases rule: handle_discover_cases [of ex_env "ex_m 1 DISCOVER" 10 "note_message 10 (ex_m 1 DISCOVER) (ex_server [])"])
      (auto simp: Let_def)
  then show ?thesis
    using dhcp_offer_sound [OF ex_inv(1) ex_parse [OF ex_types(1)] _ _ _ h] by auto
qed

theorem dhcp_discover_served_witness:
  "length (snd (handle ex_env 10 (ex_f 1 DISCOVER) (ex_server []))) = 1"
  using dhcp_discover_served [OF ex_inv(1) ex_parse [OF ex_types(1)], where ip = "0x0A00000A"] ex_pool
  by (simp add: ex_env_def)

theorem dhcp_bound_survives_restart_witness:
  "map_of (rows (restart (run dhcp_step [] ex_leased))) 0x0A00000A = Some (ex_row 1)"
  using dhcp_bound_survives_restart [OF ex_inv(2), of "[]"] by simp

theorem dhcp_replies_verify_witness:
  "\<exists>q. q \<in> set (snd (handle ex_env 10 (ex_f 1 REQUEST) ex_leased)) \<and> checksum (seg 14 34 q) = 0"
proof -
  obtain q s' where h: "handle ex_env 10 (ex_f 1 REQUEST) ex_leased = (s', [q])" by (rule ex_ack)
  then show ?thesis using dhcp_replies_verify [of ex_leased q ex_env 10 "ex_f 1 REQUEST"] by auto
qed

theorem dhcp_summary_complete_witness:
  "bound (summary ex_leased) + offered (summary ex_leased) + declined (summary ex_leased) = length (rows ex_leased)
   \<and> set (leases (summary ex_leased)) = view_row ` set (rows ex_leased)"
  using dhcp_summary_complete [OF ex_inv(2)] by (simp add: STATUS_LEASES_def)

theorem dhcp_decline_evicts_witness:
  "map_of (rows ex_leased) 0x0A00000A = Some (ex_row 1)
   \<and> map_of (disk (fst (handle ex_env 10 (ex_f 2 DECLINE) ex_leased))) 0x0A00000A = Some (declined_row [2, 0, 0, 0, 0, 2] 10)"
  using dhcp_decline_evicts [OF ex_parse [OF ex_types(3)], where ip = "0x0A00000A" and s = ex_leased] ex_pool by simp

theorem dhcp_discover_downgrades_witness:
  "\<exists>row'. map_of (disk (fst (handle ex_env 10 (ex_f 1 DISCOVER) ex_leased))) 0x0A00000A = Some row' \<and> state row' = Offered"
proof -
  have r: "map_of (reserved (spec ex_leased)) (chaddr (ex_m 1 DISCOVER)) = None" by (simp add: ex_spec_def)
  have h: "held_by (client_key_of (ex_m 1 DISCOVER)) (snd (expire 10 (rows ex_leased))) = Some (0x0A00000A, ex_row 1)"
    by (simp add: expire_def)
  show ?thesis
    using dhcp_discover_downgrades [OF ex_inv(2) ex_parse [OF ex_types(1)] _ _ r h, of ex_env] by auto
qed

lemma ex_server_ip: "server_ip ex_spec = [10, 0, 0, 1]"
  by code_simp

definition ex_moved :: dhcp_server where
  "ex_moved = ex_server [(0x0A00000B, ex_row 1)]"

definition ex_request_b :: "(nat \<times> bytes) list" where
  "ex_request_b = [(53, [3]), (50, [10, 0, 0, 11]), (54, [10, 0, 0, 1])]"

theorem dhcp_reserved_holder_refused_witness:
  "\<exists>s'. handle ex_env 20 (client_frame (ex_message 1 REQUEST ex_request_b) ex_request_b)
        (fst (handle ex_env 10 (ex_f 1 DISCOVER) ex_moved))
     = nak ex_env (ex_message 1 REQUEST ex_request_b) ''requested address was not offered'' s'"
proof -
  let ?r = "ex_message 1 REQUEST ex_request_b"
  have p: "parse (client_frame ?r ex_request_b) = Some ?r"
    by (intro client_frame_parses ex_message_ok)
      (simp_all add: ex_request_b_def encodable_def dhcp_option_def CLIENT_MESSAGES_def REQUEST_def)
  have i: "lease_inv ex_moved"
    by (auto simp: ex_moved_def lease_inv_def wf_rows_def durable_def ex_server_def wf_row_def ex_row_def split: if_splits)
  have f: "chaddr ?r = [2, 0, 0, 0, 0, 1]" "client_key_of ?r = MacKey [2, 0, 0, 0, 0, 1]"
    "options ?r 54 = Some (server_ip (spec ex_moved))" "requested_of ?r = Some 0x0A00000B"
    by (simp_all add: ex_message_def ex_request_b_def client_key_of_def requested_of_def ex_moved_def
        ex_server_ip from_be_Cons)
  have h: "held_by (client_key_of (ex_m 1 DISCOVER)) (snd (expire 10 (rows ex_moved))) = Some (0x0A00000B, ex_row 1)"
    by (simp add: expire_def ex_moved_def)
  have r: "map_of (reserved (spec ex_moved)) (chaddr (ex_m 1 DISCOVER)) = None" "0x0A00000B \<in> reserved_ips (spec ex_moved)"
    by (simp_all add: ex_moved_def ex_spec_def reserved_ips_def)
  show ?thesis
    using dhcp_reserved_holder_refused [OF i ex_parse [OF ex_types(1)] _ _ p _ _ _ _ f(3,4) r h refl, of 20 ex_env] f(1,2)
    by (auto simp: OFFER_SECONDS_def)
qed

end
