(* ===== verification/Dp_Ring.thy ===== *)
theory Dp_Ring
  imports Transition
begin

text \<open>
  \<^verbatim>\<open>src/opt/ffn_dpring.py\<close>: the management plane's end of the shared memory region
  of the dataplane (ABI version 2). The mapped region is a function from offsets to bytes; every
  access of the code is at a fixed place below the policy banks, inside the mapping. The
  little-endian \<^verbatim>\<open>struct\<close> accesses are reads and writes of byte strings; a value
  that does not fit its field raises \<open>StructError\<close> as \<^verbatim>\<open>struct.pack_into\<close> does.
\<close>

section \<open>The region\<close>

type_synonym mem = "nat \<Rightarrow> byte"

definition mread :: "nat \<Rightarrow> nat \<Rightarrow> mem \<Rightarrow> bytes" where
  "mread o1 n mm = map mm [o1 ..< o1 + n]"

definition mwrite :: "nat \<Rightarrow> bytes \<Rightarrow> mem \<Rightarrow> mem" where
  "mwrite o1 bs mm = (\<lambda>i. if o1 \<le> i \<and> i < o1 + length bs then bs ! (i - o1) else mm i)"

definition unpack_from :: "nat \<Rightarrow> nat \<Rightarrow> mem \<Rightarrow> nat" where
  "unpack_from n o1 mm = from_le (mread o1 n mm)"

definition ABI_MAGIC :: bytes where "ABI_MAGIC = [0x46, 0x46, 0x4E, 0x44, 0x50, 0]"
definition ABI_VER :: nat where "ABI_VER = 2"
definition OFF_HDR :: nat where "OFF_HDR = 0x0000"
definition OFF_CMD_RING :: nat where "OFF_CMD_RING = 0x0040"
definition OFF_EVT_RING :: nat where "OFF_EVT_RING = 0x1040"
definition OFF_PORTS :: nat where "OFF_PORTS = 0x3000"
definition OFF_BANK0 :: nat where "OFF_BANK0 = 0x4000"
definition RING_DESCS :: nat where "RING_DESCS = 64"
definition DESC_SIZE :: nat where "DESC_SIZE = 32"
definition RING_HDR_SZ :: nat where "RING_HDR_SZ = 16"
definition PORT_ENTRY_SZ :: nat where "PORT_ENTRY_SZ = 64"
definition MAX_PORTS :: nat where "MAX_PORTS = 32"

lemmas layout = OFF_HDR_def OFF_CMD_RING_def OFF_EVT_RING_def OFF_PORTS_def OFF_BANK0_def
  RING_DESCS_def DESC_SIZE_def RING_HDR_SZ_def PORT_ENTRY_SZ_def MAX_PORTS_def

definition CAP_PORT_CTL :: nat where "CAP_PORT_CTL = push_bit 0 1"
definition F_HAS_LMAC :: nat where "F_HAS_LMAC = push_bit 0 1"
definition F_MGMT :: nat where "F_MGMT = push_bit 1 1"
definition F_VALID :: nat where "F_VALID = push_bit 7 1"

definition CMD_NOP :: nat where "CMD_NOP = 0"
definition CMD_PING :: nat where "CMD_PING = 1"
definition CMD_PORT_ENUM :: nat where "CMD_PORT_ENUM = 7"
definition CMD_PORT_CONFIG :: nat where "CMD_PORT_CONFIG = 8"
definition CMD_PORT_ADMIN :: nat where "CMD_PORT_ADMIN = 9"
definition EVT_PONG :: nat where "EVT_PONG = 1"

definition EVT_NAME :: "(nat \<times> string) list" where
  "EVT_NAME = [(1, ''PONG''), (2, ''READY''), (3, ''STATS''), (4, ''ERROR''), (5, ''FLOW_DROP''),
     (6, ''PORT_INFO''), (7, ''PORT_LINK''), (8, ''PORT_STATS'')]"

definition PORT_TYPE :: "(nat \<times> string) list" where
  "PORT_TYPE = [(0, ''none''), (1, ''RJ45''), (2, ''SFP''), (3, ''SFP+''), (4, ''QSFP+''), (5, ''QSFP28''),
     (6, ''XFP''), (7, ''HA''), (8, ''internal''), (9, ''uplink''), (10, ''ghost'')]"

definition PORT_STATE :: "(nat \<times> string) list" where
  "PORT_STATE = [(0, ''reset''), (1, ''powerdown''), (2, ''startup''), (3, ''run'')]"

definition PORT_NEG :: "(nat \<times> string) list" where
  "PORT_NEG = [(0, ''autoneg''), (1, ''forced'')]"

definition PORT_MEDIA :: "(nat \<times> string) list" where
  "PORT_MEDIA = [(0, ''unknown''), (1, ''absent''), (2, ''present''), (3, ''nopop''), (4, ''invalid'')]"

definition LMAC_TYPE :: "(nat \<times> string) list" where
  "LMAC_TYPE = [(0, ''SGMII''), (1, ''XAUI''), (2, ''RXAUI''), (3, ''10G-R''), (4, ''40G-R''), (5, ''QSGMII''),
     (6, ''RGMII''), (7, ''reserved'')]"

definition PORT_ROLE :: "(nat \<times> string) list" where
  "PORT_ROLE = [(0, ''data''), (1, ''HA''), (2, ''HSCI''), (3, ''mgmt''), (4, ''internal''), (5, ''AE''), (6, ''loopback'')]"

definition DEFAULT_LMAC_TYPE :: "(nat \<times> nat) list" where
  "DEFAULT_LMAC_TYPE = [(1, 0), (2, 0), (3, 3), (4, 4), (5, 4), (6, 3), (7, 0), (8, 3)]"

text \<open>\<^verbatim>\<open>d.get(k, '?')\<close>, and the inverse tables \<^verbatim>\<open>{v.lower(): k}\<close>.\<close>

definition name_of :: "(nat \<times> string) list \<Rightarrow> nat \<Rightarrow> string" where
  "name_of t k = (case map_of t k of Some v \<Rightarrow> v | None \<Rightarrow> ''?'')"

definition id_of :: "(nat \<times> string) list \<Rightarrow> string \<Rightarrow> nat option" where
  "id_of t name = map_of (map (\<lambda>(k, v). (py_lower v, k)) t) name"

definition BRIDGEABLE_ROLES :: "nat list" where "BRIDGEABLE_ROLES = [0, 5]"

text \<open>An argument that the code accepts as a name or as a number.\<close>

datatype name_or_id = Name string | Id nat

definition role_bridgeable :: "name_or_id \<Rightarrow> bool" where
  "role_bridgeable role =
     (case role of
        Name n \<Rightarrow> (case id_of PORT_ROLE (py_lower n) of Some r \<Rightarrow> r \<in> set BRIDGEABLE_ROLES | None \<Rightarrow> False)
      | Id r \<Rightarrow> r \<in> set BRIDGEABLE_ROLES)"

section \<open>Packed words\<close>

definition pack_cfg :: "nat \<Rightarrow> nat \<Rightarrow> nat \<Rightarrow> nat \<Rightarrow> nat \<Rightarrow> nat \<Rightarrow> nat \<Rightarrow> nat" where
  "pack_cfg port_type lmac_type lane neg phy flags role =
     (port_type AND 0xFF) OR push_bit 8 (lmac_type AND 0x7) OR push_bit 16 (lane AND 0xFF)
     OR push_bit 24 (neg AND 0xFF) OR push_bit 32 (phy AND 0xFF) OR push_bit 40 (flags AND 0xFF)
     OR push_bit 48 (role AND 0xFF)"

definition pack_a2 :: "nat \<Rightarrow> nat \<Rightarrow> nat" where
  "pack_a2 speed mtu = (speed AND 0xFFFFFFFF) OR push_bit 32 (mtu AND 0xFFFF)"

record port_state_word =
  w_port_type :: string
  w_state :: string
  w_neg :: string
  w_media :: string
  w_admin_up :: bool
  w_link_up :: bool
  w_flags :: nat
  w_role :: string

definition unpack_state :: "nat \<Rightarrow> port_state_word" where
  "unpack_state w =
     \<lparr>w_port_type = name_of PORT_TYPE (w AND 0xFF),
      w_state = name_of PORT_STATE (drop_bit 8 w AND 0xFF),
      w_neg = name_of PORT_NEG (drop_bit 16 w AND 0xFF),
      w_media = name_of PORT_MEDIA (drop_bit 24 w AND 0xFF),
      w_admin_up = (drop_bit 32 w AND 1 \<noteq> 0),
      w_link_up = (drop_bit 33 w AND 1 \<noteq> 0),
      w_flags = drop_bit 40 w AND 0xFF,
      w_role = name_of PORT_ROLE (drop_bit 48 w AND 0xFF)\<rparr>"

section \<open>Header\<close>

record dp_header =
  magic :: bytes
  abi_version :: nat
  dp_state :: nat
  host_state :: nat
  dp_heartbeat :: nat
  host_heartbeat :: nat
  active_bank :: nat
  default_dec :: nat
  dp_caps :: nat
  dp_error :: nat

definition header :: "mem \<Rightarrow> dp_header" where
  "header mm =
     \<lparr>magic = mread OFF_HDR 6 mm,
      abi_version = unpack_from 2 (OFF_HDR + 6) mm, dp_state = unpack_from 4 (OFF_HDR + 8) mm,
      host_state = unpack_from 4 (OFF_HDR + 12) mm, dp_heartbeat = unpack_from 8 (OFF_HDR + 16) mm,
      host_heartbeat = unpack_from 8 (OFF_HDR + 24) mm, active_bank = unpack_from 4 (OFF_HDR + 32) mm,
      default_dec = unpack_from 4 (OFF_HDR + 36) mm, dp_caps = unpack_from 4 (OFF_HDR + 40) mm,
      dp_error = unpack_from 4 (OFF_HDR + 44) mm\<rparr>"

definition handshake :: "mem \<Rightarrow> dp_header res" where
  "handshake mm =
     (let h = header mm in
      if magic h \<noteq> ABI_MAGIC then Inl (DpError ''bad magic'')
      else if abi_version h \<noteq> ABI_VER then Inl (DpError ''ABI version'')
      else Inr h)"

definition caps :: "mem \<Rightarrow> nat" where
  "caps mm = dp_caps (header mm)"

definition require_port_ctl :: "mem \<Rightarrow> nat res" where
  "require_port_ctl mm =
     (let c = caps mm in if c AND CAP_PORT_CTL = 0 then Inl (DpError ''no PORT_CTL'') else Inr c)"

section \<open>Rings\<close>

definition ring_head :: "nat \<Rightarrow> mem \<Rightarrow> nat" where "ring_head base mm = unpack_from 4 base mm"
definition ring_tail :: "nat \<Rightarrow> mem \<Rightarrow> nat" where "ring_tail base mm = unpack_from 4 (base + 4) mm"

definition set_head :: "nat \<Rightarrow> nat \<Rightarrow> mem \<Rightarrow> mem" where
  "set_head base v mm = mwrite base (to_le 4 (v AND 0xFFFFFFFF)) mm"

definition set_tail :: "nat \<Rightarrow> nat \<Rightarrow> mem \<Rightarrow> mem" where
  "set_tail base v mm = mwrite (base + 4) (to_le 4 (v AND 0xFFFFFFFF)) mm"

definition desc :: "nat \<Rightarrow> nat \<Rightarrow> nat" where
  "desc base idx = base + RING_HDR_SZ + idx mod RING_DESCS * DESC_SIZE"

text \<open>The number of queued descriptors, \<^verbatim>\<open>(head - tail) & 0xFFFFFFFF\<close> on Python integers.\<close>

definition pending :: "nat \<Rightarrow> mem \<Rightarrow> nat" where
  "pending base mm = nat ((int (ring_head base mm) - int (ring_tail base mm)) AND 0xFFFFFFFF)"

record descriptor =
  op :: nat
  dflags :: nat
  seq :: nat
  a0 :: nat
  a1 :: nat
  a2 :: nat

definition pack_desc :: "descriptor \<Rightarrow> bytes" where
  "pack_desc d = to_le 2 (op d) @ to_le 2 (dflags d) @ to_le 4 (seq d) @ to_le 8 (a0 d) @ to_le 8 (a1 d) @ to_le 8 (a2 d)"

definition unpack_desc :: "nat \<Rightarrow> mem \<Rightarrow> descriptor" where
  "unpack_desc off mm =
     \<lparr>op = unpack_from 2 off mm, dflags = unpack_from 2 (off + 2) mm, seq = unpack_from 4 (off + 4) mm,
      a0 = unpack_from 8 (off + 8) mm, a1 = unpack_from 8 (off + 16) mm, a2 = unpack_from 8 (off + 24) mm\<rparr>"

text \<open>
  The producer and the consumer end, for a ring at any base; the code has the producer end of
  the command ring and the consumer end of the event ring.
\<close>

definition ring_push :: "nat \<Rightarrow> nat \<Rightarrow> nat \<Rightarrow> nat \<Rightarrow> nat \<Rightarrow> nat \<Rightarrow> mem \<Rightarrow> (bool \<times> mem) res" where
  "ring_push base opcode x0 x1 x2 fl mm =
     (let head = ring_head base mm in
      if pending base mm \<ge> RING_DESCS then Inr (False, mm)
      else ok (x0 < 2 ^ 64 \<and> x1 < 2 ^ 64 \<and> x2 < 2 ^ 64) StructError
        (Inr (True, set_head base (head + 1)
           (mwrite (desc base head) (pack_desc \<lparr>op = opcode AND 0xFFFF, dflags = fl AND 0xFFFF,
              seq = head AND 0xFFFFFFFF, a0 = x0, a1 = x1, a2 = x2\<rparr>) mm))))"

definition ring_pop :: "nat \<Rightarrow> mem \<Rightarrow> (descriptor \<times> mem) option" where
  "ring_pop base mm =
     (let head = ring_head base mm; tail = ring_tail base mm in
      if head = tail then None
      else Some (unpack_desc (desc base tail) mm, set_tail base (tail + 1) mm))"

definition push :: "nat \<Rightarrow> nat \<Rightarrow> nat \<Rightarrow> nat \<Rightarrow> nat \<Rightarrow> mem \<Rightarrow> (bool \<times> mem) res" where
  "push = ring_push OFF_CMD_RING"

definition event_name :: "descriptor \<Rightarrow> string option" where
  "event_name d = map_of EVT_NAME (op d)"

definition pop_event :: "mem \<Rightarrow> (descriptor \<times> mem) option" where
  "pop_event = ring_pop OFF_EVT_RING"

fun drain :: "nat \<Rightarrow> mem \<Rightarrow> descriptor list \<times> mem" where
  "drain 0 mm = ([], mm)"
| "drain (Suc limit) mm =
     (case pop_event mm of
        None \<Rightarrow> ([], mm)
      | Some (e, mm') \<Rightarrow> (let (es, mm'') = drain limit mm' in (e # es, mm'')))"

text \<open>
  \<^verbatim>\<open>wait_event\<close> polls until its deadline. The number of polls before the deadline and
  what the dataplane writes before each of them are arguments.
\<close>

fun wait_event :: "nat \<Rightarrow> (mem \<Rightarrow> mem) list \<Rightarrow> mem \<Rightarrow> descriptor option \<times> descriptor list \<times> mem" where
  "wait_event wanted [] mm = (None, [], mm)"
| "wait_event wanted (w # ws) mm =
     (case pop_event (w mm) of
        None \<Rightarrow> wait_event wanted ws (w mm)
      | Some (e, mm') \<Rightarrow>
          if op e = wanted then (Some e, [], mm')
          else (let (r, others, mm'') = wait_event wanted ws mm' in (r, e # others, mm'')))"

section \<open>The port table\<close>

record dp_port =
  lport :: nat
  pport :: nat
  bgx :: nat
  lmac :: nat
  port_type :: string
  lmac_type :: string
  lane_to_sds :: nat
  pstate :: string
  neg :: string
  media :: string
  admin_up :: bool
  link_up :: bool
  phy_addr :: nat
  pflags :: nat
  has_lmac :: bool
  mgmt :: bool
  speed_mbps :: nat
  mtu :: nat
  name :: "nat list"
  rx_pkts :: nat
  tx_pkts :: nat
  role :: string
  bridgeable :: bool

definition port_base :: "nat \<Rightarrow> nat" where
  "port_base i = OFF_PORTS + i mod MAX_PORTS * PORT_ENTRY_SZ"

text \<open>\<^verbatim>\<open>decode('ascii', 'replace')\<close>, as code points: a byte above 127 is U+FFFD.\<close>

definition ascii_replace :: "bytes \<Rightarrow> nat list" where
  "ascii_replace bs = map (\<lambda>b. if unat b < 128 then unat b else 0xFFFD) bs"

definition port :: "nat \<Rightarrow> mem \<Rightarrow> dp_port option" where
  "port i mm =
     (let b = (\<lambda>k. unat (mm (port_base i + k))); u = (\<lambda>n k. unpack_from n (port_base i + k) mm); fl = b 15 in
      if fl AND F_VALID = 0 then None
      else Some
       \<lparr>lport = u 2 0, pport = u 2 2, bgx = b 4, lmac = b 5,
        port_type = name_of PORT_TYPE (b 6), lmac_type = name_of LMAC_TYPE (b 7), lane_to_sds = b 8,
        pstate = name_of PORT_STATE (b 9), neg = name_of PORT_NEG (b 10), media = name_of PORT_MEDIA (b 11),
        admin_up = (b 12 \<noteq> 0), link_up = (b 13 \<noteq> 0), phy_addr = b 14, pflags = fl,
        has_lmac = (fl AND F_HAS_LMAC \<noteq> 0), mgmt = (fl AND F_MGMT \<noteq> 0),
        speed_mbps = u 4 16, mtu = u 4 20,
        name = ascii_replace (takeWhile (\<lambda>c. c \<noteq> 0) (mread (port_base i + 24) 16 mm)),
        rx_pkts = u 8 40, tx_pkts = u 8 48,
        role = name_of PORT_ROLE (b 56), bridgeable = role_bridgeable (Id (b 56))\<rparr>)"

definition ports :: "mem \<Rightarrow> dp_port list" where
  "ports mm = List.map_filter (\<lambda>i. port i mm) [0 ..< MAX_PORTS]"

section \<open>Commands\<close>

definition ping :: "nat \<Rightarrow> (mem \<Rightarrow> mem) list \<Rightarrow> mem \<Rightarrow> (bool \<times> mem) res" where
  "ping token polls mm =
     rbind (push CMD_PING token 0 0 0 mm) (\<lambda>(_, mm).
       let (e, _, mm) = wait_event EVT_PONG polls mm
       in Inr (case e of Some d \<Rightarrow> a0 d = token | None \<Rightarrow> False, mm))"

record port_request =
  rq_lport :: nat
  rq_port_type :: name_or_id
  rq_lmac_type :: "nat option"
  rq_lane :: nat
  rq_neg :: string
  rq_phy :: nat
  rq_speed :: nat
  rq_mtu :: nat
  rq_has_lmac :: bool
  rq_mgmt :: bool
  rq_role :: name_or_id

definition resolve_name :: "(nat \<times> string) list \<Rightarrow> py_error \<Rightarrow> name_or_id \<Rightarrow> nat res" where
  "resolve_name t e v =
     (case v of Id n \<Rightarrow> Inr n
      | Name s \<Rightarrow> (case id_of t (py_lower s) of Some n \<Rightarrow> Inr n | None \<Rightarrow> Inl e))"

definition default_lmac :: "nat \<Rightarrow> nat option \<Rightarrow> nat" where
  "default_lmac t l = (case l of Some n \<Rightarrow> n | None \<Rightarrow> (case map_of DEFAULT_LMAC_TYPE t of Some n \<Rightarrow> n | None \<Rightarrow> 0))"

definition send_or_full :: "nat \<Rightarrow> nat \<Rightarrow> nat \<Rightarrow> nat \<Rightarrow> mem \<Rightarrow> mem res" where
  "send_or_full opcode x0 x1 x2 mm =
     rbind (push opcode x0 x1 x2 0 mm) (\<lambda>(sent, mm). ok sent (DpError ''command ring full'') (Inr mm))"

definition port_config :: "port_request \<Rightarrow> mem \<Rightarrow> mem res" where
  "port_config r mm =
     rbind (require_port_ctl mm) (\<lambda>_.
     rbind (resolve_name PORT_TYPE (DpError ''unknown port type'') (rq_port_type r)) (\<lambda>t.
     let l = default_lmac t (rq_lmac_type r) in
     case map_of [(''autoneg'', 0), (''forced'', 1)] (rq_neg r) of
       None \<Rightarrow> Inl (DpError ''neg must be autoneg or forced'')
     | Some neg_id \<Rightarrow>
         (let fl = (if rq_has_lmac r then F_HAS_LMAC else 0) OR (if rq_mgmt r then F_MGMT else 0) in
          rbind (resolve_name PORT_ROLE (DpError ''unknown role'') (rq_role r)) (\<lambda>rid.
          send_or_full CMD_PORT_CONFIG (rq_lport r)
            (pack_cfg t l (rq_lane r) neg_id (rq_phy r) fl rid) (pack_a2 (rq_speed r) (rq_mtu r)) mm))))"

definition port_admin :: "nat \<Rightarrow> bool \<Rightarrow> mem \<Rightarrow> mem res" where
  "port_admin lp up mm =
     rbind (require_port_ctl mm) (\<lambda>_. send_or_full CMD_PORT_ADMIN lp (if up then 1 else 0) 0 mm)"

definition port_enum :: "mem \<Rightarrow> mem res" where
  "port_enum mm =
     rbind (require_port_ctl mm) (\<lambda>_. rbind (push CMD_PORT_ENUM 0 0 0 0 mm) (\<lambda>(_, mm). Inr mm))"

section \<open>Reads after writes\<close>

lemma length_mread [simp]: "length (mread a n mm) = n"
  by (simp add: mread_def)

lemma mread_mwrite_inside:
  assumes "a \<le> b" "b + n \<le> a + length bs"
  shows "mread b n (mwrite a bs mm) = seg (b - a) (b - a + n) bs"
  using assms by (intro nth_equalityI) (auto simp: mread_def mwrite_def seg_def)

lemma mread_mwrite_outside:
  assumes "b + n \<le> a \<or> a + length bs \<le> b"
  shows "mread b n (mwrite a bs mm) = mread b n mm"
  using assms by (auto simp: mread_def mwrite_def)

lemma unpack_mwrite_outside:
  "b + n \<le> a \<or> a + length bs \<le> b \<Longrightarrow> unpack_from n b (mwrite a bs mm) = unpack_from n b mm"
  by (simp add: unpack_from_def mread_mwrite_outside)

lemma unpack_mwrite_inside:
  "a \<le> b \<Longrightarrow> b + n \<le> a + length bs \<Longrightarrow> unpack_from n b (mwrite a bs mm) = from_le (seg (b - a) (b - a + n) bs)"
  by (simp add: unpack_from_def mread_mwrite_inside)

lemma and_mask32: "n AND 0xFFFFFFFF = n mod (2 ^ 32 :: nat)" "k AND 0xFFFFFFFF = k mod (2 ^ 32 :: int)"
  using take_bit_eq_mask [of 32 n] take_bit_eq_mask [of 32 k]
  by (simp_all add: take_bit_eq_mod mask_eq_exp_minus_1)

lemma and_mask16: "n AND 0xFFFF = n mod (2 ^ 16 :: nat)"
  using take_bit_eq_mask [of 16 n] by (simp add: take_bit_eq_mod mask_eq_exp_minus_1)

definition wf_desc :: "descriptor \<Rightarrow> bool" where
  "wf_desc d \<longleftrightarrow> op d < 2 ^ 16 \<and> dflags d < 2 ^ 16 \<and> seq d < 2 ^ 32 \<and> a0 d < 2 ^ 64 \<and> a1 d < 2 ^ 64 \<and> a2 d < 2 ^ 64"

lemma length_pack_desc [simp]: "length (pack_desc d) = 32"
  by (simp add: pack_desc_def)

lemma unpack_pack_desc:
  assumes "wf_desc d"
  shows "unpack_desc off (mwrite off (pack_desc d) mm) = d"
proof -
  have segs: "seg 0 2 (pack_desc d) = to_le 2 (op d)" "seg 0 (Suc (Suc 0)) (pack_desc d) = to_le 2 (op d)" "seg 2 4 (pack_desc d) = to_le 2 (dflags d)"
    "seg 4 8 (pack_desc d) = to_le 4 (seq d)" "seg 8 16 (pack_desc d) = to_le 8 (a0 d)"
    "seg 16 24 (pack_desc d) = to_le 8 (a1 d)" "seg 24 32 (pack_desc d) = to_le 8 (a2 d)"
    by (simp_all add: pack_desc_def seg_def)
  show ?thesis
    using assms by (simp add: unpack_desc_def unpack_mwrite_inside segs from_le_to_le wf_desc_def)
qed

lemma unpack_desc_outside:
  "off + 32 \<le> a \<or> a + length bs \<le> off \<Longrightarrow> unpack_desc off (mwrite a bs mm) = unpack_desc off mm"
  by (auto simp: unpack_desc_def intro!: unpack_mwrite_outside)

section \<open>The ring as a queue\<close>

lemma counter_less: "ring_head base mm < 2 ^ 32" "ring_tail base mm < 2 ^ 32"
  using from_le_less [of "mread base 4 mm"] from_le_less [of "mread (base + 4) 4 mm"]
  by (simp_all add: ring_head_def ring_tail_def unpack_from_def)

lemma pending_less: "pending base mm < 2 ^ 32"
  by (simp add: pending_def and_mask32 nat_less_iff)

text \<open>Head and tail are 32-bit counters that wrap; their distance is what is queued.\<close>

lemma head_eq: "ring_head base mm = (ring_tail base mm + pending base mm) mod 2 ^ 32"
proof -
  let ?h = "int (ring_head base mm)" and ?t = "int (ring_tail base mm)" and ?N = "2 ^ 32 :: int"
  have "int (pending base mm) = (?h - ?t) mod ?N" by (simp add: pending_def and_mask32)
  then have "(?t + int (pending base mm)) mod ?N = (?t + (?h - ?t)) mod ?N"
    by (simp only: mod_add_right_eq)
  also have "?t + (?h - ?t) = ?h" by simp
  also have "?h mod ?N = ?h"
    by (rule mod_pos_pos_trivial) (use counter_less(1) [of base mm] in simp_all)
  finally have "int ((ring_tail base mm + pending base mm) mod 2 ^ 32) = ?h" by (simp add: of_nat_mod)
  then show ?thesis by linarith
qed

lemma pending_unique:
  assumes "ring_head base mm = (ring_tail base mm + p) mod 2 ^ 32" "p < 2 ^ 32"
  shows "pending base mm = p"
proof -
  let ?t = "int (ring_tail base mm)" and ?N = "2 ^ 32 :: int"
  have "int (ring_head base mm) = (?t + int p) mod ?N" using assms(1) by (simp add: of_nat_mod)
  then have "(int (ring_head base mm) - ?t) mod ?N = (?t + int p - ?t) mod ?N"
    by (simp only: mod_diff_left_eq)
  also have "\<dots> = int p" using assms(2) by simp
  finally show ?thesis by (simp add: pending_def and_mask32)
qed

lemma desc_wrap: "desc base (n mod 2 ^ 32) = desc base n"
  by (simp add: desc_def RING_DESCS_def mod_mod_cancel)

lemma desc_distinct:
  assumes "i < j" "j - i < RING_DESCS"
  shows "desc base i + 32 \<le> desc base j \<or> desc base j + 32 \<le> desc base i"
proof -
  have "i mod 64 \<noteq> j mod 64"
  proof
    assume "i mod 64 = j mod 64"
    then have "64 dvd j - i" using assms(1) by (metis less_imp_le mod_eq_dvd_iff_nat)
    then show False using assms by (auto simp: RING_DESCS_def dest: dvd_imp_le)
  qed
  then show ?thesis by (simp add: desc_def layout) linarith
qed

lemma desc_range: "base + 16 \<le> desc base i \<and> desc base i + 32 \<le> base + 2064"
proof -
  have "i mod 64 < 64" by simp
  then have "i mod 64 * 32 \<le> 63 * 32" by (intro mult_right_mono) auto
  then show ?thesis by (simp add: desc_def layout)
qed

text \<open>What travels: opcode, flags and the three arguments.\<close>

type_synonym message = "nat \<times> nat \<times> nat \<times> nat \<times> nat"

definition content :: "descriptor \<Rightarrow> message" where
  "content d = (op d, dflags d, a0 d, a1 d, a2 d)"

definition queued :: "nat \<Rightarrow> mem \<Rightarrow> message list" where
  "queued base mm = map (\<lambda>i. content (unpack_desc (desc base (ring_tail base mm + i)) mm)) [0 ..< pending base mm]"

definition ring_inv :: "nat \<Rightarrow> mem \<Rightarrow> bool" where
  "ring_inv base mm \<longleftrightarrow> pending base mm \<le> RING_DESCS"

lemma length_queued [simp]: "length (queued base mm) = pending base mm"
  by (simp add: queued_def)

lemma ring_push_frame:
  assumes "ring_push base opc x0 x1 x2 fl mm = Inr (True, mm')"
  shows "ring_tail base mm' = ring_tail base mm" "pending base mm' = Suc (pending base mm)"
    "\<And>i. i < pending base mm \<Longrightarrow> unpack_desc (desc base (ring_tail base mm + i)) mm' = unpack_desc (desc base (ring_tail base mm + i)) mm"
    "unpack_desc (desc base (ring_tail base mm + pending base mm)) mm' = \<lparr>op = opc mod 2 ^ 16, dflags = fl mod 2 ^ 16,
       seq = ring_head base mm, a0 = x0, a1 = x1, a2 = x2\<rparr>"
    "pending base mm < RING_DESCS"
    "\<And>a. a < base \<or> base + 2064 \<le> a \<Longrightarrow> mm' a = mm a"
proof -
  let ?h = "ring_head base mm" and ?t = "ring_tail base mm" and ?p = "pending base mm"
  let ?d = "\<lparr>op = opc mod 2 ^ 16, dflags = fl mod 2 ^ 16, seq = ?h, a0 = x0, a1 = x1, a2 = x2\<rparr>"
  let ?m1 = "mwrite (desc base ?h) (pack_desc ?d) mm"
  have lt: "?p < RING_DESCS" and xs: "x0 < 2 ^ 64" "x1 < 2 ^ 64" "x2 < 2 ^ 64"
    and mm': "mm' = mwrite base (to_le 4 ((?h + 1) mod 2 ^ 32)) ?m1"
    using assms counter_less(1) [of base mm]
    by (auto simp: ring_push_def Let_def result_simps set_head_def and_mask32 and_mask16 split: if_splits)
  have hd: "desc base ?h = desc base (?t + ?p)" using head_eq [of base mm] desc_wrap by metis
  note r = desc_range [of base]
  show "pending base mm < RING_DESCS" by (rule lt)
  show t: "ring_tail base mm' = ?t"
    using r [of ?h] by (simp add: mm' ring_tail_def unpack_mwrite_outside)
  have h': "ring_head base mm' = (?h + 1) mod 2 ^ 32"
    by (simp add: mm' ring_head_def unpack_mwrite_inside from_le_to_le seg_all)
  have "(?h + 1) mod 2 ^ 32 = (?t + Suc ?p) mod 2 ^ 32"
    using head_eq [of base mm] by (metis Suc_eq_plus1 add_Suc_right mod_Suc_eq)
  then show "pending base mm' = Suc ?p"
    using lt h' t by (intro pending_unique) (simp_all add: RING_DESCS_def)
  show "unpack_desc (desc base (?t + i)) mm' = unpack_desc (desc base (?t + i)) mm" if "i < ?p" for i
    using that lt r [of "?t + i"] desc_distinct [of "?t + i" "?t + ?p" base]
    by (simp add: mm' unpack_desc_outside hd)
  have "wf_desc ?d" using xs counter_less(1) [of base mm] by (simp add: wf_desc_def)
  then show "unpack_desc (desc base (?t + ?p)) mm' = ?d"
    using r [of "?t + ?p"] by (simp add: mm' unpack_desc_outside hd unpack_pack_desc)
  show "mm' a = mm a" if "a < base \<or> base + 2064 \<le> a" for a
    using that r [of ?h] by (auto simp: mm' mwrite_def)
qed

lemma ring_pop_frame:
  assumes "ring_pop base mm = Some (d, mm')"
  shows "d = unpack_desc (desc base (ring_tail base mm)) mm" "0 < pending base mm"
    "ring_head base mm' = ring_head base mm" "ring_tail base mm' = (ring_tail base mm + 1) mod 2 ^ 32"
    "pending base mm' = pending base mm - 1" "\<And>i. unpack_desc (desc base i) mm' = unpack_desc (desc base i) mm"
    "\<And>a. a < base + 4 \<or> base + 8 \<le> a \<Longrightarrow> mm' a = mm a"
proof -
  let ?h = "ring_head base mm" and ?t = "ring_tail base mm" and ?p = "pending base mm"
  have ne: "?h \<noteq> ?t" and d: "d = unpack_desc (desc base ?t) mm"
    and mm': "mm' = mwrite (base + 4) (to_le 4 ((?t + 1) mod 2 ^ 32)) mm"
    using assms by (auto simp: ring_pop_def Let_def set_tail_def and_mask32 split: if_splits)
  show "d = unpack_desc (desc base ?t) mm" by (rule d)
  show pos: "0 < ?p"
  proof (rule ccontr)
    assume "\<not> 0 < ?p"
    then show False using ne head_eq [of base mm] counter_less(2) [of base mm] by simp
  qed
  show h: "ring_head base mm' = ?h" by (simp add: mm' ring_head_def unpack_mwrite_outside)
  show t: "ring_tail base mm' = (?t + 1) mod 2 ^ 32"
    by (simp add: mm' ring_tail_def unpack_mwrite_inside from_le_to_le seg_all)
  have "((?t + 1) mod 2 ^ 32 + (?p - 1)) mod 2 ^ 32 = (?t + 1 + (?p - 1)) mod 2 ^ 32"
    by (rule mod_add_left_eq)
  then have "?h = (ring_tail base mm' + (?p - 1)) mod 2 ^ 32"
    using pos t head_eq [of base mm] by simp
  then show "pending base mm' = ?p - 1"
    using h pending_less [of base mm] by (intro pending_unique) simp_all
  show "unpack_desc (desc base i) mm' = unpack_desc (desc base i) mm" for i
    using desc_range [of base i] by (simp add: mm' unpack_desc_outside)
  show "mm' a = mm a" if "a < base + 4 \<or> base + 8 \<le> a" for a
    using that by (auto simp: mm' mwrite_def)
qed

lemma ring_push_queued:
  assumes "ring_push base opc x0 x1 x2 fl mm = Inr (True, mm')"
  shows "queued base mm' = queued base mm @ [(opc mod 2 ^ 16, fl mod 2 ^ 16, x0, x1, x2)]"
  using ring_push_frame [OF assms] by (simp add: queued_def content_def)

lemma ring_pop_queued:
  assumes "ring_pop base mm = Some (d, mm')"
  shows "queued base mm = content d # queued base mm'"
proof -
  note f = ring_pop_frame [OF assms]
  have tail: "desc base (ring_tail base mm' + i) = desc base (ring_tail base mm + Suc i)" for i
    using f(4) desc_wrap [of base "(ring_tail base mm + 1) mod 2 ^ 32 + i"] desc_wrap [of base "ring_tail base mm + 1 + i"]
    by (simp add: mod_add_left_eq)
  have "[0 ..< pending base mm] = 0 # map Suc [0 ..< pending base mm - 1]"
    using f(2) by (simp add: map_Suc_upt upt_conv_Cons)
  then show ?thesis using f(1,5,6) tail by (simp add: queued_def comp_def)
qed

text \<open>The two ends of a ring, on the contents of the descriptors, meet the queue interface.\<close>

definition ring_enq :: "nat \<Rightarrow> message \<Rightarrow> mem \<Rightarrow> mem option" where
  "ring_enq base = (\<lambda>(opc, fl, x0, x1, x2) mm.
     case ring_push base opc x0 x1 x2 fl mm of Inr (True, mm') \<Rightarrow> Some mm' | _ \<Rightarrow> None)"

definition ring_deq :: "nat \<Rightarrow> mem \<Rightarrow> (message \<times> mem) option" where
  "ring_deq base mm = map_option (\<lambda>(d, mm'). (content d, mm')) (ring_pop base mm)"

definition wf_content :: "message \<Rightarrow> bool" where
  "wf_content = (\<lambda>(opc, fl, x0, x1, x2). opc < 2 ^ 16 \<and> fl < 2 ^ 16 \<and> x0 < 2 ^ 64 \<and> x1 < 2 ^ 64 \<and> x2 < 2 ^ 64)"

lemma ring_push_room:
  assumes "pending base mm < RING_DESCS" "x0 < 2 ^ 64" "x1 < 2 ^ 64" "x2 < 2 ^ 64"
  obtains mm' where "ring_push base opc x0 x1 x2 fl mm = Inr (True, mm')"
  using assms by (simp add: ring_push_def Let_def)

lemma ring_enq_Some:
  "ring_enq base (opc, fl, x0, x1, x2) mm = Some mm' \<longleftrightarrow> ring_push base opc x0 x1 x2 fl mm = Inr (True, mm')"
  by (auto simp: ring_enq_def split: sum.splits bool.splits)

lemma ring_pop_None: "ring_pop base mm = None \<longleftrightarrow> pending base mm = 0"
proof -
  have "ring_head base mm = ring_tail base mm \<longleftrightarrow> pending base mm = 0"
  proof
    assume "pending base mm = 0"
    then show "ring_head base mm = ring_tail base mm" using head_eq [of base mm] counter_less(2) [of base mm] by simp
  qed (simp add: pending_def)
  then show ?thesis by (simp add: ring_pop_def Let_def)
qed

interpretation ring: bounded_fifo "ring_enq base" "ring_deq base" "queued base" RING_DESCS "ring_inv base" wf_content
proof
  fix mm mm' :: mem and m :: message
  obtain opc fl x0 x1 x2 where m: "m = (opc, fl, x0, x1, x2)" by (cases m) auto
  show "ring_enq base m mm \<noteq> None" if room: "ring_inv base mm" "wf_content m" "length (queued base mm) < RING_DESCS"
  proof -
    obtain mm1 where "ring_push base opc x0 x1 x2 fl mm = Inr (True, mm1)"
      by (rule ring_push_room [of base mm x0 x1 x2 opc fl]) (use room in \<open>simp_all add: m wf_content_def\<close>)
    then show ?thesis by (simp add: m ring_enq_def)
  qed
  show "ring_enq base m mm = None" if "ring_inv base mm" "length (queued base mm) = RING_DESCS"
    using that by (simp add: m ring_enq_def ring_push_def Let_def)
  show "ring_inv base mm' \<and> queued base mm' = queued base mm @ [m]"
    if "ring_inv base mm" "wf_content m" "ring_enq base m mm = Some mm'"
  proof -
    have p: "ring_push base opc x0 x1 x2 fl mm = Inr (True, mm')" using that by (simp add: m ring_enq_Some)
    show ?thesis using ring_push_queued [OF p] ring_push_frame(2,5) [OF p] that(2)
      by (simp add: m wf_content_def ring_inv_def)
  qed
  show "ring_deq base mm = None \<longleftrightarrow> queued base mm = []" if "ring_inv base mm"
    by (simp add: ring_deq_def ring_pop_None queued_def)
  show "ring_inv base mm' \<and> queued base mm = m # queued base mm'"
    if inv: "ring_inv base mm" and deq: "ring_deq base mm = Some (m, mm')"
  proof -
    obtain d where d: "ring_pop base mm = Some (d, mm')" "m = content d" using deq by (auto simp: ring_deq_def)
    show ?thesis using ring_pop_queued [OF d(1)] ring_pop_frame(5) [OF d(1)] inv d(2) by (simp add: ring_inv_def)
  qed
qed

section \<open>Properties\<close>

text \<open>
  A client's operations on a ring with their results, the specification of a bounded queue, and the
  results of a list of operations.
\<close>

datatype ring_op = Push nat nat nat nat nat | Pop

datatype ring_result = Pushed bool | Refused | Popped "message option"

fun ring_do :: "nat \<Rightarrow> ring_op \<Rightarrow> mem \<Rightarrow> ring_result \<times> mem" where
  "ring_do base (Push opc fl x0 x1 x2) mm = (case ring_push base opc x0 x1 x2 fl mm of Inl _ \<Rightarrow> (Refused, mm) | Inr (sent, mm') \<Rightarrow> (Pushed sent, mm'))"
| "ring_do base Pop mm = (case ring_pop base mm of None \<Rightarrow> (Popped None, mm) | Some (d, mm') \<Rightarrow> (Popped (Some (content d)), mm'))"

fun queue_do :: "ring_op \<Rightarrow> message list \<Rightarrow> ring_result \<times> message list" where
  "queue_do (Push opc fl x0 x1 x2) q =
     (if 64 \<le> length q then (Pushed False, q)
      else if x0 < 2 ^ 64 \<and> x1 < 2 ^ 64 \<and> x2 < 2 ^ 64 then (Pushed True, q @ [(opc mod 2 ^ 16, fl mod 2 ^ 16, x0, x1, x2)])
      else (Refused, q))"
| "queue_do Pop q = (case q of [] \<Rightarrow> (Popped None, []) | m # q' \<Rightarrow> (Popped (Some m), q'))"

fun results :: "('o \<Rightarrow> 's \<Rightarrow> 'r \<times> 's) \<Rightarrow> 'o list \<Rightarrow> 's \<Rightarrow> 'r list \<times> 's" where
  "results step [] s = ([], s)"
| "results step (x # xs) s = (case step x s of (r, s') \<Rightarrow> (case results step xs s' of (rs, s'') \<Rightarrow> (r # rs, s'')))"

lemma ring_do_refines:
  assumes "ring_inv base mm" "ring_do base x mm = (r, mm')"
  shows "ring_inv base mm' \<and> queue_do x (queued base mm) = (r, queued base mm')"
proof (cases x)
  case (Push opc fl x0 x1 x2)
  consider (full) "64 \<le> pending base mm" | (room) "pending base mm < 64" "x0 < 2 ^ 64 \<and> x1 < 2 ^ 64 \<and> x2 < 2 ^ 64"
    | (bad) "pending base mm < 64" "\<not> (x0 < 2 ^ 64 \<and> x1 < 2 ^ 64 \<and> x2 < 2 ^ 64)" by linarith
  then show ?thesis
  proof cases
    case full
    then show ?thesis using assms by (simp add: Push ring_push_def Let_def RING_DESCS_def)
  next
    case room
    obtain mm1 where p: "ring_push base opc x0 x1 x2 fl mm = Inr (True, mm1)"
      by (rule ring_push_room [of base mm x0 x1 x2 opc fl]) (use room in \<open>simp_all add: RING_DESCS_def\<close>)
    then have "r = Pushed True" "mm' = mm1" using assms(2) by (simp_all add: Push)
    then show ?thesis using room ring_push_queued [OF p] ring_push_frame(2,5) [OF p] by (simp add: Push ring_inv_def)
  next
    case bad
    then have "ring_push base opc x0 x1 x2 fl mm = Inl StructError" by (simp add: ring_push_def Let_def RING_DESCS_def ok_def)
    then show ?thesis using bad assms by (auto simp: Push)
  qed
next
  case Pop
  show ?thesis
  proof (cases "ring_pop base mm")
    case None
    then have "queued base mm = []" using ring_pop_None [of base mm] by (simp add: queued_def)
    then show ?thesis using assms None by (auto simp: Pop)
  next
    case (Some dm)
    obtain d m1 where d: "dm = (d, m1)" by (cases dm)
    have p: "ring_pop base mm = Some (d, m1)" using Some d by simp
    then have "r = Popped (Some (content d))" "mm' = m1" using assms(2) by (simp_all add: Pop)
    then show ?thesis using ring_pop_queued [OF p] ring_pop_frame(5) [OF p] assms(1) by (simp add: Pop ring_inv_def)
  qed
qed

text \<open>
  (C14) The ring is a bounded first-in first-out queue, also when its 32-bit counters wrap: on a ring
  that holds at most 64 messages, any interleaving of pushes and pops, pushes on a full ring and
  pops on an empty one included, returns exactly what a queue of at most 64 messages returns that
  started with the messages in the ring, and leaves exactly that queue in the ring. A push keeps the low 16
  bits of its opcode and flags; on a full ring it is refused with False and changes nothing, and
  an argument that does not fit 64 bits is an error that changes nothing.
\<close>

theorem dp_ring_fifo:
  assumes "ring_inv base mm" "results (ring_do base) ops mm = (rs, mm')"
  shows "results queue_do ops (queued base mm) = (rs, queued base mm') \<and> length (queued base mm') \<le> 64 \<and> ring_inv base mm'"
  using assms
proof (induction ops arbitrary: mm rs)
  case Nil
  then show ?case by (auto simp: ring_inv_def RING_DESCS_def)
next
  case (Cons x xs)
  obtain r m1 where s: "ring_do base x mm = (r, m1)" by fastforce
  obtain rs' where t: "results (ring_do base) xs m1 = (rs', mm')" "rs = r # rs'" using Cons.prems(2) s by (auto split: prod.splits)
  show ?case using Cons.IH [OF _ t(1)] ring_do_refines [OF Cons.prems(1) s] t(2) by simp
qed

text \<open>
  A push that succeeds appends its message to the command ring and stamps it with the head
  counter; it leaves the header, the event ring and the port table as they are. On a full ring
  it changes nothing and reports False.
\<close>

theorem dp_push_effect:
  assumes "ring_inv OFF_CMD_RING mm" "push opc x0 x1 x2 fl mm = Inr (sent, mm')"
  shows "(sent \<longleftrightarrow> pending OFF_CMD_RING mm < RING_DESCS)
    \<and> queued OFF_CMD_RING mm' = queued OFF_CMD_RING mm @ (if sent then [(opc mod 2 ^ 16, fl mod 2 ^ 16, x0, x1, x2)] else [])
    \<and> (\<not> sent \<longrightarrow> mm' = mm)
    \<and> (sent \<longrightarrow> seq (unpack_desc (desc OFF_CMD_RING (ring_head OFF_CMD_RING mm)) mm') = ring_head OFF_CMD_RING mm)
    \<and> header mm' = header mm \<and> queued OFF_EVT_RING mm' = queued OFF_EVT_RING mm \<and> ports mm' = ports mm"
proof (cases sent)
  case False
  then show ?thesis using assms by (auto simp: push_def ring_push_def Let_def result_simps split: if_splits)
next
  case True
  have p: "ring_push OFF_CMD_RING opc x0 x1 x2 fl mm = Inr (True, mm')" using assms True by (simp add: push_def)
  note f = ring_push_frame [OF p]
  have same: "mm' a = mm a" if "a < 0x40 \<or> 0x850 \<le> a" for a
    using f(6) [of a] that by (simp add: OFF_CMD_RING_def)
  have rd: "mread a n mm' = mread a n mm" if "a + n \<le> 0x40 \<or> 0x850 \<le> a" for a n
    using that by (auto simp: mread_def same)
  then have un: "unpack_from n a mm' = unpack_from n a mm" if "a + n \<le> 0x40 \<or> 0x850 \<le> a" for a n
    using that by (simp add: unpack_from_def)
  have "header mm' = header mm" by (simp add: header_def OFF_HDR_def rd un)
  moreover have "queued OFF_EVT_RING mm' = queued OFF_EVT_RING mm"
  proof -
    have "unpack_desc (desc OFF_EVT_RING i) mm' = unpack_desc (desc OFF_EVT_RING i) mm" for i
      using desc_range [of OFF_EVT_RING i] by (simp add: unpack_desc_def un OFF_EVT_RING_def)
    moreover have "ring_tail OFF_EVT_RING mm' = ring_tail OFF_EVT_RING mm" "ring_head OFF_EVT_RING mm' = ring_head OFF_EVT_RING mm"
      by (simp_all add: ring_tail_def ring_head_def un OFF_EVT_RING_def)
    ultimately show ?thesis by (simp add: queued_def pending_def)
  qed
  moreover have "port i mm' = port i mm" for i
  proof -
    have b: "0x3000 \<le> port_base i" by (simp add: port_base_def OFF_PORTS_def)
    show ?thesis using b by (simp add: port_def Let_def un rd same)
  qed
  moreover have "seq (unpack_desc (desc OFF_CMD_RING (ring_head OFF_CMD_RING mm)) mm') = ring_head OFF_CMD_RING mm"
    using f(4) head_eq [of OFF_CMD_RING mm] desc_wrap
    by (metis descriptor.select_convs(3))
  ultimately show ?thesis using True f(5) ring_push_queued [OF p] by (simp add: ports_def)
qed

lemma drain_deqs: "map content (fst (drain n mm)) = fst (deqs (ring_deq OFF_EVT_RING) n mm)
    \<and> snd (drain n mm) = snd (deqs (ring_deq OFF_EVT_RING) n mm)"
proof (induction n arbitrary: mm)
  case (Suc n)
  then show ?case by (cases "pop_event mm") (auto simp: pop_event_def ring_deq_def split_beta)
qed simp

text \<open>
  \<^verbatim>\<open>drain\<close> returns the oldest queued events in order, at most its limit, and leaves
  exactly the rest in the event ring.
\<close>

theorem dp_drain_events:
  assumes "ring_inv OFF_EVT_RING mm"
  shows "map content (fst (drain limit mm)) = take limit (queued OFF_EVT_RING mm)
    \<and> queued OFF_EVT_RING (snd (drain limit mm)) = drop limit (queued OFF_EVT_RING mm)"
proof -
  have "deqs (ring_deq OFF_EVT_RING) limit mm = (fst (deqs (ring_deq OFF_EVT_RING) limit mm), snd (deqs (ring_deq OFF_EVT_RING) limit mm))"
    by simp
  from ring.deqs_queue [OF assms this] show ?thesis using drain_deqs [of limit mm] by simp
qed

text \<open>The fields of the packed words.\<close>

lemma and_mask_take_bit: "(n :: nat) AND 0xFF = take_bit 8 n" "n AND 7 = take_bit 3 n" "n AND 0xFFFF = take_bit 16 n"
  "n AND 0xFFFFFFFF = take_bit 32 n"
  using take_bit_eq_mask [of 8 n] take_bit_eq_mask [of 3 n] take_bit_eq_mask [of 16 n] take_bit_eq_mask [of 32 n]
  by (simp_all add: mask_eq_exp_minus_1)

lemma pack_cfg_fields:
  "pack_cfg t l lane ng phy fl r AND 0xFF = t mod 256"
  "drop_bit 8 (pack_cfg t l lane ng phy fl r) AND 0x7 = l mod 8"
  "drop_bit 16 (pack_cfg t l lane ng phy fl r) AND 0xFF = lane mod 256"
  "drop_bit 24 (pack_cfg t l lane ng phy fl r) AND 0xFF = ng mod 256"
  "drop_bit 32 (pack_cfg t l lane ng phy fl r) AND 0xFF = phy mod 256"
  "drop_bit 40 (pack_cfg t l lane ng phy fl r) AND 0xFF = fl mod 256"
  "drop_bit 48 (pack_cfg t l lane ng phy fl r) AND 0xFF = r mod 256"
proof -
  have m: "x mod 256 = take_bit 8 x" "x mod 8 = take_bit 3 x" for x :: nat by (simp_all add: take_bit_eq_mod)
  show "pack_cfg t l lane ng phy fl r AND 0xFF = t mod 256"
    "drop_bit 8 (pack_cfg t l lane ng phy fl r) AND 0x7 = l mod 8"
    "drop_bit 16 (pack_cfg t l lane ng phy fl r) AND 0xFF = lane mod 256"
    "drop_bit 24 (pack_cfg t l lane ng phy fl r) AND 0xFF = ng mod 256"
    "drop_bit 32 (pack_cfg t l lane ng phy fl r) AND 0xFF = phy mod 256"
    "drop_bit 40 (pack_cfg t l lane ng phy fl r) AND 0xFF = fl mod 256"
    "drop_bit 48 (pack_cfg t l lane ng phy fl r) AND 0xFF = r mod 256"
    unfolding pack_cfg_def and_mask_take_bit m by (rule bit_eqI, auto simp: bit_simps)+
qed

lemma pack_a2_fields:
  "pack_a2 speed mt AND 0xFFFFFFFF = speed mod 2 ^ 32" "drop_bit 32 (pack_a2 speed mt) AND 0xFFFF = mt mod 2 ^ 16"
proof -
  have m: "x mod 2 ^ 32 = take_bit 32 x" "x mod 2 ^ 16 = take_bit 16 x" for x :: nat by (simp_all add: take_bit_eq_mod)
  show "pack_a2 speed mt AND 0xFFFFFFFF = speed mod 2 ^ 32" "drop_bit 32 (pack_a2 speed mt) AND 0xFFFF = mt mod 2 ^ 16"
    unfolding pack_a2_def and_mask_take_bit m by (rule bit_eqI, auto simp: bit_simps)+
qed

lemma or_less_exp: "(a :: nat) < 2 ^ n \<Longrightarrow> b < 2 ^ n \<Longrightarrow> a OR b < 2 ^ n"
  by (simp add: take_bit_nat_less_exp flip: take_bit_nat_eq_self_iff)

lemma pack_less: "pack_cfg t l lane ng phy fl r < 2 ^ 64" "pack_a2 speed mt < 2 ^ 64"
proof -
  have f: "push_bit k (take_bit j x) < (2 ^ 64 :: nat)" if "k + j \<le> 64" for k j x
  proof -
    have "take_bit j x * 2 ^ k < 2 ^ j * 2 ^ k" by (simp add: take_bit_nat_less_exp)
    also have "\<dots> = 2 ^ (j + k)" by (simp add: power_add)
    also have "\<dots> \<le> 2 ^ 64" using that by (intro power_increasing) auto
    finally show ?thesis by (simp add: push_bit_eq_mult)
  qed
  have g: "take_bit j x < (2 ^ 64 :: nat)" if "j \<le> 64" for j x using f [of 0 j x] that by simp
  show "pack_cfg t l lane ng phy fl r < 2 ^ 64" "pack_a2 speed mt < 2 ^ 64"
    unfolding pack_cfg_def pack_a2_def and_mask_take_bit by (intro or_less_exp f g; simp)+
qed

lemma send_or_full_Inr:
  assumes "send_or_full opc x0 x1 x2 mm = Inr mm'"
  shows "push opc x0 x1 x2 0 mm = Inr (True, mm')"
  using assms by (auto simp: send_or_full_def result_simps)

text \<open>
  \<^verbatim>\<open>port_config\<close> sends exactly one command, only to a dataplane that advertises
  PORT_CTL, and the packed words of the command carry the requested values: reading the fields
  back at the positions of the C header gives the resolved type, LMAC type, lane, negotiation
  mode, PHY address, flags and role, and the speed and MTU.
\<close>

theorem dp_port_config_faithful:
  assumes "port_config r mm = Inr mm'"
  shows "caps mm AND CAP_PORT_CTL \<noteq> 0 \<and> pending OFF_CMD_RING mm < RING_DESCS
    \<and> (\<exists>t rid ng w. resolve_name PORT_TYPE (DpError ''unknown port type'') (rq_port_type r) = Inr t
        \<and> resolve_name PORT_ROLE (DpError ''unknown role'') (rq_role r) = Inr rid
        \<and> map_of [(''autoneg'', 0), (''forced'', 1)] (rq_neg r) = Some ng
        \<and> queued OFF_CMD_RING mm' = queued OFF_CMD_RING mm
            @ [(CMD_PORT_CONFIG, 0, rq_lport r, w, pack_a2 (rq_speed r) (rq_mtu r))]
        \<and> w AND 0xFF = t mod 256 \<and> drop_bit 8 w AND 0x7 = default_lmac t (rq_lmac_type r) mod 8
        \<and> drop_bit 16 w AND 0xFF = rq_lane r mod 256 \<and> drop_bit 24 w AND 0xFF = ng
        \<and> drop_bit 32 w AND 0xFF = rq_phy r mod 256 \<and> drop_bit 48 w AND 0xFF = rid mod 256
        \<and> pack_a2 (rq_speed r) (rq_mtu r) AND 0xFFFFFFFF = rq_speed r mod 2 ^ 32
        \<and> drop_bit 32 (pack_a2 (rq_speed r) (rq_mtu r)) AND 0xFFFF = rq_mtu r mod 2 ^ 16)"
proof -
  define fl where "fl = (if rq_has_lmac r then F_HAS_LMAC else 0) OR (if rq_mgmt r then F_MGMT else 0)"
  obtain t rid ng where c: "caps mm AND CAP_PORT_CTL \<noteq> 0"
    and t: "resolve_name PORT_TYPE (DpError ''unknown port type'') (rq_port_type r) = Inr t"
    and rid: "resolve_name PORT_ROLE (DpError ''unknown role'') (rq_role r) = Inr rid"
    and ng: "map_of [(''autoneg'', 0), (''forced'', 1)] (rq_neg r) = Some ng"
    and s: "send_or_full CMD_PORT_CONFIG (rq_lport r)
      (pack_cfg t (default_lmac t (rq_lmac_type r)) (rq_lane r) ng (rq_phy r) fl rid) (pack_a2 (rq_speed r) (rq_mtu r)) mm = Inr mm'"
    using assms unfolding port_config_def fl_def [symmetric]
    by (auto simp: result_simps require_port_ctl_def Let_def split: option.splits if_splits)
  note p = send_or_full_Inr [OF s, unfolded push_def]
  have "ng mod 256 = ng" using ng by (auto split: if_splits)
  then show ?thesis
    using c t rid ng ring_push_queued [OF p] ring_push_frame(5) [OF p] pack_cfg_fields pack_a2_fields
    by (auto simp: CMD_PORT_CONFIG_def)
qed

text \<open>
  \<^verbatim>\<open>port_enum\<close> does not look at what \<^verbatim>\<open>push\<close> reports: on a full command
  ring it succeeds without having sent anything, where the other port commands raise.
\<close>

theorem dp_port_enum_drops:
  assumes "caps mm AND CAP_PORT_CTL \<noteq> 0" "pending OFF_CMD_RING mm \<ge> RING_DESCS"
  shows "port_enum mm = Inr mm \<and> port_admin lp up mm = Inl (DpError ''command ring full'')"
  using assms by (simp add: port_enum_def port_admin_def send_or_full_def require_port_ctl_def push_def ring_push_def)

section \<open>A concrete region\<close>

text \<open>
  A formatted region whose dataplane advertises PORT_CTL, with the counters of both rings just
  below the wrap-around.
\<close>

definition ex_region :: mem where
  "ex_region = mwrite 0x40 (to_le 4 0xFFFFFFFF @ to_le 4 0xFFFFFFFF)
     (mwrite 0x1040 (to_le 4 1 @ to_le 4 0xFFFFFFFF)
       (mwrite 40 (to_le 4 1) (mwrite 0 (ABI_MAGIC @ to_le 2 2) (\<lambda>_. 0))))"

lemma ex_counters:
  "ring_head OFF_CMD_RING ex_region = 0xFFFFFFFF" "ring_tail OFF_CMD_RING ex_region = 0xFFFFFFFF"
  "ring_head OFF_EVT_RING ex_region = 1" "ring_tail OFF_EVT_RING ex_region = 0xFFFFFFFF"
  "caps ex_region = 1"
  by (simp_all add: ex_region_def ring_head_def ring_tail_def caps_def header_def OFF_HDR_def OFF_CMD_RING_def OFF_EVT_RING_def
      ABI_MAGIC_def unpack_mwrite_inside unpack_mwrite_outside seg_def from_le_to_le)

lemma ex_pending: "pending OFF_CMD_RING ex_region = 0" "pending OFF_EVT_RING ex_region = 2"
proof -
  show "pending OFF_CMD_RING ex_region = 0" by (rule pending_unique) (simp_all add: ex_counters)
  show "pending OFF_EVT_RING ex_region = 2" by (rule pending_unique) (simp_all add: ex_counters)
qed

lemma ex_rings: "ring_inv OFF_CMD_RING ex_region" "ring_inv OFF_EVT_RING ex_region"
  by (simp_all add: ring_inv_def ex_pending RING_DESCS_def)

lemma ex_queued: "queued OFF_CMD_RING ex_region = []"
  by (simp add: queued_def ex_pending)

theorem dp_ring_fifo_witness:
  "\<exists>mm'. results (ring_do OFF_CMD_RING) [Push 1 0 7 0 0, Pop, Pop, Push 65545 0 3 1 0, Pop] ex_region
     = ([Pushed True, Popped (Some (1, 0, 7, 0, 0)), Popped None, Pushed True, Popped (Some (9, 0, 3, 1, 0))], mm')"
proof -
  let ?ops = "[Push 1 0 7 0 0, Pop, Pop, Push 65545 0 3 1 0, Pop]"
  obtain rs mm' where r: "results (ring_do OFF_CMD_RING) ?ops ex_region = (rs, mm')" by fastforce
  from dp_ring_fifo [OF ex_rings(1) r] have "results queue_do ?ops [] = (rs, queued OFF_CMD_RING mm')" by (simp only: ex_queued)
  then show ?thesis using r by simp
qed

lemma ex_push: "\<exists>mm'. push CMD_PING 7 0 0 0 ex_region = Inr (True, mm')"
  unfolding push_def using ring_push_room [of OFF_CMD_RING ex_region 7 0 0 CMD_PING 0]
  by (auto simp: ex_pending RING_DESCS_def)

theorem dp_push_effect_witness:
  "\<exists>mm'. push CMD_PING 7 0 0 0 ex_region = Inr (True, mm') \<and> queued OFF_CMD_RING mm' = [(1, 0, 7, 0, 0)] \<and> header mm' = header ex_region"
proof -
  obtain mm' where p: "push CMD_PING 7 0 0 0 ex_region = Inr (True, mm')" using ex_push by blast
  show ?thesis using dp_push_effect [OF ex_rings(1) p] p by (auto simp: ex_queued CMD_PING_def)
qed

theorem dp_drain_events_witness:
  "length (fst (drain 256 ex_region)) = 2 \<and> queued OFF_EVT_RING (snd (drain 256 ex_region)) = []"
proof -
  note d = dp_drain_events [OF ex_rings(2), of 256]
  have "length (map content (fst (drain 256 ex_region))) = length (take 256 (queued OFF_EVT_RING ex_region))"
    by (rule arg_cong [OF d [THEN conjunct1]])
  then show ?thesis using d [THEN conjunct2] by (simp add: ex_pending)
qed

definition ex_request :: port_request where
  "ex_request = \<lparr>rq_lport = 5, rq_port_type = Name ''SFP+'', rq_lmac_type = None, rq_lane = 1, rq_neg = ''forced'',
     rq_phy = 255, rq_speed = 10000, rq_mtu = 9216, rq_has_lmac = True, rq_mgmt = False, rq_role = Name ''AE''\<rparr>"

lemma ex_resolve:
  "resolve_name PORT_TYPE e (rq_port_type ex_request) = Inr 3" "resolve_name PORT_ROLE e (rq_role ex_request) = Inr 5"
proof -
  have "id_of PORT_TYPE (py_lower ''SFP+'') = Some 3" "id_of PORT_ROLE (py_lower ''AE'') = Some 5" by code_simp+
  then show "resolve_name PORT_TYPE e (rq_port_type ex_request) = Inr 3" "resolve_name PORT_ROLE e (rq_role ex_request) = Inr 5"
    by (simp_all add: resolve_name_def ex_request_def)
qed

theorem dp_port_config_faithful_witness:
  "\<exists>mm' w. port_config ex_request ex_region = Inr mm'
    \<and> queued OFF_CMD_RING mm' = [(8, 0, 5, w, pack_a2 10000 9216)] \<and> w AND 0xFF = 3 \<and> drop_bit 48 w AND 0xFF = 5"
proof -
  let ?w = "pack_cfg 3 (default_lmac 3 None) 1 1 255 (F_HAS_LMAC OR 0) 5" and ?a = "pack_a2 10000 9216"
  obtain mm' where p: "ring_push OFF_CMD_RING CMD_PORT_CONFIG 5 ?w ?a 0 ex_region = Inr (True, mm')"
    by (rule ring_push_room [of OFF_CMD_RING ex_region 5 ?w ?a CMD_PORT_CONFIG 0])
      (use pack_less(1) [of 3 "default_lmac 3 None" 1 1 255 "F_HAS_LMAC OR 0" 5] pack_less(2) [of 10000 9216] in
        \<open>simp_all add: ex_pending RING_DESCS_def\<close>)
  have f: "rq_lport ex_request = 5" "rq_lmac_type ex_request = None" "rq_lane ex_request = 1" "rq_neg ex_request = ''forced''"
    "rq_phy ex_request = 255" "rq_speed ex_request = 10000" "rq_mtu ex_request = 9216" "rq_has_lmac ex_request" "\<not> rq_mgmt ex_request"
    by (simp_all add: ex_request_def)
  have "port_config ex_request ex_region = Inr mm'"
    using p by (simp add: port_config_def require_port_ctl_def ex_counters CAP_PORT_CTL_def ex_resolve f send_or_full_def push_def)
  from dp_port_config_faithful [OF this] this show ?thesis
    by (auto simp: ex_resolve f ex_queued CMD_PORT_CONFIG_def)
qed

definition ex_full :: mem where
  "ex_full = mwrite 0x40 (to_le 4 64 @ to_le 4 0) ex_region"

theorem dp_port_enum_drops_witness:
  "port_enum ex_full = Inr ex_full \<and> port_admin 1 True ex_full = Inl (DpError ''command ring full'')"
proof -
  have "ring_head OFF_CMD_RING ex_full = 64" "ring_tail OFF_CMD_RING ex_full = 0"
    by (simp_all add: ex_full_def ring_head_def ring_tail_def OFF_CMD_RING_def unpack_mwrite_inside seg_def from_le_to_le)
  then have "pending OFF_CMD_RING ex_full = 64" by (intro pending_unique) simp_all
  moreover have "caps ex_full = 1"
    using ex_counters(5) by (simp add: ex_full_def caps_def header_def OFF_HDR_def unpack_mwrite_outside)
  ultimately show ?thesis using dp_port_enum_drops [of ex_full 1 True] by (simp add: CAP_PORT_CTL_def RING_DESCS_def)
qed

end
