(* ===== verification/Config_Lock.thy ===== *)
theory Config_Lock
  imports Transition
begin

text \<open>
  \<^verbatim>\<open>src/opt/ffn_config_lock.py\<close>: the configuration lease. The database holds at most
  one row (its primary key is 1); every operation is one transaction that first deletes an
  expired row. Times are integers, the clock reading of a transaction is an argument.
\<close>

record lock_row =
  holder :: string
  acquired :: int
  reason :: string

type_synonym lock_db = "lock_row option"

text \<open>The deletion at the start of \<^verbatim>\<open>transaction\<close>: the row goes when \<open>now - acquired > timeout\<close>.\<close>

definition purge :: "int \<Rightarrow> int \<Rightarrow> lock_db \<Rightarrow> lock_db" where
  "purge timeout now db = (case db of Some r \<Rightarrow> if now - acquired r > timeout then None else Some r | None \<Rightarrow> None)"

record lock_status =
  locked :: bool
  st_holder :: string
  st_acquired :: int
  age_seconds :: int
  expires_in :: int
  st_reason :: string

definition status :: "int \<Rightarrow> int \<Rightarrow> lock_db \<Rightarrow> lock_status option \<times> lock_db" where
  "status timeout now db =
     (let db = purge timeout now db in
      case db of
        None \<Rightarrow> (None, db)
      | Some r \<Rightarrow>
          (let age = max 0 (now - acquired r)
           in (Some \<lparr>locked = True, st_holder = holder r, st_acquired = acquired r, age_seconds = age,
                     expires_in = max 0 (timeout - age), st_reason = reason r\<rparr>, db)))"

definition acquire :: "int \<Rightarrow> string \<Rightarrow> string \<Rightarrow> int \<Rightarrow> lock_db \<Rightarrow> (bool \<times> lock_db) res" where
  "acquire timeout user why now db =
     ok (user \<noteq> []) (ValueError ''Configuration lock requires an owner'')
       (let db = purge timeout now db in
        case db of
          Some r \<Rightarrow> if holder r \<noteq> user then Inr (False, db)
                    else Inr (True, Some \<lparr>holder = user, acquired = now, reason = why\<rparr>)
        | None \<Rightarrow> Inr (True, Some \<lparr>holder = user, acquired = now, reason = why\<rparr>))"

definition release :: "int \<Rightarrow> string \<Rightarrow> int \<Rightarrow> lock_db \<Rightarrow> bool \<times> lock_db" where
  "release timeout user now db =
     (let db = purge timeout now db in
      case db of Some r \<Rightarrow> if holder r = user then (True, None) else (False, db) | None \<Rightarrow> (False, db))"

definition override :: "int \<Rightarrow> int \<Rightarrow> lock_db \<Rightarrow> string option \<times> lock_db" where
  "override timeout now db = (let db = purge timeout now db in (map_option holder db, None))"

section \<open>Sequences of operations\<close>

datatype lock_op =
    Status
  | Acquire string string
  | Release string
  | Override

definition lock_step :: "int \<Rightarrow> lock_op \<times> int \<Rightarrow> lock_db \<Rightarrow> lock_db" where
  "lock_step timeout = (\<lambda>(cmd, now) db.
     case cmd of
       Status \<Rightarrow> snd (status timeout now db)
     | Acquire user why \<Rightarrow> (case acquire timeout user why now db of Inr (_, db') \<Rightarrow> db' | Inl _ \<Rightarrow> db)
     | Release user \<Rightarrow> snd (release timeout user now db)
     | Override \<Rightarrow> snd (override timeout now db))"

text \<open>A held lock always has an owner.\<close>

definition lock_inv :: "lock_db \<Rightarrow> bool" where
  "lock_inv db \<longleftrightarrow> (\<forall>r. db = Some r \<longrightarrow> holder r \<noteq> [])"

interpretation lock: invariant_system "lock_step timeout" lock_inv
  by unfold_locales
    (auto simp: lock_inv_def lock_step_def status_def acquire_def release_def override_def purge_def Let_def ok_def
      split: option.splits lock_op.splits if_splits)

text \<open>An operation of somebody else, at a time when the lease has not run out.\<close>

definition intruder :: "int \<Rightarrow> lock_row \<Rightarrow> lock_op \<times> int \<Rightarrow> bool" where
  "intruder timeout r = (\<lambda>(cmd, now). now - acquired r \<le> timeout \<and>
     (case cmd of Status \<Rightarrow> True | Acquire user _ \<Rightarrow> user \<noteq> holder r | Release user \<Rightarrow> user \<noteq> holder r | Override \<Rightarrow> False))"

lemma intruder_step: "intruder timeout r i \<Longrightarrow> lock_step timeout i (Some r) = Some r"
  by (auto simp: intruder_def lock_step_def status_def acquire_def release_def purge_def Let_def ok_def
      split: lock_op.splits)

text \<open>
  (C39) Mutual exclusion: until its lease runs out, also when the clock is set back, no sequence
  of status requests and acquire and release attempts of other users changes the row of the
  holder, and every such acquire attempt is answered with False.
\<close>

theorem config_lock_exclusive:
  assumes "lock_inv (Some r)" "list_all (intruder timeout r) is" "intruder timeout r (Acquire user why, now)" "user \<noteq> []"
  shows "run (lock_step timeout) is (Some r) = Some r
    \<and> acquire timeout user why now (run (lock_step timeout) is (Some r)) = Inr (False, Some r)"
proof -
  have "run (lock_step timeout) is (Some r) = Some r"
    by (rule lock.stable_run [where allowed = "intruder timeout r" and P = "\<lambda>db. db = Some r"])
      (use assms intruder_step in auto)
  then show ?thesis using assms(3,4) by (auto simp: acquire_def purge_def intruder_def Let_def)
qed

text \<open>
  After its lease has run out, or after a release or an override, a lock can be acquired by
  anyone, and whoever acquires it is then reported as its holder with the full lease to go.
\<close>

theorem config_lock_reacquired:
  assumes "user \<noteq> []" "0 \<le> timeout"
    and "db = None \<or> (\<exists>r. db = Some r \<and> (timeout < now - acquired r \<or> holder r = user))"
  shows "\<exists>db'. acquire timeout user why now db = Inr (True, db')
    \<and> (\<exists>st. fst (status timeout now db') = Some st \<and> st_holder st = user \<and> age_seconds st = 0 \<and> expires_in st = timeout)"
  using assms by (auto simp: acquire_def purge_def status_def Let_def)

theorem config_lock_exclusive_witness:
  "run (lock_step 600) [(Acquire ''bob'' ''x'', 50), (Release ''bob'', 90), (Status, -5)]
     (Some \<lparr>holder = ''alice'', acquired = 10, reason = ''edit''\<rparr>) = Some \<lparr>holder = ''alice'', acquired = 10, reason = ''edit''\<rparr>
   \<and> acquire 600 ''bob'' ''y'' 100 (run (lock_step 600) [(Acquire ''bob'' ''x'', 50), (Release ''bob'', 90), (Status, -5)]
     (Some \<lparr>holder = ''alice'', acquired = 10, reason = ''edit''\<rparr>)) = Inr (False, Some \<lparr>holder = ''alice'', acquired = 10, reason = ''edit''\<rparr>)"
  by (rule config_lock_exclusive) (simp_all add: lock_inv_def intruder_def)

theorem config_lock_reacquired_witness:
  "\<exists>db'. acquire 600 ''bob'' ''y'' 1000 (Some \<lparr>holder = ''alice'', acquired = 10, reason = ''edit''\<rparr>) = Inr (True, db')"
  using config_lock_reacquired [of "''bob''" 600 "Some \<lparr>holder = ''alice'', acquired = 10, reason = ''edit''\<rparr>" 1000 "''y''"] by auto

end
