(* ===== verification/Jwt_Keys.thy ===== *)
theory Jwt_Keys
  imports Transition
begin

text \<open>
  \<^verbatim>\<open>src/opt/ffn_jwt_keys.py\<close>: the session-signing keyring. Times are integer seconds;
  the fresh secret of a rotation is an argument. A retired entry that is not an object, or has
  no secret, is an entry with the empty secret. The keyring file is a document or absent, and
  the cache of \<^verbatim>\<open>load_cached\<close> is explicit.
\<close>

definition DEFAULT_LIFETIME_MINUTES :: int where "DEFAULT_LIFETIME_MINUTES = 480"
definition RETIRE_MARGIN_MINUTES :: int where "RETIRE_MARGIN_MINUTES = 60"
definition VERSION :: int where "VERSION = 1"

record retired_key =
  rk_secret :: string
  rk_retired :: int
  not_after :: int

record keyring =
  kr_version :: int
  current :: string
  created :: int
  adopted :: bool
  retired :: "retired_key list"

definition empty_ring :: "string \<Rightarrow> int \<Rightarrow> keyring" where
  "empty_ring fresh now = \<lparr>kr_version = VERSION, current = fresh, created = now, adopted = False, retired = []\<rparr>"

text \<open>What is in the file: no parseable object with a current key gives None.\<close>

definition load :: "keyring option \<Rightarrow> keyring option" where
  "load file = (case file of Some d \<Rightarrow> if current d \<noteq> [] then Some d else None | None \<Rightarrow> None)"

definition verifies :: "int \<Rightarrow> retired_key \<Rightarrow> bool" where
  "verifies now k \<longleftrightarrow> rk_secret k \<noteq> [] \<and> not_after k > now"

definition prune :: "int \<Rightarrow> keyring \<Rightarrow> nat \<times> keyring" where
  "prune now d =
     (let keep = filter (verifies now) (retired d)
      in (length (retired d) - length keep, d\<lparr>retired := keep\<rparr>))"

definition verification_secrets :: "int \<Rightarrow> keyring option \<Rightarrow> string list" where
  "verification_secrets now d =
     (case d of None \<Rightarrow> [] | Some d \<Rightarrow> current d # map rk_secret (filter (verifies now) (retired d)))"

definition signing_secret :: "keyring option \<Rightarrow> string option" where
  "signing_secret d = map_option current d"

definition rotate :: "int \<Rightarrow> int \<Rightarrow> bool \<Rightarrow> string \<Rightarrow> int \<Rightarrow> keyring \<Rightarrow> keyring" where
  "rotate lifetime margin compromised fresh now d =
     (let old = current d;
          rs = (if old \<noteq> [] \<and> \<not> compromised
                then \<lparr>rk_secret = old, rk_retired = now, not_after = now + (lifetime + margin) * 60\<rparr> # retired d
                else retired d);
          rs = (if compromised then [] else rs)
      in snd (prune now (d\<lparr>retired := rs, current := fresh, created := now, adopted := False, kr_version := VERSION\<rparr>)))"

definition adopt :: "string \<Rightarrow> int \<Rightarrow> keyring" where
  "adopt existing now = \<lparr>kr_version = VERSION, current = existing, created = now, adopted = True, retired = []\<rparr>"

section \<open>The cached reader\<close>

type_synonym stamp = "int \<times> int \<times> int"

record key_cache =
  c_path :: "string option"
  c_stamp :: "stamp option"
  c_doc :: "keyring option"

text \<open>A path has a file with a stamp (modification time, size, inode) and a content, or no file.\<close>

type_synonym key_fs = "string \<Rightarrow> (stamp \<times> keyring option) option"

definition load_cached :: "string \<Rightarrow> key_fs \<Rightarrow> key_cache \<Rightarrow> keyring option \<times> key_cache" where
  "load_cached path fs c =
     (let st = map_option fst (fs path) in
      if c_path c = Some path \<and> c_stamp c = st then (c_doc c, c)
      else (let d = (case fs path of Some (_, content) \<Rightarrow> load content | None \<Rightarrow> None)
            in (d, \<lparr>c_path = Some path, c_stamp = st, c_doc = d\<rparr>)))"

section \<open>The commands on the file\<close>

definition cmd_init :: "string option \<Rightarrow> string \<Rightarrow> bool \<Rightarrow> int \<Rightarrow> keyring option \<Rightarrow> nat \<times> keyring option" where
  "cmd_init existing fresh force now file =
     (if load file \<noteq> None \<and> \<not> force then (1, file)
      else (0, Some (case existing of Some s \<Rightarrow> if s \<noteq> [] then adopt s now else empty_ring fresh now
                     | None \<Rightarrow> empty_ring fresh now)))"

definition cmd_rotate :: "int \<Rightarrow> bool \<Rightarrow> string \<Rightarrow> int \<Rightarrow> keyring option \<Rightarrow> nat \<times> keyring option" where
  "cmd_rotate lifetime compromised fresh now file =
     (case load file of
        None \<Rightarrow> (1, file)
      | Some d \<Rightarrow> (0, Some (rotate lifetime RETIRE_MARGIN_MINUTES compromised fresh now d)))"

section \<open>Properties\<close>

lemma rotate_fields:
  "current (rotate L M c fresh now d) = fresh"
  "set (retired (rotate L M False fresh now d))
     = {k \<in> set (retired d). verifies now k}
       \<union> {k. current d \<noteq> [] \<and> k = \<lparr>rk_secret = current d, rk_retired = now, not_after = now + (L + M) * 60\<rparr> \<and> verifies now k}"
  "retired (rotate L M True fresh now d) = []"
  by (auto simp: rotate_def prune_def Let_def)

lemma retired_survives:
  assumes "k \<in> set (retired d)" "verifies t k" "now \<le> t"
  shows "k \<in> set (retired (rotate L M False fresh now d))"
  using assms by (auto simp: rotate_fields verifies_def)

type_synonym rotation = "string \<times> int"

definition rotation_step :: "int \<Rightarrow> rotation \<Rightarrow> keyring \<Rightarrow> keyring" where
  "rotation_step L = (\<lambda>(fresh, now) d. rotate L RETIRE_MARGIN_MINUTES False fresh now d)"

text \<open>A secret verifies until \<open>t\<close>: it is the current one, or retired with a late enough end.\<close>

definition good_until :: "int \<Rightarrow> string \<Rightarrow> keyring \<Rightarrow> bool" where
  "good_until t s d \<longleftrightarrow> s \<noteq> [] \<and> (current d = s \<or> (\<exists>k \<in> set (retired d). rk_secret k = s \<and> verifies t k))"

lemma good_until_rotate:
  assumes "good_until t s d" "iat \<le> now" "now \<le> t" "t < iat + L * 60"
  shows "good_until t s (rotation_step L (fresh, now) d)"
proof (cases "current d = s")
  case True
  let ?k = "\<lparr>rk_secret = s, rk_retired = now, not_after = now + (L + RETIRE_MARGIN_MINUTES) * 60\<rparr>"
  have "verifies t ?k" using assms by (auto simp: verifies_def good_until_def RETIRE_MARGIN_MINUTES_def)
  moreover have "verifies now ?k" using assms calculation by (auto simp: verifies_def)
  ultimately show ?thesis using assms(1) True
    by (auto simp: good_until_def rotation_step_def rotate_fields intro!: bexI [of _ ?k])
next
  case False
  then obtain k where "k \<in> set (retired d)" "rk_secret k = s" "verifies t k" "s \<noteq> []"
    using assms(1) by (auto simp: good_until_def)
  then show ?thesis
    using retired_survives [of k d t now L RETIRE_MARGIN_MINUTES fresh] assms(3)
    by (auto simp: good_until_def rotation_step_def)
qed

interpretation keys: invariant_system "rotation_step L" "\<lambda>_. True"
  by unfold_locales simp

text \<open>
  (C38) Nobody is logged out: a token signed with the current secret at some time verifies at
  every later time within its lifetime, however many ordinary rotations happened in between.
\<close>

theorem jwt_token_survives_rotations:
  assumes "signing_secret (Some d) = Some s" "s \<noteq> []" "iat \<le> t" "t < iat + L * 60"
    and "list_all (\<lambda>(_, now). iat \<le> now \<and> now \<le> t) rs"
  shows "s \<in> set (verification_secrets t (Some (run (rotation_step L) rs d)))"
proof -
  have "good_until t s (run (rotation_step L) rs d)"
  proof (rule keys.stable_run [where allowed = "\<lambda>(_, now). iat \<le> now \<and> now \<le> t"])
    fix i :: rotation and d' assume "(\<lambda>(_, now). iat \<le> now \<and> now \<le> t) i" "good_until t s d'"
    then show "good_until t s (rotation_step L i d')"
      using good_until_rotate [of t s d' iat "snd i" L "fst i"] assms(4) by (cases i) simp
  qed (use assms in \<open>auto simp: good_until_def signing_secret_def\<close>)
  then show ?thesis by (auto simp: good_until_def verification_secrets_def)
qed

text \<open>
  A compromised rotation leaves exactly the fresh secret for signing and for verification,
  and an ordinary one keeps no retired key beyond its end.
\<close>

theorem jwt_compromised_drops_all:
  "verification_secrets t (Some (rotate L M True fresh now d)) = [fresh]
    \<and> signing_secret (Some (rotate L M True fresh now d)) = Some fresh
    \<and> (\<forall>k \<in> set (retired (rotate L M False fresh now d)). now < not_after k)"
  by (auto simp: verification_secrets_def rotate_fields signing_secret_def verifies_def)

definition cache_ok :: "(string \<Rightarrow> stamp \<Rightarrow> keyring option) \<Rightarrow> key_cache \<Rightarrow> bool" where
  "cache_ok content c \<longleftrightarrow> (\<forall>p. c_path c = Some p \<longrightarrow>
     c_doc c = (case c_stamp c of Some st \<Rightarrow> load (content p st) | None \<Rightarrow> None))"

text \<open>
  The cached reader returns what the file holds now, as long as two files of a path with
  the same stamp have the same content, and keeps doing so.
\<close>

theorem jwt_cache_coherent:
  assumes "cache_ok content c" "\<forall>p st f. fs p = Some (st, f) \<longrightarrow> content p st = f"
  shows "fst (load_cached path fs c) = (case fs path of Some (_, f) \<Rightarrow> load f | None \<Rightarrow> None)
    \<and> cache_ok content (snd (load_cached path fs c))"
  using assms by (auto simp: load_cached_def cache_ok_def Let_def split: option.splits)

definition ex_ring :: keyring where
  "ex_ring = empty_ring ''k1'' 1000000"

theorem jwt_token_survives_rotations_witness:
  "''k1'' \<in> set (verification_secrets 1020000 (Some (run (rotation_step 480) [(''k2'', 1000060), (''k3'', 1019999)] ex_ring)))"
  by (rule jwt_token_survives_rotations [of _ _ 1000000]) (simp_all add: ex_ring_def empty_ring_def signing_secret_def)

theorem jwt_compromised_drops_all_witness:
  "verification_secrets 5 (Some (rotate 480 60 True ''new'' 4 ex_ring)) = [''new'']"
  using jwt_compromised_drops_all by blast

theorem jwt_cache_coherent_witness:
  "fst (load_cached ''keys'' (\<lambda>_. Some ((1, 2, 3), Some ex_ring)) \<lparr>c_path = None, c_stamp = None, c_doc = None\<rparr>) = Some ex_ring"
proof -
  have "cache_ok (\<lambda>_ _. Some ex_ring) \<lparr>c_path = None, c_stamp = None, c_doc = None\<rparr>" by (simp add: cache_ok_def)
  from jwt_cache_coherent [OF this, of "\<lambda>_. Some ((1, 2, 3), Some ex_ring)" "''keys''"] show ?thesis
    by (simp add: load_def ex_ring_def empty_ring_def)
qed

end
