(* ===== verification/Json.thy ===== *)
theory Json
  imports Prelude
begin

text \<open>
  The values the modules receive as parsed JSON, with the tests Python makes on them
  (\<^verbatim>\<open>isinstance\<close>, \<^verbatim>\<open>type(x) is int\<close>, truth value, \<^verbatim>\<open>dict.get\<close>), and the
  decimal and separator functions of strings that several modules share. An object is an
  association list in the order of its keys; a floating point number is kept by its whole value,
  which is all the clock readings and ages of the modules need.
\<close>

section \<open>Values\<close>

datatype json =
    JNull
  | JBool bool
  | JInt int
  | JFloat int
  | JStr string
  | JList "json list"
  | JObj "(string \<times> json) list"

primrec is_str :: "json \<Rightarrow> bool" where
  "is_str JNull = False"
| "is_str (JBool b) = False"
| "is_str (JInt n) = False"
| "is_str (JFloat n) = False"
| "is_str (JStr s) = True"
| "is_str (JList vs) = False"
| "is_str (JObj kvs) = False"

text \<open>Python's truth value of a JSON value.\<close>

primrec truthy :: "json \<Rightarrow> bool" where
  "truthy JNull = False"
| "truthy (JBool b) = b"
| "truthy (JInt n) = (n \<noteq> 0)"
| "truthy (JFloat n) = (n \<noteq> 0)"
| "truthy (JStr s) = (s \<noteq> [])"
| "truthy (JList vs) = (vs \<noteq> [])"
| "truthy (JObj kvs) = (kvs \<noteq> [])"

text \<open>Python's \<^verbatim>\<open>==\<close>: booleans and floats are numbers, the order of an object's keys is immaterial.\<close>

definition num_val :: "json \<Rightarrow> int option" where
  "num_val v = (case v of JBool b \<Rightarrow> Some (of_bool b) | JInt n \<Rightarrow> Some n | JFloat n \<Rightarrow> Some n | _ \<Rightarrow> None)"

function py_eq :: "json \<Rightarrow> json \<Rightarrow> bool" where
  "py_eq JNull w = (w = JNull)"
| "py_eq (JBool b) w = (num_val w = Some (of_bool b))"
| "py_eq (JInt n) w = (num_val w = Some n)"
| "py_eq (JFloat n) w = (num_val w = Some n)"
| "py_eq (JStr s) w = (w = JStr s)"
| "py_eq (JList vs) w =
     (case w of JList ws \<Rightarrow> length vs = length ws \<and> list_all (\<lambda>(x, y). py_eq x y) (zip vs ws) | _ \<Rightarrow> False)"
| "py_eq (JObj kvs) w =
     (case w of
        JObj kws \<Rightarrow>
          length kvs = length kws \<and>
          list_all (\<lambda>(k, x). case map_of kws k of Some y \<Rightarrow> py_eq x y | None \<Rightarrow> False) kvs
      | _ \<Rightarrow> False)"
  by pat_completeness auto
termination
proof (relation "measure (size \<circ> fst)", goal_cases)
  case (2 vs w ws p x y)
  then show ?case using size_list_estimation' [of x vs "size x" size] by (auto dest: set_zip_leftD)
next
  case (3 kvs w kws p k x y)
  then have "(k, x) \<in> set kvs" by simp
  then show ?case using size_list_estimation' [of "(k, x)" kvs "size x" "size_prod (\<lambda>_. 0) size"] by auto
qed auto

text \<open>\<^verbatim>\<open>d.get(k, default)\<close>, and \<^verbatim>\<open>set(d) - allowed\<close> being empty.\<close>

definition jget :: "string \<Rightarrow> json \<Rightarrow> (string \<times> json) list \<Rightarrow> json" where
  "jget k dflt kvs = (case map_of kvs k of Some v \<Rightarrow> v | None \<Rightarrow> dflt)"

definition only_keys :: "string list \<Rightarrow> (string \<times> json) list \<Rightarrow> bool" where
  "only_keys allowed kvs = list_all (\<lambda>(k, _). k \<in> set allowed) kvs"

definition as_str :: "json \<Rightarrow> string option" where
  "as_str v = (case v of JStr s \<Rightarrow> Some s | _ \<Rightarrow> None)"

definition as_int :: "json \<Rightarrow> int option" where
  "as_int v = (case v of JInt n \<Rightarrow> Some n | _ \<Rightarrow> None)"

definition as_bool :: "json \<Rightarrow> bool option" where
  "as_bool v = (case v of JBool b \<Rightarrow> Some b | _ \<Rightarrow> None)"

definition as_list :: "json \<Rightarrow> json list option" where
  "as_list v = (case v of JList vs \<Rightarrow> Some vs | _ \<Rightarrow> None)"

definition as_obj :: "json \<Rightarrow> (string \<times> json) list option" where
  "as_obj v = (case v of JObj kvs \<Rightarrow> Some kvs | _ \<Rightarrow> None)"

lemma as_simps [simp]:
  "as_str v = Some s \<longleftrightarrow> v = JStr s" "as_int v = Some n \<longleftrightarrow> v = JInt n" "as_bool v = Some b \<longleftrightarrow> v = JBool b"
  "as_list v = Some vs \<longleftrightarrow> v = JList vs" "as_obj v = Some kvs \<longleftrightarrow> v = JObj kvs"
  by (auto simp: as_str_def as_int_def as_bool_def as_list_def as_obj_def split: json.splits)

lemma as_ctor [simp]:
  "as_str (JStr s) = Some s" "as_int (JInt n) = Some n" "as_bool (JBool b) = Some b"
  "as_list (JList vs) = Some vs" "as_obj (JObj kvs) = Some kvs"
  by (simp_all add: as_str_def as_int_def as_bool_def as_list_def as_obj_def)

text \<open>\<open>need x e k\<close> continues with the value of an option or raises.\<close>

definition need :: "'a option \<Rightarrow> py_error \<Rightarrow> ('a \<Rightarrow> 'b res) \<Rightarrow> 'b res" where
  "need x e k = (case x of Some v \<Rightarrow> k v | None \<Rightarrow> Inl e)"

lemma need_simps [simp]: "need (Some v) e k = k v" "need None e k = Inl e"
  by (simp_all add: need_def)

lemma need_Inr_iff [result_simps]: "need x e k = Inr y \<longleftrightarrow> (\<exists>v. x = Some v \<and> k v = Inr y)"
  by (cases x) auto

text \<open>A loop that raises on the first bad element, a list comprehension with a raising body.\<close>

fun map_res :: "('a \<Rightarrow> 'b res) \<Rightarrow> 'a list \<Rightarrow> 'b list res" where
  "map_res f [] = Inr []"
| "map_res f (x # xs) = rbind (f x) (\<lambda>y. rbind (map_res f xs) (\<lambda>ys. Inr (y # ys)))"

lemma map_res_Inr: "map_res f xs = Inr ys \<longleftrightarrow> list_all2 (\<lambda>x y. f x = Inr y) xs ys"
proof (induction xs arbitrary: ys)
  case (Cons x xs)
  then show ?case by (auto simp: result_simps list_all2_Cons1)
qed auto

lemma map_res_all: "map_res f xs = Inr ys \<Longrightarrow> x \<in> set xs \<Longrightarrow> \<exists>y. f x = Inr y"
  by (induction xs arbitrary: ys) (auto simp: result_simps)

lemma map_res_length: "map_res f xs = Inr ys \<Longrightarrow> length ys = length xs"
  by (auto simp: map_res_Inr dest: list_all2_lengthD)

fun fold_res :: "('a \<Rightarrow> 's \<Rightarrow> 's res) \<Rightarrow> 'a list \<Rightarrow> 's \<Rightarrow> 's res" where
  "fold_res f [] s = Inr s"
| "fold_res f (x # xs) s = rbind (f x s) (fold_res f xs)"

lemma fold_res_append: "fold_res f (xs @ ys) s = rbind (fold_res f xs s) (fold_res f ys)"
proof (induction xs arbitrary: s)
  case (Cons x xs)
  then show ?case by (cases "f x s") auto
qed simp

lemma fold_res_inv:
  assumes "fold_res f xs s = Inr t" "P s" "\<And>x s t. x \<in> set xs \<Longrightarrow> P s \<Longrightarrow> f x s = Inr t \<Longrightarrow> P t"
  shows "P t"
  using assms
proof (induction xs arbitrary: s)
  case (Cons x xs)
  then obtain u where "f x s = Inr u" "fold_res f xs u = Inr t" by (auto simp: result_simps)
  then show ?case using Cons by auto
qed simp

section \<open>Decimal numbers\<close>

definition digit :: "nat \<Rightarrow> char" where
  "digit n = char_of (48 + n)"

definition is_digit :: "char \<Rightarrow> bool" where
  "is_digit c \<longleftrightarrow> 48 \<le> (of_char c :: nat) \<and> (of_char c :: nat) \<le> 57"

definition digit_value :: "char \<Rightarrow> nat" where
  "digit_value c = of_char c - 48"

fun dec :: "nat \<Rightarrow> string" where
  "dec n = (if n < 10 then [digit n] else dec (n div 10) @ [digit (n mod 10)])"

declare dec.simps [simp del]

definition parse_dec :: "string \<Rightarrow> nat option" where
  "parse_dec s = (if s \<noteq> [] \<and> list_all is_digit s then Some (from_digits 10 (map digit_value s)) else None)"

lemma digit_props: "n < 10 \<Longrightarrow> is_digit (digit n) \<and> digit_value (digit n) = n"
  by (simp add: digit_def is_digit_def digit_value_def)

lemma is_digit_digit: "is_digit c \<Longrightarrow> digit (digit_value c) = c"
  by (simp add: is_digit_def digit_def digit_value_def)

lemma digit_value_less: "is_digit c \<Longrightarrow> digit_value c < 10"
  unfolding is_digit_def digit_value_def by linarith

lemma dec_digits: "dec n \<noteq> [] \<and> list_all is_digit (dec n)"
  by (induction n rule: dec.induct) (subst dec.simps, auto simp: digit_props dec.simps)

lemma dec_value: "from_digits 10 (map digit_value (dec n)) = n"
proof (induction n rule: dec.induct)
  case (1 n)
  show ?case
  proof (cases "n < 10")
    case True
    then show ?thesis using from_digits_snoc [of 10 "[]" n] by (simp add: dec.simps [of n] digit_props)
  next
    case False
    then show ?thesis using 1 by (simp add: dec.simps [of n] digit_props)
  qed
qed

lemma parse_dec_dec: "parse_dec (dec n) = Some n"
  using dec_digits [of n] by (simp add: parse_dec_def dec_value)

text \<open>A number without a superfluous leading zero prints back as itself.\<close>

lemma from_digits_pos: "ds \<noteq> [] \<Longrightarrow> 0 < hd ds \<Longrightarrow> 0 < B \<Longrightarrow> 0 < from_digits B ds"
  by (cases ds) (auto simp: from_digits_Cons)

lemma dec_from_digits:
  "s \<noteq> [] \<Longrightarrow> list_all is_digit s \<Longrightarrow> length s = 1 \<or> hd s \<noteq> CHR ''0'' \<Longrightarrow> dec (from_digits 10 (map digit_value s)) = s"
proof (induction s rule: rev_induct)
  case (snoc c s)
  show ?case
  proof (cases "s = []")
    case True
    then show ?thesis using snoc from_digits_snoc [of 10 "[]" "digit_value c"]
      by (simp add: dec.simps digit_value_less is_digit_digit)
  next
    case False
    then have h: "hd s \<noteq> CHR ''0''" "list_all is_digit s" "is_digit c" using snoc by (auto simp: hd_append)
    have "is_digit (hd s)" using h(2) False by (cases s) auto
    moreover have "digit_value (hd s) \<noteq> 0"
    proof
      assume "digit_value (hd s) = 0"
      then have "hd s = digit 0" using is_digit_digit [OF \<open>is_digit (hd s)\<close>] by simp
      moreover have "digit 0 = CHR ''0''" by code_simp
      ultimately show False using h(1) by simp
    qed
    ultimately have "0 < from_digits 10 (map digit_value s)"
      using False by (intro from_digits_pos) (auto simp: hd_map)
    then have "dec (from_digits 10 (map digit_value s) * 10 + digit_value c)
        = dec (from_digits 10 (map digit_value s)) @ [digit (digit_value c)]"
      using digit_value_less [OF h(3)] by (subst dec.simps) simp
    then show ?thesis using snoc False h by (simp add: is_digit_digit)
  qed
qed simp

section \<open>Separators\<close>

text \<open>\<^verbatim>\<open>s.split(c)\<close> and \<^verbatim>\<open>c.join(parts)\<close>.\<close>

fun split_on :: "char \<Rightarrow> string \<Rightarrow> string list" where
  "split_on c [] = [[]]"
| "split_on c (x # xs) =
     (if x = c then [] # split_on c xs
      else (case split_on c xs of [] \<Rightarrow> [[x]] | p # ps \<Rightarrow> (x # p) # ps))"

fun join_with :: "string \<Rightarrow> string list \<Rightarrow> string" where
  "join_with sep [] = []"
| "join_with sep [p] = p"
| "join_with sep (p # q # ps) = p @ sep @ join_with sep (q # ps)"

lemma split_on_nonempty: "split_on c s \<noteq> []"
  by (induction s) (auto split: list.splits)

lemma split_on_append:
  "c \<notin> set p \<Longrightarrow> split_on c (p @ c # s) = p # split_on c s"
  by (induction p) auto

lemma split_on_none: "c \<notin> set p \<Longrightarrow> split_on c p = [p]"
  by (induction p) auto

lemma split_join: "ps \<noteq> [] \<Longrightarrow> \<forall>p \<in> set ps. c \<notin> set p \<Longrightarrow> split_on c (join_with [c] ps) = ps"
  by (induction "[c]" ps rule: join_with.induct) (auto simp: split_on_append split_on_none)

lemma join_Cons: "qs \<noteq> [] \<Longrightarrow> join_with sep (p # qs) = p @ sep @ join_with sep qs"
  by (cases qs) auto

lemma join_split: "join_with [c] (split_on c s) = s"
proof (induction s)
  case (Cons x s)
  obtain p ps where e: "split_on c s = p # ps" using split_on_nonempty [of c s] by (cases "split_on c s") auto
  then show ?case using Cons by (cases ps) auto
qed simp

lemma split_on_parts: "p \<in> set (split_on c s) \<Longrightarrow> c \<notin> set p"
  by (induction s arbitrary: p) (fastforce split: list.splits if_splits)+

definition starts_with :: "string \<Rightarrow> string \<Rightarrow> bool" where
  "starts_with p s \<longleftrightarrow> take (length p) s = p"

fun contains :: "string \<Rightarrow> string \<Rightarrow> bool" where
  "contains p [] = (p = [])"
| "contains p (x # xs) = (starts_with p (x # xs) \<or> contains p xs)"

end
