(* ===== verification/Ipaddr.thy ===== *)
theory Ipaddr
  imports Json
begin

text \<open>
  What the modules use of Python's \<^verbatim>\<open>ipaddress\<close> for IPv4: the parser of dotted quads
  (exactly four decimal octets, at most three digits, no leading zero), printing, networks and
  interface addresses with a prefix length or a netmask. An address is a number below
  \<open>2 ^ 32\<close>, a network its address and prefix length.
\<close>

section \<open>Addresses\<close>

definition parse_octet :: "string \<Rightarrow> nat option" where
  "parse_octet s =
     (if length s \<le> 3 \<and> \<not> (length s > 1 \<and> hd s = CHR ''0'') then
        (case parse_dec s of Some n \<Rightarrow> if n \<le> 255 then Some n else None | None \<Rightarrow> None)
      else None)"

definition parse_ip4 :: "string \<Rightarrow> nat option" where
  "parse_ip4 s =
     (case map parse_octet (split_on CHR ''.'' s) of
        [Some a, Some b, Some c, Some d] \<Rightarrow> Some (from_digits 256 [a, b, c, d])
      | _ \<Rightarrow> None)"

definition print_ip4 :: "nat \<Rightarrow> string" where
  "print_ip4 ip = join_with ''.'' (map dec (digits 256 4 ip))"

lemma parse_octet_Some:
  "parse_octet s = Some n \<longleftrightarrow> n \<le> 255 \<and> s = dec n"
proof
  assume a: "parse_octet s = Some n"
  then have s: "s \<noteq> []" "list_all is_digit s" "n = from_digits 10 (map digit_value s)" "n \<le> 255"
    "\<not> (length s > 1 \<and> hd s = CHR ''0'')"
    by (auto simp: parse_octet_def parse_dec_def split: if_splits option.splits)
  then have "length s = 1 \<or> hd s \<noteq> CHR ''0''" by (cases s) auto
  then show "n \<le> 255 \<and> s = dec n" using s dec_from_digits by simp
next
  assume a: "n \<le> 255 \<and> s = dec n"
  have "length (dec n) \<le> 3" if "n < 1000" for n
  proof -
    have "length (dec k) \<le> 1" if "k < 10" for k using that by (simp add: dec.simps)
    moreover have "length (dec k) \<le> 2" if "k < 100" for k
      using that calculation [of "k div 10"] by (subst dec.simps) simp
    ultimately show ?thesis using that by (subst dec.simps) simp
  qed
  moreover have "length (dec n) > 1 \<Longrightarrow> hd (dec n) \<noteq> CHR ''0''"
  proof -
    have "0 < m \<Longrightarrow> hd (dec m) \<noteq> digit 0" for m
    proof (induction m rule: dec.induct)
      case (1 m)
      show ?case
      proof (cases "m < 10")
        case True
        have "digit_value (digit m) \<noteq> digit_value (digit 0)" using True 1 digit_props by simp
        then show ?thesis using True by (auto simp: dec.simps [of m])
      next
        case False
        then show ?thesis using 1 dec_digits [of "m div 10"] by (simp add: dec.simps [of m] hd_append)
      qed
    qed
    moreover have "digit 0 = CHR ''0''" by code_simp
    moreover have "dec 0 = [digit 0]" by (simp add: dec.simps)
    ultimately show "length (dec n) > 1 \<Longrightarrow> hd (dec n) \<noteq> CHR ''0''" by (cases "n = 0") auto
  qed
  ultimately show "parse_octet s = Some n"
    using a by (auto simp: parse_octet_def parse_dec_dec)
qed

lemma dot_not_digit: "CHR ''.'' \<notin> set (dec n)"
proof
  assume "CHR ''.'' \<in> set (dec n)"
  then have "is_digit CHR ''.''" using dec_digits [of n] by (simp add: list_all_iff)
  moreover have "\<not> is_digit CHR ''.''" by code_simp
  ultimately show False by blast
qed

lemma digits_4: "digits 256 4 v = [v div 256 div 256 div 256 mod 256, v div 256 div 256 mod 256, v div 256 mod 256, v mod 256]"
proof -
  have "(4 :: nat) = Suc (Suc (Suc (Suc 0)))" by simp
  then show ?thesis by (simp only: digits.simps append.simps)
qed

lemma parse_print_ip4: "ip < 2 ^ 32 \<Longrightarrow> parse_ip4 (print_ip4 ip) = Some ip"
proof -
  assume ip: "ip < 2 ^ 32"
  have "split_on CHR ''.'' (print_ip4 ip) = map dec (digits 256 4 ip)"
    unfolding print_ip4_def by (rule split_join) (auto simp: digits_4 dot_not_digit)
  moreover have "parse_octet (dec x) = Some x" if "x \<in> set (digits 256 4 ip)" for x
    using that digits_bound [of 256 x 4 ip] by (auto simp: parse_octet_Some)
  ultimately have "parse_ip4 (print_ip4 ip) = Some (from_digits 256 (digits 256 4 ip))"
    by (simp add: parse_ip4_def digits_4)
  then show ?thesis using ip by (simp add: from_digits_digits)
qed

lemma parse_ip4_Some:
  assumes "parse_ip4 s = Some ip"
  shows "ip < 2 ^ 32 \<and> print_ip4 ip = s"
proof -
  obtain a b c d where m: "map parse_octet (split_on CHR ''.'' s) = [Some a, Some b, Some c, Some d]"
    and ip: "ip = from_digits 256 [a, b, c, d]"
    using assms by (auto simp: parse_ip4_def split: list.splits option.splits)
  then obtain pa pb pc pd where sp: "split_on CHR ''.'' s = [pa, pb, pc, pd]"
    and "parse_octet pa = Some a" "parse_octet pb = Some b" "parse_octet pc = Some c" "parse_octet pd = Some d"
    by (auto simp: map_eq_Cons_conv)
  then have oct: "a \<le> 255" "b \<le> 255" "c \<le> 255" "d \<le> 255" "[pa, pb, pc, pd] = map dec [a, b, c, d]"
    by (simp_all add: parse_octet_Some)
  have four: "length [a, b, c, d] = 4" by simp
  have "digits 256 (length [a, b, c, d]) ip = [a, b, c, d]"
    unfolding ip by (rule digits_from_digits) (use oct in auto)
  then have "digits 256 4 ip = [a, b, c, d]" unfolding four .
  then have "print_ip4 ip = join_with ''.'' (split_on CHR ''.'' s)"
    using sp oct(5) by (simp add: print_ip4_def)
  moreover have "ip < 256 ^ length [a, b, c, d]"
    unfolding ip by (rule from_digits_less) (use oct in auto)
  ultimately show ?thesis unfolding four by (simp add: join_split)
qed

section \<open>Networks and interface addresses\<close>

definition net_size :: "nat \<Rightarrow> nat" where "net_size len = 2 ^ (32 - len)"
definition net_base :: "nat \<Rightarrow> nat \<Rightarrow> nat" where "net_base ip len = ip div net_size len * net_size len"
definition net_last :: "nat \<Rightarrow> nat \<Rightarrow> nat" where "net_last ip len = net_base ip len + net_size len - 1"
definition in_net :: "nat \<Rightarrow> nat \<times> nat \<Rightarrow> bool" where
  "in_net ip = (\<lambda>(net, len). net_base net len \<le> ip \<and> ip \<le> net_last net len)"
definition mask_of :: "nat \<Rightarrow> nat" where "mask_of len = 2 ^ 32 - net_size len"

lemma net_size_pos [simp]: "0 < net_size len"
  by (simp add: net_size_def)

lemma in_net_iff: "in_net ip (net, len) \<longleftrightarrow> ip div net_size len = net div net_size len"
proof -
  let ?S = "net_size len"
  have "net div ?S * ?S \<le> ip \<and> ip < net div ?S * ?S + ?S \<longleftrightarrow> ip div ?S = net div ?S"
    by (metis add.commute div_nat_eqI mod_less_divisor net_size_pos div_mult_mod_eq le_add1 nat_add_left_cancel_less mult_Suc mult.commute)
  moreover have "ip \<le> net div ?S * ?S + ?S - 1 \<longleftrightarrow> ip < net div ?S * ?S + ?S"
    using net_size_pos [of len] by linarith
  ultimately show ?thesis by (simp add: in_net_def net_base_def net_last_def)
qed

text \<open>
  The part after the slash: a decimal prefix length, or a netmask (ones followed by zeros), or a
  hostmask (zeros followed by ones), as \<^verbatim>\<open>_make_netmask\<close> accepts them.
\<close>

definition parse_prefix :: "string \<Rightarrow> nat option" where
  "parse_prefix s =
     (case parse_dec s of
        Some n \<Rightarrow> if n \<le> 32 then Some n else None
      | None \<Rightarrow>
          (case parse_ip4 s of
             None \<Rightarrow> None
           | Some m \<Rightarrow>
               (case List.find (\<lambda>l. mask_of l = m) [0 ..< 33] of
                  Some l \<Rightarrow> Some l
                | None \<Rightarrow> List.find (\<lambda>l. net_size l - 1 = m) [0 ..< 33])))"

text \<open>\<^verbatim>\<open>IPv4Interface\<close>: an address and its prefix length, 32 when there is none.\<close>

definition parse_interface :: "string \<Rightarrow> (nat \<times> nat) option" where
  "parse_interface s =
     (case split_on CHR ''/'' s of
        [a] \<Rightarrow> map_option (\<lambda>ip. (ip, 32)) (parse_ip4 a)
      | [a, p] \<Rightarrow> (case (parse_ip4 a, parse_prefix p) of (Some ip, Some l) \<Rightarrow> Some (ip, l) | _ \<Rightarrow> None)
      | _ \<Rightarrow> None)"

text \<open>\<^verbatim>\<open>IPv4Network\<close> with strict checking: no host bits.\<close>

definition parse_network :: "string \<Rightarrow> (nat \<times> nat) option" where
  "parse_network s =
     (case parse_interface s of Some (ip, l) \<Rightarrow> if net_base ip l = ip then Some (ip, l) else None | None \<Rightarrow> None)"

definition print_prefix :: "nat \<times> nat \<Rightarrow> string" where
  "print_prefix = (\<lambda>(ip, len). print_ip4 ip @ ''/'' @ dec len)"

section \<open>Classes of addresses\<close>

definition is_multicast :: "nat \<Rightarrow> bool" where "is_multicast ip = in_net ip (0xE0000000, 4)"
definition is_loopback :: "nat \<Rightarrow> bool" where "is_loopback ip = in_net ip (0x7F000000, 8)"
definition is_unspecified :: "nat \<Rightarrow> bool" where "is_unspecified ip = (ip = 0)"

end
