(* ===== verification/Route_Monitor.thy ===== *)
theory Route_Monitor
  imports Ipaddr Transition
begin

text \<open>
  \<^verbatim>\<open>src/opt/ffn_route_monitor.py\<close>: settings of the static-route path monitor and its
  hysteresis. The route destination of \<^verbatim>\<open>validate\<close> is a parsed IPv4 network or absent.
  The text of an exception stands for its message, not word by word.
\<close>

section \<open>Settings\<close>

record monitor =
  enabled :: bool
  targets :: "string list"
  interval :: int
  timeout :: int
  failure_count :: int
  recovery_count :: int
  failure_any :: bool

definition DEFAULT :: "(string \<times> json) list" where
  "DEFAULT = [(''enabled'', JBool False), (''targets'', JList []), (''interval'', JInt 5), (''timeout'', JInt 1),
     (''failure_count'', JInt 3), (''recovery_count'', JInt 3), (''failure_condition'', JStr ''all'')]"

text \<open>\<^verbatim>\<open>dict(DEFAULT, **value)[key]\<close>\<close>

definition setting :: "string \<Rightarrow> (string \<times> json) list \<Rightarrow> json" where
  "setting k kvs = (case map_of kvs k of Some v \<Rightarrow> v | None \<Rightarrow> jget k JNull DEFAULT)"

definition in_range :: "string \<Rightarrow> int \<Rightarrow> int \<Rightarrow> json \<Rightarrow> int res" where
  "in_range k low high v =
     need (as_int v) (ValueError (k @ '' is outside the supported range'')) (\<lambda>n.
       ok (low \<le> n \<and> n \<le> high) (ValueError (k @ '' is outside the supported range'')) (Inr n))"

definition check_target :: "(nat \<times> nat) option \<Rightarrow> string \<Rightarrow> unit res" where
  "check_target destination t =
     need (parse_ip4 t) (ValueError ''This path monitor requires unicast IPv4 targets'') (\<lambda>ip.
       ok (\<not> (is_multicast ip \<or> is_unspecified ip \<or> is_loopback ip)) (ValueError ''This path monitor requires unicast IPv4 targets'')
        (ok (case destination of Some n \<Rightarrow> in_net ip n | None \<Rightarrow> True)
          (ValueError ''Monitor target must be inside the route destination'') (Inr ())))"

definition validate :: "json \<Rightarrow> (nat \<times> nat) option \<Rightarrow> monitor res" where
  "validate value destination =
     need (case value of JNull \<Rightarrow> Some [] | JObj kvs \<Rightarrow> Some kvs | _ \<Rightarrow> None) (ValueError ''Unknown path monitoring setting'') (\<lambda>kvs.
     ok (only_keys (map fst DEFAULT) kvs) (ValueError ''Unknown path monitoring setting'')
     (need (as_bool (setting ''enabled'' kvs)) (ValueError ''Path monitoring enabled must be boolean'') (\<lambda>en.
     rbind (in_range ''interval'' 1 300 (setting ''interval'' kvs)) (\<lambda>iv.
     rbind (in_range ''timeout'' 1 10 (setting ''timeout'' kvs)) (\<lambda>tmo.
     rbind (in_range ''failure_count'' 1 20 (setting ''failure_count'' kvs)) (\<lambda>fc.
     rbind (in_range ''recovery_count'' 1 20 (setting ''recovery_count'' kvs)) (\<lambda>rc.
     ok (tmo \<le> iv) (ValueError ''Probe timeout must not exceed interval'')
     (ok (setting ''failure_condition'' kvs \<in> {JStr ''any'', JStr ''all''}) (ValueError ''Failure condition must be any or all'')
     (need (as_list (setting ''targets'' kvs)) (ValueError ''Use up to four distinct monitoring targets'') (\<lambda>ts.
     rbind (map_res (\<lambda>v. need (as_str v) (ValueError ''Use up to four distinct monitoring targets'') Inr) ts) (\<lambda>ts.
     ok (length ts \<le> 4 \<and> distinct ts) (ValueError ''Use up to four distinct monitoring targets'')
     (rbind (map_res (check_target destination) ts) (\<lambda>_.
     ok (\<not> en \<or> ts \<noteq> []) (ValueError ''Enabled path monitoring requires at least one target'')
     (Inr \<lparr>enabled = en, targets = ts, interval = iv, timeout = tmo, failure_count = fc, recovery_count = rc,
           failure_any = (setting ''failure_condition'' kvs = JStr ''any'')\<rparr>))))))))))))))"

section \<open>Hysteresis\<close>

record health =
  healthy :: bool
  failures :: int
  successes :: int
  last_round :: "bool list"

definition unknown :: health where
  "unknown = \<lparr>healthy = False, failures = 0, successes = 0, last_round = []\<rparr>"

definition round_failed :: "monitor \<Rightarrow> bool list \<Rightarrow> bool" where
  "round_failed m results = (if failure_any m then list_ex Not results else list_all Not results)"

definition advance :: "monitor \<Rightarrow> bool list \<Rightarrow> health \<Rightarrow> health res" where
  "advance m results prev =
     ok (results \<noteq> []) (ValueError ''Complete probe round required'')
      (let failed = round_failed m results;
           fs = (if failed then failures prev + 1 else 0);
           ss = (if failed then 0 else successes prev + 1);
           h = healthy prev;
           h = (if fs \<ge> failure_count m then False else h);
           h = (if ss \<ge> recovery_count m then True else h)
       in Inr \<lparr>healthy = h, failures = fs, successes = ss, last_round = results\<rparr>)"

definition monitor_step :: "monitor \<Rightarrow> bool list \<Rightarrow> health \<Rightarrow> health" where
  "monitor_step m results h = (case advance m results h of Inr h' \<Rightarrow> h' | Inl _ \<Rightarrow> h)"

section \<open>Accepted settings\<close>

lemma in_range_Inr [result_simps]: "in_range k low high v = Inr n \<longleftrightarrow> v = JInt n \<and> low \<le> n \<and> n \<le> high"
  by (auto simp: in_range_def result_simps)

text \<open>
  (C36) Accepted path-monitor settings are within every limit: intervals and counts in range, the
  probe timeout not above the interval, at most four distinct unicast IPv4 targets, each inside
  the route's destination, and at least one when monitoring is on.
\<close>

theorem route_monitor_validated:
  assumes "validate value destination = Inr m"
  shows "1 \<le> timeout m \<and> timeout m \<le> interval m \<and> interval m \<le> 300 \<and> timeout m \<le> 10
    \<and> 1 \<le> failure_count m \<and> failure_count m \<le> 20 \<and> 1 \<le> recovery_count m \<and> recovery_count m \<le> 20
    \<and> length (targets m) \<le> 4 \<and> distinct (targets m) \<and> (enabled m \<longrightarrow> targets m \<noteq> [])
    \<and> (\<forall>t \<in> set (targets m). \<exists>ip. parse_ip4 t = Some ip \<and> \<not> is_multicast ip \<and> \<not> is_loopback ip \<and> ip \<noteq> 0
        \<and> (\<forall>n. destination = Some n \<longrightarrow> in_net ip n))"
proof -
  have rest: "(\<exists>us. map_res (check_target destination) (targets m) = Inr us)
    \<and> 1 \<le> timeout m \<and> timeout m \<le> interval m \<and> interval m \<le> 300 \<and> timeout m \<le> 10
    \<and> 1 \<le> failure_count m \<and> failure_count m \<le> 20 \<and> 1 \<le> recovery_count m \<and> recovery_count m \<le> 20
    \<and> length (targets m) \<le> 4 \<and> distinct (targets m) \<and> (enabled m \<longrightarrow> targets m \<noteq> [])"
    using assms unfolding validate_def result_simps sum.inject by clarify simp
  then obtain us where us: "map_res (check_target destination) (targets m) = Inr us" by blast
  have "\<exists>ip. parse_ip4 t = Some ip \<and> \<not> is_multicast ip \<and> \<not> is_loopback ip \<and> ip \<noteq> 0
      \<and> (\<forall>n. destination = Some n \<longrightarrow> in_net ip n)" if "t \<in> set (targets m)" for t
    using map_res_all [OF us that] by (auto simp: check_target_def result_simps is_unspecified_def)
  then show ?thesis using rest by blast
qed

section \<open>Runs of the monitor\<close>

text \<open>
  The reference: which rounds fail, how many of the latest rounds in a row failed or did not, and
  when a history leaves a route healthy: some prefix of it ends in enough good rounds, and no
  longer prefix ends in enough failed ones.
\<close>

definition bad_round :: "bool \<Rightarrow> bool list \<Rightarrow> bool" where
  "bad_round any_failure r \<longleftrightarrow> (if any_failure then False \<in> set r else True \<notin> set r)"

definition streak :: "(bool list \<Rightarrow> bool) \<Rightarrow> bool list list \<Rightarrow> int" where
  "streak P rs = int (length (takeWhile P (rev rs)))"

definition recovered :: "(bool list \<Rightarrow> bool) \<Rightarrow> int \<Rightarrow> int \<Rightarrow> bool list list \<Rightarrow> bool" where
  "recovered bad fail_n good_n rs \<longleftrightarrow>
     (\<exists>pre post. rs = pre @ post \<and> good_n \<le> streak (\<lambda>r. \<not> bad r) pre \<and> (\<forall>a b. post = a @ b \<longrightarrow> streak bad (pre @ a) < fail_n))"

lemma round_failed_bad: "round_failed m r = bad_round (failure_any m) r"
  by (auto simp: round_failed_def bad_round_def list_ex_iff list_all_iff)

lemma rounds_streak_snoc: "streak P (rs @ [r]) = (if P r then streak P rs + 1 else 0)"
  by (simp add: streak_def)

lemma streak_nonneg: "0 \<le> streak P rs"
  by (simp add: streak_def)

lemma recovered_Nil: "1 \<le> good_n \<Longrightarrow> \<not> recovered bad fail_n good_n []"
  by (auto simp: recovered_def streak_def)

lemma recovered_snoc:
  assumes "1 \<le> fail_n" "1 \<le> good_n"
  shows "recovered bad fail_n good_n (rs @ [r]) \<longleftrightarrow>
    streak bad (rs @ [r]) < fail_n \<and> (good_n \<le> streak (\<lambda>r. \<not> bad r) (rs @ [r]) \<or> recovered bad fail_n good_n rs)"
proof
  assume "recovered bad fail_n good_n (rs @ [r])"
  then obtain pre post where p: "rs @ [r] = pre @ post" "good_n \<le> streak (\<lambda>r. \<not> bad r) pre" "\<And>a b. post = a @ b \<Longrightarrow> streak bad (pre @ a) < fail_n"
    unfolding recovered_def by blast
  have s: "streak bad (rs @ [r]) < fail_n" using p(3) [of post "[]"] by (simp add: p(1))
  show "streak bad (rs @ [r]) < fail_n \<and> (good_n \<le> streak (\<lambda>r. \<not> bad r) (rs @ [r]) \<or> recovered bad fail_n good_n rs)"
  proof (cases post rule: rev_cases)
    case Nil
    then show ?thesis using p(1,2) s by simp
  next
    case (snoc post' x)
    then have "rs = pre @ post'" using p(1) by simp
    moreover have "streak bad (pre @ a) < fail_n" if "post' = a @ b" for a b using p(3) [of a "b @ [x]"] snoc that by simp
    ultimately have "recovered bad fail_n good_n rs" using p(2) unfolding recovered_def by blast
    then show ?thesis using s by blast
  qed
next
  assume a: "streak bad (rs @ [r]) < fail_n \<and> (good_n \<le> streak (\<lambda>r. \<not> bad r) (rs @ [r]) \<or> recovered bad fail_n good_n rs)"
  show "recovered bad fail_n good_n (rs @ [r])"
  proof (cases "good_n \<le> streak (\<lambda>r. \<not> bad r) (rs @ [r])")
    case True
    then show ?thesis using a unfolding recovered_def by (intro exI [of _ "rs @ [r]"] exI [of _ "[]"]) simp
  next
    case False
    then obtain pre post where p: "rs = pre @ post" "good_n \<le> streak (\<lambda>r. \<not> bad r) pre" "\<And>a b. post = a @ b \<Longrightarrow> streak bad (pre @ a) < fail_n"
      using a unfolding recovered_def by blast
    have "streak bad (pre @ x) < fail_n" if "post @ [r] = x @ y" for x y
    proof (cases y rule: rev_cases)
      case Nil
      then show ?thesis using that a p(1) by (metis append.assoc append.right_neutral)
    next
      case (snoc y' z)
      then show ?thesis using that p(3) [of x y'] by simp
    qed
    then show ?thesis using p unfolding recovered_def by (intro exI [of _ pre] exI [of _ "post @ [r]"]) simp
  qed
qed

lemma run_health:
  assumes "1 \<le> failure_count m" "1 \<le> recovery_count m" "list_all (\<lambda>r. r \<noteq> []) rs"
  shows "failures (run (monitor_step m) rs unknown) = streak (round_failed m) rs
    \<and> successes (run (monitor_step m) rs unknown) = streak (\<lambda>r. \<not> round_failed m r) rs
    \<and> healthy (run (monitor_step m) rs unknown) = recovered (round_failed m) (failure_count m) (recovery_count m) rs"
  using assms(3)
proof (induction rs rule: rev_induct)
  case Nil
  then show ?case using assms(2) by (simp add: unknown_def streak_def recovered_Nil)
next
  case (snoc r rs)
  define h where "h = run (monitor_step m) rs unknown"
  have r: "r \<noteq> []" and h: "failures h = streak (round_failed m) rs" "successes h = streak (\<lambda>r. \<not> round_failed m r) rs"
    "healthy h = recovered (round_failed m) (failure_count m) (recovery_count m) rs" using snoc by (simp_all add: h_def)
  have e: "run (monitor_step m) (rs @ [r]) unknown = monitor_step m r h" by (simp add: h_def)
  show ?case unfolding e recovered_snoc [OF assms(1,2)] using r h assms(1,2)
    by (cases "round_failed m r") (auto simp: monitor_step_def advance_def Let_def ok_def rounds_streak_snoc)
qed

text \<open>
  (C37) Hysteresis, in both directions: starting from the unknown state, after any complete rounds the
  failure and success counters are the lengths of the latest streaks, and the route is healthy if
  and only if at some round at least \<open>recovery_count\<close> good rounds in a row had come in and since then
  (that round included) there were never \<open>failure_count\<close> failed rounds in a row. So a healthy route
  turns unhealthy exactly at the \<open>failure_count\<close>th failed round in a row, and an unhealthy one healthy
  exactly at the \<open>recovery_count\<close>th good one. A round fails when any target, or every target, as
  configured, did not answer.
\<close>

theorem route_monitor_hysteresis:
  assumes "1 \<le> failure_count m" "1 \<le> recovery_count m" "list_all (\<lambda>r. r \<noteq> []) rs" "h = run (monitor_step m) rs unknown"
    and "bad = bad_round (failure_any m)"
  shows "failures h = streak bad rs \<and> successes h = streak (\<lambda>r. \<not> bad r) rs
    \<and> (healthy h \<longleftrightarrow>
        (\<exists>pre post. rs = pre @ post \<and> recovery_count m \<le> streak (\<lambda>r. \<not> bad r) pre \<and> (\<forall>a b. post = a @ b \<longrightarrow> streak bad (pre @ a) < failure_count m)))"
proof -
  have "round_failed m = bad" unfolding assms(5) by (rule ext) (rule round_failed_bad)
  then show ?thesis using run_health [OF assms(1-3)] unfolding assms(4) recovered_def by simp
qed

text \<open>
  No flapping: a single failed round (with a failure count above one) leaves a healthy
  route healthy, and an unhealthy route stays withheld until the recovery count is reached.
\<close>

theorem route_monitor_no_flap:
  assumes "advance m r h = Inr h'" "1 \<le> failure_count m" "1 \<le> recovery_count m"
  shows "(healthy h \<and> \<not> healthy h' \<longrightarrow> failures h' \<ge> failure_count m \<and> round_failed m r)
    \<and> (\<not> healthy h \<and> healthy h' \<longrightarrow> successes h' \<ge> recovery_count m \<and> \<not> round_failed m r)"
  using assms by (auto simp: advance_def result_simps Let_def split: if_splits)

definition ex_monitor :: monitor where
  "ex_monitor = \<lparr>enabled = True, targets = [''10.0.0.1''], interval = 5, timeout = 1, failure_count = 2, recovery_count = 2, failure_any = False\<rparr>"

theorem route_monitor_hysteresis_witness:
  "healthy (run (monitor_step ex_monitor) [[True], [True], [False]] unknown) \<and> failures (run (monitor_step ex_monitor) [[True], [True], [False]] unknown) = 1"
proof -
  let ?h = "run (monitor_step ex_monitor) [[True], [True], [False]] unknown" and ?bad = "bad_round (failure_any ex_monitor)"
  have c: "1 \<le> failure_count ex_monitor" "1 \<le> recovery_count ex_monitor" "list_all (\<lambda>r. r \<noteq> []) [[True], [True], [False]]" by (simp_all add: ex_monitor_def)
  note t = route_monitor_hysteresis [OF c refl refl]
  have "[[True], [True], [False]] = [[True], [True]] @ [[False]] \<and> recovery_count ex_monitor \<le> streak (\<lambda>r. \<not> ?bad r) [[True], [True]]"
    by (simp add: ex_monitor_def streak_def bad_round_def)
  moreover have "\<forall>a b. [[False]] = a @ b \<longrightarrow> streak ?bad ([[True], [True]] @ a) < failure_count ex_monitor"
    by (auto simp: Cons_eq_append_conv ex_monitor_def streak_def bad_round_def)
  ultimately have "healthy ?h" using t by blast
  moreover have "streak ?bad [[True], [True], [False]] = 1" by (simp add: ex_monitor_def streak_def bad_round_def)
  ultimately show ?thesis using t by simp
qed

theorem route_monitor_no_flap_witness:
  "\<exists>h'. advance ex_monitor [False] \<lparr>healthy = True, failures = 0, successes = 5, last_round = []\<rparr> = Inr h' \<and> healthy h'"
proof -
  let ?h = "\<lparr>healthy = True, failures = 0, successes = 5, last_round = []\<rparr>"
  obtain h' where h: "advance ex_monitor [False] ?h = Inr h'" by (simp add: advance_def Let_def)
  have "failures h' = 1" using h by (auto simp: advance_def ex_monitor_def round_failed_def Let_def)
  then show ?thesis using route_monitor_no_flap [OF h] h by (auto simp: ex_monitor_def)
qed

definition ex_settings :: json where
  "ex_settings = JObj [(''enabled'', JBool True), (''targets'', JList [JStr ''10.0.0.1''])]"

lemma ex_validate: "validate ex_settings (Some (0x0A000000, 8)) \<noteq> Inl e"
proof -
  have p: "parse_ip4 ''10.0.0.1'' = Some 0x0A000001" by code_simp
  have "check_target (Some (0x0A000000, 8)) ''10.0.0.1'' = Inr ()"
    by (simp add: check_target_def p is_multicast_def is_loopback_def is_unspecified_def in_net_iff net_size_def)
  then show ?thesis
    by (simp add: ex_settings_def validate_def only_keys_def DEFAULT_def setting_def jget_def in_range_def)
qed

theorem route_monitor_validated_witness:
  "\<exists>m. validate ex_settings (Some (0x0A000000, 8)) = Inr m \<and> timeout m \<le> interval m"
proof -
  obtain m where m: "validate ex_settings (Some (0x0A000000, 8)) = Inr m"
    using ex_validate by (cases "validate ex_settings (Some (0x0A000000, 8))") auto
  then show ?thesis using route_monitor_validated [OF m] by auto
qed

end
