(* ===== verification/Static_Routes.thy ===== *)
theory Static_Routes
  imports Route_Monitor
begin

text \<open>
  The reconciler of link-tracked static routes, \<^verbatim>\<open>src/opt/ffn_static_routes.py\<close>, with the part of
  \<^verbatim>\<open>src/opt/ffn_linux_network.py\<close> it calls: the route checks of \<^verbatim>\<open>validate\<close>,
  \<^verbatim>\<open>raw_configure_route\<close> and \<^verbatim>\<open>route_present\<close>. Modelled are the eligibility of
  a route, its installation with readback, one tick of the owner with its probes, and the state
  file, for IPv4 routes. The \<^verbatim>\<open>ip\<close> command is a parameter; probe results, clock readings (in
  milliseconds), the digest of a route, the checks of \<^verbatim>\<open>validate\<close> on ports, virtual routers and
  rules and the configuration read again after a probe are parameters too. A tracked route has one
  next hop (\<^verbatim>\<open>validate\<close> refuses others), so \<^verbatim>\<open>nexthops\<close> is left out.
\<close>

section \<open>Routes and their environment\<close>



















section \<open>Eligibility and installation\<close>






section \<open>A tick\<close>










section \<open>The kernel follows the records\<close>






























end
