(* ===== verification/Commit_Apply.thy ===== *)
theory Commit_Apply
  imports Json Transition "HOL-Library.Multiset" "HOL-Library.Product_Lexorder" "HOL-Library.List_Lexorder" "HOL-Library.Char_ord"
begin

text \<open>
  \<^verbatim>\<open>src/opt/ffn_commit_apply.py\<close>: the order in which changed paths are applied, and the
  apply cycle that takes one generation of the running configuration through its stages to the
  checkpoint. The running configuration and the checkpoint are byte strings of a shared state;
  the digest is an argument; times are not modelled.
\<close>

section \<open>Dependency order\<close>

datatype change_kind = Added | Changed | Removed

definition dotted :: "string \<Rightarrow> string" where
  "dotted path = py_lower (map (\<lambda>c. if c = CHR ''/'' then CHR ''.'' else c) path)"

definition dependency :: "string \<Rightarrow> int" where
  "dependency path0 =
     (let path = dotted path0 in
      if contains ''.profiles.'' path
         \<or> list_ex (\<lambda>k. contains (''.'' @ k @ ''.'') path) [''address'', ''address-group'', ''service'', ''service-group''] then 0
      else if contains ''.interface.'' path then
        (if contains ''.units.'' path then 3
         else if contains ''.aggregate-group'' path then 2
         else if contains ''.aggregate-ethernet.'' path then 1
         else 2)
      else if contains ''.zone.'' path then 4
      else if contains ''.virtual-router.'' path then 5
      else if contains ''.rulebase.'' path then 7
      else 6)"

definition dots :: "string \<Rightarrow> int" where
  "dots path = int (length (filter (\<lambda>c. c = CHR ''.'') path))"

definition path_key :: "(string \<times> change_kind) \<Rightarrow> int \<times> int \<times> int \<times> string" where
  "path_key = (\<lambda>(p, kind). if kind = Removed then (0, - dependency p, - dots p, p) else (1, dependency p, dots p, p))"

definition ordered_paths :: "(string \<times> change_kind) list \<Rightarrow> string list" where
  "ordered_paths changes = map fst (sort_key path_key changes)"

section \<open>The apply cycle\<close>

definition STAGES :: "string list" where
  "STAGES = [''validation'', ''interfaces-and-routes'', ''system-settings'', ''security-and-nat'', ''checkpoint'']"

datatype step_state = Applying | Verified | Failed | Incomplete

record apply_cycle =
  snapshot :: bytes
  steps :: "(string \<times> step_state) list"
  position :: int

text \<open>What the cycle shares with the rest of the system: the files and the engine's error lists.\<close>

record apply_world =
  running :: bytes
  checkpointed :: "bytes option"
  errors :: "string list"
  validation_errors :: "string list"

definition new_cycle :: "apply_world \<Rightarrow> apply_cycle" where
  "new_cycle w = \<lparr>snapshot = running w, steps = [], position = -1\<rparr>"

definition failed :: "apply_world \<Rightarrow> bool" where
  "failed w \<longleftrightarrow> errors w \<noteq> [] \<or> validation_errors w \<noteq> []"

definition current :: "apply_world \<Rightarrow> apply_cycle \<Rightarrow> unit res" where
  "current w c =
     ok (running w = snapshot c)
       (RuntimeError ''Running configuration changed during apply; this generation cannot be acknowledged'') (Inr ())"

definition set_last :: "step_state \<Rightarrow> (string \<times> step_state) list \<Rightarrow> (string \<times> step_state) list" where
  "set_last st xs = (if xs = [] then [] else butlast xs @ [(fst (last xs), st)])"

fun index_of :: "'a \<Rightarrow> 'a list \<Rightarrow> int" where
  "index_of x [] = 0"
| "index_of x (y # ys) = (if x = y then 0 else 1 + index_of x ys)"

definition advance :: "apply_world \<Rightarrow> string \<Rightarrow> apply_cycle \<Rightarrow> apply_cycle res" where
  "advance w name c =
     ok (name \<in> set STAGES \<and> index_of name STAGES = position c + 1) (RuntimeError (''Invalid config apply dependency order: '' @ name))
     (rbind (current w c) (\<lambda>_.
      ok (\<not> failed w) (RuntimeError ''An earlier config apply stage failed; dependent stages were not run'')
      (Inr (c\<lparr>steps := set_last Verified (steps c) @ [(name, Applying)], position := position c + 1\<rparr>))))"

definition finish :: "apply_world \<Rightarrow> apply_cycle \<Rightarrow> apply_cycle" where
  "finish w c =
     c\<lparr>steps := set_last (if failed w then Failed
          else if position c = int (length STAGES) - 1 then Verified else Incomplete) (steps c)\<rparr>"

text \<open>
  The checkpoint: advance, write the snapshot beside the destination, look at the running
  configuration again, rename. What the running file holds at that second look is an argument.
\<close>

definition checkpoint :: "apply_world \<Rightarrow> bytes \<Rightarrow> apply_cycle \<Rightarrow> (apply_cycle \<times> apply_world) res" where
  "checkpoint w running_then c =
     rbind (advance w ''checkpoint'' c) (\<lambda>c.
     rbind (current (w\<lparr>running := running_then\<rparr>) c) (\<lambda>_.
     Inr (c, w\<lparr>running := running_then, checkpointed := Some (snapshot c)\<rparr>)))"

section \<open>Waiting for an application\<close>

datatype apply_result = Superseded | Row string string | InProgress | Unconfirmed

text \<open>
  One poll of \<^verbatim>\<open>await_apply\<close>: the digest of the running configuration, and the status row
  (its generation, its overall result, whether it is finished) when the file is newer than the
  request and readable.
\<close>

record poll =
  running_digest :: string
  row :: "(string \<times> string \<times> bool) option"

fun await_apply :: "string \<Rightarrow> bool \<Rightarrow> poll list \<Rightarrow> apply_result" where
  "await_apply generation latest [] = (if latest then InProgress else Unconfirmed)"
| "await_apply generation latest (p # ps) =
     (if running_digest p \<noteq> generation then Superseded
      else case row p of
          Some (gen, overall, finished) \<Rightarrow>
            if gen = generation then
              (if finished \<and> overall \<in> {''applied'', ''partial-failure'', ''validation-failed''} then Row gen overall
               else await_apply generation True ps)
            else await_apply generation latest ps
        | None \<Rightarrow> await_apply generation latest ps)"

section \<open>Properties of the order\<close>

lemma ordered_paths_sorted: "sorted (map path_key (sort_key path_key changes))"
  by simp

lemma sorted_keys_before:
  assumes "sorted (map f (xs @ a # ys @ b # zs))"
  shows "f a \<le> f b"
  using assms by (auto simp: sorted_append)

text \<open>What a path configures, by the parts its name has, and the order in which the layers build on each other.\<close>

datatype layer = Definitions | Bundles | Ports | Units | Zones | Routers | Others | Rulebases

definition LAYERS :: "layer list" where
  "LAYERS = [Definitions, Bundles, Ports, Units, Zones, Routers, Others, Rulebases]"

definition has :: "string \<Rightarrow> string \<Rightarrow> bool" where
  "has part p \<longleftrightarrow> (\<exists>a b. dotted p = a @ part @ b)"

definition is_definition :: "string \<Rightarrow> bool" where
  "is_definition p \<longleftrightarrow> has ''.profiles.'' p \<or> has ''.address.'' p \<or> has ''.address-group.'' p \<or> has ''.service.'' p \<or> has ''.service-group.'' p"

fun in_layer :: "layer \<Rightarrow> string \<Rightarrow> bool" where
  "in_layer Definitions p \<longleftrightarrow> is_definition p"
| "in_layer Bundles p \<longleftrightarrow> \<not> is_definition p \<and> has ''.interface.'' p \<and> \<not> has ''.units.'' p \<and> has ''.aggregate-ethernet.'' p \<and> \<not> has ''.aggregate-group'' p"
| "in_layer Ports p \<longleftrightarrow> \<not> is_definition p \<and> has ''.interface.'' p \<and> \<not> has ''.units.'' p \<and> (\<not> has ''.aggregate-ethernet.'' p \<or> has ''.aggregate-group'' p)"
| "in_layer Units p \<longleftrightarrow> \<not> is_definition p \<and> has ''.interface.'' p \<and> has ''.units.'' p"
| "in_layer Zones p \<longleftrightarrow> \<not> is_definition p \<and> \<not> has ''.interface.'' p \<and> has ''.zone.'' p"
| "in_layer Routers p \<longleftrightarrow> \<not> is_definition p \<and> \<not> has ''.interface.'' p \<and> \<not> has ''.zone.'' p \<and> has ''.virtual-router.'' p"
| "in_layer Others p \<longleftrightarrow> \<not> is_definition p \<and> \<not> has ''.interface.'' p \<and> \<not> has ''.zone.'' p \<and> \<not> has ''.virtual-router.'' p \<and> \<not> has ''.rulebase.'' p"
| "in_layer Rulebases p \<longleftrightarrow> \<not> is_definition p \<and> \<not> has ''.interface.'' p \<and> \<not> has ''.zone.'' p \<and> \<not> has ''.virtual-router.'' p \<and> has ''.rulebase.'' p"

lemma contains_iff: "contains k s \<longleftrightarrow> (\<exists>a b. s = a @ k @ b)"
proof (induction s)
  case (Cons x s)
  have "starts_with k (x # s) \<longleftrightarrow> (\<exists>b. x # s = k @ b)" unfolding starts_with_def by (metis append_eq_conv_conj append_take_drop_id)
  moreover have "(\<exists>a b. x # s = a @ k @ b) \<longleftrightarrow> (\<exists>b. x # s = k @ b) \<or> (\<exists>a b. s = a @ k @ b)"
    by (metis (no_types, lifting) append_Cons append_Nil list.exhaust list.inject)
  ultimately show ?case using Cons by simp
qed simp

lemma contains_has: "contains k (dotted p) \<longleftrightarrow> has k p"
  by (simp add: contains_iff has_def)

lemma dependency_layer:
  "in_layer ly p \<Longrightarrow> dependency p =
     (case ly of Definitions \<Rightarrow> 0 | Bundles \<Rightarrow> 1 | Ports \<Rightarrow> 2 | Units \<Rightarrow> 3 | Zones \<Rightarrow> 4 | Routers \<Rightarrow> 5 | Others \<Rightarrow> 6 | Rulebases \<Rightarrow> 7)"
  by (cases ly) (auto simp: dependency_def contains_has is_definition_def)

lemma dependency_nth:
  assumes "in_layer (LAYERS ! i) p" "i < length LAYERS"
  shows "dependency p = int i"
proof -
  have "i \<in> {0, 1, 2, 3, 4, 5, 6, 7}" using assms(2) by (auto simp: LAYERS_def)
  then show ?thesis using dependency_layer [OF assms(1)] by (auto simp: LAYERS_def)
qed

lemma layer_exists: "\<exists>i < length LAYERS. in_layer (LAYERS ! i) p"
proof -
  have "\<exists>ly. in_layer ly p" by (metis in_layer.simps)
  moreover have "set LAYERS = UNIV" by (auto simp: LAYERS_def intro: layer.exhaust)
  ultimately show ?thesis by (metis UNIV_I in_set_conv_nth)
qed

text \<open>
  (C34) The order of application: nothing is lost or added, and every removal comes before every change
  that is not one. What is built on comes first: of two paths that are not removed, one of an earlier
  layer never follows one of a later layer, the layers being definitions (profiles, addresses,
  services), aggregate interfaces, interfaces, their units, zones, virtual routers, everything else, and
  the rulebase; among removals the order is the reverse. Every path has a layer.
\<close>

theorem ordered_paths_respects_dependencies:
  assumes "sort_key path_key changes = xs @ (p, k) # ys @ (q, l) # zs"
    and "in_layer (LAYERS ! i) p" "i < length LAYERS" "in_layer (LAYERS ! j) q" "j < length LAYERS"
  shows "ordered_paths changes = map fst xs @ p # map fst ys @ q # map fst zs
    \<and> mset (ordered_paths changes) = mset (map fst changes)
    \<and> (l = Removed \<longrightarrow> k = Removed \<and> j \<le> i)
    \<and> (k \<noteq> Removed \<longrightarrow> l \<noteq> Removed \<and> i \<le> j) \<and> (\<exists>n < length LAYERS. in_layer (LAYERS ! n) r)"
proof -
  have "sorted (map path_key (xs @ (p, k) # ys @ (q, l) # zs))"
    unfolding assms(1) [symmetric] by simp
  then have le: "path_key (p, k) \<le> path_key (q, l)" by (rule sorted_keys_before)
  have d: "dependency p = int i" "dependency q = int j" using dependency_nth assms(2-5) by blast+
  have "ordered_paths changes = map fst xs @ p # map fst ys @ q # map fst zs"
    unfolding ordered_paths_def assms(1) by simp
  moreover have "mset (ordered_paths changes) = mset (map fst changes)" by (simp add: ordered_paths_def)
  moreover have "(l = Removed \<longrightarrow> k = Removed \<and> j \<le> i) \<and> (k \<noteq> Removed \<longrightarrow> l \<noteq> Removed \<and> i \<le> j)"
    using le by (auto simp: path_key_def less_eq_prod_def less_prod_def d split: if_splits)
  ultimately show ?thesis using layer_exists by blast
qed

section \<open>Properties of the cycle\<close>

text \<open>
  The stages a cycle has entered are the first stages, in order, all but the last one verified.
\<close>

definition cycle_inv :: "apply_cycle \<Rightarrow> bool" where
  "cycle_inv c \<longleftrightarrow> -1 \<le> position c \<and> position c < int (length STAGES)
     \<and> map fst (steps c) = take (nat (position c + 1)) STAGES
     \<and> list_all (\<lambda>(_, st). st = Verified) (butlast (steps c))"

lemma set_last_fst [simp]: "map fst (set_last st xs) = map fst xs"
  by (cases xs rule: rev_cases) (auto simp: set_last_def)

lemma set_last_Verified: "list_all (\<lambda>(_, st). st = Verified) (butlast xs) \<Longrightarrow> list_all (\<lambda>(_, st). st = Verified) (set_last Verified xs)"
  by (cases xs rule: rev_cases) (auto simp: set_last_def)

lemma index_of_nth: "x \<in> set xs \<Longrightarrow> 0 \<le> index_of x xs \<and> index_of x xs < int (length xs) \<and> xs ! nat (index_of x xs) = x"
proof (induction xs)
  case (Cons y ys)
  then show ?case by (cases "x = y") (auto simp: nat_add_distrib)
qed simp

lemma advance_inv:
  assumes "cycle_inv c" "advance w name c = Inr c'"
  shows "cycle_inv c' \<and> snapshot c' = snapshot c \<and> running w = snapshot c \<and> \<not> failed w \<and> position c' = position c + 1"
proof -
  have n: "name \<in> set STAGES" "index_of name STAGES = position c + 1" "running w = snapshot c" "\<not> failed w"
    and c': "c' = c\<lparr>steps := set_last Verified (steps c) @ [(name, Applying)], position := position c + 1\<rparr>"
    using assms(2) by (auto simp: advance_def current_def result_simps)
  let ?i = "nat (position c + 1)"
  have i: "?i < length STAGES" "STAGES ! ?i = name" "0 \<le> position c + 1" using index_of_nth [OF n(1)] n(2) by auto
  have "take (Suc ?i) STAGES = take ?i STAGES @ [name]" using i by (simp add: take_Suc_conv_app_nth)
  moreover have "nat (position c + 1 + 1) = Suc ?i" using i(3) by linarith
  ultimately have "map fst (steps c') = take (nat (position c' + 1)) STAGES"
    using assms(1) by (simp add: c' cycle_inv_def)
  moreover have "list_all (\<lambda>(_, st). st = Verified) (butlast (steps c'))"
    using assms(1) set_last_Verified by (simp add: c' cycle_inv_def)
  ultimately show ?thesis using n i assms(1) by (simp add: c' cycle_inv_def)
qed

lemma new_cycle_inv: "cycle_inv (new_cycle w)"
  by (simp add: cycle_inv_def new_cycle_def STAGES_def)

definition cycle_step :: "apply_world \<times> string \<Rightarrow> apply_cycle \<Rightarrow> apply_cycle" where
  "cycle_step = (\<lambda>(w, name) c. case advance w name c of Inr c' \<Rightarrow> c' | Inl _ \<Rightarrow> c)"

interpretation cycle: invariant_system cycle_step cycle_inv
  by unfold_locales (auto simp: cycle_step_def split: sum.splits dest: advance_inv)

lemma snapshot_cycle_run: "cycle_inv c \<Longrightarrow> snapshot (run cycle_step is c) = snapshot c"
proof (rule cycle.stable_run [where allowed = "\<lambda>_. True"])
  fix i c' assume "cycle_inv c'" "snapshot c' = snapshot c"
  then show "snapshot (cycle_step i c') = snapshot c"
    by (cases "advance (fst i) (snd i) c'") (auto simp: cycle_step_def split_beta dest: advance_inv)
qed (simp_all add: list_all_iff)

text \<open>
  (C35) A failed or superseded generation never advances the checkpoint: when a cycle, after any
  attempts to advance, writes its checkpoint, then it went through all five stages in order with
  every earlier one verified, the engine reports no error, the running configuration is the one
  the cycle started from both before and after writing, and exactly that generation is stored.
\<close>

theorem apply_checkpoint_sound:
  assumes "c = run cycle_step is (new_cycle w0)" "checkpoint w rt c = Inr (c', w')"
  shows "checkpointed w' = Some (running w0) \<and> running w = running w0 \<and> rt = running w0
    \<and> \<not> failed w \<and> map fst (steps c') = STAGES \<and> list_all (\<lambda>(_, st). st = Verified) (butlast (steps c'))
    \<and> last (steps (finish w' c')) = (''checkpoint'', Verified)"
proof -
  have inv: "cycle_inv c" unfolding assms(1) by (intro cycle.inv_run new_cycle_inv)
  have snap: "snapshot c = running w0"
    unfolding assms(1) using snapshot_cycle_run [OF new_cycle_inv] by (simp add: new_cycle_def)
  have a: "advance w ''checkpoint'' c = Inr c'" and r: "rt = snapshot c'"
    and w': "w' = w\<lparr>running := rt, checkpointed := Some (snapshot c')\<rparr>"
    using assms(2) by (auto simp: checkpoint_def current_def result_simps)
  note adv = advance_inv [OF inv a]
  have "position c + 1 = 4" using a by (auto simp: advance_def result_simps STAGES_def)
  then have p: "position c' = 4" using adv by simp
  then have st: "map fst (steps c') = STAGES" using adv by (simp add: cycle_inv_def STAGES_def)
  have ne: "steps c' \<noteq> []" using st by (auto simp: STAGES_def)
  have "fst (last (steps c')) = last STAGES" using st ne by (metis last_map)
  then have "last (steps (finish w' c')) = (''checkpoint'', Verified)"
    using adv p ne by (simp add: finish_def set_last_def w' failed_def STAGES_def)
  then show ?thesis using adv r w' snap st by (auto simp: cycle_inv_def)
qed

text \<open>
  Stages out of order, after an error, or after a change of the running configuration are
  refused, and every other next stage is entered.
\<close>

theorem apply_advance_iff:
  assumes "cycle_inv c"
  shows "(\<exists>c'. advance w name c = Inr c')
    \<longleftrightarrow> nat (position c + 1) < length STAGES \<and> name = STAGES ! nat (position c + 1) \<and> running w = snapshot c \<and> \<not> failed w"
proof -
  have "name \<in> set STAGES \<and> index_of name STAGES = position c + 1
      \<longleftrightarrow> nat (position c + 1) < length STAGES \<and> name = STAGES ! nat (position c + 1)"
  proof
    assume "name \<in> set STAGES \<and> index_of name STAGES = position c + 1"
    then show "nat (position c + 1) < length STAGES \<and> name = STAGES ! nat (position c + 1)"
      using index_of_nth [of name STAGES] by auto
  next
    assume a: "nat (position c + 1) < length STAGES \<and> name = STAGES ! nat (position c + 1)"
    have "distinct STAGES" by (simp add: STAGES_def)
    moreover have n: "name \<in> set STAGES" using a by auto
    ultimately have "nat (index_of name STAGES) = nat (position c + 1)"
      using a index_of_nth [OF n] by (metis nat_less_iff nth_eq_iff_index_eq)
    then show "name \<in> set STAGES \<and> index_of name STAGES = position c + 1"
      using n index_of_nth [OF n] assms by (auto simp: cycle_inv_def)
  qed
  then show ?thesis by (auto simp: advance_def current_def result_simps)
qed

lemma await_apply_step:
  assumes "await_apply generation latest (p # ps) = Row gen overall"
  shows "running_digest p = generation \<and> row p = Some (generation, overall, True) \<and> gen = generation
      \<and> overall \<in> {''applied'', ''partial-failure'', ''validation-failed''}
    \<or> (\<exists>l. await_apply generation l ps = Row gen overall)"
proof (cases "row p")
  case (Some r)
  obtain g o1 f where r: "r = (g, o1, f)" by (cases r)
  show ?thesis
  proof (cases "g = generation \<and> f \<and> o1 \<in> {''applied'', ''partial-failure'', ''validation-failed''}")
    case True
    then show ?thesis using assms Some r by (auto split: if_splits)
  next
    case False
    then have "await_apply generation (if g = generation then True else latest) ps = Row gen overall"
      using assms Some r by (auto split: if_splits)
    then show ?thesis by blast
  qed
qed (use assms in \<open>auto split: if_splits\<close>)

text \<open>
  \<^verbatim>\<open>await_apply\<close> reports a result only for the awaited generation: a row it returns
  carries that generation and a final result, and was seen while the running configuration
  still was that generation.
\<close>

theorem await_apply_sound:
  assumes "await_apply generation latest ps = Row gen overall"
  shows "gen = generation \<and> overall \<in> {''applied'', ''partial-failure'', ''validation-failed''}
    \<and> (\<exists>p \<in> set ps. running_digest p = generation \<and> row p = Some (gen, overall, True))"
  using assms
proof (induction ps arbitrary: latest)
  case (Cons p ps)
  then show ?case using await_apply_step [OF Cons.prems] by auto
qed (simp split: if_splits)

definition ex_world :: apply_world where
  "ex_world = \<lparr>running = [1, 2, 3], checkpointed = None, errors = [], validation_errors = []\<rparr>"

definition ex_stages :: "(apply_world \<times> string) list" where
  "ex_stages = map (\<lambda>n. (ex_world, n)) (butlast STAGES)"

lemma ex_cycle: "\<exists>c' w'. checkpoint ex_world [1, 2, 3] (run cycle_step ex_stages (new_cycle ex_world)) = Inr (c', w')"
  by (simp add: ex_stages_def STAGES_def ex_world_def new_cycle_def cycle_step_def advance_def current_def failed_def
      checkpoint_def set_last_def)

theorem apply_checkpoint_sound_witness:
  "\<exists>c' w'. checkpoint ex_world [1, 2, 3] (run cycle_step ex_stages (new_cycle ex_world)) = Inr (c', w')
     \<and> checkpointed w' = Some [1, 2, 3]"
proof -
  obtain c' w' where c: "checkpoint ex_world [1, 2, 3] (run cycle_step ex_stages (new_cycle ex_world)) = Inr (c', w')"
    using ex_cycle by blast
  from apply_checkpoint_sound [OF refl c] c show ?thesis by (auto simp: ex_world_def)
qed

theorem apply_advance_iff_witness:
  "\<exists>c'. advance ex_world ''validation'' (new_cycle ex_world) = Inr c'"
  using apply_advance_iff [OF new_cycle_inv, of ex_world "''validation''" ex_world]
  by (simp add: new_cycle_def ex_world_def STAGES_def failed_def)

theorem await_apply_sound_witness:
  "\<exists>p \<in> set [\<lparr>running_digest = ''g'', row = Some (''g'', ''applied'', True)\<rparr>]. running_digest p = ''g'' \<and> row p = Some (''g'', ''applied'', True)"
  using await_apply_sound [of "''g''" False "[\<lparr>running_digest = ''g'', row = Some (''g'', ''applied'', True)\<rparr>]" "''g''" "''applied''"]
  by simp

definition ex_changes :: "(string \<times> change_kind) list" where
  "ex_changes = [(''network.zone.a'', Added), (''network.interface.b.c'', Removed)]"

lemma ex_sorted: "sort_key path_key ex_changes = [] @ (''network.interface.b.c'', Removed) # [] @ (''network.zone.a'', Added) # []"
  by (simp add: ex_changes_def path_key_def less_eq_prod_def less_prod_def)

theorem ordered_paths_respects_dependencies_witness:
  "ordered_paths ex_changes = [''network.interface.b.c'', ''network.zone.a'']"
proof -
  have z: "has ''.zone.'' ''network.zone.a''" and i: "has ''.interface.'' ''network.interface.b.c''"
    unfolding contains_has [symmetric] by code_simp+
  have "in_layer (LAYERS ! 4) ''network.zone.a''" "in_layer (LAYERS ! 2) ''network.interface.b.c''"
    unfolding LAYERS_def by (simp_all add: is_definition_def contains_has [symmetric] dotted_def, code_simp+)
  from ordered_paths_respects_dependencies [OF ex_sorted this(2) _ this(1)] show ?thesis by (simp add: LAYERS_def)
qed

end
