(* ===== verification/Sysd.thy ===== *)
theory Sysd
  imports Json Transition
begin

text \<open>
  \<^verbatim>\<open>src/opt/ffn_sysd.py\<close>: the runtime state bus, its persistence, subscriptions,
  heartbeats, name service, request handler and connections. The store is one record; the clock
  reading of an operation, whether a subscriber's callback takes an event, whether a write of the
  state file succeeds and \<^verbatim>\<open>str\<close> of a value that is not a string are arguments. A
  subscriber's callback is a number. Operations run one at a time, as the store's lock makes
  them; clock readings are whole seconds.
\<close>

definition PERSISTED_ROOTS :: "string list" where "PERSISTED_ROOTS = [''cfg'']"
definition VALID_ROOTS :: "string list" where "VALID_ROOTS = [''cfg'', ''sw'', ''hw'', ''dp'', ''ha'', ''run'']"
definition HB_STALE_SEC :: int where "HB_STALE_SEC = 30"
definition SNAPSHOT_DEBOUNCE_SEC :: int where "SNAPSHOT_DEBOUNCE_SEC = 2"

type_synonym callback = nat

record sysd_env =
  now :: int
  delivers :: "callback \<Rightarrow> bool"
  writable :: bool
  py_str :: "json \<Rightarrow> string"

record sysd =
  sd_state :: "(string, json \<times> int) odict"
  sd_hb :: "(json \<times> int \<times> nat) list"
  sd_subs :: "(json \<times> callback) list"
  sd_dirty :: bool
  sd_last_snapshot :: int
  sd_sets :: nat
  sd_gets :: nat
  sd_events :: nat
  sd_started :: int
  sd_vars :: "(string \<times> string) list"
  sd_file :: "(string, json \<times> int) odict"

type_synonym event = "callback \<times> string \<times> json"

section \<open>Name service\<close>

text \<open>Splitting at the first \<^verbatim>\<open>$(\<close>, and at the first closing parenthesis after it.\<close>

fun break_open :: "string \<Rightarrow> (string \<times> string) option" where
  "break_open (c # d # r) =
     (if c = CHR ''$'' \<and> d = CHR ''('' then Some ([], r)
      else map_option (\<lambda>(p, q). (c # p, q)) (break_open (d # r)))"
| "break_open r = None"

fun break_close :: "string \<Rightarrow> (string \<times> string) option" where
  "break_close [] = None"
| "break_close (c # r) = (if c = CHR '')'' then Some ([], r) else map_option (\<lambda>(p, q). (c # p, q)) (break_close r))"

definition var_value :: "(string \<times> string) list \<Rightarrow> string \<Rightarrow> string" where
  "var_value vs name = (case map_of vs name of Some v \<Rightarrow> v | None \<Rightarrow> [])"

fun expand :: "nat \<Rightarrow> (string \<times> string) list \<Rightarrow> string \<Rightarrow> string" where
  "expand 0 vs out = out"
| "expand (Suc n) vs out =
     (case break_open out of
        None \<Rightarrow> out
      | Some (before, rest) \<Rightarrow>
          (case break_close rest of
             None \<Rightarrow> out
           | Some (name, after) \<Rightarrow> expand n vs (before @ var_value vs name @ after)))"

definition resolve :: "sysd \<Rightarrow> string \<Rightarrow> string" where
  "resolve s template = expand 8 (sd_vars s) template"

section \<open>Persistence\<close>

definition root :: "string \<Rightarrow> string" where
  "root key = takeWhile (\<lambda>c. c \<noteq> CHR ''.'') key"

definition persisted :: "string \<Rightarrow> bool" where
  "persisted key \<longleftrightarrow> root key \<in> set PERSISTED_ROOTS"

definition load_state :: "(string, json \<times> int) odict \<Rightarrow> (string, json \<times> int) odict" where
  "load_state file = filter (\<lambda>(k, _). persisted k) file"

definition new_store :: "int \<Rightarrow> (string \<times> string) list \<Rightarrow> (string, json \<times> int) odict \<Rightarrow> sysd" where
  "new_store t vs file =
     \<lparr>sd_state = load_state file, sd_hb = [], sd_subs = [], sd_dirty = False, sd_last_snapshot = 0, sd_sets = 0, sd_gets = 0,
      sd_events = 0, sd_started = t, sd_vars = vs, sd_file = file\<rparr>"

definition snapshot :: "sysd_env \<Rightarrow> bool \<Rightarrow> sysd \<Rightarrow> sysd" where
  "snapshot env force s =
     (if \<not> sd_dirty s \<and> \<not> force then s
      else if \<not> force \<and> now env - sd_last_snapshot s < SNAPSHOT_DEBOUNCE_SEC then s
      else (let s' = s\<lparr>sd_dirty := False, sd_last_snapshot := now env\<rparr>
            in if writable env then s'\<lparr>sd_file := filter (\<lambda>(k, _). persisted k) (sd_state s)\<rparr> else s'))"

section \<open>State\<close>

definition quoted :: "string \<Rightarrow> string" where
  "quoted t = CHR 0x27 # t @ [CHR 0x27]"

definition check_key :: "json \<Rightarrow> string option" where
  "check_key key =
     (case key of
        JStr k \<Rightarrow> if k = [] then Some ''key must be a non-empty string''
                 else if root k \<notin> set VALID_ROOTS then Some (''invalid namespace '' @ quoted (root k) @ '' (valid: '' @ join_with '', '' VALID_ROOTS @ '')'') else None
      | _ \<Rightarrow> Some ''key must be a non-empty string'')"

definition old_value :: "sysd \<Rightarrow> string \<Rightarrow> json" where
  "old_value s k = (case map_of (sd_state s) k of Some (v, _) \<Rightarrow> v | None \<Rightarrow> JNull)"

text \<open>
  The subscribers of the matching prefixes, in order. A prefix that is not a string makes
  \<^verbatim>\<open>startswith\<close> raise, outside the handler that guards the callback: the flag says so, the
  events delivered before it stay.
\<close>

fun notify :: "sysd_env \<Rightarrow> string \<Rightarrow> json \<Rightarrow> (json \<times> callback) list \<Rightarrow> bool \<times> event list" where
  "notify env k v [] = (False, [])"
| "notify env k v ((p, cb) # subs) =
     (case p of
        JStr q \<Rightarrow>
          (case notify env k v subs of (raised, es) \<Rightarrow>
             (raised, if starts_with q k \<and> delivers env cb then (cb, k, v) # es else es))
      | _ \<Rightarrow> (True, []))"

definition set_key :: "sysd_env \<Rightarrow> string \<Rightarrow> json \<Rightarrow> sysd \<Rightarrow> bool \<times> event list \<times> sysd" where
  "set_key env k v s =
     (let s1 = s\<lparr>sd_state := dict_set k (v, now env) (sd_state s), sd_sets := sd_sets s + 1,
                 sd_dirty := sd_dirty s \<or> persisted k\<rparr>;
          (raised, es) = notify env k v (if py_eq (old_value s k) v then [] else sd_subs s);
          s2 = s1\<lparr>sd_events := sd_events s + length es\<rparr>
      in (raised, es, if raised then s2 else snapshot env False s2))"

text \<open>The result is the error message if the key is refused, or \<open>Inl\<close> when a prefix raised.\<close>

definition set_op :: "sysd_env \<Rightarrow> json \<Rightarrow> json \<Rightarrow> sysd \<Rightarrow> string option res \<times> event list \<times> sysd" where
  "set_op env key v s =
     (case check_key key of
        Some err \<Rightarrow> (Inr (Some err), [], s)
      | None \<Rightarrow>
          (case key of
             JStr k \<Rightarrow> (case set_key env k v s of (raised, es, s') \<Rightarrow> (if raised then Inl TypeError else Inr None, es, s'))
           | _ \<Rightarrow> (Inr None, [], s)))"

text \<open>A key that is a list or an object is not hashable: the lookup raises \<open>TypeError\<close>.\<close>

definition lookup_key :: "json \<Rightarrow> sysd \<Rightarrow> (json \<times> int) option res" where
  "lookup_key key s =
     (case key of JStr k \<Rightarrow> Inr (map_of (sd_state s) k) | JList _ \<Rightarrow> Inl TypeError | JObj _ \<Rightarrow> Inl TypeError | _ \<Rightarrow> Inr None)"

definition get_op :: "json \<Rightarrow> sysd \<Rightarrow> (json \<times> int) option res \<times> sysd" where
  "get_op key s = (lookup_key key s, s\<lparr>sd_gets := sd_gets s + 1\<rparr>)"

definition delete_key :: "sysd_env \<Rightarrow> string \<Rightarrow> sysd \<Rightarrow> bool \<times> sysd" where
  "delete_key env k s =
     (let existed = map_of (sd_state s) k \<noteq> None;
          s1 = s\<lparr>sd_state := dict_del k (sd_state s), sd_dirty := sd_dirty s \<or> existed \<and> persisted k\<rparr>
      in (existed, snapshot env False s1))"

definition list_keys :: "string \<Rightarrow> sysd \<Rightarrow> (string \<times> json) list" where
  "list_keys prefix s = map (\<lambda>(k, v, _). (k, v)) (filter (\<lambda>(k, _). starts_with prefix k) (sd_state s))"

definition dump :: "sysd \<Rightarrow> (string \<times> json) list" where
  "dump s = map (\<lambda>(k, v, ts). (k, JObj [(''value'', v), (''ts'', JFloat ts)])) (sd_state s)"

definition subscribe :: "json \<Rightarrow> callback \<Rightarrow> sysd \<Rightarrow> sysd" where
  "subscribe prefix cb s = s\<lparr>sd_subs := sd_subs s @ [(prefix, cb)]\<rparr>"

definition unsubscribe :: "callback \<Rightarrow> sysd \<Rightarrow> sysd" where
  "unsubscribe cb s = s\<lparr>sd_subs := filter (\<lambda>(_, c). c \<noteq> cb) (sd_subs s)\<rparr>"

section \<open>Heartbeats\<close>

fun bump :: "json \<Rightarrow> int \<Rightarrow> (json \<times> int \<times> nat) list \<Rightarrow> (json \<times> int \<times> nat) list" where
  "bump name t [] = [(name, t, 1)]"
| "bump name t ((n, ts, c) # hb) = (if py_eq n name then (n, t, c + 1) # hb else (n, ts, c) # bump name t hb)"

definition heartbeat :: "sysd_env \<Rightarrow> json \<Rightarrow> sysd \<Rightarrow> sysd" where
  "heartbeat env name s = s\<lparr>sd_hb := bump name (now env) (sd_hb s)\<rparr>"

text \<open>Comparing an age with a \<^verbatim>\<open>stale_sec\<close> that is no number raises, if there is an age.\<close>

definition hbstat :: "sysd_env \<Rightarrow> json \<Rightarrow> sysd \<Rightarrow> (json \<times> int \<times> nat \<times> bool) list res" where
  "hbstat env stale_sec s =
     map_res (\<lambda>(name, ts, n). need (num_val stale_sec) TypeError (\<lambda>lim. Inr (name, now env - ts, n, now env - ts > lim))) (sd_hb s)"

definition key_str :: "sysd_env \<Rightarrow> json \<Rightarrow> string" where
  "key_str env v = (case v of JStr t \<Rightarrow> t | _ \<Rightarrow> py_str env v)"

definition hb_json :: "sysd_env \<Rightarrow> json \<times> int \<times> nat \<times> bool \<Rightarrow> string \<times> json" where
  "hb_json env = (\<lambda>(name, age, n, stale).
     (key_str env name, JObj [(''age'', JFloat age), (''count'', JInt (int n)), (''stale'', JBool stale)]))"

definition stats :: "sysd_env \<Rightarrow> sysd \<Rightarrow> (string \<times> json) list" where
  "stats env s =
     [(''sets'', JInt (int (sd_sets s))), (''gets'', JInt (int (sd_gets s))), (''events'', JInt (int (sd_events s))),
      (''started'', JFloat (sd_started s)), (''keys'', JInt (int (length (sd_state s)))),
      (''subscribers'', JInt (int (length (sd_subs s)))), (''heartbeats'', JInt (int (length (sd_hb s)))),
      (''uptime'', JFloat (now env - sd_started s))]"

section \<open>Requests\<close>

definition OK :: "(string \<times> json) list \<Rightarrow> json" where "OK kvs = JObj ((''ok'', JBool True) # kvs)"
definition ERR :: "string \<Rightarrow> json" where "ERR e = JObj [(''ok'', JBool False), (''error'', JStr e)]"

text \<open>
  One request of the connection with callback \<open>me\<close>: the response, whether it
  subscribed, the events pushed and the store. \<open>Inl\<close> is an exception, which ends the connection.
\<close>

definition handle_req :: "sysd_env \<Rightarrow> callback \<Rightarrow> (string \<times> json) list \<Rightarrow> sysd \<Rightarrow> (json \<times> bool) res \<times> event list \<times> sysd" where
  "handle_req env me req s =
     (let arg = (\<lambda>k. jget k JNull req); op = jget ''op'' JNull req;
          say = (\<lambda>r s'. (Inr (r, False), [], s')); raise = (\<lambda>s'. (Inl TypeError, [], s')) in
      if op = JStr ''ping'' then say (OK [(''pong'', JBool True)]) s
      else if op = JStr ''set'' then
        (case set_op env (arg ''key'') (arg ''value'') s of (r, es, s') \<Rightarrow>
           (rbind r (\<lambda>err. Inr (case err of Some e \<Rightarrow> ERR e | None \<Rightarrow> OK [], False)), es, s'))
      else if op = JStr ''get'' then
        (case get_op (arg ''key'') s of (r, s') \<Rightarrow>
           (rbind r (\<lambda>rec. Inr (case rec of Some (v, ts) \<Rightarrow> OK [(''value'', v), (''ts'', JFloat ts)]
                                         | None \<Rightarrow> OK [(''value'', JNull), (''ts'', JNull)], False)), [], s'))
      else if op = JStr ''del'' then
        (case arg ''key'' of
           JStr k \<Rightarrow> (case delete_key env k s of (e, s') \<Rightarrow> say (OK [(''deleted'', JBool e)]) s')
         | JList _ \<Rightarrow> raise s
         | JObj _ \<Rightarrow> raise s
         | _ \<Rightarrow> say (OK [(''deleted'', JBool False)]) (snapshot env False s))
      else if op = JStr ''list'' then
        (case jget ''prefix'' (JStr []) req of
           JStr p \<Rightarrow> say (OK [(''keys'', JObj (list_keys p s))]) s
         | _ \<Rightarrow> if sd_state s = [] then say (OK [(''keys'', JObj [])]) s else raise s)
      else if op = JStr ''dump'' then say (OK [(''state'', JObj (dump s))]) s
      else if op = JStr ''sub'' then
        (let p = jget ''prefix'' (JStr []) req in (Inr (OK [(''subscribed'', p)], True), [], subscribe p me s))
      else if op = JStr ''unsub'' then say (OK []) (unsubscribe me s)
      else if op = JStr ''hb'' then
        (let n = arg ''name'' in
         if \<not> truthy n then say (ERR ''name required'') s
         else (case n of JList _ \<Rightarrow> raise s | JObj _ \<Rightarrow> raise s | _ \<Rightarrow> say (OK []) (heartbeat env n s)))
      else if op = JStr ''hbstat'' then
        (rbind (hbstat env (jget ''stale_sec'' (JFloat HB_STALE_SEC) req) s)
           (\<lambda>hb. Inr (OK [(''heartbeats'', JObj (map (hb_json env) hb))], False)), [], s)
      else if op = JStr ''resolve'' then
        say (OK [(''value'', JStr (resolve s (key_str env (jget ''template'' (JStr []) req))))]) s
      else if op = JStr ''vars'' then say (OK [(''vars'', JObj (map (\<lambda>(k, v). (k, JStr v)) (sd_vars s)))]) s
      else if op = JStr ''stats'' then say (OK [(''stats'', JObj (stats env s))]) s
      else say (ERR (''unknown op '' @ quoted (key_str env op))) s)"

section \<open>Connections\<close>

text \<open>
  The lines a client sends: \<open>None\<close> is a line that is not JSON. A line that is JSON but no
  object raises. The connection ends with its last line or with the first exception; whatever it
  subscribed is then unsubscribed.
\<close>

fun client_lines :: "sysd_env \<Rightarrow> callback \<Rightarrow> json option list \<Rightarrow> bool \<Rightarrow> sysd \<Rightarrow> bool \<times> sysd" where
  "client_lines env me [] subbed s = (subbed, s)"
| "client_lines env me (None # ls) subbed s = client_lines env me ls subbed s"
| "client_lines env me (Some (JObj req) # ls) subbed s =
     (case handle_req env me req s of (r, es, s') \<Rightarrow>
        (case r of
           Inl e \<Rightarrow> (subbed, s')
         | Inr (resp, sub) \<Rightarrow> client_lines env me ls (subbed \<or> sub) s'))"
| "client_lines env me (Some v # ls) subbed s = (subbed, s)"

definition client :: "sysd_env \<Rightarrow> callback \<Rightarrow> json option list \<Rightarrow> sysd \<Rightarrow> sysd" where
  "client env me ls s =
     (case client_lines env me ls False s of (subbed, s') \<Rightarrow> if subbed then unsubscribe me s' else s')"

definition start :: "sysd_env \<Rightarrow> string \<Rightarrow> sysd \<Rightarrow> sysd" where
  "start env path s =
     snd (snd (set_key env ''sw.sysd.socket'' (JStr path) (snd (snd (set_key env ''sw.sysd.state'' (JStr ''running'') s)))))"

text \<open>Stopping: an exception of the last set leaves without the forced write.\<close>

definition stop :: "sysd_env \<Rightarrow> sysd \<Rightarrow> sysd" where
  "stop env s =
     (case set_key env ''sw.sysd.state'' (JStr ''stopping'') s of (raised, es, s') \<Rightarrow>
        if raised then s' else snapshot env True s')"

section \<open>Lookups after writes\<close>

definition value_of :: "sysd \<Rightarrow> string \<Rightarrow> json option" where
  "value_of s k = map_option fst (map_of (sd_state s) k)"

abbreviation after_set :: "sysd_env \<Rightarrow> string \<Rightarrow> json \<Rightarrow> sysd \<Rightarrow> sysd" where
  "after_set env k v s \<equiv> snd (snd (set_key env k v s))"

abbreviation after_del :: "sysd_env \<Rightarrow> string \<Rightarrow> sysd \<Rightarrow> sysd" where
  "after_del env k s \<equiv> snd (delete_key env k s)"

lemma snapshot_keeps [simp]:
  "sd_state (snapshot env f s) = sd_state s" "sd_subs (snapshot env f s) = sd_subs s" "sd_hb (snapshot env f s) = sd_hb s"
  "sd_vars (snapshot env f s) = sd_vars s"
  by (simp_all add: snapshot_def Let_def)

lemma set_key_keeps [simp]:
  "sd_state (after_set env k v s) = dict_set k (v, now env) (sd_state s)" "sd_subs (after_set env k v s) = sd_subs s"
  by (auto simp: set_key_def Let_def split: prod.splits)

lemma delete_key_keeps [simp]:
  "sd_state (after_del env k s) = dict_del k (sd_state s)" "sd_subs (after_del env k s) = sd_subs s"
  by (simp_all add: delete_key_def Let_def)

interpretation bus: kv_store value_of "after_set env" "after_del env" "\<lambda>_. True" for env
  by unfold_locales (simp_all add: value_of_def)

text \<open>
  Last write wins: after any sequence of sets and deletes, each key of the state bus holds
  the value of the last set of it, or nothing if it was deleted since, or its earlier value if
  it was not written; whatever the clock, the subscribers and the state file did meanwhile.
\<close>

theorem sysd_last_write_wins:
  "value_of (run (bus.apply_update env) ws s) k =
     (case List.find (\<lambda>w. update_key w = k) (rev ws) of Some w \<Rightarrow> update_value w | None \<Rightarrow> value_of s k)"
  by (rule bus.last_update_wins) (simp add: list_all_iff)

section \<open>Persistence across restarts\<close>

text \<open>What the store promises of the state file: when nothing is dirty, it holds the persisted keys.\<close>

definition file_current :: "sysd \<Rightarrow> bool" where
  "file_current s \<longleftrightarrow> sd_dirty s \<or> load_state (sd_file s) = load_state (sd_state s)"

lemma load_state_idem [simp]: "load_state (load_state d) = load_state d"
  by (simp add: load_state_def)

lemma load_state_set_other: "\<not> persisted k \<Longrightarrow> load_state (dict_set k v d) = load_state d"
  by (induction k v d rule: dict_set.induct) (auto simp: load_state_def)

lemma load_state_del: "\<not> persisted k \<Longrightarrow> load_state (dict_del k d) = load_state d"
  by (induction d) (auto simp: load_state_def dict_del_def)

lemma dict_del_absent: "map_of d k = None \<Longrightarrow> dict_del k d = d"
  by (induction d) (auto simp: dict_del_def split: if_splits)

lemma snapshot_current: "writable env \<Longrightarrow> file_current s \<Longrightarrow> file_current (snapshot env f s)"
  by (auto simp: snapshot_def file_current_def Let_def load_state_def)

lemma set_key_current: "writable env \<Longrightarrow> file_current s \<Longrightarrow> file_current (after_set env k v s)"
proof -
  assume w: "writable env" and c: "file_current s"
  obtain raised es where n: "notify env k v (if py_eq (old_value s k) v then [] else sd_subs s) = (raised, es)" by fastforce
  let ?s2 = "s\<lparr>sd_state := dict_set k (v, now env) (sd_state s), sd_sets := sd_sets s + 1,
    sd_dirty := sd_dirty s \<or> persisted k, sd_events := sd_events s + length es\<rparr>"
  have "file_current ?s2" using c by (cases "persisted k") (simp_all add: file_current_def load_state_set_other)
  moreover have "after_set env k v s = (if raised then ?s2 else snapshot env False ?s2)"
    by (simp add: set_key_def n)
  ultimately show ?thesis using w snapshot_current by simp
qed

lemma delete_key_current:
  assumes "writable env" "file_current s"
  shows "file_current (after_del env k s)"
proof -
  let ?s1 = "s\<lparr>sd_state := dict_del k (sd_state s), sd_dirty := sd_dirty s \<or> map_of (sd_state s) k \<noteq> None \<and> persisted k\<rparr>"
  have "file_current ?s1" using assms(2)
    by (cases "persisted k"; cases "map_of (sd_state s) k") (simp_all add: file_current_def load_state_del dict_del_absent)
  moreover have "after_del env k s = snapshot env False ?s1" by (simp add: delete_key_def Let_def)
  ultimately show ?thesis using assms(1) snapshot_current by simp
qed

lemma other_current [simp]:
  "file_current (s\<lparr>sd_gets := n\<rparr>) = file_current s" "file_current (s\<lparr>sd_subs := l\<rparr>) = file_current s"
  "file_current (s\<lparr>sd_hb := h\<rparr>) = file_current s"
  by (simp_all add: file_current_def)

text \<open>A request does one of the store's operations; only a subscription asks for a later unsubscription.\<close>

definition outcome :: "(bool \<Rightarrow> sysd \<Rightarrow> bool) \<Rightarrow> (json \<times> bool) res \<times> event list \<times> sysd \<Rightarrow> bool" where
  "outcome Q = (\<lambda>(r, es, s). case r of Inl e \<Rightarrow> Q False s | Inr (resp, sub) \<Rightarrow> Q sub s)"

lemma outcome_Pair [simp]: 
  "outcome Q (Inl e, es, s) = Q False s" "outcome Q (Inr (resp, sub), es, s) = Q sub s"
  by (simp_all add: outcome_def)

lemma outcome_rbind: "Q False s \<Longrightarrow> outcome Q (rbind r (\<lambda>x. Inr (f x, False)), es, s)"
  by (cases r) simp_all

lemma outcome_if: "outcome Q x \<Longrightarrow> outcome Q y \<Longrightarrow> outcome Q (if b then x else y)"
  by simp

lemma handle_req_cases:
  assumes "Q False s" "\<And>k v. Q False (after_set env k v s)" "\<And>k. Q False (after_del env k s)"
    "Q False (snapshot env False s)" "Q False (s\<lparr>sd_gets := sd_gets s + 1\<rparr>)" "\<And>p. Q True (subscribe p me s)"
    "Q False (unsubscribe me s)" "\<And>n. Q False (heartbeat env n s)"
  shows "outcome Q (handle_req env me req s)"
proof -
  have set: "Q False s'" if "set_op env key v s = (r, es, s')" for key v r es s'
    using that assms(1) assms(2) [of "the (as_str key)" v]
    by (simp add: set_op_def split: option.splits json.splits prod.splits if_splits)
  have del: "Q False s'" if "delete_key env k s = (e, s')" for k e s'
    using assms(3) [of k] that by simp
  note leaf = assms(1,4-8)
  show ?thesis
    unfolding handle_req_def Let_def get_op_def
    apply (intro outcome_if)
    subgoal by (simp add: leaf)
    subgoal by (auto split: prod.splits dest: set intro!: outcome_rbind)
    subgoal using leaf(3) by (simp add: outcome_rbind)
    subgoal by (auto simp: leaf split: prod.splits json.splits dest: del)
    apply (simp_all add: leaf outcome_rbind split: json.splits)
    done
qed

text \<open>The requests of any connections, one after the other, each with its own clock and callback.\<close>

definition serve :: "sysd_env \<times> callback \<times> (string \<times> json) list \<Rightarrow> sysd \<Rightarrow> sysd" where
  "serve = (\<lambda>(env, me, req) s. snd (snd (handle_req env me req s)))"

lemma serve_current:
  assumes "writable (fst i)" "file_current s"
  shows "file_current (serve i s)"
proof -
  obtain env me req where i: "i = (env, me, req)" by (metis prod_cases3)
  have "outcome (\<lambda>_. file_current) (handle_req env me req s)"
    using assms i by (intro handle_req_cases)
      (simp_all add: subscribe_def unsubscribe_def heartbeat_def set_key_current delete_key_current snapshot_current)
  then show ?thesis by (simp add: i serve_def outcome_def split: prod.splits sum.splits)
qed

lemma run_current: "list_all (\<lambda>i. writable (fst i)) is \<Longrightarrow> file_current s \<Longrightarrow> file_current (run serve is s)"
  by (induction "is" arbitrary: s) (auto intro: serve_current)

definition str_subs :: "sysd \<Rightarrow> bool" where
  "str_subs s = list_all (\<lambda>(p, _). is_str p) (sd_subs s)"

lemma notify_str: "list_all (\<lambda>(p, _). is_str p) subs \<Longrightarrow> \<not> fst (notify env k v subs)"
  by (induction subs) (auto split: json.splits prod.splits)

lemma set_key_returns: "str_subs s \<Longrightarrow> \<not> fst (set_key env k v s)"
  using notify_str [of "sd_subs s" env k v] by (auto simp: set_key_def str_subs_def Let_def split: prod.splits)

lemma new_store_current: "file_current (new_store t vs file)"
  by (simp add: file_current_def new_store_def)

lemma stop_file:
  assumes "str_subs s" "writable env"
  shows "sd_file (stop env s) = load_state (sd_state s)"
proof -
  obtain es s' where s: "set_key env ''sw.sysd.state'' (JStr ''stopping'') s = (False, es, s')"
    using set_key_returns [OF assms(1), of env "''sw.sysd.state''" "JStr ''stopping''"]
    by (cases "set_key env ''sw.sysd.state'' (JStr ''stopping'') s") auto
  then have "sd_state s' = dict_set ''sw.sysd.state'' (JStr ''stopping'', now env) (sd_state s)"
    using set_key_keeps(1) [of env "''sw.sysd.state''" "JStr ''stopping''" s] by simp
  moreover have "\<not> persisted ''sw.sysd.state''" by (simp add: persisted_def root_def PERSISTED_ROOTS_def)
  ultimately show ?thesis
    using s assms(2) load_state_set_other [of "''sw.sysd.state''"] by (simp add: stop_def snapshot_def Let_def load_state_def)
qed

text \<open>
  A restart keeps the configuration and nothing else. After any requests during which the
  state file could be written, a crash while nothing is marked dirty, and an orderly stop in any
  case (every subscribed prefix being a string), leave a file from which a new store starts with
  exactly the keys under \<^verbatim>\<open>cfg\<close>, in the same order with their values and times; no
  runtime fact survives.
\<close>

theorem sysd_restart_keeps_config:
  assumes "list_all (\<lambda>i. writable (fst i)) is" "s = run serve is (new_store t0 vs0 file)"
    "crash \<longrightarrow> \<not> sd_dirty s" "\<not> crash \<longrightarrow> str_subs s \<and> writable env"
  shows "sd_state (new_store t vs (sd_file (if crash then s else stop env s))) = filter (\<lambda>(k, _). root k = ''cfg'') (sd_state s)"
proof -
  have p: "load_state = filter (\<lambda>(k, _). root k = ''cfg'')"
    by (rule ext) (simp add: load_state_def persisted_def PERSISTED_ROOTS_def)
  have c: "file_current s" using assms(1,2) run_current new_store_current by blast
  have "load_state (sd_file (if crash then s else stop env s)) = load_state (sd_state s)"
    using c assms(3,4) by (cases crash) (simp_all add: file_current_def stop_file)
  then show ?thesis by (simp add: new_store_def p)
qed

section \<open>Subscriptions\<close>

definition holds_sub :: "callback \<Rightarrow> sysd \<Rightarrow> bool" where
  "holds_sub me s = list_ex (\<lambda>(_, cb). cb = me) (sd_subs s)"

abbreviation subs_of :: "callback \<Rightarrow> sysd \<Rightarrow> (json \<times> callback) list" where
  "subs_of c s \<equiv> filter (\<lambda>(_, cb). cb = c) (sd_subs s)"

lemma handle_req_own: "outcome (\<lambda>sub s'. holds_sub me s' \<longrightarrow> holds_sub me s \<or> sub) (handle_req env me req s)"
  by (intro handle_req_cases) (auto simp: holds_sub_def subscribe_def unsubscribe_def heartbeat_def list_ex_iff)

lemma subs_of_unsubscribe: "c \<noteq> me \<Longrightarrow> subs_of c (unsubscribe me s) = subs_of c s"
  by (auto simp: unsubscribe_def intro!: filter_cong)

lemma handle_req_other: "c \<noteq> me \<Longrightarrow> outcome (\<lambda>_ s'. subs_of c s' = subs_of c s) (handle_req env me req s)"
  by (intro handle_req_cases) (simp_all add: subs_of_unsubscribe, simp_all add: subscribe_def heartbeat_def)

lemma client_lines_own:
  "(holds_sub me s \<longrightarrow> subbed) \<Longrightarrow> client_lines env me ls subbed s = (b, s') \<Longrightarrow> holds_sub me s' \<Longrightarrow> b"
proof (induction env me ls subbed s rule: client_lines.induct)
  case (3 env me req ls subbed s)
  obtain r es s1 where h: "handle_req env me req s = (r, es, s1)" by (metis prod_cases3)
  show ?case using 3 h handle_req_own [of me s env req] by (cases r) auto
qed auto

lemma client_lines_other:
  "c \<noteq> me \<Longrightarrow> client_lines env me ls subbed s = (b, s') \<Longrightarrow> subs_of c s' = subs_of c s"
proof (induction env me ls subbed s rule: client_lines.induct)
  case (3 env me req ls subbed s)
  obtain r es s1 where h: "handle_req env me req s = (r, es, s1)" by (metis prod_cases3)
  show ?case using 3 h handle_req_other [of c me s env req] by (cases r) auto
qed auto

text \<open>
  A connection leaves nothing behind: whatever lines a client sends and however its
  connection ends (bad JSON, an exception, end of input), no subscription of it remains, and
  the subscriptions of every other connection are as they were, in the same order.
\<close>

theorem sysd_client_unsubscribed:
  assumes "\<not> holds_sub me s" "c \<noteq> me"
  shows "\<not> holds_sub me (client env me ls s) \<and> subs_of c (client env me ls s) = subs_of c s"
proof -
  obtain b s' where l: "client_lines env me ls False s = (b, s')" by fastforce
  have "\<not> holds_sub me (unsubscribe me s')" by (auto simp: holds_sub_def unsubscribe_def list_ex_iff)
  then show ?thesis
    using client_lines_own [OF _ l] client_lines_other [OF assms(2) l] assms l subs_of_unsubscribe [OF assms(2)]
    by (cases b) (auto simp: client_def)
qed

text \<open>
  What the server does between requests: \<^verbatim>\<open>serve_forever\<close> asks for a snapshot at every timeout of its
  \<^verbatim>\<open>accept\<close>, and a connection that ends gives up its subscriptions.
\<close>

datatype bus_event = Request sysd_env callback "(string \<times> json) list" | Accept_timeout sysd_env | Hangup callback

fun bus_step :: "bus_event \<Rightarrow> sysd \<Rightarrow> sysd" where
  "bus_step (Request env cb req) s = serve (env, cb, req) s"
| "bus_step (Accept_timeout env) s = snapshot env False s"
| "bus_step (Hangup cb) s = unsubscribe cb s"

fun foreign :: "callback \<Rightarrow> bus_event \<Rightarrow> bool" where
  "foreign me (Request env cb req) = (cb \<noteq> me)"
| "foreign me (Accept_timeout env) = True"
| "foreign me (Hangup cb) = (cb \<noteq> me)"

lemma bus_step_subs: "foreign me e \<Longrightarrow> subs_of me (bus_step e s) = subs_of me s"
proof (cases e)
  case (Request env cb req)
  assume "foreign me e"
  then show ?thesis using handle_req_other [of me cb s env req] by (auto simp: Request serve_def outcome_def split: prod.splits sum.splits)
qed (auto simp: subs_of_unsubscribe)

lemma bus_run_subs: "list_all (foreign me) evs \<Longrightarrow> subs_of me (run bus_step evs s) = subs_of me s"
  by (induction evs arbitrary: s) (auto simp: bus_step_subs)

lemma notify_raises: "(p, cb) \<in> set subs \<Longrightarrow> \<not> is_str p \<Longrightarrow> fst (notify env k v subs)"
proof (induction subs)
  case (Cons x subs)
  then show ?case by (cases x) (auto split: json.splits prod.splits)
qed simp

lemma set_key_raises:
  assumes "(p, cb) \<in> set (sd_subs s)" "\<not> is_str p" "\<not> py_eq (old_value s k) v"
  shows "fst (set_key env k v s) \<and> sd_file (after_set env k v s) = sd_file s \<and> sd_last_snapshot (after_set env k v s) = sd_last_snapshot s
    \<and> (persisted k \<longrightarrow> sd_dirty (after_set env k v s))"
  using notify_raises [OF assms(1,2), of env k v] assms(3) by (auto simp: set_key_def Let_def split: prod.splits)

lemma map_of_persisted: "persisted k \<Longrightarrow> map_of (filter (\<lambda>(k, _). persisted k) d) k = map_of d k"
  by (induction d) auto

text \<open>
  (C33) One bad subscription breaks the sets of everyone: once a client has subscribed a prefix that is
  not a string, then after any requests and hangups of other connections and any timeouts of the
  server, every set that changes a value raises instead of answering, after storing the value and without
  writing the state file; and an orderly stop raises too and skips its forced write. The value reaches
  the file only later, with a snapshot that a timeout (or a delete, or a set that changes nothing)
  takes when the pause between two writes has passed.
\<close>

theorem sysd_bad_prefix_blocks_sets:
  assumes "\<not> is_str p" "list_all (foreign me) evs" "t = run bus_step evs (subscribe p me s)"
  shows "(\<not> py_eq (old_value t k) v \<longrightarrow>
      fst (set_key env k v t) \<and> value_of (after_set env k v t) k = Some v \<and> sd_file (after_set env k v t) = sd_file t
      \<and> (persisted k \<and> writable env' \<and> sd_last_snapshot t + 2 \<le> now env' \<longrightarrow>
          map_of (sd_file (bus_step (Accept_timeout env') (after_set env k v t))) k = Some (v, now env)))
    \<and> (\<not> py_eq (old_value t ''sw.sysd.state'') (JStr ''stopping'') \<longrightarrow> sd_file (stop env t) = sd_file t)"
proof -
  have "(p, me) \<in> set (subs_of me (subscribe p me s))" by (simp add: subscribe_def)
  then have m: "(p, me) \<in> set (sd_subs t)" using bus_run_subs [OF assms(2), of "subscribe p me s"] assms(3) by (metis filter_is_subset subsetD)
  note r = set_key_raises [OF m assms(1)]
  have "map_of (sd_file (bus_step (Accept_timeout env') (after_set env k v t))) k = Some (v, now env)"
    if "\<not> py_eq (old_value t k) v" "persisted k" "writable env'" "sd_last_snapshot t + 2 \<le> now env'"
    using r [OF that(1), of env] that(2-4) by (simp add: snapshot_def Let_def SNAPSHOT_DEBOUNCE_SEC_def map_of_persisted)
  moreover have "sd_file (stop env t) = sd_file t" if "\<not> py_eq (old_value t ''sw.sysd.state'') (JStr ''stopping'')"
    using r [OF that, of env] by (auto simp: stop_def split: prod.splits)
  moreover have "value_of (after_set env k v t) k = Some v" by (simp add: value_of_def)
  ultimately show ?thesis using r by blast
qed

section \<open>Instances\<close>

definition sample_env :: sysd_env where
  "sample_env = \<lparr>now = 100, delivers = (\<lambda>_. True), writable = True, py_str = (\<lambda>_. [])\<rparr>"

definition sample_store :: sysd where "sample_store = new_store 90 [] []"

definition sample_set :: "string \<Rightarrow> int \<Rightarrow> (string \<times> json) list" where
  "sample_set k n = [(''op'', JStr ''set''), (''key'', JStr k), (''value'', JInt n)]"

lemmas sample_simps = sample_env_def sample_store_def new_store_def load_state_def set_key_def old_value_def snapshot_def
  SNAPSHOT_DEBOUNCE_SEC_def persisted_def root_def PERSISTED_ROOTS_def VALID_ROOTS_def

lemma sample_run:
  "serve (sample_env, 7, sample_set ''cfg.a'' 1) sample_store
     = sample_store\<lparr>sd_state := [(''cfg.a'', JInt 1, 100)], sd_sets := 1, sd_last_snapshot := 100, sd_file := [(''cfg.a'', JInt 1, 100)]\<rparr>"
  by (simp add: serve_def handle_req_def sample_set_def jget_def set_op_def check_key_def sample_simps)

lemma sysd_restart_keeps_config_witness:
  "sd_state (new_store 200 [] (sd_file (stop sample_env (run serve [(sample_env, 7, sample_set ''cfg.a'' 1)] sample_store))))
     = [(''cfg.a'', JInt 1, 100)]"
  using sysd_restart_keeps_config [of "[(sample_env, 7, sample_set ''cfg.a'' 1)]"
      "run serve [(sample_env, 7, sample_set ''cfg.a'' 1)] sample_store" 90 "[]" "[]" False sample_env 200 "[]",
      folded sample_store_def]
  by (simp add: sample_run, simp add: sample_simps str_subs_def)

lemma sysd_client_unsubscribed_witness:
  "\<not> holds_sub 7 (client sample_env 7 [Some (JObj [(''op'', JStr ''sub'')]), None] sample_store)
    \<and> subs_of 8 (client sample_env 7 [Some (JObj [(''op'', JStr ''sub'')]), None] sample_store) = []"
  using sysd_client_unsubscribed [of 7 sample_store 8 sample_env "[Some (JObj [(''op'', JStr ''sub'')]), None]"]
  by (simp add: holds_sub_def sample_store_def new_store_def)

lemma sysd_bad_prefix_blocks_sets_witness:
  "let t = run bus_step [Hangup 3, Accept_timeout sample_env, Hangup 8] (subscribe JNull 7 sample_store)
   in \<not> py_eq (old_value t ''cfg.a'') (JInt 1) \<and> fst (set_key sample_env ''cfg.a'' (JInt 1) t)"
proof -
  let ?t = "run bus_step [Hangup 3, Accept_timeout sample_env, Hangup 8] (subscribe JNull 7 sample_store)"
  have "\<not> py_eq (old_value ?t ''cfg.a'') (JInt 1)"
    by (simp add: old_value_def subscribe_def unsubscribe_def) (simp add: sample_store_def new_store_def load_state_def)
  moreover have "list_all (foreign 7) [Hangup 3, Accept_timeout sample_env, Hangup 8]" by simp
  ultimately show ?thesis using sysd_bad_prefix_blocks_sets [OF _ _ refl, of JNull 7 "[Hangup 3, Accept_timeout sample_env, Hangup 8]" sample_store "''cfg.a''" "JInt 1" sample_env sample_env]
    unfolding Let_def by simp
qed

end
