(* ===== verification/Aho_Corasick.thy ===== *)
theory Aho_Corasick
  imports Prelude
begin

text \<open>
  The class \<^verbatim>\<open>AhoCorasick\<close> of \<^verbatim>\<open>src/opt/inline_payload_det.py\<close>, which the inline
  detector and the DPI emulator share: the trie of patterns, the breadth-first computation of
  failure links and merged outputs, and the scan. The two loops whose end depends on the tables
  are partial functions, where not ending would be \<open>None\<close>. The theory shows that the automaton
  always is built and that the scan lists every occurrence of every pattern, once each, in order.
\<close>

section \<open>The automaton\<close>

record 't ac =
  goto :: "(byte, nat) odict list"
  fail :: "nat list"
  out :: "'t list list"
  built :: bool
  npat :: nat

definition new_ac :: "'t ac" where
  "new_ac = \<lparr>goto = [[]], fail = [0], out = [[]], built = False, npat = 0\<rparr>"

text \<open>The loop of \<^verbatim>\<open>add\<close>: follow or create the nodes of the pattern.\<close>

fun add_path :: "bytes \<Rightarrow> nat \<Rightarrow> 't ac \<Rightarrow> nat \<times> 't ac" where
  "add_path [] node a = (node, a)"
| "add_path (b # bs) node a =
     (case map_of (goto a ! node) b of
        Some nxt \<Rightarrow> add_path bs nxt a
      | None \<Rightarrow>
          (let nxt = length (goto a)
           in add_path bs nxt
                (a\<lparr>goto := (goto a @ [[]])[node := dict_set b nxt (goto a ! node)], fail := fail a @ [0], out := out a @ [[]]\<rparr>)))"

definition add :: "bytes \<Rightarrow> 't \<Rightarrow> 't ac \<Rightarrow> 't ac res" where
  "add pattern tag a =
     ok (\<not> built a) (RuntimeError ''cannot add patterns after build()'')
     (ok (pattern \<noteq> []) (ValueError ''empty pattern'')
       (let (node, a') = add_path pattern 0 a
        in Inr (a'\<lparr>out := (out a')[node := out a' ! node @ [tag]], npat := npat a' + 1\<rparr>)))"

text \<open>\<^verbatim>\<open>while f and b not in goto[f]: f = fail[f]\<close>\<close>

partial_function (option) follow :: "(byte, nat) odict list \<Rightarrow> nat list \<Rightarrow> byte \<Rightarrow> nat \<Rightarrow> nat option" where
  "follow G F b f = (if f \<noteq> 0 \<and> map_of (G ! f) b = None then follow G F b (F ! f) else Some f)"

definition get0 :: "(byte, nat) odict \<Rightarrow> byte \<Rightarrow> nat" where
  "get0 d b = (case map_of d b of Some m \<Rightarrow> m | None \<Rightarrow> 0)"

type_synonym 't links = "nat list \<times> nat list \<times> 't list list"

text \<open>One child \<open>nxt\<close> of \<open>cur\<close> under the byte \<open>b\<close>: enqueue it, set its link, merge outputs.\<close>

definition link_child :: "(byte, nat) odict list \<Rightarrow> nat \<Rightarrow> byte \<times> nat \<Rightarrow> 't links \<Rightarrow> 't links option" where
  "link_child G cur child st =
     (case (child, st) of ((b, nxt), (q, F, Os)) \<Rightarrow>
        (case follow G F b (F ! cur) of
           None \<Rightarrow> None
         | Some f \<Rightarrow>
             (let target = (if f \<noteq> 0 \<or> map_of (G ! 0) b \<noteq> None then get0 (G ! f) b else 0);
                  F' = F[nxt := target]
              in Some (q @ [nxt], F', Os[nxt := Os ! nxt @ Os ! (F' ! nxt)]))))"

fun link_children :: "(byte, nat) odict list \<Rightarrow> nat \<Rightarrow> (byte \<times> nat) list \<Rightarrow> 't links \<Rightarrow> 't links option" where
  "link_children G cur [] st = Some st"
| "link_children G cur (c # cs) st = Option.bind (link_child G cur c st) (link_children G cur cs)"

partial_function (option) bfs :: "(byte, nat) odict list \<Rightarrow> 't links \<Rightarrow> 't links option" where
  "bfs G st =
     (case st of
        ([], F, Os) \<Rightarrow> Some ([], F, Os)
      | (cur # q, F, Os) \<Rightarrow> Option.bind (link_children G cur (G ! cur) (q, F, Os)) (bfs G))"

definition build :: "'t ac \<Rightarrow> 't ac option" where
  "build a =
     (let firsts = map snd (goto a ! 0); F = fold (\<lambda>n F. F[n := 0]) firsts (fail a)
      in map_option (\<lambda>(q, F, Os). a\<lparr>fail := F, out := Os, built := True\<rparr>) (bfs (goto a) (firsts, F, out a)))"

fun scan :: "'t ac \<Rightarrow> nat \<Rightarrow> nat \<Rightarrow> bytes \<Rightarrow> (nat \<times> 't) list option" where
  "scan a i node [] = Some []"
| "scan a i node (b # data) =
     (case follow (goto a) (fail a) b node of
        None \<Rightarrow> None
      | Some f \<Rightarrow>
          (let n = get0 (goto a ! f) b
           in map_option (\<lambda>ms. map (\<lambda>t. (i, t)) (out a ! n) @ ms) (scan a (i + 1) n data)))"

definition iter_matches :: "'t ac \<Rightarrow> bytes \<Rightarrow> (nat \<times> 't) list option" where
  "iter_matches a data =
     (case (if built a then Some a else build a) of None \<Rightarrow> None | Some a' \<Rightarrow> scan a' 0 0 data)"

section \<open>Longest suffixes in a prefix-closed set\<close>

fun lsuf :: "'b list set \<Rightarrow> 'b list \<Rightarrow> 'b list" where
  "lsuf S [] = []"
| "lsuf S (x # xs) = (if x # xs \<in> S then x # xs else lsuf S xs)"

lemma lsuf_in: "[] \<in> S \<Longrightarrow> lsuf S w \<in> S"
  by (induction w) auto

lemma lsuf_self: "w \<in> S \<Longrightarrow> lsuf S w = w"
  by (cases w) auto

lemma length_lsuf: "length (lsuf S w) \<le> length w"
  by (induction w) auto

definition pclosed :: "'b list set \<Rightarrow> bool" where
  "pclosed S \<longleftrightarrow> [] \<in> S \<and> (\<forall>w b. w @ [b] \<in> S \<longrightarrow> w \<in> S)"

lemma pclosed_Nil [simp]: "pclosed S \<Longrightarrow> [] \<in> S"
  by (simp add: pclosed_def)

lemma lsuf_snoc: "pclosed S \<Longrightarrow> lsuf S (lsuf S w @ [b]) = lsuf S (w @ [b])"
proof (induction w)
  case (Cons x w)
  then have "x # w \<in> S" if "x # w @ [b] \<in> S" using that by (auto simp: pclosed_def) (metis append_Cons)
  then show ?case using Cons by auto
qed simp

text \<open>The tags of the patterns that are suffixes of a word, longest pattern first.\<close>

definition tags_of :: "(bytes \<times> 't) list \<Rightarrow> bytes \<Rightarrow> 't list" where
  "tags_of pats w = map snd (filter (\<lambda>(p, _). p = w) pats)"

fun all_tags :: "(bytes \<times> 't) list \<Rightarrow> bytes \<Rightarrow> 't list" where
  "all_tags pats [] = []"
| "all_tags pats (x # xs) = tags_of pats (x # xs) @ all_tags pats xs"

lemma all_tags_tl: "w \<noteq> [] \<Longrightarrow> all_tags pats w = tags_of pats w @ all_tags pats (tl w)"
  by (cases w) simp_all

lemma tags_of_Nil: "w \<notin> fst ` set pats \<Longrightarrow> tags_of pats w = []"
  by (force simp: tags_of_def filter_empty_conv)

lemma all_tags_lsuf: "fst ` set pats \<subseteq> S \<Longrightarrow> all_tags pats (lsuf S w) = all_tags pats w"
proof (induction w)
  case (Cons x w)
  show ?case
  proof (cases "x # w \<in> S")
    case False
    then have "x # w \<notin> fst ` set pats" using Cons.prems by blast
    then show ?thesis using False Cons by (simp add: tags_of_Nil)
  qed simp
qed simp

lemma set_all_tags: "t \<in> set (all_tags pats w) \<longleftrightarrow> (\<exists>p. (p, t) \<in> set pats \<and> p \<noteq> [] \<and> (\<exists>u. w = u @ p))"
proof (induction w)
  case (Cons x w)
  have "(\<exists>u. x # w = u @ p) \<longleftrightarrow> p = x # w \<or> (\<exists>u. w = u @ p)" for p
    by (metis append_Cons append_Nil list.exhaust list.inject)
  then show ?case using Cons by (auto simp: tags_of_def image_iff)
qed auto

section \<open>The trie\<close>

text \<open>
  \<open>trie G ws\<close>: the nodes of the table spell the distinct words \<open>ws\<close>, the root the empty one;
  an edge appends its byte, and every word's last byte is an edge.
\<close>

definition trie :: "(byte, nat) odict list \<Rightarrow> bytes list \<Rightarrow> bool" where
  "trie G ws \<longleftrightarrow> length ws = length G \<and> ws \<noteq> [] \<and> ws ! 0 = [] \<and> distinct ws
    \<and> (\<forall>n < length G. distinct (map fst (G ! n)) \<and> (\<forall>b m. map_of (G ! n) b = Some m \<longrightarrow> m < length G \<and> ws ! m = ws ! n @ [b]))
    \<and> (\<forall>m < length G. \<forall>w b. ws ! m = w @ [b] \<longrightarrow> (\<exists>n < length G. ws ! n = w \<and> map_of (G ! n) b = Some m))"

lemma trie_edge: "trie G ws \<Longrightarrow> n < length G \<Longrightarrow> map_of (G ! n) b = Some m \<Longrightarrow> m < length G \<and> ws ! m = ws ! n @ [b]"
  by (simp add: trie_def)

lemma trie_inj: "trie G ws \<Longrightarrow> n < length G \<Longrightarrow> m < length G \<Longrightarrow> ws ! n = ws ! m \<Longrightarrow> n = m"
  by (auto simp: trie_def nth_eq_iff_index_eq)

lemma trie_edge_iff:
  assumes "trie G ws" "n < length G" "m < length G"
  shows "map_of (G ! n) b = Some m \<longleftrightarrow> ws ! m = ws ! n @ [b]"
proof
  assume "ws ! m = ws ! n @ [b]"
  then obtain n' where "n' < length G" "ws ! n' = ws ! n" "map_of (G ! n') b = Some m"
    using assms(1,3) unfolding trie_def by blast
  then show "map_of (G ! n) b = Some m" using trie_inj [OF assms(1)] assms(2) by metis
qed (use trie_edge [OF assms(1,2)] in blast)

lemma trie_no_edge:
  assumes "trie G ws" "n < length G"
  shows "map_of (G ! n) b = None \<longleftrightarrow> ws ! n @ [b] \<notin> set ws"
proof -
  have "ws ! n @ [b] \<in> set ws \<longleftrightarrow> (\<exists>m < length G. ws ! m = ws ! n @ [b])"
    using assms(1) by (auto simp: trie_def in_set_conv_nth)
  then show ?thesis using trie_edge_iff [OF assms] trie_edge [OF assms] by (metis not_None_eq option.distinct(1))
qed

lemma trie_root: "trie G ws \<Longrightarrow> 0 < length G \<and> ws ! 0 = []"
  by (auto simp: trie_def)

lemma trie_root_iff: "trie G ws \<Longrightarrow> n < length G \<Longrightarrow> ws ! n = [] \<longleftrightarrow> n = 0"
  using trie_inj [of G ws n 0] trie_root by metis

lemma trie_in: "trie G ws \<Longrightarrow> n < length G \<Longrightarrow> ws ! n \<in> set ws"
  by (simp add: trie_def)

lemma trie_pclosed: "trie G ws \<Longrightarrow> pclosed (set ws)"
proof -
  assume t: "trie G ws"
  have "w \<in> set ws" if w: "w @ [b] \<in> set ws" for w b
  proof -
    obtain m where "m < length ws" "ws ! m = w @ [b]" using w by (auto simp: in_set_conv_nth)
    then obtain n where "n < length ws" "ws ! n = w" using t unfolding trie_def by metis
    then show ?thesis by auto
  qed
  moreover have "[] \<in> set ws" using t by (metis trie_root trie_in)
  ultimately show ?thesis by (auto simp: pclosed_def)
qed

lemma trie_new: "trie [[]] [[]]"
  by (simp add: trie_def)

lemma trie_extend:
  assumes t: "trie G ws" and n: "n < length G" and b: "map_of (G ! n) b = None"
  shows "trie ((G @ [[]])[n := dict_set b (length G) (G ! n)]) (ws @ [ws ! n @ [b]])" (is "trie ?G ?ws")
proof -
  have l: "length ws = length G" using t by (simp add: trie_def)
  have new: "ws ! n @ [b] \<notin> set ws" using trie_no_edge [OF t n] b by simp
  have G: "?G ! k = (if k = n then dict_set b (length G) (G ! n) else if k < length G then G ! k else [])"
    if "k < length ?G" for k using that n by (auto simp: nth_list_update nth_append)
  have ws: "?ws ! k = (if k < length G then ws ! k else ws ! n @ [b])" if "k < length ?G" for k
    using that l by (auto simp: nth_append)
  have e1: "distinct (map fst (?G ! k)) \<and> (\<forall>c m. map_of (?G ! k) c = Some m \<longrightarrow> m < length ?G \<and> ?ws ! m = ?ws ! k @ [c])"
    if k: "k < length ?G" for k
  proof (cases "k < length G")
    case True
    then have d: "distinct (map fst (G ! k))" using t by (simp add: trie_def)
    show ?thesis
      using True n d trie_edge [OF t True] G [OF k] l
      by (auto simp: nth_append distinct_dict_set less_Suc_eq split: if_splits)
  qed (use G [OF k] n in simp)
  have e2: "\<exists>k < length ?G. ?ws ! k = w \<and> map_of (?G ! k) c = Some m"
    if m: "m < length ?G" and w: "?ws ! m = w @ [c]" for m w c
  proof (cases "m < length G")
    case True
    then obtain k where k: "k < length G" "ws ! k = w" "map_of (G ! k) c = Some m"
      using t w l unfolding trie_def by (metis nth_append)
    then have "map_of (?G ! k) c = Some m" using b G [of k] by auto
    moreover have "?ws ! k = w" "k < length ?G" using k l by (auto simp: nth_append)
    ultimately show ?thesis by blast
  next
    case False
    then have "m = length G" "w = ws ! n" "c = b" using m w ws [OF m] by auto
    then show ?thesis using n l G [of n] by (intro exI [of _ n]) (auto simp: nth_append)
  qed
  show ?thesis
    using e1 e2 new t l unfolding trie_def by (auto simp: nth_append)
qed

text \<open>What \<^verbatim>\<open>add\<close> keeps: the words are the prefixes of the patterns, outputs are the own tags.\<close>

definition ac_inv :: "(bytes \<times> 't) list \<Rightarrow> bytes list \<Rightarrow> 't ac \<Rightarrow> bool" where
  "ac_inv pats ws a \<longleftrightarrow> trie (goto a) ws \<and> \<not> built a \<and> npat a = length pats
    \<and> fail a = replicate (length (goto a)) 0 \<and> out a = map (tags_of pats) ws
    \<and> fst ` set pats \<subseteq> set ws \<and> [] \<notin> fst ` set pats"

lemma new_ac_inv: "ac_inv [] [[]] new_ac"
  by (simp add: ac_inv_def new_ac_def trie_new tags_of_def)

lemma add_path_inv:
  "ac_inv pats ws a \<Longrightarrow> n < length (goto a) \<Longrightarrow> add_path bs n a = (n', a') \<Longrightarrow>
     \<exists>ws'. ac_inv pats ws' a' \<and> n' < length (goto a') \<and> ws' ! n' = ws ! n @ bs"
proof (induction bs arbitrary: ws n a)
  case Nil
  then show ?case by (intro exI [of _ ws]) simp
next
  case (Cons b bs)
  note t = Cons.prems(1) [unfolded ac_inv_def]
  show ?case
  proof (cases "map_of (goto a ! n) b")
    case (Some nxt)
    then have "nxt < length (goto a)" "ws ! nxt = ws ! n @ [b]" using t Cons.prems(2) trie_edge [of "goto a" ws n b nxt] by simp_all
    then show ?thesis using Cons.IH [OF Cons.prems(1), of nxt] Cons.prems(3) Some by simp
  next
    case None
    define a1 where "a1 = a\<lparr>goto := (goto a @ [[]])[n := dict_set b (length (goto a)) (goto a ! n)], fail := fail a @ [0], out := out a @ [[]]\<rparr>"
    let ?ws = "ws @ [ws ! n @ [b]]"
    have "trie (goto a1) ?ws" using trie_extend [of "goto a" ws n b] t Cons.prems(2) None by (simp add: a1_def)
    moreover have "tags_of pats (ws ! n @ [b]) = []"
      using t None Cons.prems(2) trie_no_edge [of "goto a" ws n b] by (intro tags_of_Nil) auto
    ultimately have i: "ac_inv pats ?ws a1"
      using t by (simp add: ac_inv_def a1_def replicate_append_same subset_insertI2)
    have w: "?ws ! length (goto a) = ws ! n @ [b]" using t by (simp add: trie_def nth_append)
    have "add_path bs (length (goto a)) a1 = (n', a')"
      using Cons.prems(3) None by (simp add: a1_def Let_def)
    then show ?thesis using Cons.IH [OF i, of "length (goto a)"] w by (simp add: a1_def)
  qed
qed

lemma add_inv:
  assumes "ac_inv pats ws a" "pat \<noteq> []"
  shows "\<exists>ws' a'. add pat tag a = Inr a' \<and> ac_inv (pats @ [(pat, tag)]) ws' a'"
proof -
  have t: "trie (goto a) ws" using assms by (simp add: ac_inv_def)
  obtain n a1 where p: "add_path pat 0 a = (n, a1)" by fastforce
  obtain ws1 where w: "ac_inv pats ws1 a1" "n < length (goto a1)" "ws1 ! n = pat"
    using add_path_inv [OF assms(1) _ p] trie_root [OF t] by auto
  have d: "distinct ws1" "length ws1 = length (goto a1)" using w(1) by (auto simp: ac_inv_def trie_def)
  have "(out a1)[n := out a1 ! n @ [tag]] = map (tags_of (pats @ [(pat, tag)])) ws1"
  proof (rule nth_equalityI)
    fix i assume "i < length ((out a1)[n := out a1 ! n @ [tag]])"
    then have i: "i < length ws1" using w(1) by (simp add: ac_inv_def)
    then have "ws1 ! i = pat \<longleftrightarrow> i = n" using d w(2,3) nth_eq_iff_index_eq by metis
    then show "(out a1)[n := out a1 ! n @ [tag]] ! i = map (tags_of (pats @ [(pat, tag)])) ws1 ! i"
      using w i d(2) by (auto simp: ac_inv_def nth_list_update tags_of_def)
  qed (use w(1) in \<open>simp add: ac_inv_def\<close>)
  moreover have "pat \<in> set ws1" using w(2,3) d(2) by auto
  ultimately have "ac_inv (pats @ [(pat, tag)]) ws1 (a1\<lparr>out := (out a1)[n := out a1 ! n @ [tag]], npat := npat a1 + 1\<rparr>)"
    using w(1) assms(2) by (auto simp: ac_inv_def)
  moreover have "\<not> built a" using assms by (simp add: ac_inv_def)
  ultimately show ?thesis using p assms(2) by (auto simp: add_def)
qed

section \<open>Failure links\<close>

text \<open>The link of a node leads to its longest proper suffix among the words.\<close>

definition good_fail :: "(byte, nat) odict list \<Rightarrow> bytes list \<Rightarrow> nat list \<Rightarrow> nat \<Rightarrow> bool" where
  "good_fail G ws F m \<longleftrightarrow> F ! m < length G \<and> ws ! (F ! m) = lsuf (set ws) (tl (ws ! m))"

lemma get0_edge:
  assumes "trie G ws" "f < length G"
  shows "get0 (G ! f) b < length G \<and> ws ! get0 (G ! f) b = (if ws ! f @ [b] \<in> set ws then ws ! f @ [b] else [])"
proof (cases "map_of (G ! f) b")
  case None
  then have "ws ! f @ [b] \<notin> set ws" using trie_no_edge [OF assms] by simp
  then show ?thesis using None trie_root [OF assms(1)] by (simp add: get0_def)
next
  case (Some m)
  then show ?thesis using trie_edge [OF assms Some] trie_in [OF assms(1), of m] by (simp add: get0_def)
qed

lemma lsuf_step:
  assumes "pclosed S" "w \<noteq> []" "w @ [b] \<notin> S"
  shows "lsuf S (w @ [b]) = lsuf S (lsuf S (tl w) @ [b])"
proof (cases w)
  case (Cons x xs)
  then show ?thesis using assms lsuf_snoc [OF assms(1), of xs b] by simp
qed (use assms in simp)

lemma follow_ok:
  assumes "trie G ws" "f < length G"
    and "\<And>m. m < length G \<Longrightarrow> m \<noteq> 0 \<Longrightarrow> length (ws ! m) \<le> length (ws ! f) \<Longrightarrow> good_fail G ws F m"
  shows "\<exists>g. follow G F b f = Some g \<and> g < length G \<and> ws ! get0 (G ! g) b = lsuf (set ws) (ws ! f @ [b])"
  using assms(2,3)
proof (induction "length (ws ! f)" arbitrary: f rule: less_induct)
  case less
  note t = assms(1)
  show ?case
  proof (cases "f \<noteq> 0 \<and> map_of (G ! f) b = None")
    case False
    then have "follow G F b f = Some f" by (subst follow.simps) auto
    moreover have "lsuf (set ws) (ws ! f @ [b]) = (if ws ! f @ [b] \<in> set ws then ws ! f @ [b] else [])"
      using False trie_no_edge [OF t less.prems(1), of b] trie_root [OF t] lsuf_self by (cases "f = 0") auto
    ultimately show ?thesis using get0_edge [OF t less.prems(1), of b] less.prems(1) by auto
  next
    case True
    have g: "good_fail G ws F f" using less.prems True by blast
    have w: "ws ! f \<noteq> []" using trie_root_iff [OF t less.prems(1)] True by simp
    have "length (ws ! (F ! f)) < length (ws ! f)"
      using g w length_lsuf [of "set ws" "tl (ws ! f)"] by (simp add: good_fail_def) (cases "ws ! f", auto)
    then obtain r where "follow G F b (F ! f) = Some r" "r < length G"
      "ws ! get0 (G ! r) b = lsuf (set ws) (ws ! (F ! f) @ [b])"
      using less.hyps [of "F ! f"] less.prems(2) g by (auto simp: good_fail_def)
    moreover have "lsuf (set ws) (ws ! f @ [b]) = lsuf (set ws) (ws ! (F ! f) @ [b])"
      using lsuf_step [OF trie_pclosed [OF t] w] trie_no_edge [OF t less.prems(1)] True g by (simp add: good_fail_def)
    ultimately show ?thesis using True by (subst follow.simps) auto
  qed
qed

text \<open>Up to a depth, links and outputs are final.\<close>

definition final_upto :: "(bytes \<times> 't) list \<Rightarrow> (byte, nat) odict list \<Rightarrow> bytes list \<Rightarrow> nat \<Rightarrow> nat list \<Rightarrow> 't list list \<Rightarrow> bool" where
  "final_upto pats G ws d F Os \<longleftrightarrow> (\<forall>m < length G. length (ws ! m) \<le> d \<longrightarrow>
     (m \<noteq> 0 \<longrightarrow> good_fail G ws F m) \<and> Os ! m = all_tags pats (ws ! m))"

lemma link_child_ok:
  assumes t: "trie G ws" and pats: "fst ` set pats \<subseteq> set ws"
    and cur: "cur < length G" "cur \<noteq> 0" and fin: "final_upto pats G ws (length (ws ! cur)) F Os"
    and m: "m < length G" "ws ! m = ws ! cur @ [b]" "Os ! m = tags_of pats (ws ! m)"
    and len: "length F = length G" "length Os = length G"
  shows "\<exists>target. link_child G cur (b, m) (q, F, Os) = Some (q @ [m], F[m := target], Os[m := all_tags pats (ws ! m)])
    \<and> target < length G \<and> ws ! target = lsuf (set ws) (tl (ws ! m))"
proof -
  have c: "good_fail G ws F cur" using fin cur by (simp add: final_upto_def)
  have cne: "ws ! cur \<noteq> []" using trie_root_iff [OF t cur(1)] cur(2) by simp
  have less: "length (ws ! (F ! cur)) \<le> length (ws ! cur)"
    using c length_lsuf [of "set ws" "tl (ws ! cur)"] by (simp add: good_fail_def)
  obtain g where g: "follow G F b (F ! cur) = Some g" "g < length G"
    "ws ! get0 (G ! g) b = lsuf (set ws) (ws ! (F ! cur) @ [b])"
    using follow_ok [OF t, of "F ! cur" F b] c fin less by (auto simp: final_upto_def good_fail_def)
  define target where "target = get0 (G ! g) b"
  have tl: "tl (ws ! m) = tl (ws ! cur) @ [b]" using m(2) cne by simp
  have w: "ws ! target = lsuf (set ws) (tl (ws ! m))"
    using g(3) c lsuf_snoc [OF trie_pclosed [OF t]] by (simp add: target_def tl good_fail_def)
  have r: "target < length G" using get0_edge [OF t g(2)] by (simp add: target_def)
  have "length (ws ! target) \<le> length (ws ! cur)"
    using w length_lsuf [of "set ws" "tl (ws ! m)"] tl cne by (cases "ws ! cur") auto
  then have "Os ! target = all_tags pats (tl (ws ! m))"
    using fin r w all_tags_lsuf [OF pats] by (simp add: final_upto_def)
  then have o: "Os ! m @ Os ! target = all_tags pats (ws ! m)"
    using m(2,3) by (simp add: all_tags_tl)
  have "(if g \<noteq> 0 \<or> map_of (G ! 0) b \<noteq> None then get0 (G ! g) b else 0) = target"
    by (auto simp: target_def get0_def)
  then show ?thesis using g(1) m(1) len o r w by (intro exI [of _ target]) (simp add: link_child_def)
qed

lemma link_children_ok:
  assumes t: "trie G ws" and pats: "fst ` set pats \<subseteq> set ws" and cur: "cur < length G" "cur \<noteq> 0"
  shows "final_upto pats G ws (length (ws ! cur)) F Os \<Longrightarrow>
    \<forall>(b, m) \<in> set cs. m < length G \<and> ws ! m = ws ! cur @ [b] \<and> Os ! m = tags_of pats (ws ! m) \<Longrightarrow>
    distinct (map snd cs) \<Longrightarrow> length F = length G \<Longrightarrow> length Os = length G \<Longrightarrow>
    \<exists>F' Os'. link_children G cur cs (q, F, Os) = Some (q @ map snd cs, F', Os') \<and> length F' = length G \<and> length Os' = length G
      \<and> (\<forall>m. m \<notin> snd ` set cs \<longrightarrow> F' ! m = F ! m \<and> Os' ! m = Os ! m)
      \<and> (\<forall>m \<in> snd ` set cs. good_fail G ws F' m \<and> Os' ! m = all_tags pats (ws ! m))"
proof (induction cs arbitrary: q F Os)
  case (Cons c cs)
  obtain b m where c: "c = (b, m)" by (cases c)
  have m: "m < length G" "ws ! m = ws ! cur @ [b]" "Os ! m = tags_of pats (ws ! m)" using Cons.prems(2) c by auto
  obtain target where tg: "link_child G cur (b, m) (q, F, Os) = Some (q @ [m], F[m := target], Os[m := all_tags pats (ws ! m)])"
    "target < length G" "ws ! target = lsuf (set ws) (tl (ws ! m))"
    using link_child_ok [OF t pats cur Cons.prems(1) m Cons.prems(4,5)] by blast
  define F1 Os1 where d: "F1 = F[m := target]" "Os1 = Os[m := all_tags pats (ws ! m)]"
  have deep: "length (ws ! m) = Suc (length (ws ! cur))" using m(2) by simp
  have "final_upto pats G ws (length (ws ! cur)) F1 Os1"
    unfolding final_upto_def good_fail_def d
  proof (intro allI impI)
    fix k assume k: "k < length G" "length (ws ! k) \<le> length (ws ! cur)"
    then have "k \<noteq> m" using deep by auto
    then show "(k \<noteq> 0 \<longrightarrow> F[m := target] ! k < length G \<and> ws ! (F[m := target] ! k) = lsuf (set ws) (tl (ws ! k)))
      \<and> Os[m := all_tags pats (ws ! m)] ! k = all_tags pats (ws ! k)"
      using Cons.prems(1) k by (simp add: final_upto_def good_fail_def)
  qed
  moreover have "\<forall>(b, k) \<in> set cs. k < length G \<and> ws ! k = ws ! cur @ [b] \<and> Os1 ! k = tags_of pats (ws ! k)"
  proof -
    have "m \<noteq> snd x" if "x \<in> set cs" for x using that Cons.prems(3) c by auto
    then show ?thesis using Cons.prems(2) by (simp add: d split_beta)
  qed
  ultimately obtain F' Os' where IH: "link_children G cur cs (q @ [m], F1, Os1) = Some ((q @ [m]) @ map snd cs, F', Os')"
    "length F' = length G" "length Os' = length G"
    "\<forall>k. k \<notin> snd ` set cs \<longrightarrow> F' ! k = F1 ! k \<and> Os' ! k = Os1 ! k"
    "\<forall>k \<in> snd ` set cs. good_fail G ws F' k \<and> Os' ! k = all_tags pats (ws ! k)"
    using Cons.IH [of F1 Os1 "q @ [m]"] Cons.prems(3-5) d by auto
  have "m \<notin> snd ` set cs" using Cons.prems(3) c by simp
  then have "good_fail G ws F' m \<and> Os' ! m = all_tags pats (ws ! m)"
    using IH(4) tg m(1) Cons.prems(4,5) by (simp add: d good_fail_def)
  then have "\<forall>k \<in> snd ` set (c # cs). good_fail G ws F' k \<and> Os' ! k = all_tags pats (ws ! k)"
    using IH(5) c by simp
  moreover have "\<forall>k. k \<notin> snd ` set (c # cs) \<longrightarrow> F' ! k = F ! k \<and> Os' ! k = Os ! k"
    using IH(4) c by (simp add: d)
  moreover have "link_children G cur (c # cs) (q, F, Os) = Some (q @ map snd (c # cs), F', Os')"
    using IH(1) tg(1) by (simp add: c d)
  ultimately show ?case using IH(2,3) by blast
qed simp

section \<open>The breadth-first pass\<close>

text \<open>
  The order in which nodes are enqueued: \<open>past\<close> are the processed nodes, \<open>q\<close> the queue. A node
  is enqueued exactly when its parent is the root or processed; depths do not decrease.
\<close>

definition bfs_inv :: "(bytes \<times> 't) list \<Rightarrow> (byte, nat) odict list \<Rightarrow> bytes list \<Rightarrow> nat list \<Rightarrow> nat list \<Rightarrow> nat list \<Rightarrow> 't list list \<Rightarrow> bool" where
  "bfs_inv pats G ws past q F Os \<longleftrightarrow>
     distinct (past @ q) \<and> length F = length G \<and> length Os = length G
     \<and> (\<forall>m. m \<in> set (past @ q) \<longleftrightarrow> m < length G \<and> (\<exists>n b. n < length G \<and> (n = 0 \<or> n \<in> set past) \<and> map_of (G ! n) b = Some m))
     \<and> sorted (map (\<lambda>n. length (ws ! n)) q)
     \<and> (\<forall>m \<in> set q. length (ws ! m) \<le> length (ws ! hd q) + 1)
     \<and> (\<forall>m < length G. (m \<in> set (past @ q) \<longrightarrow> good_fail G ws F m)
          \<and> Os ! m = (if m \<in> set (past @ q) then all_tags pats (ws ! m) else tags_of pats (ws ! m)))"

lemma trie_parent:
  assumes "trie G ws" "m < length G" "m \<noteq> 0"
  shows "\<exists>n b. n < length G \<and> map_of (G ! n) b = Some m \<and> ws ! m = ws ! n @ [b]"
proof -
  have "ws ! m \<noteq> []" using trie_root_iff [OF assms(1,2)] assms(3) by simp
  then obtain w b where "ws ! m = w @ [b]" by (metis append_butlast_last_id)
  then show ?thesis using assms(1,2) unfolding trie_def by metis
qed

text \<open>All nodes that are not deeper than the head of the queue have been enqueued.\<close>

lemma bfs_enqueued:
  assumes "trie G ws" "bfs_inv pats G ws past q F Os"
  shows "m < length G \<Longrightarrow> m \<noteq> 0 \<Longrightarrow> \<forall>k \<in> set q. length (ws ! m) \<le> length (ws ! k) \<Longrightarrow> m \<in> set (past @ q)"
proof (induction "length (ws ! m)" arbitrary: m rule: less_induct)
  case less
  obtain n b where n: "n < length G" "map_of (G ! n) b = Some m" "ws ! m = ws ! n @ [b]"
    using trie_parent [OF assms(1) less.prems(1,2)] by blast
  have "n = 0 \<or> n \<in> set past"
  proof (rule ccontr)
    assume no: "\<not> (n = 0 \<or> n \<in> set past)"
    then have "n \<in> set (past @ q)" using less.hyps [of n] n(1,3) less.prems(3) by fastforce
    then have "n \<in> set q" using no by simp
    then show False using less.prems(3) n(3) by fastforce
  qed
  then show ?case using assms(2) n(1,2) less.prems(1) unfolding bfs_inv_def by blast
qed

lemma bfs_final:
  assumes t: "trie G ws" and i: "bfs_inv pats G ws past q F Os" and r: "[] \<notin> fst ` set pats"
    and d: "\<forall>k \<in> set q. d \<le> length (ws ! k)"
  shows "final_upto pats G ws d F Os"
  unfolding final_upto_def
proof (intro allI impI)
  fix m assume m: "m < length G" "length (ws ! m) \<le> d"
  show "(m \<noteq> 0 \<longrightarrow> good_fail G ws F m) \<and> Os ! m = all_tags pats (ws ! m)"
  proof (cases "m = 0")
    case True
    have "m \<in> set (past @ q) \<or> Os ! m = tags_of pats (ws ! m)" using i m(1) by (auto simp: bfs_inv_def)
    moreover have "Os ! m = all_tags pats (ws ! m)" if "m \<in> set (past @ q)" using i that m(1) by (auto simp: bfs_inv_def)
    ultimately show ?thesis using True trie_root [OF t] tags_of_Nil [OF r] by auto
  next
    case False
    then have "m \<in> set (past @ q)" using bfs_enqueued [OF t i m(1)] m(2) d by fastforce
    then show ?thesis using i m(1) by (auto simp: bfs_inv_def)
  qed
qed

lemma sorted_const: "(\<And>x. x \<in> set xs \<Longrightarrow> f x = c) \<Longrightarrow> sorted (map f xs)"
  by (induction xs) auto

lemma bfs_inv_mem:
  "bfs_inv pats G ws past q F Os \<Longrightarrow>
     m \<in> set (past @ q) \<longleftrightarrow> m < length G \<and> (\<exists>n b. n < length G \<and> (n = 0 \<or> n \<in> set past) \<and> map_of (G ! n) b = Some m)"
  by (simp only: bfs_inv_def)

lemma trie_children:
  assumes "trie G ws" "n < length G"
  shows "distinct (map snd (G ! n))" "m \<in> snd ` set (G ! n) \<longleftrightarrow> (\<exists>b. map_of (G ! n) b = Some m)"
    "(b, m) \<in> set (G ! n) \<Longrightarrow> m < length G \<and> ws ! m = ws ! n @ [b]"
proof -
  have d: "distinct (map fst (G ! n))" using assms by (simp add: trie_def)
  show e: "m < length G \<and> ws ! m = ws ! n @ [b]" if "(b, m) \<in> set (G ! n)" for b m
    using that d trie_edge [OF assms] by simp
  have "inj_on snd (set (G ! n))" using e by (intro inj_onI) (metis last_snoc prod.collapse)
  then show "distinct (map snd (G ! n))" using d by (simp add: distinct_map)
  show "m \<in> snd ` set (G ! n) \<longleftrightarrow> (\<exists>b. map_of (G ! n) b = Some m)" using d by force
qed

lemma bfs_step:
  assumes t: "trie G ws" and pats: "fst ` set pats \<subseteq> set ws" "[] \<notin> fst ` set pats"
    and i: "bfs_inv pats G ws past (cur # q) F Os"
  shows "\<exists>F' Os'. link_children G cur (G ! cur) (q, F, Os) = Some (q @ map snd (G ! cur), F', Os')
    \<and> bfs_inv pats G ws (past @ [cur]) (q @ map snd (G ! cur)) F' Os'"
proof -
  obtain n0 b0 where n0: "cur < length G" "n0 < length G" "map_of (G ! n0) b0 = Some cur"
    using bfs_inv_mem [OF i, of cur] by auto
  then have cur: "cur < length G" "cur \<noteq> 0" using trie_edge [OF t n0(2,3)] trie_root_iff [OF t n0(1)] by auto
  have len: "length F = length G" "length Os = length G" using i by (auto simp: bfs_inv_def)
  note ch = trie_children [OF t cur(1)]
  have deeper: "length (ws ! cur) \<le> length (ws ! k)" "length (ws ! k) \<le> length (ws ! cur) + 1" if "k \<in> set q" for k
    using i that by (auto simp: bfs_inv_def)
  have new: "m \<notin> set (past @ cur # q)" if m: "m \<in> snd ` set (G ! cur)" for m
  proof
    assume "m \<in> set (past @ cur # q)"
    then obtain n b where n: "n < length G" "n = 0 \<or> n \<in> set past" "map_of (G ! n) b = Some m"
      using bfs_inv_mem [OF i, of m] by blast
    obtain c where "(c, m) \<in> set (G ! cur)" using m by auto
    then have "ws ! n = ws ! cur" using ch(3) trie_edge [OF t n(1,3)] by fastforce
    then have "n = cur" using trie_inj [OF t n(1) cur(1)] by simp
    then show False using n(2) cur(2) i by (auto simp: bfs_inv_def)
  qed
  have fin: "final_upto pats G ws (length (ws ! cur)) F Os" using bfs_final [OF t i pats(2)] deeper by simp
  have tags: "Os ! m = tags_of pats (ws ! m)" if "m \<in> snd ` set (G ! cur)" for m
  proof -
    have "m < length G" using that ch(3) by auto
    then show ?thesis using i new [OF that] unfolding bfs_inv_def by metis
  qed
  have kids: "\<forall>(b, m) \<in> set (G ! cur). m < length G \<and> ws ! m = ws ! cur @ [b] \<and> Os ! m = tags_of pats (ws ! m)"
    using ch(3) tags by force
  obtain F' Os' where "link_children G cur (G ! cur) (q, F, Os) = Some (q @ map snd (G ! cur), F', Os')
    \<and> length F' = length G \<and> length Os' = length G
    \<and> (\<forall>m. m \<notin> snd ` set (G ! cur) \<longrightarrow> F' ! m = F ! m \<and> Os' ! m = Os ! m)
    \<and> (\<forall>m \<in> snd ` set (G ! cur). good_fail G ws F' m \<and> Os' ! m = all_tags pats (ws ! m))"
    using link_children_ok [OF t pats(1) cur fin kids ch(1) len, of q] by blast
  then have l: "link_children G cur (G ! cur) (q, F, Os) = Some (q @ map snd (G ! cur), F', Os')"
    "length F' = length G" "length Os' = length G"
    "\<And>m. m \<notin> snd ` set (G ! cur) \<Longrightarrow> F' ! m = F ! m \<and> Os' ! m = Os ! m"
    "\<And>m. m \<in> snd ` set (G ! cur) \<Longrightarrow> good_fail G ws F' m \<and> Os' ! m = all_tags pats (ws ! m)"
    by blast+
  have mem: "m \<in> set ((past @ [cur]) @ q @ map snd (G ! cur)) \<longleftrightarrow> m \<in> set (past @ cur # q) \<or> m \<in> snd ` set (G ! cur)" for m
    by auto
  have old: "(m \<in> set (past @ cur # q) \<longrightarrow> good_fail G ws F m)
    \<and> Os ! m = (if m \<in> set (past @ cur # q) then all_tags pats (ws ! m) else tags_of pats (ws ! m))" if "m < length G" for m
    using i that unfolding bfs_inv_def by blast
  have "bfs_inv pats G ws (past @ [cur]) (q @ map snd (G ! cur)) F' Os'"
    unfolding bfs_inv_def
  proof (intro conjI allI impI)
    show "distinct ((past @ [cur]) @ q @ map snd (G ! cur))" 
    proof -
      have e: "(past @ [cur]) @ q @ map snd (G ! cur) = (past @ cur # q) @ map snd (G ! cur)" by simp
      have d: "distinct (past @ cur # q)" using i by (simp only: bfs_inv_def)
      show ?thesis unfolding e distinct_append [of "past @ cur # q"] using d ch(1) new by (simp del: distinct_append) blast
    qed
    show "m \<in> set ((past @ [cur]) @ q @ map snd (G ! cur)) \<longleftrightarrow> m < length G \<and>
      (\<exists>n b. n < length G \<and> (n = 0 \<or> n \<in> set (past @ [cur])) \<and> map_of (G ! n) b = Some m)" for m
    proof -
      have "m < length G" if "map_of (G ! cur) b = Some m" for b using trie_edge [OF t cur(1) that] by simp
      moreover have "n \<in> set (past @ [cur]) \<longleftrightarrow> n \<in> set past \<or> n = cur" for n by auto
      ultimately show ?thesis unfolding mem bfs_inv_mem [OF i, of m] ch(2) using cur(1) by blast
    qed
    have child: "length (ws ! m) = length (ws ! cur) + 1" if "m \<in> snd ` set (G ! cur)" for m using that ch(3) by force
    show "sorted (map (\<lambda>n. length (ws ! n)) (q @ map snd (G ! cur)))"
    proof -
      have "sorted (map (\<lambda>n. length (ws ! n)) q)" using i by (simp add: bfs_inv_def)
      then show ?thesis using child deeper(2) by (simp add: sorted_append sorted_const)
    qed
    show "\<forall>m \<in> set (q @ map snd (G ! cur)). length (ws ! m) \<le> length (ws ! hd (q @ map snd (G ! cur))) + 1"
    proof -
      have "length (ws ! cur) \<le> length (ws ! hd (q @ map snd (G ! cur)))" if "q @ map snd (G ! cur) \<noteq> []"
        using hd_in_set [OF that] deeper(1) child by fastforce
      moreover have "length (ws ! m) \<le> length (ws ! cur) + 1" if "m \<in> set (q @ map snd (G ! cur))" for m
        using that deeper(2) child by fastforce
      ultimately show ?thesis by fastforce
    qed
    fix m assume m: "m < length G"
    show "Os' ! m = (if m \<in> set ((past @ [cur]) @ q @ map snd (G ! cur)) then all_tags pats (ws ! m) else tags_of pats (ws ! m))"
      unfolding mem using l(4) [of m] l(5) [of m] old [OF m] by metis
    assume "m \<in> set ((past @ [cur]) @ q @ map snd (G ! cur))"
    then show "good_fail G ws F' m" unfolding mem good_fail_def using l(4) [of m] l(5) [of m] old [OF m] unfolding good_fail_def by metis
  qed (use l in simp_all)
  then show ?thesis using l(1) by blast
qed

lemma bfs_total:
  assumes t: "trie G ws" and pats: "fst ` set pats \<subseteq> set ws" "[] \<notin> fst ` set pats"
  shows "bfs_inv pats G ws past q F Os \<Longrightarrow> \<exists>F' Os'. bfs G (q, F, Os) = Some ([], F', Os') \<and> (\<forall>d. final_upto pats G ws d F' Os')"
proof (induction "length G - length past" arbitrary: past q F Os rule: less_induct)
  case less
  show ?case
  proof (cases q)
    case Nil
    then show ?thesis using bfs_final [OF t less.prems pats(2)] by (subst bfs.simps) simp
  next
    case (Cons cur q')
    have "set (past @ q) \<subseteq> {..<length G}" using bfs_inv_mem [OF less.prems] by blast
    moreover have "distinct (past @ q)" using less.prems by (simp add: bfs_inv_def)
    ultimately have "length (past @ q) \<le> length G" by (metis card_lessThan card_mono distinct_card finite_lessThan)
    then have lt: "length G - length (past @ [cur]) < length G - length past" using Cons by simp
    obtain F1 Os1 where l: "link_children G cur (G ! cur) (q', F, Os) = Some (q' @ map snd (G ! cur), F1, Os1)"
      "bfs_inv pats G ws (past @ [cur]) (q' @ map snd (G ! cur)) F1 Os1"
      using bfs_step [OF t pats] less.prems Cons by blast
    show ?thesis using less.hyps [OF lt l(2)] l(1) Cons by (subst bfs.simps) simp
  qed
qed

section \<open>Building and scanning\<close>

text \<open>A built automaton for the patterns.\<close>

definition ac_ready :: "(bytes \<times> 't) list \<Rightarrow> 't ac \<Rightarrow> bool" where
  "ac_ready pats a \<longleftrightarrow> built a \<and> npat a = length pats
    \<and> (\<exists>ws. trie (goto a) ws \<and> fst ` set pats \<subseteq> set ws \<and> (\<forall>d. final_upto pats (goto a) ws d (fail a) (out a)))"

lemma replicate_update_same: "(replicate k x)[n := x] = replicate k x"
  by (metis length_replicate list_update_beyond list_update_id not_le nth_replicate)

lemma fold_zero: "fold (\<lambda>n F. F[n := 0]) ns (replicate k 0) = replicate k (0 :: nat)"
  by (induction ns) (simp_all add: replicate_update_same)

lemma build_ok:
  assumes "ac_inv pats ws a"
  shows "\<exists>a'. build a = Some a' \<and> ac_ready pats a'"
proof -
  note inv = assms [unfolded ac_inv_def]
  have t: "trie (goto a) ws" using inv by blast
  let ?q = "map snd (goto a ! 0)" and ?F = "replicate (length (goto a)) (0 :: nat)"
  have r: "0 < length (goto a)" "ws ! 0 = []" using trie_root [OF t] by auto
  note ch = trie_children [OF t r(1)]
  have one: "length (ws ! m) = 1 \<and> m < length (goto a)" if "m \<in> snd ` set (goto a ! 0)" for m
    using that ch(3) r(2) by force
  have pats: "fst ` set pats \<subseteq> set ws" "[] \<notin> fst ` set pats" using inv by simp_all
  have i: "bfs_inv pats (goto a) ws [] ?q ?F (out a)"
    unfolding bfs_inv_def
  proof (intro conjI allI impI)
    show "m \<in> set ([] @ ?q) \<longleftrightarrow> m < length (goto a) \<and> (\<exists>n b. n < length (goto a) \<and> (n = 0 \<or> n \<in> set []) \<and> map_of (goto a ! n) b = Some m)" for m
      using ch(2) [of m] one [of m] r(1) by auto
    show "sorted (map (\<lambda>n. length (ws ! n)) ?q)" using one by (intro sorted_const [of _ _ 1]) auto
    show "\<forall>m \<in> set ?q. length (ws ! m) \<le> length (ws ! hd ?q) + 1" using one by simp
    fix m assume m: "m < length (goto a)"
    have out: "out a ! m = tags_of pats (ws ! m)" using inv m by (simp add: trie_def)
    show "out a ! m = (if m \<in> set ([] @ ?q) then all_tags pats (ws ! m) else tags_of pats (ws ! m))"
    proof (cases "m \<in> set ([] @ ?q)")
      case True
      then obtain y where "ws ! m = [y]" using one [of m] by (auto simp: length_Suc_conv)
      then show ?thesis using True out by simp
    qed (use out in simp)
    assume "m \<in> set ([] @ ?q)"
    then have "length (ws ! m) = 1" using one [of m] by simp
    then show "good_fail (goto a) ws ?F m" using m r by (auto simp: good_fail_def length_Suc_conv)
  qed (use ch(1) inv in \<open>auto simp: trie_def\<close>)
  obtain F Os where b: "bfs (goto a) (?q, ?F, out a) = Some ([], F, Os)" "\<forall>d. final_upto pats (goto a) ws d F Os"
    using bfs_total [OF t pats i] by blast
  let ?a = "a\<lparr>fail := F, out := Os, built := True\<rparr>"
  have "ac_ready pats ?a" unfolding ac_ready_def using inv b(2) pats t by (intro conjI exI [of _ ws]) simp_all
  moreover have "build a = Some ?a" using inv b(1) by (simp add: build_def Let_def fold_zero)
  ultimately show ?thesis by blast
qed

definition occurrences :: "(bytes \<times> 't) list \<Rightarrow> bytes \<Rightarrow> (nat \<times> 't) list" where
  "occurrences pats data = concat (map (\<lambda>i. map (Pair i) (all_tags pats (take (i + 1) data))) [0..<length data])"

lemma set_occurrences:
  "(i, t) \<in> set (occurrences pats data) \<longleftrightarrow>
     i < length data \<and> (\<exists>p. (p, t) \<in> set pats \<and> p \<noteq> [] \<and> (\<exists>u. take (i + 1) data = u @ p))"
  by (auto simp: occurrences_def set_all_tags image_iff)

lemma scan_ok:
  assumes "trie (goto a) ws" "fst ` set pats \<subseteq> set ws" "\<forall>d. final_upto pats (goto a) ws d (fail a) (out a)"
  shows "f < length (goto a) \<Longrightarrow> ws ! f = lsuf (set ws) w \<Longrightarrow>
    scan a i f data = Some (concat (map (\<lambda>k. map (Pair (i + k)) (all_tags pats (w @ take (k + 1) data))) [0..<length data]))"
proof (induction data arbitrary: f w i)
  case (Cons b data)
  have fin: "m \<noteq> 0 \<Longrightarrow> good_fail (goto a) ws (fail a) m" "out a ! m = all_tags pats (ws ! m)" if "m < length (goto a)" for m
    using assms(3) that by (auto simp: final_upto_def)
  obtain g where g: "follow (goto a) (fail a) b f = Some g" "g < length (goto a)"
    "ws ! get0 (goto a ! g) b = lsuf (set ws) (ws ! f @ [b])"
    using follow_ok [OF assms(1) Cons.prems(1)] fin(1) by blast
  let ?n = "get0 (goto a ! g) b"
  have n: "?n < length (goto a)" "ws ! ?n = lsuf (set ws) (w @ [b])"
    using get0_edge [OF assms(1) g(2)] g(3) Cons.prems(2) lsuf_snoc [OF trie_pclosed [OF assms(1)]] by simp_all
  have "out a ! ?n = all_tags pats (w @ [b])" using fin(2) [OF n(1)] n(2) all_tags_lsuf [OF assms(2)] by simp
  then show ?case
    using Cons.IH [OF n] g(1) by (simp add: upt_conv_Cons map_Suc_upt [symmetric] comp_def Let_def del: upt_Suc)
qed simp

lemma iter_matches_ready: "ac_ready pats a \<Longrightarrow> iter_matches a data = Some (occurrences pats data)"
proof -
  assume r: "ac_ready pats a"
  then obtain ws where ws: "trie (goto a) ws" "fst ` set pats \<subseteq> set ws" "\<forall>d. final_upto pats (goto a) ws d (fail a) (out a)"
    by (auto simp: ac_ready_def)
  show ?thesis using scan_ok [OF ws, of 0 "[]" 0 data] r trie_root [OF ws(1)]
    by (simp add: iter_matches_def ac_ready_def occurrences_def)
qed

text \<open>Adding patterns one after the other, as the clients' loops do.\<close>

fun add_all :: "(bytes \<times> 't) list \<Rightarrow> 't ac \<Rightarrow> 't ac res" where
  "add_all [] a = Inr a"
| "add_all ((p, t) # pats) a = rbind (add p t a) (add_all pats)"

lemma add_all_ok:
  "ac_inv pats ws a \<Longrightarrow> [] \<notin> fst ` set extra \<Longrightarrow> \<exists>ws' a'. add_all extra a = Inr a' \<and> ac_inv (pats @ extra) ws' a'"
proof (induction extra arbitrary: pats ws a)
  case (Cons x extra)
  obtain p t where x: "x = (p, t)" by (cases x)
  obtain ws1 a1 where "add p t a = Inr a1" "ac_inv (pats @ [(p, t)]) ws1 a1"
    using add_inv [OF Cons.prems(1), of p t] Cons.prems(2) x by auto
  then show ?case using Cons.IH [of "pats @ [(p, t)]" ws1 a1] Cons.prems(2) x by auto
qed auto

section \<open>The matcher\<close>

text \<open>
  What the clients rely on: from patterns a matcher reports at which offsets which tags end,
  it always answers, and its reports are the occurrences.
\<close>

definition match_all :: "(bytes \<times> 't) list \<Rightarrow> bytes \<Rightarrow> (nat \<times> 't) list option" where
  "match_all pats data =
     (case add_all pats new_ac of
        Inl e \<Rightarrow> None
      | Inr a \<Rightarrow> Option.bind (build a) (\<lambda>a'. iter_matches a' data))"

locale multi_matcher =
  fixes matches :: "(bytes \<times> 't) list \<Rightarrow> bytes \<Rightarrow> (nat \<times> 't) list option"
  assumes reports: "[] \<notin> fst ` set pats \<Longrightarrow> matches pats data = Some (occurrences pats data)"
begin

lemma total: "[] \<notin> fst ` set pats \<Longrightarrow> \<exists>ms. matches pats data = Some ms"
  by (simp add: reports)

text \<open>A report lies inside the data and its bytes are the pattern of its tag.\<close>

lemma sound:
  assumes "[] \<notin> fst ` set pats" "matches pats data = Some ms" "(i, t) \<in> set ms"
  shows "\<exists>p. (p, t) \<in> set pats \<and> length p \<le> i + 1 \<and> i < length data \<and> seg (i + 1 - length p) (i + 1) data = p"
proof -
  obtain p u where p: "(p, t) \<in> set pats" "i < length data" "take (i + 1) data = u @ p"
    using assms set_occurrences [of i t pats data] by (auto simp: reports)
  then have len: "length u + length p = i + 1" by (metis length_append length_take min.absorb2 Suc_eq_plus1 Suc_leI)
  then have "i + 1 - length p = length u" "i + 1 - length u = length p" by simp_all
  moreover have "take (i + 1 - length u) (drop (length u) data) = p"
    using arg_cong [OF p(3), of "drop (length u)"] by (simp only: drop_take) simp
  ultimately have "seg (i + 1 - length p) (i + 1) data = p" by (simp add: seg_def)
  then show ?thesis using p len by (intro exI [of _ p]) simp
qed

lemma complete:
  assumes "[] \<notin> fst ` set pats" "matches pats data = Some ms" "(p, t) \<in> set pats" "data = u @ p @ v"
  shows "(length u + length p - 1, t) \<in> set ms"
proof -
  have "p \<noteq> []" using assms(1,3) by force
  then have "take (length u + length p - 1 + 1) data = u @ p" "length u + length p - 1 < length data"
    using assms(4) by (cases p; simp)+
  then show ?thesis using assms \<open>p \<noteq> []\<close> set_occurrences [of "length u + length p - 1" t pats data] by (auto simp: reports)
qed

end

lemma match_all_reports: "[] \<notin> fst ` set pats \<Longrightarrow> match_all pats data = Some (occurrences pats data)"
proof -
  assume "[] \<notin> fst ` set pats"
  then obtain ws a where a: "add_all pats new_ac = Inr a" "ac_inv pats ws a"
    using add_all_ok [OF new_ac_inv] by fastforce
  then obtain a' where "build a = Some a'" "ac_ready pats a'" using build_ok by blast
  then show ?thesis using a(1) by (simp add: match_all_def iter_matches_ready)
qed

interpretation ac: multi_matcher match_all
  by unfold_locales (rule match_all_reports)

text \<open>
  (C5) Aho-Corasick is exact. For any non-empty patterns, building the automaton ends, and its
  scan of any data lists, position by position, the tag of every pattern that ends there, the
  longest pattern first and equal patterns in the order they were added: every occurrence,
  overlapping ones included, once, and nothing else.
\<close>

theorem aho_corasick_exact:
  assumes "[] \<notin> fst ` set pats"
  shows "match_all pats data = Some (occurrences pats data)
    \<and> (\<forall>i t. (i, t) \<in> set (occurrences pats data) \<longleftrightarrow>
         i < length data \<and> (\<exists>p. (p, t) \<in> set pats \<and> p \<noteq> [] \<and> (\<exists>u. take (i + 1) data = u @ p)))"
  using ac.reports [OF assms] set_occurrences [of _ _ pats data] by simp

text \<open>The patterns he, she, his, hers in the data ushers.\<close>

definition sample_patterns :: "(bytes \<times> nat) list" where
  "sample_patterns = [([104, 101], 1), ([115, 104, 101], 2), ([104, 105, 115], 3), ([104, 101, 114, 115], 4)]"

theorem aho_corasick_exact_witness:
  "match_all sample_patterns [117, 115, 104, 101, 114, 115] = Some [(3, 2), (3, 1), (5, 4)]"
  using aho_corasick_exact [of sample_patterns "[117, 115, 104, 101, 114, 115]"]
  by (simp add: sample_patterns_def occurrences_def tags_of_def)

end
