(* ===== verification/Inline_Detector.thy ===== *)
theory Inline_Detector
  imports Aho_Corasick Json
begin

text \<open>
  \<^verbatim>\<open>src/opt/inline_payload_det.py\<close>: the inline payload detector over the Aho-Corasick
  automaton: signatures and their windows, aggregation of matches into one action, indicator
  extraction, flow buffers and file carving. Python's \<^verbatim>\<open>re\<close> engine, SHA-256, the hex codec and the
  threat database are arguments (\<open>det_env\<close>): the compiled patterns as search functions, the texts the
  three indicator expressions find, and the database's lookups. The entropy figure, which no
  decision reads, is not modelled.
\<close>

section \<open>Actions and signatures\<close>

definition ACTION_ALERT :: int where "ACTION_ALERT = 0"
definition ACTION_DROP :: int where "ACTION_DROP = 1"
definition ACTION_RESET :: int where "ACTION_RESET = 2"

definition ACTION_NAME :: "(int \<times> string) list" where
  "ACTION_NAME = [(ACTION_ALERT, ''alert''), (ACTION_DROP, ''drop''), (ACTION_RESET, ''reset'')]"

definition ACTION_PRECEDENCE :: "(int \<times> nat) list" where
  "ACTION_PRECEDENCE = [(ACTION_ALERT, 0), (ACTION_DROP, 1), (ACTION_RESET, 2)]"

definition VERDICT_ACTION :: "(string \<times> int) list" where
  "VERDICT_ACTION = [(''unknown'', ACTION_ALERT), (''benign'', ACTION_ALERT), (''grayware'', ACTION_ALERT),
     (''phishing'', ACTION_DROP), (''malware'', ACTION_RESET)]"

record signature =
  s_sid :: int
  s_name :: string
  s_pattern :: bytes
  s_pcre :: bool
  s_nocase :: bool
  s_offset :: int
  s_depth :: int
  s_proto :: string
  s_app :: string
  s_action :: int
  s_severity :: string
  s_threat :: string
  s_verdict :: string
  s_source :: string
  s_enabled :: bool

definition region_window :: "signature \<Rightarrow> int \<Rightarrow> int \<times> int" where
  "region_window sig n =
     (let start = (if s_offset sig > 0 then s_offset sig else 0);
          stop = (if s_depth sig > 0 then s_offset sig + s_depth sig else n)
      in (max 0 start, min n stop))"

record hit =
  m_sid :: int
  m_name :: string
  m_action :: int
  m_severity :: string
  m_threat :: string
  m_offset :: int
  m_method :: string

record detection =
  d_matched :: bool
  d_action :: int
  d_verdict :: string
  d_threat :: string
  d_matches :: "hit list"
  d_iocs :: "(string \<times> string list) list"
  d_file_type :: "string option"
  d_sha256 :: "string option"

definition new_detection :: detection where
  "new_detection = \<lparr>d_matched = False, d_action = ACTION_ALERT, d_verdict = ''unknown'', d_threat = [],
     d_matches = [], d_iocs = [], d_file_type = None, d_sha256 = None\<rparr>"

text \<open>\<^verbatim>\<open>a or b\<close> on strings\<close>

definition or_str :: "string \<Rightarrow> string \<Rightarrow> string" where
  "or_str a b = (if a \<noteq> [] then a else b)"

definition det_add :: "hit \<Rightarrow> detection \<Rightarrow> detection res" where
  "det_add m det =
     (let det' = det\<lparr>d_matches := d_matches det @ [m], d_matched := True\<rparr> in
      need (map_of ACTION_PRECEDENCE (m_action m)) KeyError (\<lambda>pm.
        need (map_of ACTION_PRECEDENCE (d_action det)) KeyError (\<lambda>pd.
          Inr (if pm \<ge> pd then det'\<lparr>d_action := m_action m, d_threat := or_str (m_threat m) (d_threat det)\<rparr> else det'))))"

definition action_name :: "detection \<Rightarrow> string" where
  "action_name det = (case map_of ACTION_NAME (d_action det) of Some s \<Rightarrow> s | None \<Rightarrow> ''alert'')"

section \<open>Heuristics\<close>

definition ascii :: "string \<Rightarrow> bytes" where "ascii s = map of_char s"

definition FILE_MAGIC :: "(bytes \<times> string) list" where
  "FILE_MAGIC = [(ascii ''MZ'', ''pe''), (0x7F # ascii ''ELF'', ''elf''), (ascii ''%PDF'', ''pdf''),
     (ascii ''PK'' @ [3, 4], ''zip''), ([0xD0, 0xCF, 0x11, 0xE0], ''ole''), ([0x1F, 0x8B], ''gzip''),
     (ascii ''Rar!'', ''rar''), ([0xCA, 0xFE, 0xBA, 0xBE], ''macho''), (ascii ''#!'', ''script''),
     (ascii ''<?php'', ''php''), (ascii ''<script'', ''html_js'')]"

definition bytes_start :: "bytes \<Rightarrow> bytes \<Rightarrow> bool" where
  "bytes_start p d \<longleftrightarrow> take (length p) d = p"

text \<open>\<^verbatim>\<open>data.find(sub)\<close>\<close>

fun find_sub :: "bytes \<Rightarrow> bytes \<Rightarrow> nat option" where
  "find_sub sub [] = (if sub = [] then Some 0 else None)"
| "find_sub sub (b # d) = (if bytes_start sub (b # d) then Some 0 else map_option Suc (find_sub sub d))"

definition lower_byte :: "byte \<Rightarrow> byte" where
  "lower_byte b = (if 65 \<le> b \<and> b \<le> 90 then b + 32 else b)"

definition lower_bytes :: "bytes \<Rightarrow> bytes" where
  "lower_bytes = map lower_byte"

definition detect_file_type :: "bytes \<Rightarrow> string option" where
  "detect_file_type data =
     map_option snd (List.find (\<lambda>(magic, _). bytes_start magic (take 16 data)
       \<or> magic = ascii ''<script'' \<and> find_sub (ascii ''<script'') (lower_bytes (take 512 data)) \<noteq> None) FILE_MAGIC)"

text \<open>What is outside: \<open>re\<close>, the hash, and the threat database (\<open>None\<close> without one).\<close>

record threat_db =
  lookup_ioc :: "string \<Rightarrow> string \<Rightarrow> (string \<times> string) option"
  lookup_sample :: "string \<Rightarrow> (string \<times> string) option"

record det_env =
  re_valid :: "bytes \<Rightarrow> bool"
  re_search :: "bytes \<Rightarrow> bool \<Rightarrow> bytes \<Rightarrow> int \<Rightarrow> int \<Rightarrow> int option"
  ioc_texts :: "string \<Rightarrow> bytes \<Rightarrow> bytes list"
  sha256 :: "bytes \<Rightarrow> string"
  threatdb :: "threat_db option"

definition decode_ascii :: "bytes \<Rightarrow> string" where
  "decode_ascii bs = map (\<lambda>b. char_of (unat b)) (filter (\<lambda>b. b < 128) bs)"

definition rstrip_dot :: "string \<Rightarrow> string" where
  "rstrip_dot s = rev (dropWhile (\<lambda>c. c = CHR ''.'') (rev s))"

definition BENIGN_TLDS :: "string list" where "BENIGN_TLDS = [''in-addr.arpa'']"

definition ends_with :: "string \<Rightarrow> string \<Rightarrow> bool" where
  "ends_with t v \<longleftrightarrow> drop (length v - length t) v = t"

text \<open>The texts of one expression, until the limit is reached: the list so far and the seen set.\<close>

fun gather :: "nat \<Rightarrow> bytes list \<Rightarrow> string list \<Rightarrow> string list \<Rightarrow> string list \<times> string list" where
  "gather limit [] acc seen = (acc, seen)"
| "gather limit (t # ts) acc seen =
     (let v = rstrip_dot (decode_ascii t) in
      if v = [] \<or> py_lower v \<in> set seen \<or> list_ex (\<lambda>b. ends_with b v) BENIGN_TLDS then gather limit ts acc seen
      else if length (acc @ [v]) \<ge> limit then (acc @ [v], py_lower v # seen)
      else gather limit ts (acc @ [v]) (py_lower v # seen))"

definition extract_iocs :: "det_env \<Rightarrow> bytes \<Rightarrow> (string \<times> string list) list" where
  "extract_iocs env data =
     (let (urls, s1) = gather 64 (ioc_texts env ''url'' data) [] [];
          (domains, s2) = gather 64 (ioc_texts env ''domain'' data) [] s1;
          (ips, s3) = gather 64 (ioc_texts env ''ip'' data) [] s2
      in [(''domain'', domains), (''url'', urls), (''ip'', ips)])"

section \<open>Flows\<close>

record flow =
  f_key :: string
  max_buffer :: nat
  c2s :: bytes
  s2c :: bytes
  f_carved :: "string set"

definition slide :: "nat \<Rightarrow> bytes \<Rightarrow> bytes \<Rightarrow> bytes" where
  "slide cap buf data = (let b = buf @ data in if length b > cap then drop (length b - cap) b else b)"

definition flow_append :: "string \<Rightarrow> bytes \<Rightarrow> flow \<Rightarrow> bytes \<times> flow" where
  "flow_append direction data f =
     (if direction = ''c2s'' then (let b = slide (max_buffer f) (c2s f) data in (b, f\<lparr>c2s := b\<rparr>))
      else (let b = slide (max_buffer f) (s2c f) data in (b, f\<lparr>s2c := b\<rparr>)))"

section \<open>The detector\<close>

record detector =
  max_files_per_flow :: nat
  sigs :: "(int, signature) odict"
  ac_cs :: "int ac option"
  ac_ci :: "int ac option"
  pcre :: "signature list"
  stats :: "(string, nat) odict"

definition bump_stat :: "string \<Rightarrow> nat \<Rightarrow> detector \<Rightarrow> detector" where
  "bump_stat k n d = d\<lparr>stats := dict_set k ((case map_of (stats d) k of Some v \<Rightarrow> v | None \<Rightarrow> 0) + n) (stats d)\<rparr>"

definition usable :: "(int, signature) odict \<Rightarrow> signature list" where
  "usable ss = filter (\<lambda>s. s_enabled s \<and> s_pattern s \<noteq> []) (map snd ss)"

definition cs_patterns :: "(int, signature) odict \<Rightarrow> (bytes \<times> int) list" where
  "cs_patterns ss = map (\<lambda>s. (s_pattern s, s_sid s)) (filter (\<lambda>s. \<not> s_pcre s \<and> \<not> s_nocase s) (usable ss))"

definition ci_patterns :: "(int, signature) odict \<Rightarrow> (bytes \<times> int) list" where
  "ci_patterns ss = map (\<lambda>s. (lower_bytes (s_pattern s), s_sid s)) (filter (\<lambda>s. \<not> s_pcre s \<and> s_nocase s) (usable ss))"

text \<open>\<open>None\<close>: some loop of the automaton would not end.\<close>

definition automaton :: "(bytes \<times> int) list \<Rightarrow> int ac option res option" where
  "automaton pats =
     (case add_all pats new_ac of
        Inl e \<Rightarrow> Some (Inl e)
      | Inr a \<Rightarrow> if pats = [] then Some (Inr None) else map_option (\<lambda>a'. Inr (Some a')) (build a))"

definition rebuild :: "det_env \<Rightarrow> detector \<Rightarrow> detector res option" where
  "rebuild env d =
     Option.bind (automaton (cs_patterns (sigs d))) (\<lambda>cs.
       Option.bind (automaton (ci_patterns (sigs d))) (\<lambda>ci.
         Some (rbind cs (\<lambda>a. rbind ci (\<lambda>b.
           Inr (d\<lparr>ac_cs := a, ac_ci := b, pcre := filter (\<lambda>s. s_pcre s \<and> re_valid env (s_pattern s)) (usable (sigs d))\<rparr>))))))"

definition new_detector :: "nat \<Rightarrow> detector" where
  "new_detector max_files =
     \<lparr>max_files_per_flow = max_files, sigs = [], ac_cs = None, ac_ci = None, pcre = [],
      stats = [(''inspected'', 0), (''bytes'', 0), (''matched'', 0), (''alert'', 0), (''drop'', 0), (''reset'', 0),
               (''hash_hits'', 0), (''ioc_hits'', 0), (''carved'', 0)]\<rparr>"

definition add_signature :: "det_env \<Rightarrow> signature \<Rightarrow> detector \<Rightarrow> detector res option" where
  "add_signature env sig d =
     (if s_pattern sig = [] then Some (Inl (ValueError ''signature has empty pattern''))
      else if s_pcre sig \<and> \<not> re_valid env (s_pattern sig) then Some (Inl (ValueError ''re.error''))
      else rebuild env (d\<lparr>sigs := dict_set (s_sid sig) sig (sigs d)\<rparr>))"

text \<open>The enabled rows of the table, their pattern decoded (\<open>None\<close>: not hexadecimal).\<close>

definition load_signatures :: "det_env \<Rightarrow> (bytes option \<times> signature) list \<Rightarrow> detector \<Rightarrow> detector res option" where
  "load_signatures env rows d =
     rebuild env (d\<lparr>sigs := fold (\<lambda>(pat, sig) ss.
       case pat of None \<Rightarrow> ss | Some p \<Rightarrow> dict_set (s_sid sig) (sig\<lparr>s_pattern := p\<rparr>) ss) rows []\<rparr>)"

definition in_window :: "signature \<Rightarrow> int \<Rightarrow> int \<Rightarrow> bool" where
  "in_window sig at n = (let (start, stop) = region_window sig n in start \<le> at \<and> at < stop)"

definition mk_match :: "signature \<Rightarrow> int \<Rightarrow> string \<Rightarrow> hit" where
  "mk_match sig at how =
     \<lparr>m_sid = s_sid sig, m_name = s_name sig, m_action = s_action sig, m_severity = s_severity sig,
      m_threat = or_str (s_threat sig) (s_name sig), m_offset = at, m_method = how\<rparr>"

definition content_matches :: "(int, signature) odict \<Rightarrow> nat \<Rightarrow> (nat \<times> int) list \<Rightarrow> hit list" where
  "content_matches ss n hits =
     List.map_filter (\<lambda>(stop, sid).
       case map_of ss sid of
         None \<Rightarrow> None
       | Some sig \<Rightarrow>
           (let at = int stop - int (length (s_pattern sig)) + 1
            in if in_window sig at (int n) then Some (mk_match sig at ''content'') else None)) hits"

definition ac_hits :: "int ac option \<Rightarrow> bytes \<Rightarrow> (nat \<times> int) list option" where
  "ac_hits a data = (case a of None \<Rightarrow> Some [] | Some a' \<Rightarrow> iter_matches a' data)"

definition pcre_matches :: "det_env \<Rightarrow> signature list \<Rightarrow> bytes \<Rightarrow> hit list" where
  "pcre_matches env ss payload =
     List.map_filter (\<lambda>sig.
       let (start, stop) = region_window sig (int (length payload))
       in map_option (\<lambda>at. mk_match sig at ''pcre'') (re_search env (s_pattern sig) (s_nocase sig) payload start stop)) ss"

definition verdict_action :: "string \<Rightarrow> int \<Rightarrow> int" where
  "verdict_action v dflt = (case map_of VERDICT_ACTION v of Some a \<Rightarrow> a | None \<Rightarrow> dflt)"

definition ioc_matches :: "threat_db \<Rightarrow> (string \<times> string list) list \<Rightarrow> hit list" where
  "ioc_matches db iocs =
     concat (map (\<lambda>kind. List.map_filter (\<lambda>v.
       case lookup_ioc db kind v of
         None \<Rightarrow> None
       | Some (verdict, threat) \<Rightarrow>
           if verdict \<in> {''benign'', ''unknown''} then None
           else Some \<lparr>m_sid = -2, m_name = ''ioc.'' @ kind, m_action = verdict_action verdict ACTION_DROP,
                      m_severity = ''high'', m_threat = or_str threat (''C2.'' @ kind), m_offset = 0, m_method = ''ioc''\<rparr>)
       (case map_of iocs kind of Some vs \<Rightarrow> vs | None \<Rightarrow> [])) [''url'', ''domain'', ''ip''])"

definition hash_matches :: "threat_db \<Rightarrow> string \<Rightarrow> hit list" where
  "hash_matches db sha =
     (case lookup_sample db sha of
        None \<Rightarrow> []
      | Some (verdict, threat) \<Rightarrow>
          if verdict \<in> {''malware'', ''phishing''} then
            [\<lparr>m_sid = -1, m_name = ''threatdb.hash'', m_action = verdict_action verdict ACTION_RESET,
              m_severity = ''critical'', m_threat = or_str threat ''Known.Malware'', m_offset = 0, m_method = ''hash''\<rparr>]
          else [])"

definition verdict_for :: "detection \<Rightarrow> string" where
  "verdict_for det =
     (if d_action det = ACTION_RESET then ''malware'' else if d_action det = ACTION_DROP then ''phishing'' else ''grayware'')"

text \<open>Steps 4 and 5, with a database: indicators, then the hash of the payload.\<close>

definition db_steps :: "det_env \<Rightarrow> bytes \<Rightarrow> detection \<Rightarrow> detector \<Rightarrow> (detection \<times> detector) res" where
  "db_steps env payload det d =
     (case threatdb env of
        None \<Rightarrow> Inr (det, d)
      | Some db \<Rightarrow>
          (let found = ioc_matches db (d_iocs det) in
           rbind (fold_res det_add found det) (\<lambda>det1.
             let d1 = bump_stat ''ioc_hits'' (length found) d in
             if d_file_type det \<noteq> None \<or> length payload \<ge> 64 then
               (let sha = sha256 env payload; known = hash_matches db sha in
                rbind (fold_res det_add known (det1\<lparr>d_sha256 := Some sha\<rparr>)) (\<lambda>det2.
                  Inr (det2, bump_stat ''hash_hits'' (length known) d1)))
             else Inr (det1, d1))))"

text \<open>The result of the inspection, or its exception, and the detector after it.\<close>

definition inspect :: "det_env \<Rightarrow> bytes \<Rightarrow> detector \<Rightarrow> (detection res \<times> detector) option" where
  "inspect env payload d =
     (let d1 = bump_stat ''bytes'' (length payload) (bump_stat ''inspected'' 1 d) in
      if payload = [] then Some (Inr new_detection, d1)
      else
        Option.bind (ac_hits (ac_cs d) payload) (\<lambda>h1.
          Option.bind (ac_hits (ac_ci d) (lower_bytes payload)) (\<lambda>h2.
            let det0 = new_detection\<lparr>d_file_type := detect_file_type payload\<rparr>;
                ms = content_matches (sigs d) (length payload) h1 @ content_matches (sigs d) (length payload) h2
                     @ pcre_matches env (pcre d) payload
            in Some (case rbind (fold_res det_add ms det0) (\<lambda>det.
                            db_steps env payload (det\<lparr>d_iocs := extract_iocs env payload\<rparr>) d1) of
                       Inl e \<Rightarrow> (Inl e, d1)
                     | Inr (det, d2) \<Rightarrow>
                         if d_matched det then
                           (Inr (det\<lparr>d_verdict := verdict_for det\<rparr>), bump_stat (action_name det) 1 (bump_stat ''matched'' 1 d2))
                         else (Inr det, d2)))))"

definition feed :: "det_env \<Rightarrow> string \<Rightarrow> bytes \<Rightarrow> flow \<Rightarrow> detector \<Rightarrow> (detection res \<times> flow \<times> detector) option" where
  "feed env direction data f d =
     (let (buf, f') = flow_append direction data f in map_option (\<lambda>(r, d'). (r, f', d')) (inspect env buf d))"

section \<open>Carving\<close>

definition CRLF2 :: bytes where "CRLF2 = [13, 10, 13, 10]"

fun body_offsets :: "nat \<Rightarrow> nat \<Rightarrow> bytes \<Rightarrow> nat list" where
  "body_offsets 0 idx data = []"
| "body_offsets (Suc room) idx data =
     (case find_sub CRLF2 (drop idx data) of
        None \<Rightarrow> []
      | Some j \<Rightarrow> (idx + j + 4) # body_offsets room (idx + j + 4) data)"

definition carve_offsets :: "bytes \<Rightarrow> nat list" where
  "carve_offsets data = 0 # body_offsets 8 0 data"

record carved_file =
  cf_sha :: string
  cf_body :: bytes
  cf_direction :: string
  cf_type :: string

text \<open>One candidate object; \<^verbatim>\<open>break\<close> makes every later candidate a no-op.\<close>

definition carve_one :: "det_env \<Rightarrow> string \<times> bytes \<Rightarrow> carved_file list \<times> flow \<times> detector \<Rightarrow> carved_file list \<times> flow \<times> detector" where
  "carve_one env cand st =
     (case (cand, st) of ((direction, body), (files, f, d)) \<Rightarrow>
        if length files \<ge> max_files_per_flow d then st
        else
          (case detect_file_type body of
             None \<Rightarrow> st
           | Some ftype \<Rightarrow>
               if length body < 64 then st
               else (let sha = sha256 env body in
                     if sha \<in> f_carved f then st
                     else (files @ [\<lparr>cf_sha = sha, cf_body = body, cf_direction = direction, cf_type = ftype\<rparr>],
                           f\<lparr>f_carved := insert sha (f_carved f)\<rparr>, bump_stat ''carved'' 1 d))))"

definition carve_candidates :: "flow \<Rightarrow> (string \<times> bytes) list" where
  "carve_candidates f =
     concat (map (\<lambda>(direction, data). map (\<lambda>off. (direction, drop off data)) (carve_offsets data))
       [(''c2s'', c2s f), (''s2c'', s2c f)])"

definition carve_files :: "det_env \<Rightarrow> flow \<Rightarrow> detector \<Rightarrow> carved_file list \<times> flow \<times> detector" where
  "carve_files env f d = fold (carve_one env) (carve_candidates f) ([], f, d)"

definition export_dpi_patterns :: "detector \<Rightarrow> nat" where
  "export_dpi_patterns d = length (filter (\<lambda>s. \<not> (s_pcre s \<or> \<not> s_enabled s)) (map snd (sigs d)))"

definition summary_stats :: "detector \<Rightarrow> (string, nat) odict" where
  "summary_stats d =
     (let count = (\<lambda>a. case a of Some x \<Rightarrow> npat x | None \<Rightarrow> 0) in
      dict_set ''ac_content'' (count (ac_cs d) + count (ac_ci d))
        (dict_set ''pcre'' (length (pcre d)) (dict_set ''signatures'' (length (sigs d)) (stats d))))"

text \<open>\<^verbatim>\<open>seed_baseline\<close>: add signatures one after the other.\<close>

fun seed :: "det_env \<Rightarrow> signature list \<Rightarrow> detector \<Rightarrow> detector res option" where
  "seed env [] d = Some (Inr d)"
| "seed env (s # ss) d =
     (case add_signature env s d of
        None \<Rightarrow> None
      | Some (Inl e) \<Rightarrow> Some (Inl e)
      | Some (Inr d') \<Rightarrow> seed env ss d')"

section \<open>The baseline rules\<close>

definition content_signature :: "int \<Rightarrow> string \<Rightarrow> bytes \<Rightarrow> signature" where
  "content_signature sid name pat =
     \<lparr>s_sid = sid, s_name = name, s_pattern = pat, s_pcre = False, s_nocase = False, s_offset = 0, s_depth = 0,
      s_proto = ''any'', s_app = ''any'', s_action = ACTION_ALERT, s_severity = ''medium'', s_threat = [],
      s_verdict = ''malware'', s_source = ''builtin'', s_enabled = True\<rparr>"

definition rule :: "signature \<Rightarrow> int \<Rightarrow> string \<Rightarrow> string \<Rightarrow> string \<Rightarrow> signature" where
  "rule s action severity threat verdict = s\<lparr>s_action := action, s_severity := severity, s_threat := threat, s_verdict := verdict\<rparr>"

definition nocase :: "signature \<Rightarrow> signature" where "nocase s = s\<lparr>s_nocase := True\<rparr>"
definition regex :: "signature \<Rightarrow> signature" where "regex s = s\<lparr>s_pcre := True\<rparr>"

text \<open>The backslash and the single quote in the patterns.\<close>

definition bs :: string where "bs = [CHR 0x5C]"
definition sq :: string where "sq = [CHR 0x27]"

definition EICAR :: bytes where
  "EICAR = ascii (''X5O!P%@AP[4'' @ bs @ ''PZX54(P^)7CC)7}$EICAR-STANDARD-ANTIVIRUS-TEST-FILE!$H+H*'')"

definition BASELINE_SIGNATURES :: "signature list" where
  "BASELINE_SIGNATURES =
    [rule (content_signature 1000 ''EICAR-Test-File'' EICAR) ACTION_RESET ''critical'' ''EICAR.Test'' ''malware'',
     rule (nocase (content_signature 1001 ''Log4Shell-JNDI'' (ascii ''${jndi:'')))
       ACTION_RESET ''critical'' ''Exploit.Log4j.CVE-2021-44228'' ''malware'',
     rule (nocase (content_signature 1002 ''SQLi-Tautology''
         (ascii (sq @ '' or '' @ sq @ ''1'' @ sq @ ''='' @ sq @ ''1''))))
       ACTION_DROP ''high'' ''WebAttack.SQLi'' ''phishing'',
     rule (nocase (regex (content_signature 1003 ''SQLi-UNION-SELECT'' (ascii (''union'' @ bs @ ''s+select'')))))
       ACTION_DROP ''high'' ''WebAttack.SQLi.Union'' ''phishing'',
     rule (content_signature 1004 ''Path-Traversal'' (ascii ''../../../''))
       ACTION_DROP ''medium'' ''WebAttack.Traversal'' ''phishing'',
     rule (content_signature 1005 ''x86-NOP-Sled'' (replicate 16 0x90))
       ACTION_ALERT ''medium'' ''Shellcode.NOPSled'' ''grayware'',
     rule (nocase (regex (content_signature 1006 ''PowerShell-EncodedCommand''
         (ascii (''powershell('' @ bs @ ''.exe)?'' @ bs @ ''s+-e(nc(odedcommand)?)?'' @ bs @ ''s'')))))
       ACTION_DROP ''high'' ''Downloader.PowerShell'' ''malware'',
     rule (nocase (content_signature 1007 ''Reverse-Shell-bash'' (ascii ''bash -i >& /dev/tcp/'')))
       ACTION_RESET ''critical'' ''Backdoor.ReverseShell'' ''malware'',
     rule (nocase (regex (content_signature 1008 ''PHP-Webshell-eval''
         (ascii (''eval'' @ bs @ ''s*'' @ bs @ ''('' @ bs @ ''s*(base64_decode|gzinflate|'' @ bs @ ''$_(POST|GET|REQUEST))'')))))
       ACTION_RESET ''critical'' ''Webshell.PHP'' ''malware'',
     rule (nocase (regex (content_signature 1009 ''Beacon-URI-heuristic''
         (ascii (''/(submit'' @ bs @ ''.php|api/v2/echo|activity)'' @ bs @ ''?id='')))))
       ACTION_ALERT ''medium'' ''C2.Beacon.heuristic'' ''grayware'']"

section \<open>The automata match the signatures\<close>

lemma all_tags_no_patterns [simp]: "all_tags [] w = []"
  by (induction w) (simp_all add: tags_of_def)

lemma occurrences_no_patterns [simp]: "occurrences [] data = []"
  by (simp add: occurrences_def)

lemma automaton_ok:
  assumes "[] \<notin> fst ` set pats"
  shows "\<exists>r. automaton pats = Some (Inr r) \<and> (\<forall>data. ac_hits r data = Some (occurrences pats data))"
proof (cases "pats = []")
  case True
  then show ?thesis by (simp add: automaton_def ac_hits_def)
next
  case False
  obtain ws a where a: "add_all pats new_ac = Inr a" "ac_inv pats ws a" using add_all_ok [OF new_ac_inv assms] by auto
  then obtain a' where "build a = Some a'" "ac_ready pats a'" using build_ok by blast
  then show ?thesis using a False by (intro exI [of _ "Some a'"]) (simp add: automaton_def ac_hits_def iter_matches_ready)
qed

definition coherent :: "detector \<Rightarrow> bool" where
  "coherent d \<longleftrightarrow> distinct (map fst (sigs d)) \<and> (\<forall>k s. (k, s) \<in> set (sigs d) \<longrightarrow> s_sid s = k)
     \<and> set (pcre d) \<subseteq> snd ` set (sigs d)
     \<and> (\<forall>data. ac_hits (ac_cs d) data = Some (occurrences (cs_patterns (sigs d)) data))
     \<and> (\<forall>data. ac_hits (ac_ci d) data = Some (occurrences (ci_patterns (sigs d)) data))"

lemma lower_bytes_eq_Nil [simp]: "lower_bytes p = [] \<longleftrightarrow> p = []" "[] = lower_bytes p \<longleftrightarrow> p = []"
  by (auto simp: lower_bytes_def)

lemma patterns_nonempty: "[] \<notin> fst ` set (cs_patterns ss)" "[] \<notin> fst ` set (ci_patterns ss)"
  by (auto simp: cs_patterns_def ci_patterns_def usable_def)

lemma rebuild_ok:
  assumes "distinct (map fst (sigs d))" "\<forall>k s. (k, s) \<in> set (sigs d) \<longrightarrow> s_sid s = k"
  shows "\<exists>d'. rebuild env d = Some (Inr d') \<and> coherent d' \<and> sigs d' = sigs d"
proof -
  obtain a where a: "automaton (cs_patterns (sigs d)) = Some (Inr a)" "\<forall>data. ac_hits a data = Some (occurrences (cs_patterns (sigs d)) data)"
    using automaton_ok [OF patterns_nonempty(1)] by blast
  obtain b where b: "automaton (ci_patterns (sigs d)) = Some (Inr b)" "\<forall>data. ac_hits b data = Some (occurrences (ci_patterns (sigs d)) data)"
    using automaton_ok [OF patterns_nonempty(2)] by blast
  have "set (filter (\<lambda>s. s_pcre s \<and> re_valid env (s_pattern s)) (usable (sigs d))) \<subseteq> snd ` set (sigs d)"
    by (auto simp: usable_def)
  then show ?thesis using a b assms by (simp add: rebuild_def coherent_def)
qed

lemma set_dict_set: "x \<in> set (dict_set k v d) \<Longrightarrow> x = (k, v) \<or> x \<in> set d"
  by (induction k v d rule: dict_set.induct) (auto split: if_splits)

lemma add_signature_ok:
  assumes "coherent d" "s_pattern sig \<noteq> []" "s_pcre sig \<longrightarrow> re_valid env (s_pattern sig)"
  shows "\<exists>d'. add_signature env sig d = Some (Inr d') \<and> coherent d' \<and> sigs d' = dict_set (s_sid sig) sig (sigs d)"
proof -
  let ?d = "d\<lparr>sigs := dict_set (s_sid sig) sig (sigs d)\<rparr>"
  have "distinct (map fst (sigs ?d))" "\<forall>k s. (k, s) \<in> set (sigs ?d) \<longrightarrow> s_sid s = k"
    using assms(1) set_dict_set [of _ "s_sid sig" sig "sigs d"] by (force simp: coherent_def distinct_dict_set)+
  then obtain d' where "rebuild env ?d = Some (Inr d')" "coherent d'" "sigs d' = sigs ?d" using rebuild_ok [of ?d env] by blast
  then show ?thesis using assms(2,3) by (intro exI [of _ d']) (simp add: add_signature_def)
qed

lemma new_detector_coherent: "coherent (new_detector n)"
  by (simp add: coherent_def new_detector_def ac_hits_def cs_patterns_def ci_patterns_def usable_def)

lemma seed_ok:
  "coherent d \<Longrightarrow> list_all (\<lambda>s. s_pattern s \<noteq> [] \<and> (s_pcre s \<longrightarrow> re_valid env (s_pattern s))) ss \<Longrightarrow>
     \<exists>d'. seed env ss d = Some (Inr d') \<and> coherent d' \<and> sigs d' = fold (\<lambda>s. dict_set (s_sid s) s) ss (sigs d)"
proof (induction ss arbitrary: d)
  case (Cons s ss)
  then obtain d1 where "add_signature env s d = Some (Inr d1)" "coherent d1" "sigs d1 = dict_set (s_sid s) s (sigs d)"
    using add_signature_ok [of d s env] by auto
  then show ?case using Cons.IH [of d1] Cons.prems by simp
qed simp

section \<open>What an inspection reports\<close>

text \<open>A content signature occurs in the payload, ignoring case if it asks for that, in its window.\<close>

definition content_hit :: "(int, signature) odict \<Rightarrow> bytes \<Rightarrow> hit \<Rightarrow> bool" where
  "content_hit ss payload m \<longleftrightarrow> (\<exists>sig u v. sig \<in> snd ` set ss \<and> s_enabled sig \<and> \<not> s_pcre sig \<and> s_pattern sig \<noteq> []
     \<and> (if s_nocase sig then lower_bytes payload = u @ lower_bytes (s_pattern sig) @ v else payload = u @ s_pattern sig @ v)
     \<and> in_window sig (int (length u)) (int (length payload)) \<and> m = mk_match sig (int (length u)) ''content'')"

lemma occurrences_split:
  "(i, t) \<in> set (occurrences pats data) \<longleftrightarrow>
     (\<exists>p u v. (p, t) \<in> set pats \<and> p \<noteq> [] \<and> data = u @ p @ v \<and> i + 1 = length u + length p)" (is "?L \<longleftrightarrow> ?R")
proof
  assume ?L
  then obtain p u where p: "i < length data" "(p, t) \<in> set pats" "p \<noteq> []" "take (i + 1) data = u @ p"
    by (auto simp: set_occurrences)
  have "data = u @ p @ drop (i + 1) data" using p(4) by (metis append_assoc append_take_drop_id)
  moreover have "i + 1 = length u + length p" using p(1,4) by (metis Suc_eq_plus1 Suc_leI length_append length_take min.absorb2)
  ultimately show ?R using p(2,3) by blast
next
  assume ?R
  then obtain p u v where p: "(p, t) \<in> set pats" "p \<noteq> []" "data = u @ p @ v" "i + 1 = length u + length p" by blast
  then have "take (i + 1) data = u @ p" "i < length data" by simp_all
  then show ?L using p(1,2) by (auto simp: set_occurrences)
qed

lemma content_matches_exact:
  assumes d: "distinct (map fst ss)" "\<forall>k s. (k, s) \<in> set ss \<longrightarrow> s_sid s = k"
    and pats: "pats = map (\<lambda>s. (f (s_pattern s), s_sid s)) (filter P (usable ss))" "\<And>p. length (f p) = length p" "length data = n"
  shows "m \<in> set (content_matches ss n (occurrences pats data)) \<longleftrightarrow>
    (\<exists>sig u v. sig \<in> snd ` set ss \<and> s_enabled sig \<and> s_pattern sig \<noteq> [] \<and> P sig \<and> data = u @ f (s_pattern sig) @ v
       \<and> in_window sig (int (length u)) (int n) \<and> m = mk_match sig (int (length u)) ''content'')" (is "?L \<longleftrightarrow> ?R")
proof -
  have look: "map_of ss (s_sid sig) = Some sig" if "sig \<in> snd ` set ss" for sig
    using that d by (auto simp: map_of_eq_Some_iff)
  have mem: "(p, sid) \<in> set pats \<longleftrightarrow> (\<exists>sig \<in> snd ` set ss. s_enabled sig \<and> s_pattern sig \<noteq> [] \<and> P sig \<and> p = f (s_pattern sig) \<and> sid = s_sid sig)" for p sid
    unfolding pats(1) by (auto simp: usable_def)
  have ne: "f p \<noteq> []" if "p \<noteq> []" for p using pats(2) [of p] that by (metis length_0_conv)
  show ?thesis
  proof
    assume ?L
    then obtain i sid sig where h: "(i, sid) \<in> set (occurrences pats data)" "map_of ss sid = Some sig"
      "in_window sig (int i - int (length (s_pattern sig)) + 1) (int n)" "m = mk_match sig (int i - int (length (s_pattern sig)) + 1) ''content''"
      by (auto simp: content_matches_def map_filter_def Let_def split: option.splits if_splits)
    obtain p u v where o: "(p, sid) \<in> set pats" "data = u @ p @ v" "i + 1 = length u + length p"
      using h(1) by (auto simp: occurrences_split)
    obtain sig' where s: "sig' \<in> snd ` set ss" "s_enabled sig'" "s_pattern sig' \<noteq> []" "P sig'" "p = f (s_pattern sig')" "sid = s_sid sig'"
      using o(1) mem by blast
    have "sig' = sig" using look [OF s(1)] s(6) h(2) by simp
    moreover have "int i - int (length (s_pattern sig')) + 1 = int (length u)" using o(3) s(5) pats(2) by simp
    ultimately show ?R using s o(2) h(3,4) by metis
  next
    assume ?R
    then obtain sig u v where s: "sig \<in> snd ` set ss" "s_enabled sig" "s_pattern sig \<noteq> []" "P sig" "data = u @ f (s_pattern sig) @ v"
      "in_window sig (int (length u)) (int n)" "m = mk_match sig (int (length u)) ''content''" by blast
    define i where "i = length u + length (s_pattern sig) - 1"
    have i: "i + 1 = length u + length (f (s_pattern sig))" using s(3) pats(2) by (cases "s_pattern sig") (auto simp: i_def)
    have "(i, s_sid sig) \<in> set (occurrences pats data)"
      unfolding occurrences_split using mem s(1-5) ne [OF s(3)] i by blast
    moreover have "int i - int (length (s_pattern sig)) + 1 = int (length u)" using i pats(2) by simp
    ultimately show ?L using look [OF s(1)] s(6,7)
      unfolding content_matches_def map_filter_def by (force simp: Let_def split: option.splits)
  qed
qed

definition valid_action :: "int \<Rightarrow> bool" where
  "valid_action a \<longleftrightarrow> a \<in> {ACTION_ALERT, ACTION_DROP, ACTION_RESET}"

lemma precedence_valid: "valid_action a \<Longrightarrow> map_of ACTION_PRECEDENCE a = Some (nat a) \<and> 0 \<le> a"
  by (auto simp: valid_action_def ACTION_PRECEDENCE_def ACTION_ALERT_def ACTION_DROP_def ACTION_RESET_def)

lemma det_add_ok:
  assumes "valid_action (m_action m)" "valid_action (d_action det)"
  shows "\<exists>det'. det_add m det = Inr det' \<and> d_matches det' = d_matches det @ [m] \<and> d_matched det'
    \<and> d_action det' = max (d_action det) (m_action m) \<and> valid_action (d_action det')
    \<and> d_file_type det' = d_file_type det \<and> d_iocs det' = d_iocs det"
  using precedence_valid [OF assms(1)] precedence_valid [OF assms(2)] assms
  by (simp add: det_add_def Let_def max_def nat_le_eq_zle)

lemma fold_det_add:
  "list_all (\<lambda>m. valid_action (m_action m)) ms \<Longrightarrow> valid_action (d_action det) \<Longrightarrow>
     \<exists>det'. fold_res det_add ms det = Inr det' \<and> d_matches det' = d_matches det @ ms
       \<and> d_matched det' = (d_matched det \<or> ms \<noteq> []) \<and> d_action det' = fold max (map m_action ms) (d_action det)
       \<and> valid_action (d_action det') \<and> d_file_type det' = d_file_type det \<and> d_iocs det' = d_iocs det"
proof (induction ms arbitrary: det)
  case (Cons m ms)
  then obtain det1 where d: "det_add m det = Inr det1" "d_matches det1 = d_matches det @ [m]" "d_matched det1"
    "d_action det1 = max (d_action det) (m_action m)" "valid_action (d_action det1)" "d_file_type det1 = d_file_type det" "d_iocs det1 = d_iocs det"
    using det_add_ok [of m det] by auto
  then show ?case using Cons.IH [of det1] Cons.prems by (simp add: max.commute)
qed simp

lemma verdict_action_valid: "valid_action dflt \<Longrightarrow> valid_action (verdict_action v dflt)"
  by (auto simp: verdict_action_def VERDICT_ACTION_def valid_action_def)

lemma in_map_filter: "x \<in> set (List.map_filter f xs) \<longleftrightarrow> (\<exists>y \<in> set xs. f y = Some x)"
  by (induction xs) (auto simp: map_filter_simps split: option.splits)

lemma ioc_matches_valid: "m \<in> set (ioc_matches db iocs) \<Longrightarrow> valid_action (m_action m) \<and> m_method m = ''ioc''"
proof -
  have v: "valid_action (verdict_action v ACTION_DROP)" for v by (rule verdict_action_valid) (simp add: valid_action_def)
  assume "m \<in> set (ioc_matches db iocs)"
  then obtain kind x where "(case lookup_ioc db kind x of None \<Rightarrow> None | Some (verdict, threat) \<Rightarrow>
       if verdict \<in> {''benign'', ''unknown''} then None
       else Some \<lparr>m_sid = -2, m_name = ''ioc.'' @ kind, m_action = verdict_action verdict ACTION_DROP,
                  m_severity = ''high'', m_threat = or_str threat (''C2.'' @ kind), m_offset = 0, m_method = ''ioc''\<rparr>) = Some m"
    by (auto simp only: ioc_matches_def set_concat set_map in_map_filter UN_iff image_iff)
  then show ?thesis using v by (auto split: option.splits if_splits)
qed

lemma hash_matches_valid: "m \<in> set (hash_matches db sha) \<Longrightarrow> valid_action (m_action m) \<and> m_method m = ''hash''"
proof -
  have "valid_action (verdict_action v ACTION_RESET)" for v by (rule verdict_action_valid) (simp add: valid_action_def)
  then show "m \<in> set (hash_matches db sha) \<Longrightarrow> valid_action (m_action m) \<and> m_method m = ''hash''"
    by (auto simp: hash_matches_def split: option.splits if_splits)
qed

lemma bump_stat_keeps [simp]:
  "sigs (bump_stat k n d) = sigs d" "ac_cs (bump_stat k n d) = ac_cs d" "ac_ci (bump_stat k n d) = ac_ci d" "pcre (bump_stat k n d) = pcre d"
  "max_files_per_flow (bump_stat k n d) = max_files_per_flow d"
  by (simp_all add: bump_stat_def)

lemma fold_max_ge: "x \<in> set xs \<or> x = (a :: int) \<Longrightarrow> x \<le> fold max xs a"
proof (induction xs arbitrary: a x)
  case (Cons y ys)
  have "max y a \<le> fold max ys (max y a)" "\<forall>z \<in> set ys. z \<le> fold max ys (max y a)"
    using Cons.IH by blast+
  then show ?case using Cons.prems by auto
qed simp

definition top_action :: "detection \<Rightarrow> bool" where
  "top_action det \<longleftrightarrow> d_action det = fold max (map m_action (d_matches det)) ACTION_ALERT \<and> valid_action (d_action det)
     \<and> (d_matched det \<longleftrightarrow> d_matches det \<noteq> [])"

lemma fold_top:
  assumes "top_action det" "list_all (\<lambda>m. valid_action (m_action m)) ms"
  shows "\<exists>det'. fold_res det_add ms det = Inr det' \<and> d_matches det' = d_matches det @ ms \<and> top_action det'
    \<and> d_file_type det' = d_file_type det \<and> d_iocs det' = d_iocs det"
proof -
  have v: "valid_action (d_action det)" using assms(1) unfolding top_action_def by blast
  have t: "d_action det = fold max (map m_action (d_matches det)) ACTION_ALERT" "d_matched det \<longleftrightarrow> d_matches det \<noteq> []"
    using assms(1) unfolding top_action_def by blast+
  obtain det' where "fold_res det_add ms det = Inr det'" "d_matches det' = d_matches det @ ms"
    "d_matched det' = (d_matched det \<or> ms \<noteq> [])" "d_action det' = fold max (map m_action ms) (d_action det)"
    "valid_action (d_action det')" "d_file_type det' = d_file_type det" "d_iocs det' = d_iocs det"
    using fold_det_add [OF assms(2) v] by blast
  then show ?thesis using t by (intro exI [of _ det']) (simp add: top_action_def)
qed

lemma top_action_other [simp]:
  "top_action (det\<lparr>d_iocs := i\<rparr>) = top_action det" "top_action (det\<lparr>d_sha256 := h\<rparr>) = top_action det"
  "top_action (det\<lparr>d_verdict := v\<rparr>) = top_action det" "top_action (det\<lparr>d_file_type := t\<rparr>) = top_action det"
  by (simp_all add: top_action_def)

lemma db_steps_ok:
  assumes "top_action det"
  shows "\<exists>det' d' db. db_steps env payload det d = Inr (det', d') \<and> d_matches det' = d_matches det @ db \<and> top_action det'
    \<and> list_all (\<lambda>m. m_method m \<in> {''ioc'', ''hash''}) db \<and> sigs d' = sigs d"
proof (cases "threatdb env")
  case (Some db)
  let ?i = "ioc_matches db (d_iocs det)" and ?h = "hash_matches db (sha256 env payload)"
  have v: "list_all (\<lambda>m. valid_action (m_action m)) ?i" "list_all (\<lambda>m. valid_action (m_action m)) ?h"
    and k: "list_all (\<lambda>m. m_method m \<in> {''ioc'', ''hash''}) (?i @ ?h)"
    using ioc_matches_valid [of _ db "d_iocs det"] hash_matches_valid [of _ db "sha256 env payload"] by (auto simp: list_all_iff)
  obtain det1 where 1: "fold_res det_add ?i det = Inr det1" "d_matches det1 = d_matches det @ ?i" "top_action det1"
    using fold_top [OF assms v(1)] by blast
  obtain det2 where 2: "fold_res det_add ?h (det1\<lparr>d_sha256 := Some (sha256 env payload)\<rparr>) = Inr det2" "d_matches det2 = d_matches det1 @ ?h" "top_action det2"
    using fold_top [of "det1\<lparr>d_sha256 := Some (sha256 env payload)\<rparr>", OF _ v(2)] 1(3) by auto
  show ?thesis
  proof (cases "d_file_type det \<noteq> None \<or> length payload \<ge> 64")
    case True
    then show ?thesis using 1 2 k Some
      by (intro exI [of _ det2] exI [of _ "bump_stat ''hash_hits'' (length ?h) (bump_stat ''ioc_hits'' (length ?i) d)"] exI [of _ "?i @ ?h"])
        (simp add: db_steps_def Let_def)
  next
    case False
    then show ?thesis using 1 k Some
      by (intro exI [of _ det1] exI [of _ "bump_stat ''ioc_hits'' (length ?i) d"] exI [of _ ?i]) (auto simp: db_steps_def Let_def)
  qed
qed (use assms in \<open>auto simp: db_steps_def intro!: exI [of _ "[]"]\<close>)

lemma coherent_bump [simp]: "coherent (bump_stat k n d) = coherent d"
  by (simp add: coherent_def)

lemma content_passes:
  assumes "coherent d"
  shows "m \<in> set (content_matches (sigs d) (length payload) (occurrences (cs_patterns (sigs d)) payload)
      @ content_matches (sigs d) (length payload) (occurrences (ci_patterns (sigs d)) (lower_bytes payload))) \<longleftrightarrow> content_hit (sigs d) payload m"
proof -
  have c: "distinct (map fst (sigs d))" "\<forall>k s. (k, s) \<in> set (sigs d) \<longrightarrow> s_sid s = k" using assms by (auto simp: coherent_def)
  have l: "length (lower_bytes p) = length p" for p by (simp add: lower_bytes_def)
  note cs = content_matches_exact [OF c, of "cs_patterns (sigs d)" "\<lambda>p. p" "\<lambda>s. \<not> s_pcre s \<and> \<not> s_nocase s" payload "length payload" m,
    OF cs_patterns_def refl refl]
  note ci = content_matches_exact [OF c, of "ci_patterns (sigs d)" lower_bytes "\<lambda>s. \<not> s_pcre s \<and> s_nocase s" "lower_bytes payload" "length payload" m,
    OF ci_patterns_def l l]
  show ?thesis unfolding set_append Un_iff cs ci content_hit_def if_bool_eq_conj by blast
qed

lemma map_filter_method: "m \<in> set (pcre_matches env ss payload) \<Longrightarrow> m_method m = ''pcre'' \<and> (\<exists>s \<in> set ss. m_action m = s_action s)"
  by (auto simp: pcre_matches_def in_map_filter mk_match_def Let_def split_beta)

lemma content_hit_sig: "content_hit ss payload m \<Longrightarrow> \<exists>sig at. sig \<in> snd ` set ss \<and> m = mk_match sig at ''content''"
  unfolding content_hit_def by (elim exE conjE) (intro exI conjI)

lemma inspect_coherent:
  assumes c: "coherent d" and act: "\<And>s. s \<in> snd ` set (sigs d) \<Longrightarrow> valid_action (s_action s)" and ne: "payload \<noteq> []"
  shows "\<exists>det d'. inspect env payload d = Some (Inr det, d') \<and> sigs d' = sigs d
    \<and> (\<forall>m. m \<in> set (d_matches det) \<and> m_method m = ''content'' \<longleftrightarrow> content_hit (sigs d) payload m)
    \<and> d_action det = Max (insert 0 (m_action ` set (d_matches det))) \<and> (d_matched det \<longleftrightarrow> d_matches det \<noteq> [])"
proof -
  define h1 h2 where h: "h1 = content_matches (sigs d) (length payload) (occurrences (cs_patterns (sigs d)) payload)"
    "h2 = content_matches (sigs d) (length payload) (occurrences (ci_patterns (sigs d)) (lower_bytes payload))"
  define h3 where h3: "h3 = pcre_matches env (pcre d) payload"
  define det0 where "det0 = new_detection\<lparr>d_file_type := detect_file_type payload\<rparr>"
  define d1 where "d1 = bump_stat ''bytes'' (length payload) (bump_stat ''inspected'' 1 d)"
  have content: "m \<in> set (h1 @ h2) \<longleftrightarrow> content_hit (sigs d) payload m" for m using content_passes [OF c] h by simp
  have cm: "m_method m = ''content''" "valid_action (m_action m)" if mem: "m \<in> set (h1 @ h2)" for m
  proof -
    obtain sig at where "sig \<in> snd ` set (sigs d)" "m = mk_match sig at ''content''"
      using content_hit_sig [OF iffD1 [OF content mem]] by blast
    then show "m_method m = ''content''" "valid_action (m_action m)" using act by (simp_all add: mk_match_def)
  qed
  have p: "valid_action (s_action s)" if "s \<in> set (pcre d)" for s using that c act unfolding coherent_def by blast
  have v: "list_all (\<lambda>m. valid_action (m_action m)) (h1 @ h2 @ h3)"
  proof -
    have "valid_action (m_action m)" if "m \<in> set h3" for m using map_filter_method [of m env "pcre d" payload] that p h3 by metis
    then show ?thesis using cm(2) by (auto simp: list_all_iff)
  qed
  have "top_action det0" by (simp add: det0_def new_detection_def top_action_def valid_action_def)
  then obtain det1 where 1: "fold_res det_add (h1 @ h2 @ h3) det0 = Inr det1" "d_matches det1 = h1 @ h2 @ h3" "top_action det1"
    using fold_top [OF _ v, of det0] by (auto simp: det0_def new_detection_def)
  obtain det2 d2 db where 2: "db_steps env payload (det1\<lparr>d_iocs := extract_iocs env payload\<rparr>) d1 = Inr (det2, d2)"
    "d_matches det2 = d_matches det1 @ db" "top_action det2" "list_all (\<lambda>m. m_method m \<in> {''ioc'', ''hash''}) db" "sigs d2 = sigs d1"
    using db_steps_ok [of "det1\<lparr>d_iocs := extract_iocs env payload\<rparr>" env payload d1] 1(3) by auto
  define det where "det = (if d_matched det2 then det2\<lparr>d_verdict := verdict_for det2\<rparr> else det2)"
  define d' where "d' = (if d_matched det2 then bump_stat (action_name det2) 1 (bump_stat ''matched'' 1 d2) else d2)"
  have "inspect env payload d = Some (Inr det, d')"
    using c ne 1(1) 2(1) unfolding h h3 det0_def d1_def det_def d'_def
    by (simp add: inspect_def coherent_def Let_def)
  moreover have ms: "d_matches det = h1 @ h2 @ h3 @ db" "top_action det" using 1(2) 2(2,3) by (simp_all add: det_def)
  moreover have "sigs d' = sigs d" using 2(5) by (simp add: d'_def d1_def)
  moreover have "m \<in> set (d_matches det) \<and> m_method m = ''content'' \<longleftrightarrow> content_hit (sigs d) payload m" for m
  proof -
    have "m_method m \<noteq> ''content''" if "m \<in> set (h3 @ db)"
      using that 2(4) map_filter_method [of m env "pcre d" payload] by (auto simp: list_all_iff h3)
    then show ?thesis using ms(1) content [of m] cm(1) [of m] by auto
  qed
  moreover have "d_action det = Max (insert 0 (m_action ` set (d_matches det)))"
    using ms(2) Max.set_eq_fold [of 0 "map m_action (d_matches det)"] unfolding top_action_def by (simp add: ACTION_ALERT_def)
  moreover have "d_matched det \<longleftrightarrow> d_matches det \<noteq> []" using ms(2) unfolding top_action_def by blast
  ultimately show ?thesis by blast
qed

text \<open>
  The reference, over the list of signatures as they were added: the last one added with an identifier
  is in force, and it hits where its bytes occur, from its offset on and less than its depth further.
\<close>

definition in_force :: "signature list \<Rightarrow> signature \<Rightarrow> bool" where
  "in_force ss sig \<longleftrightarrow> (\<exists>pre post. ss = pre @ sig # post \<and> s_sid sig \<notin> s_sid ` set post)"

definition literal_hit :: "signature list \<Rightarrow> bytes \<Rightarrow> hit \<Rightarrow> bool" where
  "literal_hit ss payload m \<longleftrightarrow> (\<exists>sig u v. in_force ss sig \<and> s_enabled sig \<and> \<not> s_pcre sig \<and> s_pattern sig \<noteq> []
     \<and> (if s_nocase sig then lower_bytes payload = u @ lower_bytes (s_pattern sig) @ v else payload = u @ s_pattern sig @ v)
     \<and> (s_offset sig \<le> int (length u) \<and> (0 < s_depth sig \<longrightarrow> int (length u) < s_offset sig + s_depth sig))
     \<and> m = \<lparr>m_sid = s_sid sig, m_name = s_name sig, m_action = s_action sig, m_severity = s_severity sig,
         m_threat = (if s_threat sig \<noteq> [] then s_threat sig else s_name sig), m_offset = int (length u), m_method = ''content''\<rparr>)"

lemma in_force_snoc: "in_force (ss @ [s]) sig \<longleftrightarrow> sig = s \<or> s_sid sig \<noteq> s_sid s \<and> in_force ss sig"
proof
  assume "in_force (ss @ [s]) sig"
  then obtain pre post where p: "ss @ [s] = pre @ sig # post" "s_sid sig \<notin> s_sid ` set post" unfolding in_force_def by blast
  show "sig = s \<or> s_sid sig \<noteq> s_sid s \<and> in_force ss sig"
  proof (cases post rule: rev_cases)
    case Nil
    then show ?thesis using p(1) by simp
  next
    case (snoc post' x)
    then have "x = s" "ss = pre @ sig # post'" using p(1) by auto
    then show ?thesis using p(2) snoc unfolding in_force_def by auto
  qed
next
  assume "sig = s \<or> s_sid sig \<noteq> s_sid s \<and> in_force ss sig"
  then show "in_force (ss @ [s]) sig"
  proof (elim disjE conjE)
    assume "sig = s"
    then show ?thesis unfolding in_force_def by (intro exI [of _ ss] exI [of _ "[]"]) simp
  next
    assume n: "s_sid sig \<noteq> s_sid s" "in_force ss sig"
    then obtain pre post where "ss = pre @ sig # post" "s_sid sig \<notin> s_sid ` set post" unfolding in_force_def by blast
    then show ?thesis using n(1) unfolding in_force_def by (intro exI [of _ pre] exI [of _ "post @ [s]"]) auto
  qed
qed

lemma added_in_force: "map_of (fold (\<lambda>s. dict_set (s_sid s) s) ss []) k = Some sig \<longleftrightarrow> in_force ss sig \<and> s_sid sig = k"
proof (induction ss rule: rev_induct)
  case Nil
  then show ?case by (simp add: in_force_def)
next
  case (snoc s ss)
  then show ?case by (auto simp: in_force_snoc)
qed

lemma sigs_in_force:
  assumes "coherent d" "sigs d = fold (\<lambda>s. dict_set (s_sid s) s) ss []"
  shows "sig \<in> snd ` set (sigs d) \<longleftrightarrow> in_force ss sig"
proof -
  have c: "distinct (map fst (sigs d))" "\<And>k s. (k, s) \<in> set (sigs d) \<Longrightarrow> s_sid s = k" using assms(1) by (auto simp: coherent_def)
  have "sig \<in> snd ` set (sigs d) \<longleftrightarrow> (s_sid sig, sig) \<in> set (sigs d)"
  proof
    assume "sig \<in> snd ` set (sigs d)"
    then obtain k where "(k, sig) \<in> set (sigs d)" by auto
    then show "(s_sid sig, sig) \<in> set (sigs d)" using c(2) by metis
  qed (metis image_eqI snd_conv)
  also have "\<dots> \<longleftrightarrow> map_of (sigs d) (s_sid sig) = Some sig" using map_of_eq_Some_iff [OF c(1)] by simp
  also have "\<dots> \<longleftrightarrow> in_force ss sig" unfolding assms(2) added_in_force by simp
  finally show ?thesis .
qed

lemma in_window_iff:
  assumes "length u < n"
  shows "in_window sig (int (length u)) (int n) \<longleftrightarrow> s_offset sig \<le> int (length u) \<and> (0 < s_depth sig \<longrightarrow> int (length u) < s_offset sig + s_depth sig)"
  using assms by (auto simp: in_window_def region_window_def)

lemma literal_hit_iff:
  assumes "coherent d" "sigs d = fold (\<lambda>s. dict_set (s_sid s) s) ss []"
  shows "content_hit (sigs d) payload m \<longleftrightarrow> literal_hit ss payload m"
proof -
  have l: "length (lower_bytes p) = length p" for p by (simp add: lower_bytes_def)
  have len: "length u < length payload"
    if "s_pattern sig \<noteq> []" "if s_nocase sig then lower_bytes payload = u @ lower_bytes (s_pattern sig) @ v else payload = u @ s_pattern sig @ v" for sig u v
  proof -
    have "length payload = length u + length (s_pattern sig) + length v" using that(2) l by (metis add.assoc length_append)
    then show ?thesis using that(1) by simp
  qed
  have m: "mk_match sig at ''content'' = \<lparr>m_sid = s_sid sig, m_name = s_name sig, m_action = s_action sig, m_severity = s_severity sig,
         m_threat = (if s_threat sig \<noteq> [] then s_threat sig else s_name sig), m_offset = at, m_method = ''content''\<rparr>" for sig at
    by (simp add: mk_match_def or_str_def)
  show ?thesis unfolding content_hit_def literal_hit_def sigs_in_force [OF assms] m
    by (intro iff_exI conj_cong refl) (rule in_window_iff, rule len)
qed

text \<open>
  (C13) Inspection is exact and takes the strongest action. For signatures with known actions
  added one after the other to a fresh detector, adding them returns, and inspecting a non-empty
  payload returns; its content matches are exactly the hits of the enabled literal signatures in force
  (of several added with one identifier the last): their bytes occur in the payload, ignoring case
  where the signature asks for it, at the offset on record, which is not below the signature's offset
  and, with a depth, less than the depth beyond it; each match carries the signature's identifier,
  name, action and severity. The resulting action is the largest of the actions of all matches, and
  an alert (the weakest action) when there are none.
\<close>

theorem inline_inspect_exact:
  assumes "list_all (\<lambda>s. s_pattern s \<noteq> [] \<and> (s_pcre s \<longrightarrow> re_valid env (s_pattern s)) \<and> valid_action (s_action s)) ss" "payload \<noteq> []"
  shows "\<exists>d det d'. seed env ss (new_detector k) = Some (Inr d) \<and> inspect env payload d = Some (Inr det, d')
    \<and> (\<forall>m. m \<in> set (d_matches det) \<and> m_method m = ''content'' \<longleftrightarrow> literal_hit ss payload m)
    \<and> d_action det = Max (insert 0 (m_action ` set (d_matches det))) \<and> (d_matched det \<longleftrightarrow> d_matches det \<noteq> [])"
proof -
  have ss: "list_all (\<lambda>s. s_pattern s \<noteq> [] \<and> (s_pcre s \<longrightarrow> re_valid env (s_pattern s))) ss"
    using assms(1) by (simp add: list_all_iff)
  obtain d where d: "seed env ss (new_detector k) = Some (Inr d)" "coherent d" "sigs d = fold (\<lambda>s. dict_set (s_sid s) s) ss []"
    using seed_ok [OF new_detector_coherent [of k] ss] by (auto simp: new_detector_def)
  have act: "valid_action (s_action s)" if "s \<in> snd ` set (sigs d)" for s
    using that assms(1) unfolding sigs_in_force [OF d(2,3)] by (auto simp: in_force_def list_all_iff)
  show ?thesis using inspect_coherent [OF d(2) act assms(2), of env] d(1) unfolding literal_hit_iff [OF d(2,3)] by blast
qed

section \<open>Flows and carved files\<close>

lemma slide_tail: "slide cap buf data = drop (length (buf @ data) - cap) (buf @ data)"
  by (simp add: slide_def Let_def)

lemma slide_slide:
  assumes "buf = drop (length seen - cap) seen"
  shows "slide cap buf data = drop (length (seen @ data) - cap) (seen @ data)"
proof (cases "length seen \<le> cap")
  case True
  then show ?thesis using assms by (simp add: slide_tail)
next
  case False
  then have "slide cap buf data = drop (length data) (drop (length seen - cap) seen @ data)"
    using assms by (simp add: slide_tail)
  also have "\<dots> = drop (length data) (drop (length seen - cap) (seen @ data))" using False by simp
  also have "\<dots> = drop (length (seen @ data) - cap) (seen @ data)" using False by (simp only: drop_drop) (simp add: add.commute)
  finally show ?thesis .
qed

definition segments_of :: "string \<Rightarrow> (string \<times> bytes) list \<Rightarrow> bytes" where
  "segments_of direction segs = concat (map snd (filter (\<lambda>(dir, _). (dir = ''c2s'') = (direction = ''c2s'')) segs))"

definition append_all :: "(string \<times> bytes) list \<Rightarrow> flow \<Rightarrow> flow" where
  "append_all segs f = fold (\<lambda>(dir, data) f. snd (flow_append dir data f)) segs f"

lemma append_all_bufs:
  assumes "c2s f = []" "s2c f = []"
  shows "max_buffer (append_all segs f) = max_buffer f
    \<and> c2s (append_all segs f) = drop (length (segments_of ''c2s'' segs) - max_buffer f) (segments_of ''c2s'' segs)
    \<and> s2c (append_all segs f) = drop (length (segments_of ''s2c'' segs) - max_buffer f) (segments_of ''s2c'' segs)"
proof (induction segs rule: rev_induct)
  case Nil
  then show ?case using assms by (simp add: append_all_def segments_of_def)
next
  case (snoc x segs)
  obtain dir data where x: "x = (dir, data)" by (cases x)
  let ?f = "append_all segs f"
  have "append_all (segs @ [x]) f = snd (flow_append dir data ?f)" by (simp add: append_all_def x)
  then show ?case
    using snoc slide_slide [of "c2s ?f" "segments_of ''c2s'' segs" "max_buffer f" data]
      slide_slide [of "s2c ?f" "segments_of ''s2c'' segs" "max_buffer f" data]
    by (auto simp: flow_append_def Let_def segments_of_def x)
qed

text \<open>
  Cross-segment detection: after any segments in both directions, the buffer of a direction
  is the last \<open>max_buffer\<close> bytes of that direction's stream, whatever the segmentation; so a
  signature that is split over segments lies contiguous in the buffer that is inspected.
\<close>

theorem flow_buffer_is_stream_tail:
  assumes "c2s f = []" "s2c f = []"
  shows "fst (flow_append dir data (append_all segs f))
    = drop (length (segments_of dir (segs @ [(dir, data)])) - max_buffer f) (segments_of dir (segs @ [(dir, data)]))"
  using append_all_bufs [OF assms, of segs]
    slide_slide [of "c2s (append_all segs f)" "segments_of ''c2s'' segs" "max_buffer f" data]
    slide_slide [of "s2c (append_all segs f)" "segments_of ''s2c'' segs" "max_buffer f" data]
  by (auto simp: flow_append_def Let_def segments_of_def)

definition carve_inv :: "det_env \<Rightarrow> string set \<Rightarrow> nat \<Rightarrow> carved_file list \<times> flow \<times> detector \<Rightarrow> bool" where
  "carve_inv env before cap = (\<lambda>(files, f, d).
     length files \<le> cap \<and> max_files_per_flow d = cap \<and> distinct (map cf_sha files)
     \<and> f_carved f = before \<union> set (map cf_sha files) \<and> set (map cf_sha files) \<inter> before = {}
     \<and> (\<forall>c \<in> set files. cf_sha c = sha256 env (cf_body c) \<and> 64 \<le> length (cf_body c) \<and> detect_file_type (cf_body c) = Some (cf_type c)))"

lemma carve_one_inv: "carve_inv env before cap st \<Longrightarrow> carve_inv env before cap (carve_one env cand st)"
proof -
  obtain dir body where c: "cand = (dir, body)" by (cases cand)
  obtain files f d where st: "st = (files, f, d)" by (metis prod_cases3)
  assume "carve_inv env before cap st"
  then show ?thesis unfolding c st carve_one_def carve_inv_def
    by (auto simp: Let_def split: option.splits)
qed

text \<open>
  Carving: at most the configured number of files per call; every carved file is at least 64
  bytes with a recognised type, labelled with its own hash; no hash is carved twice, neither in
  one call nor after an earlier call; and the flow remembers exactly the hashes carved.
\<close>

theorem carve_files_sound:
  assumes "carve_files env f d = (files, f', d')"
  shows "length files \<le> max_files_per_flow d \<and> distinct (map cf_sha files)
    \<and> f_carved f' = f_carved f \<union> set (map cf_sha files) \<and> set (map cf_sha files) \<inter> f_carved f = {}
    \<and> (\<forall>c \<in> set files. cf_sha c = sha256 env (cf_body c) \<and> 64 \<le> length (cf_body c) \<and> detect_file_type (cf_body c) = Some (cf_type c))"
proof -
  have "carve_inv env (f_carved f) (max_files_per_flow d) (carve_files env f d)" unfolding carve_files_def
    by (rule fold_invariant [where Q = "\<lambda>_. True"]) (auto simp: carve_one_inv, simp add: carve_inv_def)
  then show ?thesis unfolding assms carve_inv_def prod.case by blast
qed

text \<open>The verdict a signature declares is not used: a match and its verdict do not depend on it.\<close>

lemma signature_verdict_unused: "mk_match (sig\<lparr>s_verdict := v\<rparr>) at how = mk_match sig at how"
  by (simp add: mk_match_def)

section \<open>Instances\<close>

definition plain_env :: det_env where
  "plain_env = \<lparr>re_valid = (\<lambda>_. True), re_search = (\<lambda>_ _ _ _ _. None), ioc_texts = (\<lambda>_ _. []), sha256 = (\<lambda>b. decode_ascii b), threatdb = None\<rparr>"

definition bad_sig :: signature where
  "bad_sig = rule (content_signature 2000 ''win-test'' [66, 65, 68]) ACTION_DROP ''high'' ''T'' ''malware''"

lemma inline_inspect_exact_witness:
  "\<exists>d det d'. seed plain_env [bad_sig] (new_detector 8) = Some (Inr d) \<and> inspect plain_env [1, 66, 65, 68] d = Some (Inr det, d')
    \<and> d_matched det \<and> ACTION_DROP \<le> d_action det"
proof -
  have ok: "list_all (\<lambda>s. s_pattern s \<noteq> [] \<and> (s_pcre s \<longrightarrow> re_valid plain_env (s_pattern s)) \<and> valid_action (s_action s)) [bad_sig]"
    by (simp add: bad_sig_def rule_def content_signature_def valid_action_def)
  define m where "m = \<lparr>m_sid = s_sid bad_sig, m_name = s_name bad_sig, m_action = s_action bad_sig, m_severity = s_severity bad_sig,
    m_threat = (if s_threat bad_sig \<noteq> [] then s_threat bad_sig else s_name bad_sig), m_offset = 1, m_method = ''content''\<rparr>"
  have "in_force [bad_sig] bad_sig" using in_force_snoc [of "[]" bad_sig bad_sig] by simp
  then have hit: "literal_hit [bad_sig] [1, 66, 65, 68] m"
    unfolding literal_hit_def by (intro exI [of _ bad_sig] exI [of _ "[1]"] exI [of _ "[]"]) (simp add: m_def, simp add: bad_sig_def rule_def content_signature_def)
  obtain d det d' where r: "seed plain_env [bad_sig] (new_detector 8) = Some (Inr d)" "inspect plain_env [1, 66, 65, 68] d = Some (Inr det, d')"
    "\<And>m. m \<in> set (d_matches det) \<and> m_method m = ''content'' \<longleftrightarrow> literal_hit [bad_sig] [1, 66, 65, 68] m"
    "d_action det = Max (insert 0 (m_action ` set (d_matches det)))" "d_matched det \<longleftrightarrow> d_matches det \<noteq> []"
    using inline_inspect_exact [OF ok, of "[1, 66, 65, 68]" 8] by auto
  have m: "m \<in> set (d_matches det)" using r(3) hit by blast
  moreover have "m_action m = ACTION_DROP" by (simp add: m_def bad_sig_def rule_def)
  ultimately have "ACTION_DROP \<in> m_action ` set (d_matches det)" by (metis image_eqI)
  then have "ACTION_DROP \<le> d_action det" unfolding r(4) by (intro Max_ge) simp_all
  then show ?thesis using r(1,2,5) m by (metis empty_iff empty_set)
qed

definition sample_flow :: flow where
  "sample_flow = \<lparr>f_key = ''flow'', max_buffer = 3, c2s = [], s2c = [], f_carved = {}\<rparr>"

lemma flow_buffer_is_stream_tail_witness:
  "fst (flow_append ''c2s'' [4] (append_all [(''c2s'', [1, 2]), (''s2c'', [9]), (''c2s'', [3])] sample_flow)) = [2, 3, 4]"
  using flow_buffer_is_stream_tail [of sample_flow "''c2s''" "[4]" "[(''c2s'', [1, 2]), (''s2c'', [9]), (''c2s'', [3])]"]
  by (simp add: sample_flow_def segments_of_def)

lemma carve_files_sound_witness:
  "length (fst (carve_files plain_env (sample_flow\<lparr>c2s := 77 # 90 # replicate 62 0\<rparr>) (new_detector 8))) \<le> 8"
  using carve_files_sound [of plain_env "sample_flow\<lparr>c2s := 77 # 90 # replicate 62 0\<rparr>" "new_detector 8"]
  by (cases "carve_files plain_env (sample_flow\<lparr>c2s := 77 # 90 # replicate 62 0\<rparr>) (new_detector 8)") (simp add: new_detector_def)

end
