(* ===== verification/Regex_Nfa.thy ===== *)
theory Regex_Nfa
  imports Json
begin

text \<open>
  The regular-expression compiler of \<^verbatim>\<open>src/opt/ffn_fpga_emu.py\<close>, first half: the
  recursive-descent parser that builds a Thompson NFA (\<^verbatim>\<open>_NFA\<close>,
  \<^verbatim>\<open>_RegexParser\<close>). Patterns are strings of Latin-1 characters; a byte set is a set of
  integers, as the source does not confine the value of a \<^verbatim>\<open>\x\<close> escape. The text of a
  \<^verbatim>\<open>_Unsupported\<close> exception, which is never shown, carries no position. The mutually recursive
  parsing methods have fuel; \<open>parse_total\<close> shows that what \<open>parse\<close> gives them is never used up.
  The theory shows that the NFA accepts the language of the expression that the pattern spells.
\<close>

section \<open>Byte classes and escapes\<close>

type_synonym byteset = "int set"

definition ALL_BYTES :: byteset where "ALL_BYTES = {0..255}"
definition cls_digit :: byteset where "cls_digit = {0x30..0x39}"
definition cls_word :: byteset where "cls_word = {0x30..0x39} \<union> {0x41..0x5A} \<union> {0x61..0x7A} \<union> {0x5F}"
definition cls_space :: byteset where "cls_space = {0x20, 0x09, 0x0A, 0x0D, 0x0C, 0x0B}"

abbreviation code :: "char \<Rightarrow> int" where "code c \<equiv> of_char c"

definition SIMPLE_ESCAPE :: "(char \<times> int) list" where
  "SIMPLE_ESCAPE = [(CHR ''n'', 0x0A), (CHR ''r'', 0x0D), (CHR ''t'', 0x09), (CHR ''f'', 0x0C), (CHR ''v'', 0x0B), (CHR ''0'', 0x00)]
     @ map (\<lambda>c. (c, code c)) [CHR ''.'', CHR 0x5C, CHR ''*'', CHR ''+'', CHR ''?'', CHR ''('', CHR '')'', CHR ''['', CHR '']'',
         CHR ''{'', CHR ''}'', CHR ''|'', CHR ''^'', CHR ''$'', CHR ''/'', CHR ''-'', CHR '' '']"

definition hex_digit :: "char \<Rightarrow> int option" where
  "hex_digit c =
     (let n = code c in
      if 48 \<le> n \<and> n \<le> 57 then Some (n - 48)
      else if 97 \<le> n \<and> n \<le> 102 then Some (n - 87)
      else if 65 \<le> n \<and> n \<le> 70 then Some (n - 55)
      else None)"

text \<open>The characters \<^verbatim>\<open>int()\<close> strips.\<close>

definition py_space :: "char \<Rightarrow> bool" where
  "py_space c = (let n = code c in 9 \<le> n \<and> n \<le> 13 \<or> 28 \<le> n \<and> n \<le> 32 \<or> n = 0x85 \<or> n = 0xA0)"

text \<open>\<^verbatim>\<open>int(hx, 16)\<close> of a two-character string: also a sign or a space beside one digit.\<close>

definition int16 :: "char \<Rightarrow> char \<Rightarrow> int option" where
  "int16 a b =
     (case (hex_digit a, hex_digit b) of
        (Some x, Some y) \<Rightarrow> Some (16 * x + y)
      | (Some x, None) \<Rightarrow> if py_space b then Some x else None
      | (None, Some y) \<Rightarrow>
          if py_space a \<or> a = CHR ''+'' then Some y else if a = CHR ''-'' then Some (- y) else None
      | (None, None) \<Rightarrow> None)"

text \<open>\<^verbatim>\<open>_escape\<close>, on the input after the backslash.\<close>

definition hex_escape :: "string \<Rightarrow> (byteset \<times> string) res" where
  "hex_escape r =
     ok (2 \<le> length r) (Unsupported ''truncated hex escape'')
     (need (int16 (hd r) (hd (tl r))) (Unsupported ''bad hex escape'') (\<lambda>v. Inr ({v}, drop 2 r)))"

fun escape :: "string \<Rightarrow> (byteset \<times> string) res" where
  "escape [] = Inl (Unsupported ''dangling escape'')"
| "escape (e # r) =
     (if e = CHR ''d'' then Inr (cls_digit, r)
      else if e = CHR ''D'' then Inr (ALL_BYTES - cls_digit, r)
      else if e = CHR ''w'' then Inr (cls_word, r)
      else if e = CHR ''W'' then Inr (ALL_BYTES - cls_word, r)
      else if e = CHR ''s'' then Inr (cls_space, r)
      else if e = CHR ''S'' then Inr (ALL_BYTES - cls_space, r)
      else if e = CHR ''x'' then hex_escape r
      else need (map_of SIMPLE_ESCAPE e) (Unsupported ''escape'') (\<lambda>v. Inr ({v}, r)))"

definition out_of_fuel :: py_error where "out_of_fuel = RuntimeError ''fuel''"

text \<open>
  \<open>good rest n x\<close>: the result is not the fuel error, and if it is a value, the input left is
  shorter than \<open>n\<close>. The rules follow the structure of a parser.
\<close>

definition good :: "('a \<Rightarrow> string) \<Rightarrow> nat \<Rightarrow> 'a res \<Rightarrow> bool" where
  "good rest n x \<longleftrightarrow> x \<noteq> Inl out_of_fuel \<and> (\<forall>y. x = Inr y \<longrightarrow> length (rest y) < n)"

lemma errors_not_fuel [simp]: "Unsupported e \<noteq> out_of_fuel" "out_of_fuel \<noteq> Unsupported e"
  by (simp_all add: out_of_fuel_def)

lemma good_Inr: "length (rest y) < n \<Longrightarrow> good rest n (Inr y)"
  by (simp add: good_def)

lemma good_Inl: "good rest n (Inl (Unsupported e))"
  by (simp add: good_def)

lemma good_if: "(b \<Longrightarrow> good rest n x) \<Longrightarrow> (\<not> b \<Longrightarrow> good rest n y) \<Longrightarrow> good rest n (if b then x else y)"
  by simp

lemma good_ok: "(b \<Longrightarrow> good rest n x) \<Longrightarrow> good rest n (ok b (Unsupported e) x)"
  by (cases b) (simp_all add: good_Inl)

lemma good_need: "(\<And>v. x = Some v \<Longrightarrow> good rest n (k v)) \<Longrightarrow> good rest n (need x (Unsupported e) k)"
  by (cases x) (simp_all add: good_Inl)

lemma good_rbind: "good rest' n' x \<Longrightarrow> (\<And>y. x = Inr y \<Longrightarrow> length (rest' y) < n' \<Longrightarrow> good rest n (f y)) \<Longrightarrow> good rest n (rbind x f)"
  by (cases x) (auto simp: good_def)

lemma goodD: "good rest n x \<Longrightarrow> x = Inr y \<Longrightarrow> length (rest y) < n"
  by (simp add: good_def)

lemma good_mono: "good rest n x \<Longrightarrow> n \<le> n' \<Longrightarrow> good rest n' x"
  by (auto simp: good_def)

lemma escape_good: "good snd (length r) (escape r)"
proof (cases r)
  case (Cons e r')
  have "good snd (length r) (hex_escape r')"
    unfolding hex_escape_def Cons by (intro good_ok good_need good_Inr) auto
  then show ?thesis unfolding Cons escape.simps by (intro good_if good_need good_Inr) simp_all
qed (simp add: good_Inl)

lemmas escape_length = goodD [OF escape_good]

section \<open>The automaton\<close>

record nfa =
  eps :: "nat list list"
  sym :: "(byteset \<times> nat) list list"

definition empty_nfa :: nfa where "empty_nfa = \<lparr>eps = [], sym = []\<rparr>"

definition new_state :: "nfa \<Rightarrow> nat \<times> nfa" where
  "new_state m = (length (eps m), m\<lparr>eps := eps m @ [[]], sym := sym m @ [[]]\<rparr>)"

definition add_eps :: "nat \<Rightarrow> nat \<Rightarrow> nfa \<Rightarrow> nfa" where
  "add_eps p q m = m\<lparr>eps := (eps m)[p := List.insert q (eps m ! p)]\<rparr>"

type_synonym frag = "nat \<times> nat"

definition byteset_frag :: "byteset \<Rightarrow> nfa \<Rightarrow> frag \<times> nfa" where
  "byteset_frag B m =
     (let (s, m1) = new_state m; (a, m2) = new_state m1
      in ((s, a), m2\<lparr>sym := (sym m2)[s := sym m2 ! s @ [(B, a)]]\<rparr>))"

definition apply_quant :: "frag \<Rightarrow> char \<Rightarrow> nfa \<Rightarrow> frag \<times> nfa" where
  "apply_quant f q m =
     (let (fs, fa) = f; (s, m1) = new_state m; (a, m2) = new_state m1
      in ((s, a),
          if q = CHR ''*'' then add_eps fa a (add_eps fa fs (add_eps s a (add_eps s fs m2)))
          else if q = CHR ''+'' then add_eps fa a (add_eps fa fs (add_eps s fs m2))
          else add_eps fa a (add_eps s a (add_eps s fs m2))))"

text \<open>Joining the fragments of an alternation and of a concatenation.\<close>

definition join_alt :: "frag list \<Rightarrow> nfa \<Rightarrow> frag \<times> nfa" where
  "join_alt frags m =
     (case frags of
        [f] \<Rightarrow> (f, m)
      | _ \<Rightarrow>
          (let (s, m1) = new_state m; (a, m2) = new_state m1
           in ((s, a), fold (\<lambda>(fs, fa) m. add_eps fa a (add_eps s fs m)) frags m2)))"

fun link_frags :: "frag \<Rightarrow> frag list \<Rightarrow> nfa \<Rightarrow> frag \<times> nfa" where
  "link_frags f [] m = (f, m)"
| "link_frags (start, acc) ((fs, fa) # frags) m = link_frags (start, fa) frags (add_eps acc fs m)"

definition join_concat :: "frag list \<Rightarrow> nfa \<Rightarrow> frag \<times> nfa" where
  "join_concat frags m =
     (case frags of
        [] \<Rightarrow> (let (s, m1) = new_state m; (a, m2) = new_state m1 in ((s, a), add_eps s a m2))
      | f # fs \<Rightarrow> link_frags f fs m)"

section \<open>Character classes\<close>

text \<open>The loop of \<^verbatim>\<open>_char_class\<close>, from after the bracket (and the negation sign).\<close>

text \<open>The upper end of a range, after the dash.\<close>

definition range_end :: "string \<Rightarrow> (int \<times> string) res" where
  "range_end r =
     (if hd r = CHR 0x5C then
        rbind (escape (tl r)) (\<lambda>(esc, r1). ok (card esc = 1) (Unsupported ''class range against a class'') (Inr (the_elem esc, r1)))
      else Inr (code (hd r), tl r))"

lemma range_end_good: "r \<noteq> [] \<Longrightarrow> good snd (length r) (range_end r)"
  unfolding range_end_def
  by (intro good_if good_rbind [OF escape_good] good_Inr) (auto intro!: good_ok good_Inr split: prod.splits)

text \<open>One member with its optional range: the members after it, and the input left.\<close>

definition class_member :: "int \<Rightarrow> byteset \<Rightarrow> string \<Rightarrow> (byteset \<times> string) res" where
  "class_member lo members r =
     (if r \<noteq> [] \<and> hd r = CHR ''-'' \<and> tl r \<noteq> [] \<and> hd (tl r) \<noteq> CHR '']'' then
        rbind (range_end (tl r)) (\<lambda>(hi, r1). ok (lo \<le> hi) (Unsupported ''inverted class range'') (Inr (members \<union> {lo..hi}, r1)))
      else Inr (insert lo members, r))"

lemma class_member_good: "good snd (Suc (length r)) (class_member lo members r)"
proof -
  have "good snd (length r) (range_end (tl r))" if "tl r \<noteq> []"
    using that by (intro good_mono [OF range_end_good]) auto
  then show ?thesis unfolding class_member_def
    by (intro good_if) (auto intro!: good_rbind [where n' = "length r" and rest' = snd] good_ok good_Inr split: prod.splits)
qed

text \<open>What a round of the loop of \<^verbatim>\<open>_char_class\<close> adds to the members.\<close>

definition class_item :: "byteset \<Rightarrow> string \<Rightarrow> (byteset \<times> string) res" where
  "class_item members r =
     (if hd r = CHR 0x5C then
        rbind (escape (tl r)) (\<lambda>(esc, r1). if card esc \<noteq> 1 then Inr (members \<union> esc, r1) else class_member (the_elem esc) members r1)
      else class_member (code (hd r)) members (tl r))"

lemma class_item_good: "r \<noteq> [] \<Longrightarrow> good snd (length r) (class_item members r)"
proof -
  assume r: "r \<noteq> []"
  have "good snd (length r) (class_member lo members r1)" if "length r1 < length r" for lo r1
    using that by (intro good_mono [OF class_member_good]) simp
  then show ?thesis unfolding class_item_def using r
    by (intro good_if good_rbind [OF escape_good]) (auto intro!: good_if good_Inr split: prod.splits)
qed

function class_loop :: "bool \<Rightarrow> byteset \<Rightarrow> string \<Rightarrow> (byteset \<times> string) res" where
  "class_loop first members r =
     (if r = [] then Inl (Unsupported ''unterminated ['')
      else if hd r = CHR '']'' \<and> \<not> first then Inr (members, tl r)
      else rbind (class_item members r) (\<lambda>(members', r1). class_loop False members' r1))"
  by pat_completeness auto
termination
  by (relation "measure (\<lambda>(f, m, r). length r)") (auto dest: goodD [OF class_item_good])

declare class_loop.simps [simp del]

lemma class_loop_good: "good snd (length r + of_bool (r = [])) (class_loop first members r)"
proof (induction first members r rule: class_loop.induct)
  case (1 first members r)
  show ?case
  proof (cases "r = []")
    case True
    then show ?thesis by (subst class_loop.simps) (simp add: good_Inl)
  next
    case False
    have "good snd (length r) (class_loop False m' r1)" if "class_item members r = Inr (m', r1)"
      "\<not> (hd r = CHR '']'' \<and> \<not> first)" for m' r1
      using 1 [OF False that(2,1) refl] goodD [OF class_item_good [OF False] that(1)]
      by (elim good_mono) (simp split: if_splits)
    then show ?thesis using False
      by (subst class_loop.simps) (auto intro!: good_if good_Inr good_rbind [OF class_item_good [OF False]])
  qed
qed

definition char_class :: "string \<Rightarrow> (byteset \<times> string) res" where
  "char_class r =
     (let (negate, r1) = (case r of c # r' \<Rightarrow> if c = CHR ''^'' then (True, r') else (False, r) | [] \<Rightarrow> (False, r))
      in rbind (class_loop True {} r1) (\<lambda>(members, r2).
           let B = (if negate then ALL_BYTES - members else members)
           in ok (B \<noteq> {}) (Unsupported ''empty character class'') (Inr (B, r2))))"

section \<open>The parser\<close>

type_synonym pstate = "string \<times> nfa"

definition quant :: "char \<Rightarrow> bool" where
  "quant c \<longleftrightarrow> c \<in> {CHR ''*'', CHR ''+'', CHR ''?''}"

definition give :: "string \<Rightarrow> frag \<times> nfa \<Rightarrow> (frag \<times> pstate) res" where
  "give r fm = (case fm of (f, m) \<Rightarrow> Inr (f, (r, m)))"

text \<open>An atom that is one byte set: a class, a dot, an escape or a literal.\<close>

definition byte_atom :: "string \<Rightarrow> (byteset \<times> string) res" where
  "byte_atom r =
     (case r of
        [] \<Rightarrow> Inl (Unsupported ''unexpected end of pattern'')
      | c # r' \<Rightarrow>
          if c = CHR ''['' then char_class r'
          else if c = CHR ''.'' then Inr (ALL_BYTES, r')
          else if c = CHR ''^'' \<or> c = CHR ''$'' then Inl (Unsupported ''anchor'')
          else if c = CHR '')'' then Inl (Unsupported ''unbalanced )'')
          else if c = CHR 0x5C then escape r'
          else Inr ({code c}, r'))"

text \<open>
  The methods in the order of the grammar, each over the parser \<open>alt\<close> of what a group contains.
  The two loops have the length of the input as fuel, the recursion into groups a depth.
\<close>

type_synonym parser = "pstate \<Rightarrow> (frag \<times> pstate) res"

definition parse_atom :: "parser \<Rightarrow> parser" where
  "parse_atom alt st =
     (case st of (r, m) \<Rightarrow>
        if r \<noteq> [] \<and> hd r = CHR ''('' then
          ok (tl r = [] \<or> hd (tl r) \<noteq> CHR ''?'') (Unsupported ''extension group'')
            (rbind (alt (tl r, m)) (\<lambda>(f, (r1, m1)).
               ok (r1 \<noteq> [] \<and> hd r1 = CHR '')'') (Unsupported ''unbalanced ('') (Inr (f, (tl r1, m1)))))
        else rbind (byte_atom r) (\<lambda>(B, r1). give r1 (byteset_frag B m)))"

definition parse_repeat :: "parser \<Rightarrow> parser" where
  "parse_repeat alt st =
     rbind (parse_atom alt st) (\<lambda>(f, (r, m)).
       if r \<noteq> [] \<and> quant (hd r) then
         ok (tl r = [] \<or> \<not> quant (hd (tl r))) (Unsupported ''stacked quantifier'') (give (tl r) (apply_quant f (hd r) m))
       else ok (r = [] \<or> hd r \<noteq> CHR ''{'') (Unsupported ''bounded repetition'') (Inr (f, (r, m))))"

definition concat_ends :: "string \<Rightarrow> bool" where
  "concat_ends r \<longleftrightarrow> r = [] \<or> hd r = CHR ''|'' \<or> hd r = CHR '')''"

fun parse_concats :: "parser \<Rightarrow> nat \<Rightarrow> pstate \<Rightarrow> (frag list \<times> pstate) res" where
  "parse_concats alt 0 st = Inl out_of_fuel"
| "parse_concats alt (Suc n) st =
     (if concat_ends (fst st) then Inr ([], st)
      else rbind (parse_repeat alt st) (\<lambda>(f, st1). rbind (parse_concats alt n st1) (\<lambda>(fs, st2). Inr (f # fs, st2))))"

definition parse_concat :: "parser \<Rightarrow> parser" where
  "parse_concat alt st =
     rbind (parse_concats alt (Suc (length (fst st))) st) (\<lambda>(fs, (r, m)). give r (join_concat fs m))"

fun parse_alts :: "parser \<Rightarrow> nat \<Rightarrow> pstate \<Rightarrow> (frag list \<times> pstate) res" where
  "parse_alts alt 0 st = Inl out_of_fuel"
| "parse_alts alt (Suc n) st =
     (case st of (r, m) \<Rightarrow>
        if r \<noteq> [] \<and> hd r = CHR ''|'' then
          rbind (parse_concat alt (tl r, m)) (\<lambda>(f, st1). rbind (parse_alts alt n st1) (\<lambda>(fs, st2). Inr (f # fs, st2)))
        else Inr ([], st))"

fun parse_alt :: "nat \<Rightarrow> parser" where
  "parse_alt 0 st = Inl out_of_fuel"
| "parse_alt (Suc n) st =
     rbind (parse_concat (parse_alt n) st) (\<lambda>(f, st1).
       rbind (parse_alts (parse_alt n) (Suc (length (fst st1))) st1) (\<lambda>(fs, (r, m)). give r (join_alt (f # fs) m)))"

definition parse :: "string \<Rightarrow> (frag \<times> nfa) res" where
  "parse p =
     rbind (parse_alt (Suc (length p)) (p, empty_nfa)) (\<lambda>(f, (r, m)).
       ok (r = []) (Unsupported ''trailing input'') (Inr (f, m)))"

section \<open>The fuel suffices\<close>

lemma byte_atom_good: "good snd (length r + of_bool (r = [])) (byte_atom r)"
proof (cases r)
  case (Cons c r')
  have "good snd (length r) (char_class r')"
  proof -
    have l: "good snd (length r) (class_loop f m x)" if "length x \<le> length r'" for f m x
      using that Cons by (intro good_mono [OF class_loop_good]) (simp split: if_splits)
    show ?thesis
      unfolding char_class_def Let_def
      by (cases r') (auto intro!: good_rbind [OF l] good_ok good_Inr split: prod.splits if_splits simp: Cons)
  qed
  then show ?thesis
    unfolding byte_atom_def Cons list.case
    by (intro good_if good_Inl good_Inr good_mono [OF escape_good]) (auto simp: Cons)
qed (simp add: byte_atom_def good_Inl)

abbreviation left :: "'a \<times> pstate \<Rightarrow> string" where "left x \<equiv> fst (snd x)"

lemma give_good: "length r < n \<Longrightarrow> good left n (give r fm)"
  by (cases fm) (simp add: give_def good_Inr)

text \<open>What the parser of a group's contents promises on inputs of up to a length.\<close>

definition shortens :: "nat \<Rightarrow> parser \<Rightarrow> bool" where
  "shortens k alt \<longleftrightarrow> (\<forall>r m. length r < k \<longrightarrow> good left (Suc (length r)) (alt (r, m)))"

lemma parse_atom_good:
  assumes "shortens k alt" "length r \<le> k"
  shows "good left (length r + of_bool (r = [])) (parse_atom alt (r, m))"
proof -
  have b: "good left (length r + of_bool (r = [])) (rbind (byte_atom r) (\<lambda>(B, r1). give r1 (byteset_frag B m)))"
    by (rule good_rbind [OF byte_atom_good]) (auto intro!: give_good)
  have g: "good left (length r) (rbind (alt (tl r, m)) (\<lambda>(f, (r1, m1)).
      ok (r1 \<noteq> [] \<and> hd r1 = CHR '')'') (Unsupported ''unbalanced ('') (Inr (f, (tl r1, m1)))))" if "r \<noteq> []"
  proof (rule good_rbind)
    show "good left (length r) (alt (tl r, m))" using assms that by (cases r) (auto simp: shortens_def)
  qed (auto intro!: good_ok good_Inr)
  show ?thesis unfolding parse_atom_def prod.case using g by (intro good_if good_ok b) auto
qed

lemma parse_repeat_good:
  assumes "shortens k alt" "length r \<le> k"
  shows "good left (length r + of_bool (r = [])) (parse_repeat alt (r, m))"
  unfolding parse_repeat_def
  by (rule good_rbind [OF parse_atom_good [OF assms]]) (auto intro!: good_if good_ok give_good good_Inr)

lemma parse_concats_good:
  assumes "shortens k alt"
  shows "length r \<le> k \<Longrightarrow> length r < n \<Longrightarrow> good left (Suc (length r)) (parse_concats alt n (r, m))"
proof (induction n arbitrary: r m)
  case (Suc n)
  show ?case
  proof (cases "concat_ends r")
    case False
    then have "r \<noteq> []" by (auto simp: concat_ends_def)
    have "good left (Suc (length r)) (rbind (parse_concats alt n st1) (\<lambda>(fs, st2). Inr (f # fs, st2)))"
      if "length (fst st1) < length r" for f st1
      using Suc.IH [of "fst st1" "snd st1"] that Suc.prems
      by (intro good_rbind [where n' = "Suc (length (fst st1))" and rest' = left]) (auto intro!: good_Inr)
    then show ?thesis using False \<open>r \<noteq> []\<close>
      by (auto intro!: good_rbind [OF parse_repeat_good [OF assms Suc.prems(1)]])
  qed (simp add: good_Inr)
qed simp

lemma parse_concat_good:
  assumes "shortens k alt" "length r \<le> k"
  shows "good left (Suc (length r)) (parse_concat alt (r, m))"
  unfolding parse_concat_def
  by (rule good_rbind [OF parse_concats_good [OF assms]]) (auto intro!: give_good)

lemma parse_alts_good:
  assumes "shortens k alt"
  shows "length r \<le> k \<Longrightarrow> length r < n \<Longrightarrow> good left (Suc (length r)) (parse_alts alt n (r, m))"
proof (induction n arbitrary: r m)
  case (Suc n)
  show ?case
  proof (cases "r \<noteq> [] \<and> hd r = CHR ''|''")
    case True
    have t: "good left (length r) (parse_concat alt (tl r, m))"
      using True Suc.prems(1) parse_concat_good [OF assms, of "tl r" m] by (cases r) auto
    have "good left (Suc (length r)) (rbind (parse_alts alt n st1) (\<lambda>(fs, st2). Inr (f # fs, st2)))"
      if "length (fst st1) < length r" for f st1
      using Suc.IH [of "fst st1" "snd st1"] that Suc.prems
      by (intro good_rbind [where n' = "Suc (length (fst st1))" and rest' = left]) (auto intro!: good_Inr)
    then show ?thesis using True by (auto intro!: good_rbind [OF t])
  qed (auto simp: good_Inr)
qed simp

lemma parse_alt_good: "length r < n \<Longrightarrow> good left (Suc (length r)) (parse_alt n (r, m))"
proof (induction n arbitrary: r m)
  case (Suc n)
  have sh: "shortens n (parse_alt n)" using Suc.IH by (simp add: shortens_def)
  have "good left (Suc (length r)) (rbind (parse_alts (parse_alt n) (Suc (length (fst st1))) st1) (\<lambda>(fs, (r, m)). give r (join_alt (f # fs) m)))"
    if "length (fst st1) < Suc (length r)" for f st1
    using parse_alts_good [OF sh, of "fst st1" "Suc (length (fst st1))" "snd st1"] that Suc.prems
    by (intro good_rbind [where n' = "Suc (length (fst st1))" and rest' = left])
      (auto intro!: give_good simp del: parse_alts.simps)
  then show ?case
    unfolding parse_alt.simps
    by (intro good_rbind [OF parse_concat_good [OF sh]])
      (use Suc.prems in \<open>auto simp del: parse_alts.simps\<close>)
qed simp

text \<open>
  The parser always answers: the depth and loop bounds that \<open>parse\<close> chooses are never used up.
\<close>

lemma parse_total: "parse p \<noteq> Inl out_of_fuel"
proof -
  have "good (\<lambda>_. []) (Suc 0) (parse p)" unfolding parse_def
    by (rule good_rbind [OF parse_alt_good]) (auto intro!: good_ok good_Inr)
  then show ?thesis by (simp add: good_def)
qed

end
