(* ===== verification/Regex_Lang.thy ===== *)
theory Regex_Lang
  imports Regex_Nfa
begin

text \<open>
  What the parser of \<^verbatim>\<open>Regex_Nfa\<close> builds. The expressions a pattern can spell, their
  grammar and their languages are defined independently of the automaton; the theory shows that
  the NFA of an accepted pattern accepts exactly the language of the expression it spells.
\<close>

section \<open>Expressions, their language and their spelling\<close>

datatype rx =
    Bytes byteset
  | Alts "rx list"
  | Cats "rx list"
  | Star rx
  | Plus rx
  | Opt rx

definition conc :: "bytes set \<Rightarrow> bytes set \<Rightarrow> bytes set" where
  "conc A B = {u @ v | u v. u \<in> A \<and> v \<in> B}"

inductive_set star :: "bytes set \<Rightarrow> bytes set" for A where
  star_Nil: "[] \<in> star A"
| star_append: "u \<in> A \<Longrightarrow> v \<in> star A \<Longrightarrow> u @ v \<in> star A"

fun lang :: "rx \<Rightarrow> bytes set" where
  "lang (Bytes B) = {[b] | b. uint b \<in> B}"
| "lang (Alts xs) = (\<Union>x \<in> set xs. lang x)"
| "lang (Cats xs) = foldr conc (map lang xs) {[]}"
| "lang (Star x) = star (lang x)"
| "lang (Plus x) = conc (lang x) (star (lang x))"
| "lang (Opt x) = insert [] (lang x)"

definition quantified :: "char \<Rightarrow> rx \<Rightarrow> rx" where
  "quantified c x = (if c = CHR ''*'' then Star x else if c = CHR ''+'' then Plus x else Opt x)"

text \<open>
  The grammar: an expression is spelled by the input up to a rest. What may follow decides between
  the rules: a sequence goes on until the end, a bar or a closing parenthesis, and an atom that
  is followed by a quantifier is quantified. The byte sets of a class and of an escape are those of
  the parser's own readers \<^const>\<open>char_class\<close> and \<^const>\<open>escape\<close>.
\<close>

definition starts :: "string \<Rightarrow> string \<Rightarrow> bool" where
  "starts cs r \<longleftrightarrow> r \<noteq> [] \<and> hd r \<in> set cs"

inductive g_alt :: "string \<Rightarrow> rx \<Rightarrow> string \<Rightarrow> bool"
  and g_alts :: "string \<Rightarrow> rx list \<Rightarrow> string \<Rightarrow> bool"
  and g_concat :: "string \<Rightarrow> rx list \<Rightarrow> string \<Rightarrow> bool"
  and g_repeat :: "string \<Rightarrow> rx \<Rightarrow> string \<Rightarrow> bool"
  and g_atom :: "string \<Rightarrow> rx \<Rightarrow> string \<Rightarrow> bool" where
  alt: "g_concat r xs r1 \<Longrightarrow> g_alts r1 ys r2 \<Longrightarrow> g_alt r (Alts (Cats xs # ys)) r2"
| alts_end: "\<not> starts ''|'' r \<Longrightarrow> g_alts r [] r"
| alts_bar: "g_concat r xs r1 \<Longrightarrow> g_alts r1 ys r2 \<Longrightarrow> g_alts (CHR ''|'' # r) (Cats xs # ys) r2"
| concat_end: "r = [] \<or> starts ''|)'' r \<Longrightarrow> g_concat r [] r"
| concat_more: "\<not> starts ''|)'' r \<Longrightarrow> g_repeat r x r1 \<Longrightarrow> g_concat r1 xs r2 \<Longrightarrow> g_concat r (x # xs) r2"
| once: "g_atom r x r1 \<Longrightarrow> \<not> starts ''*+?'' r1 \<Longrightarrow> g_repeat r x r1"
| times: "g_atom r x (c # r1) \<Longrightarrow> starts ''*+?'' [c] \<Longrightarrow> \<not> starts ''*+?'' r1 \<Longrightarrow> g_repeat r (quantified c x) r1"
| literal: "\<not> starts (''([.^$)'' @ [CHR 0x5C]) [c] \<Longrightarrow> g_atom (c # r) (Bytes {of_char c}) r"
| dot: "g_atom (CHR ''.'' # r) (Bytes {0..255}) r"
| char_set: "char_class r = Inr (B, r1) \<Longrightarrow> g_atom (CHR ''['' # r) (Bytes B) r1"
| escaped: "escape r = Inr (B, r1) \<Longrightarrow> g_atom (CHR 0x5C # r) (Bytes B) r1"
| group: "\<not> starts ''?'' r \<Longrightarrow> g_alt r x (CHR '')'' # r1) \<Longrightarrow> g_atom (CHR ''('' # r) x r1"

inductive_cases g_altE: "g_alt r x r'"
inductive_cases g_altsE: "g_alts r ys r'"
inductive_cases g_concatE: "g_concat r xs r'"
inductive_cases g_repeatE: "g_repeat r x r'"
inductive_cases g_atomE: "g_atom (c # r) x r'"

text \<open>The grammar is deterministic: an input spells at most one expression.\<close>

lemma grammar_det:
  "g_alt r x r1 \<Longrightarrow> g_alt r y r2 \<Longrightarrow> y = x \<and> r2 = r1"
  "g_alts r xs r1 \<Longrightarrow> g_alts r ys r2 \<Longrightarrow> ys = xs \<and> r2 = r1"
  "g_concat r xs r1 \<Longrightarrow> g_concat r ys r2 \<Longrightarrow> ys = xs \<and> r2 = r1"
  "g_repeat r x r1 \<Longrightarrow> g_repeat r y r2 \<Longrightarrow> y = x \<and> r2 = r1"
  "g_atom r x r1 \<Longrightarrow> g_atom r y r2 \<Longrightarrow> y = x \<and> r2 = r1"
proof (induction arbitrary: y r2 and ys r2 and ys r2 and y r2 and y r2 rule: g_alt_g_alts_g_concat_g_repeat_g_atom.inducts)
  case (alt r xs r1 ys r2')
  show ?case using alt.prems by (rule g_altE) (use alt.IH in blast)
next
  case (alts_end r)
  show ?case using alts_end.prems by (rule g_altsE) (use alts_end.hyps in \<open>auto simp: starts_def\<close>)
next
  case (alts_bar r xs r1 ys' r2')
  show ?case using alts_bar.prems by (rule g_altsE) (use alts_bar.IH in \<open>auto simp: starts_def\<close>)
next
  case (concat_end r)
  show ?case using concat_end.prems by (rule g_concatE) (use concat_end.hyps in \<open>auto simp: starts_def elim: g_repeatE g_atom.cases\<close>)
next
  case (concat_more r x r1 xs r2')
  show ?case using concat_more.prems
  proof (rule g_concatE)
    assume "ys = []" "r2 = r" "r = [] \<or> starts ''|)'' r"
    then have "r = []" using concat_more.hyps(1) by blast
    then show ?thesis using concat_more.hyps(2) by (auto elim: g_repeatE g_atom.cases)
  qed (use concat_more.IH in blast)
next
  case (once r x r1)
  show ?case using once.prems
  proof (rule g_repeatE)
    fix x' c assume "g_atom r x' (c # r2)" "starts ''*+?'' [c]"
    then show ?thesis using once.IH [of x' "c # r2"] once.hyps(2) by (auto simp: starts_def)
  qed (use once.IH in blast)
next
  case (times r x c r1)
  show ?case using times.prems
  proof (rule g_repeatE)
    assume "g_atom r y r2" "\<not> starts ''*+?'' r2"
    then show ?thesis using times.IH [of y r2] times.hyps(2) by (auto simp: starts_def)
  next
    fix x' c' assume "y = quantified c' x'" "g_atom r x' (c' # r2)"
    then show ?thesis using times.IH [of x' "c' # r2"] by auto
  qed
next
  case (literal c r)
  show ?case using literal.prems by (rule g_atomE) (use literal.hyps in \<open>auto simp: starts_def\<close>)
next
  case (dot r)
  show ?case using dot.prems by (rule g_atomE) (auto simp: starts_def)
next
  case (char_set r B r1)
  show ?case using char_set.prems by (rule g_atomE) (use char_set.hyps in \<open>auto simp: starts_def\<close>)
next
  case (escaped r B r1)
  show ?case using escaped.prems by (rule g_atomE) (use escaped.hyps in \<open>auto simp: starts_def\<close>)
next
  case (group r x r1)
  show ?case using group.prems by (rule g_atomE) (use group.IH in \<open>auto simp: starts_def\<close>)
qed

definition spells :: "string \<Rightarrow> rx \<Rightarrow> bool" where
  "spells p x \<longleftrightarrow> g_alt p x []"

lemma spells_unique: "spells p x \<Longrightarrow> spells p y \<Longrightarrow> y = x"
  unfolding spells_def using grammar_det(1) by blast

lemma quant_starts: "quant c \<longleftrightarrow> starts ''*+?'' [c]" "r \<noteq> [] \<and> quant (hd r) \<longleftrightarrow> starts ''*+?'' r"
  by (auto simp: quant_def starts_def)

lemma concat_ends_starts: "concat_ends r \<longleftrightarrow> r = [] \<or> starts ''|)'' r"
  by (auto simp: concat_ends_def starts_def)

lemma byte_atom_atom:
  assumes "byte_atom r = Inr (B, r')" "\<not> (r \<noteq> [] \<and> hd r = CHR ''('')"
  shows "g_atom r (Bytes B) r'"
proof -
  obtain c r1 where r: "r = c # r1" using assms(1) by (cases r) (auto simp: byte_atom_def)
  consider "c = CHR ''[''" | "c = CHR ''.''" | "c = CHR 0x5C" | "\<not> starts (''([.^$)'' @ [CHR 0x5C]) [c]" "B = {of_char c}" "r' = r1"
    using assms by (auto simp: byte_atom_def r starts_def split: if_splits)
  then show ?thesis
  proof cases
    case 1
    then show ?thesis using assms(1) char_set by (simp add: byte_atom_def r)
  next
    case 2
    then show ?thesis using assms(1) dot [of r1] by (simp add: byte_atom_def r ALL_BYTES_def)
  next
    case 3
    then show ?thesis using assms(1) escaped by (simp add: byte_atom_def r)
  next
    case 4
    then show ?thesis using literal by (simp add: r)
  qed
qed

section \<open>Runs of the automaton\<close>

definition len :: "nfa \<Rightarrow> nat" where "len m = length (eps m)"

definition eps_of :: "nfa \<Rightarrow> nat \<Rightarrow> nat set" where
  "eps_of m p = (if p < len m then set (eps m ! p) else {})"

definition sym_of :: "nfa \<Rightarrow> nat \<Rightarrow> (byteset \<times> nat) set" where
  "sym_of m p = (if p < len m then set (sym m ! p) else {})"

inductive reach :: "nfa \<Rightarrow> nat \<Rightarrow> bytes \<Rightarrow> nat \<Rightarrow> bool" for m where
  reach_refl: "reach m p [] p"
| reach_eps: "q \<in> eps_of m p \<Longrightarrow> reach m q w t \<Longrightarrow> reach m p w t"
| reach_sym: "(B, q) \<in> sym_of m p \<Longrightarrow> uint b \<in> B \<Longrightarrow> reach m q w t \<Longrightarrow> reach m p (b # w) t"

lemma reach_append: "reach m p u q \<Longrightarrow> reach m q v t \<Longrightarrow> reach m p (u @ v) t"
  by (induction rule: reach.induct) (auto intro: reach.intros)

lemma reach_mono:
  "reach m p w t \<Longrightarrow> (\<And>x. eps_of m x \<subseteq> eps_of m' x) \<Longrightarrow> (\<And>x. sym_of m x \<subseteq> sym_of m' x) \<Longrightarrow> reach m' p w t"
proof (induction rule: reach.induct)
  case (reach_eps q p w t)
  then show ?case by (meson reach.reach_eps subsetD)
next
  case (reach_sym B q p b w t)
  then show ?case by (meson reach.reach_sym subsetD)
qed (rule reach.reach_refl)

definition wf :: "nfa \<Rightarrow> bool" where "wf m \<longleftrightarrow> length (sym m) = len m"

lemma new_state_of:
  assumes "new_state m = (s, m')" "wf m"
  shows "s = len m" "len m' = Suc (len m)" "wf m'" "eps_of m' = eps_of m" "sym_of m' = sym_of m"
proof -
  have m: "s = len m" "m' = m\<lparr>eps := eps m @ [[]], sym := sym m @ [[]]\<rparr>" using assms by (auto simp: new_state_def len_def)
  show "s = len m" by (fact m(1))
  show "len m' = Suc (len m)" "wf m'" using m assms(2) by (simp_all add: len_def wf_def)
  show "eps_of m' = eps_of m" "sym_of m' = sym_of m"
    using m assms(2) by (auto simp: fun_eq_iff eps_of_def sym_of_def len_def wf_def nth_append less_Suc_eq)
qed

lemma add_eps_of:
  assumes "p < len m"
  shows "len (add_eps p q m) = len m" "wf (add_eps p q m) = wf m"
    "eps_of (add_eps p q m) = (eps_of m)(p := insert q (eps_of m p))" "sym_of (add_eps p q m) = sym_of m"
  using assms by (auto simp: add_eps_def len_def wf_def eps_of_def sym_of_def fun_eq_iff nth_list_update)

section \<open>Fragments\<close>

text \<open>
  A fragment occupies a range of states that no edge leaves; its accepting state has no edge;
  the words that lead from its start to its accepting state are a given language.
\<close>

definition closed :: "nfa \<Rightarrow> nat \<Rightarrow> nat \<Rightarrow> bool" where
  "closed m lo hi \<longleftrightarrow> (\<forall>p. lo \<le> p \<longrightarrow> p < hi \<longrightarrow> eps_of m p \<subseteq> {lo..<hi} \<and> snd ` sym_of m p \<subseteq> {lo..<hi})"

definition frag :: "nfa \<Rightarrow> nat \<Rightarrow> nat \<Rightarrow> nat \<times> nat \<Rightarrow> bytes set \<Rightarrow> bool" where
  "frag m lo hi f A \<longleftrightarrow> fst f \<in> {lo..<hi} \<and> snd f \<in> {lo..<hi} \<and> hi \<le> len m \<and> closed m lo hi
     \<and> eps_of m (snd f) = {} \<and> sym_of m (snd f) = {} \<and> (\<forall>w. reach m (fst f) w (snd f) \<longleftrightarrow> w \<in> A)"

definition same :: "nfa \<Rightarrow> nfa \<Rightarrow> nat \<Rightarrow> nat \<Rightarrow> bool" where
  "same m m' lo hi \<longleftrightarrow> (\<forall>p. lo \<le> p \<longrightarrow> p < hi \<longrightarrow> eps_of m' p = eps_of m p \<and> sym_of m' p = sym_of m p)"

lemma closed_step:
  "closed m lo hi \<Longrightarrow> lo \<le> p \<Longrightarrow> p < hi \<Longrightarrow> q \<in> eps_of m p \<Longrightarrow> lo \<le> q \<and> q < hi"
  "closed m lo hi \<Longrightarrow> lo \<le> p \<Longrightarrow> p < hi \<Longrightarrow> (B, q) \<in> sym_of m p \<Longrightarrow> lo \<le> q \<and> q < hi"
proof -
  assume c: "closed m lo hi" "lo \<le> p" "p < hi"
  show "lo \<le> q \<and> q < hi" if "q \<in> eps_of m p"
    using c that unfolding closed_def by (meson atLeastLessThan_iff subsetD)
  show "lo \<le> q \<and> q < hi" if "(B, q) \<in> sym_of m p"
  proof -
    have "q \<in> snd ` sym_of m p" using that by force
    then show ?thesis using c unfolding closed_def by (meson atLeastLessThan_iff subsetD)
  qed
qed

lemma reach_same:
  "reach m p w t \<Longrightarrow> closed m lo hi \<Longrightarrow> same m m' lo hi \<Longrightarrow> lo \<le> p \<Longrightarrow> p < hi \<Longrightarrow> reach m' p w t"
proof (induction rule: reach.induct)
  case (reach_eps q p w t)
  have "q \<in> eps_of m' p" using reach_eps.prems reach_eps.hyps(1) by (simp add: same_def)
  moreover have "lo \<le> q \<and> q < hi" by (rule closed_step(1) [OF reach_eps.prems(1,3,4) reach_eps.hyps(1)])
  ultimately show ?case using reach_eps.IH reach_eps.prems(1,2) reach.reach_eps by blast
next
  case (reach_sym B q p b w t)
  have "(B, q) \<in> sym_of m' p" using reach_sym.prems reach_sym.hyps(1) by (simp add: same_def)
  moreover have "lo \<le> q \<and> q < hi" by (rule closed_step(2) [OF reach_sym.prems(1,3,4) reach_sym.hyps(1)])
  ultimately show ?case using reach_sym.IH reach_sym.prems(1,2) reach_sym.hyps(2) reach.reach_sym by blast
qed (rule reach.reach_refl)

lemma same_closed: "same m m' lo hi \<Longrightarrow> closed m' lo hi = closed m lo hi"
  by (simp add: same_def closed_def)

lemma same_sym: "same m m' lo hi = same m' m lo hi"
  by (auto simp: same_def)

lemma frag_same:
  assumes "frag m lo hi f A" "same m m' lo hi" "hi \<le> len m'"
  shows "frag m' lo hi f A"
proof -
  have f: "lo \<le> fst f" "fst f < hi" "lo \<le> snd f" "snd f < hi" and c: "closed m lo hi" "closed m' lo hi"
    using assms same_closed [OF assms(2)] by (auto simp: frag_def)
  have "reach m' (fst f) w (snd f) \<longleftrightarrow> reach m (fst f) w (snd f)" for w
    using reach_same [OF _ c(1) assms(2) f(1,2)] reach_same [OF _ c(2) _ f(1,2), of w "snd f" m] assms(2) same_sym by blast
  moreover have "eps_of m' (snd f) = eps_of m (snd f)" "sym_of m' (snd f) = sym_of m (snd f)"
    using assms(2) f(3,4) by (simp_all add: same_def)
  ultimately show ?thesis using assms(1,3) c(2) by (simp add: frag_def)
qed

text \<open>Linking two neighbouring fragments by an edge from the first to the second.\<close>

lemma frag_link:
  assumes "frag m lo mid (s, a) A" "frag m mid hi (fs, fa) B"
  shows "frag (add_eps a fs m) lo hi (s, fa) (conc A B)" "same m (add_eps a fs m) 0 lo" "\<And>k. same m (add_eps a fs m) mid k"
    "len (add_eps a fs m) = len m"
proof -
  let ?m = "add_eps a fs m"
  have a: "a < len m" "lo \<le> a" "a < mid" "lo \<le> s" "s < mid" "mid \<le> fs" "fs < hi" "mid \<le> fa" "fa < hi" "hi \<le> len m"
    and cl: "closed m lo mid" "closed m mid hi" and e: "eps_of m a = {}" "sym_of m a = {}" "eps_of m fa = {}" "sym_of m fa = {}"
    and L: "\<And>w. reach m s w a \<longleftrightarrow> w \<in> A" "\<And>w. reach m fs w fa \<longleftrightarrow> w \<in> B"
    using assms by (auto simp: frag_def)
  note of = add_eps_of [OF a(1), of fs]
  show "len ?m = len m" by (fact of(1))
  show "same m ?m 0 lo" "\<And>k. same m ?m mid k" using a by (auto simp: same_def of)
  have path: "reach ?m p w t \<Longrightarrow> t = fa \<Longrightarrow> (lo \<le> p \<and> p < mid \<longrightarrow> (\<exists>u v. w = u @ v \<and> reach m p u a \<and> reach m fs v fa))
      \<and> (mid \<le> p \<and> p < hi \<longrightarrow> reach m p w fa)" for p w t
  proof (induction rule: reach.induct)
    case (reach_refl p)
    then show ?case using a by (auto intro: reach.reach_refl)
  next
    case (reach_eps q p w t)
    show ?case
    proof (cases "p = a")
      case True
      then have "q = fs" using reach_eps.hyps(1) e(1) by (simp add: of)
      then have "reach m fs w fa" using reach_eps.IH reach_eps.prems a by simp
      then have "w = [] @ w \<and> reach m p [] a \<and> reach m fs w fa" using True reach.reach_refl by simp
      then show ?thesis using True a by (metis not_less)
    next
      case False
      then have q: "q \<in> eps_of m p" using reach_eps.hyps(1) by (simp add: of)
      have "\<exists>u v. w = u @ v \<and> reach m p u a \<and> reach m fs v fa" if p: "lo \<le> p \<and> p < mid"
      proof -
        have "lo \<le> q \<and> q < mid" using closed_step(1) [OF cl(1) _ _ q] p by blast
        then obtain u v where "w = u @ v" "reach m q u a" "reach m fs v fa" using reach_eps.IH reach_eps.prems by blast
        then show ?thesis using reach.reach_eps [OF q] by blast
      qed
      moreover have "reach m p w fa" if p: "mid \<le> p \<and> p < hi"
        using closed_step(1) [OF cl(2) _ _ q] p reach_eps.IH reach_eps.prems reach.reach_eps [OF q] by blast
      ultimately show ?thesis by blast
    qed
  next
    case (reach_sym B' q p b w t)
    have q: "(B', q) \<in> sym_of m p" using reach_sym.hyps(1) by (simp add: of)
    have "\<exists>u v. b # w = u @ v \<and> reach m p u a \<and> reach m fs v fa" if p: "lo \<le> p \<and> p < mid"
    proof -
      have "lo \<le> q \<and> q < mid" using closed_step(2) [OF cl(1) _ _ q] p by blast
      then obtain u v where "w = u @ v" "reach m q u a" "reach m fs v fa" using reach_sym.IH reach_sym.prems by blast
      then have "b # w = (b # u) @ v \<and> reach m p (b # u) a \<and> reach m fs v fa" using reach.reach_sym [OF q reach_sym.hyps(2)] by simp
      then show ?thesis by blast
    qed
    moreover have "reach m p (b # w) fa" if p: "mid \<le> p \<and> p < hi"
      using closed_step(2) [OF cl(2) _ _ q] p reach_sym.IH reach_sym.prems reach.reach_sym [OF q reach_sym.hyps(2)] by blast
    ultimately show ?case by blast
  qed
  have fwd: "w \<in> conc A B" if "reach ?m s w fa" for w
    using path [OF that refl] a L by (auto simp: conc_def)
  have mono: "reach m p w t \<Longrightarrow> reach ?m p w t" for p w t by (erule reach_mono) (auto simp: of)
  have bwd: "reach ?m s w fa" if w0: "w \<in> conc A B" for w
  proof -
    obtain u v where w: "w = u @ v" "reach m s u a" "reach m fs v fa" using w0 L by (auto simp: conc_def)
    have "reach ?m a v fa" by (rule reach.reach_eps [OF _ mono [OF w(3)]]) (simp add: of)
    then show ?thesis using reach_append mono w(1,2) by blast
  qed
  have "closed ?m lo hi"
    unfolding closed_def
  proof (intro allI impI)
    fix p assume p: "lo \<le> p" "p < hi"
    have "eps_of m p \<subseteq> {lo..<hi} \<and> snd ` sym_of m p \<subseteq> {lo..<hi}"
    proof (cases "p < mid")
      case True
      then have "eps_of m p \<subseteq> {lo..<mid} \<and> snd ` sym_of m p \<subseteq> {lo..<mid}" using cl(1) p by (simp add: closed_def)
      moreover have "{lo..<mid} \<subseteq> {lo..<hi}" using a by auto
      ultimately show ?thesis by blast
    next
      case False
      then have "eps_of m p \<subseteq> {mid..<hi} \<and> snd ` sym_of m p \<subseteq> {mid..<hi}" using cl(2) p by (simp add: closed_def)
      moreover have "{mid..<hi} \<subseteq> {lo..<hi}" using a by auto
      ultimately show ?thesis by blast
    qed
    then show "eps_of ?m p \<subseteq> {lo..<hi} \<and> snd ` sym_of ?m p \<subseteq> {lo..<hi}" using a by (auto simp: of)
  qed
  then show "frag ?m lo hi (s, fa) (conc A B)" using a e fwd bwd by (auto simp: frag_def of)
qed

lemma reach_dead: "reach m p w t \<Longrightarrow> eps_of m p = {} \<Longrightarrow> sym_of m p = {} \<Longrightarrow> w = [] \<and> t = p"
  by (induction rule: reach.induct) auto

lemma reach_first:
  assumes "reach m p w t"
  obtains (stay) "p = t" "w = []" | (empty) q where "q \<in> eps_of m p" "reach m q w t"
    | (byte) B q b w' where "w = b # w'" "(B, q) \<in> sym_of m p" "uint b \<in> B" "reach m q w' t"
  using assms by (cases rule: reach.cases) blast+

lemma beyond [simp]: "len m \<le> p \<Longrightarrow> eps_of m p = {}" "len m \<le> p \<Longrightarrow> sym_of m p = {}"
  by (simp_all add: eps_of_def sym_of_def)

definition builds :: "nfa \<Rightarrow> nfa \<Rightarrow> nat \<times> nat \<Rightarrow> bytes set \<Rightarrow> bool" where
  "builds m m' f A \<longleftrightarrow> wf m' \<and> len m \<le> len m' \<and> same m m' 0 (len m) \<and> frag m' (len m) (len m') f A"

lemma two_states:
  assumes "wf m" "new_state m = (s, m1)" "new_state m1 = (a, m2)"
  shows "s = len m" "a = Suc (len m)" "len m2 = Suc (Suc (len m))" "wf m2" "eps_of m2 = eps_of m" "sym_of m2 = sym_of m"
  using new_state_of [OF assms(2,1)] new_state_of [OF assms(3)] by simp_all

lemma byteset_frag_builds:
  assumes "wf m" "byteset_frag B m = (f, m')"
  shows "builds m m' f {[b] | b. uint b \<in> B}"
proof -
  obtain s m1 a m2 where n: "new_state m = (s, m1)" "new_state m1 = (a, m2)" by fastforce
  note t = two_states [OF assms(1) n]
  have m': "f = (s, a)" "m' = m2\<lparr>sym := (sym m2)[s := sym m2 ! s @ [(B, a)]]\<rparr>"
    using assms(2) n by (auto simp: byteset_frag_def)
  have l: "len m' = len m2" "wf m'" using t(4) m' by (simp_all add: len_def wf_def)
  have "eps_of m' = eps_of m2" by (simp add: m' eps_of_def len_def fun_eq_iff)
  then have e: "eps_of m' = eps_of m" using t(5) by simp
  have "s < length (sym m2)" using t by (simp add: wf_def)
  then have "sym_of m' = (sym_of m2)(s := sym_of m2 s \<union> {(B, a)})"
    using t(1,3) by (auto simp: m' sym_of_def fun_eq_iff len_def nth_list_update)
  then have y: "sym_of m' = (sym_of m)(s := {(B, a)})" using t(1,6) by simp
  have "reach m' s w a \<longleftrightarrow> (\<exists>b. w = [b] \<and> uint b \<in> B)" for w
  proof
    assume "reach m' s w a"
    then show "\<exists>b. w = [b] \<and> uint b \<in> B"
    proof (cases rule: reach_first)
      case (byte B' q b w')
      then have "B' = B" "q = a" by (auto simp: y)
      then have "w' = []" using reach_dead [OF byte(4)] t y e by simp
      then show ?thesis using byte \<open>B' = B\<close> by blast
    qed (use t e in auto)
  next
    assume "\<exists>b. w = [b] \<and> uint b \<in> B"
    then show "reach m' s w a" using reach.reach_sym [of B a m' s _ "[]" a] reach.reach_refl by (auto simp: y)
  qed
  moreover have "closed m' (len m) (len m')" using t l e by (auto simp: closed_def y)
  ultimately show ?thesis using t l m'(1) e by (auto simp: builds_def frag_def same_def y)
qed

text \<open>The quantifiers: a loop back and a way past.\<close>

lemma frag_quant:
  assumes f: "frag m lo hi (fs, fa) A" "hi = len m"
    and m': "eps_of m' = (eps_of m)(hi := {fs} \<union> (if skip then {Suc hi} else {}), fa := {Suc hi} \<union> (if loop then {fs} else {}))"
      "sym_of m' = sym_of m" "len m' = Suc (Suc hi)"
  shows "frag m' lo (Suc (Suc hi)) (hi, Suc hi) ((if loop then conc A (star A) else A) \<union> (if skip then {[]} else {}))"
proof -
  have b: "lo \<le> fs" "fs < hi" "lo \<le> fa" "fa < hi" and cl: "closed m lo hi" and e: "eps_of m fa = {}" "sym_of m fa = {}"
    and L: "\<And>w. reach m fs w fa \<longleftrightarrow> w \<in> A" using f by (auto simp: frag_def)
  define T where "T = (if loop then star A else {[]})"
  have TA: "conc A T = (if loop then conc A (star A) else A)" by (auto simp: T_def conc_def)
  have loopT: "u @ v \<in> T" if "loop" "u \<in> A" "v \<in> T" for u v using that by (auto simp: T_def intro: star.intros)
  have end0: "eps_of m' (Suc hi) = {}" "sym_of m' (Suc hi) = {}" using b f(2) by (simp_all add: m')
  have path: "reach m' p w t \<Longrightarrow> t = Suc hi \<Longrightarrow> lo \<le> p \<Longrightarrow> p < hi \<Longrightarrow> \<exists>u v. w = u @ v \<and> reach m p u fa \<and> v \<in> T" for p w t
  proof (induction rule: reach.induct)
    case (reach_eps q p w t)
    show ?case
    proof (cases "p = fa")
      case True
      then consider "q = Suc hi" | "loop" "q = fs" using reach_eps.hyps(1) by (auto simp: m' split: if_splits)
      then have "w \<in> T"
      proof cases
        case 1
        then have "w = []" using reach_dead [OF reach_eps.hyps(2)] end0 by simp
        then show ?thesis by (auto simp: T_def intro: star.intros)
      next
        case 2
        then obtain u v where "w = u @ v" "reach m fs u fa" "v \<in> T" using reach_eps.IH reach_eps.prems(1) b by blast
        then show ?thesis using L loopT 2(1) by simp
      qed
      then show ?thesis using True reach.reach_refl [of m fa] by (intro exI [of _ "[]"] exI [of _ w]) simp
    next
      case False
      then have q: "q \<in> eps_of m p" using reach_eps.hyps(1) reach_eps.prems by (simp add: m' split: if_splits)
      then have "lo \<le> q \<and> q < hi" using closed_step(1) [OF cl] reach_eps.prems by blast
      then show ?thesis using reach_eps.IH reach_eps.prems(1) reach.reach_eps [OF q] by blast
    qed
  next
    case (reach_sym B q p b w t)
    have q: "(B, q) \<in> sym_of m p" using reach_sym.hyps(1) by (simp add: m')
    then have "lo \<le> q \<and> q < hi" using closed_step(2) [OF cl] reach_sym.prems by blast
    then obtain u v where "w = u @ v" "reach m q u fa" "v \<in> T" using reach_sym.IH reach_sym.prems(1) by blast
    then have "b # w = (b # u) @ v \<and> reach m p (b # u) fa \<and> v \<in> T" using reach.reach_sym [OF q reach_sym.hyps(2)] by simp
    then show ?case by blast
  qed simp
  have mono: "reach m p w t \<Longrightarrow> reach m' p w t" for p w t
    by (erule reach_mono) (use e f(2) in \<open>auto simp: m'\<close>)
  have out: "reach m' fa v (Suc hi)" if v0: "v \<in> T" for v
  proof -
    have stop: "reach m' fa [] (Suc hi)" by (rule reach.reach_eps [OF _ reach.reach_refl]) (use b in \<open>simp add: m'\<close>)
    have loop: "reach m' fa w (Suc hi)" if "loop" "w \<in> star A" for w
      using that(2)
    proof (induction rule: star.induct)
      case (star_append u v)
      have "reach m' fs (u @ v) (Suc hi)" using reach_append mono L star_append by blast
      moreover have "fs \<in> eps_of m' fa" using that(1) by (simp add: m')
      ultimately show ?case by (rule reach.reach_eps [rotated])
    qed (rule stop)
    show ?thesis using v0 stop loop by (auto simp: T_def split: if_splits)
  qed
  have "reach m' hi w (Suc hi) \<longleftrightarrow> w \<in> conc A T \<or> skip \<and> w = []" for w
  proof
    assume "reach m' hi w (Suc hi)"
    then show "w \<in> conc A T \<or> skip \<and> w = []"
    proof (cases rule: reach_first)
      case (empty q)
      then consider "q = fs" | "skip" "q = Suc hi" using b by (auto simp: m' split: if_splits)
      then show ?thesis
      proof cases
        case 1
        then show ?thesis using path [OF empty(2) refl] b L by (auto simp: conc_def)
      next
        case 2
        then show ?thesis using reach_dead [OF empty(2)] end0 by simp
      qed
    next
      case (byte B q b w')
      then show ?thesis using f(2) by (simp add: m')
    qed simp
  next
    have fs: "fs \<in> eps_of m' hi" using b by (simp add: m')
    assume "w \<in> conc A T \<or> skip \<and> w = []"
    then show "reach m' hi w (Suc hi)"
    proof
      assume "w \<in> conc A T"
      then obtain u v where "w = u @ v" "reach m fs u fa" "v \<in> T" using L by (auto simp: conc_def)
      then have "reach m' fs w (Suc hi)" using reach_append mono out by blast
      then show ?thesis by (rule reach.reach_eps [OF fs])
    next
      assume "skip \<and> w = []"
      then have "Suc hi \<in> eps_of m' hi" "w = []" using b by (simp_all add: m')
      then show ?thesis using reach.reach_eps [OF _ reach.reach_refl] by simp
    qed
  qed
  moreover have "closed m' lo (Suc (Suc hi))"
    unfolding closed_def
  proof (intro allI impI)
    fix p assume p: "lo \<le> p" "p < Suc (Suc hi)"
    have "eps_of m p \<subseteq> {lo..<hi} \<and> snd ` sym_of m p \<subseteq> {lo..<hi}"
      using p cl f(2) by (cases "p < hi") (simp_all add: closed_def)
    moreover have "{lo..<hi} \<subseteq> {lo..<Suc (Suc hi)}" "fs \<in> {lo..<Suc (Suc hi)}" "Suc hi \<in> {lo..<Suc (Suc hi)}" using b by auto
    moreover have "eps_of m' p \<subseteq> eps_of m p \<union> {fs, Suc hi}" "sym_of m' p = sym_of m p" by (auto simp: m')
    ultimately show "eps_of m' p \<subseteq> {lo..<Suc (Suc hi)} \<and> snd ` sym_of m' p \<subseteq> {lo..<Suc (Suc hi)}" by blast
  qed
  ultimately show ?thesis using b end0 m'(3) TA by (auto simp: frag_def)
qed

lemma builds_trans: "builds m m1 f A \<Longrightarrow> wf m2 \<Longrightarrow> len m1 \<le> len m2 \<Longrightarrow> same m1 m2 0 (len m) \<Longrightarrow> frag m2 (len m) (len m2) f' A' \<Longrightarrow> builds m m2 f' A'"
  by (auto simp: builds_def same_def)

lemma apply_quant_builds:
  assumes b: "builds m0 m f A" and q: "quant c" "apply_quant f c m = (f', m')"
  shows "builds m0 m' f' (if c = CHR ''*'' then star A else if c = CHR ''+'' then conc A (star A) else insert [] A)"
proof -
  obtain fs fa where f: "f = (fs, fa)" by (cases f)
  obtain s m1 a m2 where n: "new_state m = (s, m1)" "new_state m1 = (a, m2)" by fastforce
  have wf: "wf m" and fr: "frag m (len m0) (len m) (fs, fa) A" and le: "len m0 \<le> len m" using b f by (auto simp: builds_def)
  have fa: "fa < len m" "len m0 \<le> fa" "eps_of m fa = {}" using fr by (auto simp: frag_def)
  note t = two_states [OF wf n]
  define skip loop where k: "skip = (c \<noteq> CHR ''+'')" "loop = (c \<noteq> CHR ''?'')"
  define m3 where "m3 = (if skip then add_eps s a (add_eps s fs m2) else add_eps s fs m2)"
  have m3: "len m3 = len m2" "wf m3" "sym_of m3 = sym_of m" "eps_of m3 = (eps_of m)(len m := {fs} \<union> (if skip then {Suc (len m)} else {}))"
    using t add_eps_of [of s m2 fs] add_eps_of [of s "add_eps s fs m2" a] by (auto simp: m3_def fun_eq_iff)
  have m': "f' = (s, a)" "m' = (if loop then add_eps fa a (add_eps fa fs m3) else add_eps fa a m3)"
    using q n by (auto simp: apply_quant_def f k m3_def quant_def)
  have r: "len m' = Suc (Suc (len m))" "wf m'" "sym_of m' = sym_of m"
    "eps_of m' = (eps_of m)(len m := {fs} \<union> (if skip then {Suc (len m)} else {}), fa := {Suc (len m)} \<union> (if loop then {fs} else {}))"
  proof -
    have "fa < len m3" using fa t(3) m3(1) by simp
    note e1 = add_eps_of [OF this, of fs] and e2 = add_eps_of [OF this, of a]
    have "fa < len (add_eps fa fs m3)" using e1(1) \<open>fa < len m3\<close> by simp
    note e3 = add_eps_of [OF this, of a]
    show "len m' = Suc (Suc (len m))" "wf m'" "sym_of m' = sym_of m" using m3(1-3) t(3) by (simp_all add: m'(2) e1 e2 e3)
    show "eps_of m' = (eps_of m)(len m := {fs} \<union> (if skip then {Suc (len m)} else {}), fa := {Suc (len m)} \<union> (if loop then {fs} else {}))"
      using m3(4) fa(1,3) by (simp add: m'(2) e1 e2 e3, simp add: t(2))
  qed
  have "frag m' (len m0) (len m') f' ((if loop then conc A (star A) else A) \<union> (if skip then {[]} else {}))"
    using frag_quant [OF fr refl r(4,3,1)] r(1) t m'(1) by simp
  moreover have "insert [] (conc A (star A)) = star A"
  proof (rule set_eqI)
    show "w \<in> insert [] (conc A (star A)) \<longleftrightarrow> w \<in> star A" for w
      by (subst star.simps) (auto simp: conc_def)
  qed
  ultimately have "frag m' (len m0) (len m') f' (if c = CHR ''*'' then star A else if c = CHR ''+'' then conc A (star A) else insert [] A)"
    using q(1) by (auto simp: k quant_def)
  moreover have "same m m' 0 (len m0)" using r fa le by (auto simp: same_def)
  ultimately show ?thesis using builds_trans [OF b r(2)] r(1) by simp
qed

section \<open>Sequences of fragments\<close>

text \<open>Neighbouring fragments, each with its range and language.\<close>

type_synonym piece = "nat \<times> nat \<times> (nat \<times> nat) \<times> bytes set"

fun chain :: "nfa \<Rightarrow> nat \<Rightarrow> piece list \<Rightarrow> nat \<Rightarrow> bool" where
  "chain m lo [] hi = (lo = hi)"
| "chain m lo ((l, h, f, A) # ps) hi = (l = lo \<and> frag m l h f A \<and> chain m h ps hi)"

abbreviation frags_of :: "piece list \<Rightarrow> (nat \<times> nat) list" where "frags_of ps \<equiv> map (\<lambda>(l, h, f, A). f) ps"
abbreviation langs_of :: "piece list \<Rightarrow> bytes set list" where "langs_of ps \<equiv> map (\<lambda>(l, h, f, A). A) ps"

lemma frag_range: "frag m lo hi f A \<Longrightarrow> lo < hi \<and> hi \<le> len m"
  by (auto simp: frag_def)

lemma chain_le: "chain m lo ps hi \<Longrightarrow> lo \<le> hi"
  by (induction m lo ps hi rule: chain.induct) (auto dest: frag_range)

lemma chain_len: "chain m lo ps hi \<Longrightarrow> ps \<noteq> [] \<Longrightarrow> hi \<le> len m"
proof (induction m lo ps hi rule: chain.induct)
  case (2 m lo l h f A ps hi)
  then show ?case by (cases ps) (auto dest: frag_range)
qed simp

lemma chain_same: "chain m lo ps hi \<Longrightarrow> same m m' lo hi \<Longrightarrow> len m \<le> len m' \<Longrightarrow> chain m' lo ps hi"
proof (induction m lo ps hi rule: chain.induct)
  case (2 m lo l h f A ps hi)
  then have h: "h \<le> hi" "lo < h" "h \<le> len m" using chain_le [of m h ps hi] frag_range [of m lo h f A] by auto
  then have "same m m' lo h" "same m m' h hi" using 2(3) by (auto simp: same_def)
  then show ?case using 2 h frag_same [of m lo h f A m'] by auto
qed simp

lemma chain_append: "chain m lo (ps @ [(l, h, f, A)]) hi \<longleftrightarrow> chain m lo ps l \<and> frag m l h f A \<and> h = hi"
  by (induction ps arbitrary: lo) auto

lemma concI: "u \<in> A \<Longrightarrow> v \<in> B \<Longrightarrow> u @ v \<in> conc A B"
  by (auto simp: conc_def)

lemma concE:
  assumes "w \<in> conc A B"
  obtains u v where "w = u @ v" "u \<in> A" "v \<in> B"
  using assms by (auto simp: conc_def)

lemma conc_assoc: "conc (conc A B) C = conc A (conc B C)"
proof (intro set_eqI iffI)
  fix w assume "w \<in> conc (conc A B) C"
  then obtain x y z where "w = (x @ y) @ z" "x \<in> A" "y \<in> B" "z \<in> C" by (elim concE) blast
  then show "w \<in> conc A (conc B C)" using concI [of x A "y @ z"] concI [of y B z C] by simp
next
  fix w assume "w \<in> conc A (conc B C)"
  then obtain x y z where "w = x @ y @ z" "x \<in> A" "y \<in> B" "z \<in> C" by (elim concE) blast
  then show "w \<in> conc (conc A B) C" using concI [of "x @ y" "conc A B" z C] concI [of x A y B] by simp
qed

lemma conc_Nil [simp]: "conc A {[]} = A"
  by (auto simp: conc_def)

lemma link_frags_ok:
  "frag m lo h f A \<Longrightarrow> chain m h ps hi \<Longrightarrow> link_frags f (frags_of ps) m = (f', m') \<Longrightarrow> wf m \<Longrightarrow>
     frag m' lo hi f' (conc A (foldr conc (langs_of ps) {[]})) \<and> same m m' 0 lo \<and> len m' = len m \<and> wf m'"
proof (induction ps arbitrary: m f A h)
  case Nil
  then show ?case by (cases f) (auto simp: same_def)
next
  case (Cons x ps)
  obtain l h' fs fa B where x: "x = (l, h', (fs, fa), B)" by (metis prod.collapse)
  obtain s a where f: "f = (s, a)" by (cases f)
  let ?m = "add_eps a fs m"
  have fr: "frag m h h' (fs, fa) B" "chain m h' ps hi" using Cons.prems(2) x by auto
  have la: "a < len m" using Cons.prems(1) f by (auto simp: frag_def)
  note k = frag_link [OF Cons.prems(1) [unfolded f] fr(1)]
  have "same m ?m h' hi" using k(3) [of hi] frag_range [OF fr(1)] by (auto simp: same_def)
  then have "chain ?m h' ps hi" using chain_same [OF fr(2)] k(4) by simp
  moreover have "link_frags (s, fa) (frags_of ps) ?m = (f', m')" "wf ?m"
    using Cons.prems(3,4) add_eps_of(2) [OF la] by (simp_all add: x f)
  ultimately have "frag m' lo hi f' (conc (conc A B) (foldr conc (langs_of ps) {[]})) \<and> same ?m m' 0 lo \<and> len m' = len ?m \<and> wf m'"
    using Cons.IH [OF k(1)] by blast
  then show ?case using k(2,4) by (auto simp: x conc_assoc same_def)
qed

text \<open>What a loop of the parser builds: a chain of fragments on top of the states there were.\<close>

definition builds_chain :: "nfa \<Rightarrow> nfa \<Rightarrow> (nat \<times> nat) list \<Rightarrow> bytes set list \<Rightarrow> bool" where
  "builds_chain m m' fs As \<longleftrightarrow> wf m' \<and> len m \<le> len m' \<and> same m m' 0 (len m)
     \<and> (\<exists>ps. frags_of ps = fs \<and> langs_of ps = As \<and> chain m' (len m) ps (len m'))"

lemma builds_chain_Nil: "wf m \<Longrightarrow> builds_chain m m [] []"
  by (auto simp: builds_chain_def same_def)

lemma builds_chain_Cons:
  assumes "builds m m1 f A" "builds_chain m1 m2 fs As"
  shows "builds_chain m m2 (f # fs) (A # As)"
proof -
  obtain ps where ps: "frags_of ps = fs" "langs_of ps = As" "chain m2 (len m1) ps (len m2)"
    using assms(2) by (auto simp: builds_chain_def)
  have b: "len m \<le> len m1" "len m1 \<le> len m2" "same m m1 0 (len m)" "same m1 m2 0 (len m1)" "frag m1 (len m) (len m1) f A" "wf m2"
    using assms by (auto simp: builds_def builds_chain_def)
  have "frag m2 (len m) (len m1) f A" using frag_same [OF b(5)] b(2,4) by (simp add: same_def)
  moreover have "same m m2 0 (len m)" using b by (simp add: same_def)
  ultimately show ?thesis using ps b unfolding builds_chain_def
    by (intro conjI exI [of _ "(len m, len m1, f, A) # ps"]) auto
qed

lemma join_concat_builds:
  assumes c: "builds_chain m m1 fs As" and j: "join_concat fs m1 = (f, m2)"
  shows "builds m m2 f (foldr conc As {[]})"
proof -
  obtain ps where ps: "frags_of ps = fs" "langs_of ps = As" "chain m1 (len m) ps (len m1)" and b: "wf m1" "len m \<le> len m1" "same m m1 0 (len m)"
    using c by (auto simp: builds_chain_def)
  show ?thesis
  proof (cases ps)
    case Nil
    then have fs: "fs = []" "As = []" "len m1 = len m" using ps by auto
    obtain s n1 a n2 where n: "new_state m1 = (s, n1)" "new_state n1 = (a, n2)" by fastforce
    note t = two_states [OF b(1) n]
    have m2: "f = (s, a)" "m2 = add_eps s a n2" using j n by (auto simp: join_concat_def fs)
    have e: "len m2 = Suc (Suc (len m))" "wf m2" "eps_of m2 = (eps_of m1)(len m := {Suc (len m)})" "sym_of m2 = sym_of m1"
      using t fs add_eps_of [of s n2 a] m2 by auto
    have dead: "eps_of m2 (Suc (len m)) = {}" "sym_of m2 (Suc (len m)) = {}" using fs by (simp_all add: e)
    have "reach m2 (len m) w (Suc (len m)) \<longleftrightarrow> w = []" for w
    proof
      assume "reach m2 (len m) w (Suc (len m))"
      then show "w = []"
      proof (cases rule: reach_first)
        case (empty q)
        then have "q = Suc (len m)" by (simp add: e)
        then show ?thesis using reach_dead [OF empty(2)] dead by simp
      qed (use fs in \<open>simp_all add: e\<close>)
    next
      assume "w = []"
      moreover have "Suc (len m) \<in> eps_of m2 (len m)" by (simp add: e)
      ultimately show "reach m2 (len m) w (Suc (len m))" using reach.reach_eps [OF _ reach.reach_refl] by simp
    qed
    moreover have "closed m2 (len m) (len m2)" using fs by (auto simp: closed_def e)
    ultimately have "frag m2 (len m) (len m2) f {[]}" using dead e t fs m2 by (auto simp: frag_def)
    moreover have "same m m2 0 (len m)" using b(3) by (auto simp: same_def e)
    ultimately show ?thesis using e fs by (simp add: builds_def)
  next
    case (Cons x ps')
    obtain l h f0 A where x: "x = (l, h, f0, A)" by (metis prod.collapse)
    have "link_frags f0 (frags_of ps') m1 = (f, m2)" using j ps(1) Cons x by (auto simp: join_concat_def)
    then have "frag m2 (len m) (len m1) f (conc A (foldr conc (langs_of ps') {[]})) \<and> same m1 m2 0 (len m) \<and> len m2 = len m1 \<and> wf m2"
      using link_frags_ok [of m1 "len m" h f0 A ps' "len m1" f m2] ps(3) Cons x b(1) by auto
    then show ?thesis using ps(2) Cons x b by (auto simp: builds_def same_def)
  qed
qed

lemma chain_pieces: "chain m lo ps hi \<Longrightarrow> (l, h, f, A) \<in> set ps \<Longrightarrow> frag m l h f A \<and> lo \<le> l \<and> h \<le> hi"
proof (induction ps arbitrary: lo)
  case (Cons x ps)
  obtain l0 h0 f0 A0 where x: "x = (l0, h0, f0, A0)" by (metis prod.collapse)
  have h: "l0 = lo" "frag m lo h0 f0 A0" "chain m h0 ps hi" using Cons.prems(1) x by auto
  then show ?case using Cons.IH [OF h(3)] Cons.prems(2) x chain_le [OF h(3)] frag_range [OF h(2)] by auto
qed simp

lemma chain_disjoint:
  "chain m lo ps hi \<Longrightarrow> (l, h, f, A) \<in> set ps \<Longrightarrow> (l', h', f', A') \<in> set ps \<Longrightarrow> l \<le> p \<Longrightarrow> p < h \<Longrightarrow> l' \<le> p \<Longrightarrow> p < h' \<Longrightarrow>
     (l, h, f, A) = (l', h', f', A')"
proof (induction ps arbitrary: lo)
  case (Cons x ps)
  obtain l0 h0 f0 A0 where x: "x = (l0, h0, f0, A0)" by (metis prod.collapse)
  have c: "chain m h0 ps hi" using Cons.prems(1) x by auto
  have up: "h0 \<le> l1" if "(l1, h1, f1, A1) \<in> set ps" for l1 h1 f1 A1 using chain_pieces [OF c that] by blast
  show ?case
  proof (cases "(l, h, f, A) \<in> set ps \<and> (l', h', f', A') \<in> set ps")
    case True
    then show ?thesis using Cons.IH [OF c] Cons.prems by blast
  next
    case False
    then show ?thesis using Cons.prems x up [of l h f A] up [of l' h' f' A'] by auto
  qed
qed simp

lemma chain_covers: "chain m lo ps hi \<Longrightarrow> lo \<le> p \<Longrightarrow> p < hi \<Longrightarrow> \<exists>l h f A. (l, h, f, A) \<in> set ps \<and> l \<le> p \<and> p < h"
proof (induction ps arbitrary: lo)
  case (Cons x ps)
  obtain l h f A where x: "x = (l, h, f, A)" by (metis prod.collapse)
  have c: "l = lo" "chain m h ps hi" using Cons.prems(1) x by auto
  show ?case
  proof (cases "p < h")
    case True
    then have "(l, h, f, A) \<in> set (x # ps) \<and> l \<le> p \<and> p < h" using x c Cons.prems by simp
    then show ?thesis by blast
  next
    case False
    then obtain l' h' f' A' where "(l', h', f', A') \<in> set ps \<and> l' \<le> p \<and> p < h'" using Cons.IH [OF c(2)] Cons.prems(3) by auto
    then have "(l', h', f', A') \<in> set (x # ps) \<and> l' \<le> p \<and> p < h'" by simp
    then show ?thesis by blast
  qed
qed simp

lemma alt_fold:
  fixes s a :: nat
  shows "\<forall>f \<in> set fs. snd f < len m \<and> snd f \<noteq> s \<Longrightarrow> s < len m \<Longrightarrow>
    (let m' = fold (\<lambda>(fs, fa) m. add_eps fa a (add_eps s fs m)) fs m in
     len m' = len m \<and> wf m' = wf m \<and> sym_of m' = sym_of m
     \<and> eps_of m' = (\<lambda>p. eps_of m p \<union> (if p = s then fst ` set fs else {}) \<union> (if p \<in> snd ` set fs then {a} else {})))"
proof (induction fs arbitrary: m)
  case (Cons x fs)
  obtain u v where x: "x = (u, v)" by (cases x)
  let ?m = "add_eps v a (add_eps s u m)"
  have v: "v < len m" "v \<noteq> s" using Cons.prems x by auto
  have e: "len ?m = len m" "wf ?m = wf m" "sym_of ?m = sym_of m" "eps_of ?m = (eps_of m)(s := insert u (eps_of m s), v := insert a (eps_of m v))"
    using add_eps_of [OF Cons.prems(2), of u] add_eps_of [of v "add_eps s u m" a] v by auto
  have "\<forall>f \<in> set fs. snd f < len ?m \<and> snd f \<noteq> s" "s < len ?m" using Cons.prems e by auto
  note IH = Cons.IH [OF this, unfolded Let_def]
  show ?case unfolding Let_def fold_simps x prod.case
    using IH e v by (auto simp: fun_eq_iff)
qed (simp add: fun_eq_iff)

lemma if_subset: "(if b then X else {}) \<subseteq> X"
  by simp

lemma frag_alt:
  assumes ps: "chain m1 lo ps (len m1)"
    and e: "len m2 = Suc (Suc (len m1))" "sym_of m2 = sym_of m1"
      "eps_of m2 = (\<lambda>p. eps_of m1 p \<union> (if p = len m1 then fst ` set (frags_of ps) else {})
         \<union> (if p \<in> snd ` set (frags_of ps) then {Suc (len m1)} else {}))"
  shows "frag m2 lo (len m2) (len m1, Suc (len m1)) (\<Union>(set (langs_of ps)))"
proof -
  let ?s = "len m1" and ?a = "Suc (len m1)"
  have piece: "frag m1 l h f A" "lo \<le> l" "h \<le> ?s" if "(l, h, f, A) \<in> set ps" for l h f A
    using chain_pieces [OF ps that] by auto
  have accs: "\<exists>l h u A. (l, h, (u, q), A) \<in> set ps \<and> l \<le> q \<and> q < h \<and> q < ?s" if q: "q \<in> snd ` set (frags_of ps)" for q
  proof -
    obtain l h u A where m: "(l, h, (u, q), A) \<in> set ps" using q by auto
    then show ?thesis using piece [OF m] by (intro exI conjI) (auto simp: frag_def)
  qed
  have low: "\<forall>q \<in> snd ` set (frags_of ps). q < ?s" using accs by blast
  have dead: "eps_of m2 ?a = {}" "sym_of m2 ?a = {}" using low by (auto simp: e)
  have path: "reach m2 p w t \<Longrightarrow> t = ?a \<Longrightarrow> (l, h, (u, v), A) \<in> set ps \<Longrightarrow> l \<le> p \<Longrightarrow> p < h \<Longrightarrow> reach m1 p w v"
    for p w t l h u v A
  proof (induction rule: reach.induct)
    case (reach_refl p)
    then show ?case using piece(3) [OF reach_refl(2)] by simp
  next
    case (reach_eps q p w t)
    have cl: "closed m1 l h" "p < ?s" using piece [OF reach_eps.prems(2)] reach_eps.prems(4) by (auto simp: frag_def)
    show ?case
    proof (cases "q \<in> eps_of m1 p")
      case True
      then show ?thesis using reach_eps closed_step(1) [OF cl(1)] reach.reach_eps [OF True] by blast
    next
      case False
      then have q: "q = ?a" "p \<in> snd ` set (frags_of ps)" using reach_eps.hyps(1) cl(2) by (auto simp: e split: if_splits)
      then obtain l' h' u' A' where "(l', h', (u', p), A') \<in> set ps" "l' \<le> p" "p < h'" using accs [OF q(2)] by blast
      then have "p = v" using chain_disjoint [OF ps, of l h "(u, v)" A l' h' "(u', p)" A' p] reach_eps.prems by blast
      moreover have "w = []" using reach_dead [OF reach_eps.hyps(2)] dead q(1) by simp
      ultimately show ?thesis using reach.reach_refl by simp
    qed
  next
    case (reach_sym B q p b w t)
    have q: "(B, q) \<in> sym_of m1 p" using reach_sym.hyps(1) by (simp add: e)
    have "closed m1 l h" using piece(1) [OF reach_sym.prems(2)] by (simp add: frag_def)
    then show ?case using reach_sym closed_step(2) [of m1 l h p B q] reach.reach_sym [OF q] q by blast
  qed
  have mono: "reach m1 p w t \<Longrightarrow> reach m2 p w t" for p w t by (erule reach_mono) (auto simp: e)
  have "reach m2 ?s w ?a \<longleftrightarrow> w \<in> \<Union>(set (langs_of ps))" for w
  proof
    assume "reach m2 ?s w ?a"
    then show "w \<in> \<Union>(set (langs_of ps))"
    proof (cases rule: reach_first)
      case (empty q)
      have "?s \<notin> snd ` set (frags_of ps)" using low by blast
      then have "q \<in> fst ` set (frags_of ps)" using empty(1) by (simp add: e)
      then obtain l h v A where m: "(l, h, (q, v), A) \<in> set ps" by auto
      then have "l \<le> q" "q < h" using piece(1) [OF m] by (auto simp: frag_def)
      then have "reach m1 q w v" using path [OF empty(2) refl m] by blast
      then have "w \<in> A" using piece(1) [OF m] by (simp add: frag_def)
      then show ?thesis using m by force
    qed (simp_all add: e)
  next
    assume "w \<in> \<Union>(set (langs_of ps))"
    then obtain l h u v A where m: "(l, h, (u, v), A) \<in> set ps" "w \<in> A" by auto
    then have "reach m2 u w v" using piece(1) [OF m(1)] mono by (simp add: frag_def)
    moreover have "v \<in> snd ` set (frags_of ps)" "u \<in> fst ` set (frags_of ps)" using m(1) by force+
    then have "?a \<in> eps_of m2 v" "u \<in> eps_of m2 ?s" by (simp_all add: e)
    ultimately have "reach m2 u (w @ []) ?a" using reach_append reach.reach_eps [OF _ reach.reach_refl] by blast
    then show "reach m2 ?s w ?a" using reach.reach_eps \<open>u \<in> eps_of m2 ?s\<close> by simp
  qed
  moreover have "closed m2 lo (len m2)"
    unfolding closed_def
  proof (intro allI impI)
    fix p assume p: "lo \<le> p" "p < len m2"
    have old: "eps_of m1 p \<subseteq> {lo..<?s} \<and> snd ` sym_of m1 p \<subseteq> {lo..<?s}"
    proof (cases "p < ?s")
      case True
      then obtain l h f A where m: "(l, h, f, A) \<in> set ps" "l \<le> p" "p < h" using chain_covers [OF ps p(1)] by blast
      then have "eps_of m1 p \<subseteq> {l..<h} \<and> snd ` sym_of m1 p \<subseteq> {l..<h}" using piece(1) [OF m(1)] by (simp add: frag_def closed_def)
      moreover have "{l..<h} \<subseteq> {lo..<?s}" using piece(2,3) [OF m(1)] by auto
      ultimately show ?thesis by blast
    qed simp
    have new: "fst ` set (frags_of ps) \<subseteq> {lo..<?s}"
    proof
      fix q assume "q \<in> fst ` set (frags_of ps)"
      then obtain l h v A where m: "(l, h, (q, v), A) \<in> set ps" by auto
      then show "q \<in> {lo..<?s}" using piece [OF m] by (auto simp: frag_def)
    qed
    have up: "{lo..<?s} \<subseteq> {lo..<len m2}" "{?a} \<subseteq> {lo..<len m2}" using e(1) chain_le [OF ps] by auto
    have sub: "eps_of m2 p \<subseteq> eps_of m1 p \<union> fst ` set (frags_of ps) \<union> {?a}" unfolding e(3) by (intro Un_mono order_refl if_subset)
    have "eps_of m2 p \<subseteq> {lo..<len m2}"
      using old new up by (intro order_trans [OF sub] Un_least) (meson order_trans)+
    moreover have "snd ` sym_of m2 p \<subseteq> {lo..<len m2}" unfolding e(2) using old up(1) by (meson order_trans)
    ultimately show "eps_of m2 p \<subseteq> {lo..<len m2} \<and> snd ` sym_of m2 p \<subseteq> {lo..<len m2}" ..
  qed
  ultimately show ?thesis using dead e(1) chain_le [OF ps] by (auto simp: frag_def)
qed

lemma join_alt_builds:
  assumes c: "builds_chain m m1 fs As" and ne: "fs \<noteq> []" and j: "join_alt fs m1 = (f, m2)"
  shows "builds m m2 f (\<Union>(set As))"
proof -
  obtain ps where ps: "frags_of ps = fs" "langs_of ps = As" "chain m1 (len m) ps (len m1)" and b: "wf m1" "len m \<le> len m1" "same m m1 0 (len m)"
    using c by (auto simp: builds_chain_def)
  show ?thesis
  proof (cases "tl fs = []")
    case True
    then obtain x where x: "ps = [x]" using ps(1) ne by (cases ps) auto
    obtain l h f0 A where "x = (l, h, f0, A)" by (metis prod.collapse)
    then show ?thesis using j ps x b by (auto simp: join_alt_def builds_def)
  next
    case False
    obtain s n1 a n2 where n: "new_state m1 = (s, n1)" "new_state n1 = (a, n2)" by fastforce
    note t = two_states [OF b(1) n]
    have m2: "f = (s, a)" "m2 = fold (\<lambda>(fs, fa) m. add_eps fa a (add_eps s fs m)) fs n2"
      using j n False ne by (auto simp: join_alt_def split: list.splits)
    have piece: "frag m1 l h g A \<and> len m \<le> l \<and> h \<le> len m1" if "(l, h, g, A) \<in> set ps" for l h g A
      using chain_pieces [OF ps(3) that] .
    have ends: "\<exists>l h A. (l, h, g, A) \<in> set ps" if "g \<in> set fs" for g using that ps(1) by (force simp: image_iff)
    have "snd g < len n2 \<and> snd g \<noteq> s" if g: "g \<in> set fs" for g
    proof -
      obtain l h A where "(l, h, g, A) \<in> set ps" using ends [OF g] by blast
      then have "snd g < h" "h \<le> len m1" using piece by (auto simp: frag_def)
      then show ?thesis using t by simp
    qed
    then have e: "len m2 = Suc (Suc (len m1))" "wf m2" "sym_of m2 = sym_of m1"
      "eps_of m2 = (\<lambda>p. eps_of m1 p \<union> (if p = s then fst ` set fs else {}) \<union> (if p \<in> snd ` set fs then {a} else {}))"
      using alt_fold [of fs n2 s a] t m2(2) by (simp_all add: Let_def)
    have "frag m2 (len m) (len m2) (s, a) (\<Union>(set As))"
      using frag_alt [OF ps(3) e(1) e(3) e(4) [unfolded t(1,2) ps(1) [symmetric]]] unfolding t(1,2) ps(2) .
    moreover have "same m m2 0 (len m)"
    proof -
      have "len m \<le> snd g" if g: "g \<in> set fs" for g
      proof -
        obtain l h A where "(l, h, g, A) \<in> set ps" using ends [OF g] by blast
        then show ?thesis using piece by (fastforce simp: frag_def)
      qed
      then have "p \<notin> snd ` set fs" if "p < len m" for p using that by fastforce
      then show ?thesis using b(2,3) t by (simp add: same_def e)
    qed
    ultimately show ?thesis using e b(2) m2(1) by (simp add: builds_def)
  qed
qed

section \<open>The parser builds the language\<close>

definition sound_parser :: "parser \<Rightarrow> (string \<Rightarrow> rx \<Rightarrow> string \<Rightarrow> bool) \<Rightarrow> bool" where
  "sound_parser P g \<longleftrightarrow> (\<forall>r m f r' m'. wf m \<longrightarrow> P (r, m) = Inr (f, (r', m')) \<longrightarrow> (\<exists>x. g r x r' \<and> builds m m' f (lang x)))"

lemma sound_parserD:
  assumes "sound_parser P g" "wf m" "P (r, m) = Inr (f, (r', m'))"
  obtains x where "g r x r'" "builds m m' f (lang x)"
  using assms unfolding sound_parser_def by blast

lemma builds_wf: "builds m m' f A \<Longrightarrow> wf m'" "builds_chain m m' fs As \<Longrightarrow> wf m'"
  by (simp_all add: builds_def builds_chain_def)

lemma give_Inr [result_simps]: "give r fm = Inr (f, (r', m)) \<longleftrightarrow> fm = (f, m) \<and> r' = r"
  by (auto simp: give_def split: prod.splits)

lemma hd_tl: "r \<noteq> [] \<Longrightarrow> hd r = c \<Longrightarrow> r = c # tl r"
  by (cases r) auto

lemma parse_atom_sound:
  assumes "sound_parser alt g_alt"
  shows "sound_parser (parse_atom alt) g_atom"
  unfolding sound_parser_def
proof (intro allI impI)
  fix r m f r' m'
  assume wf: "wf m" and p: "parse_atom alt (r, m) = Inr (f, (r', m'))"
  show "\<exists>x. g_atom r x r' \<and> builds m m' f (lang x)"
  proof (cases "r \<noteq> [] \<and> hd r = CHR ''(''")
    case True
    then obtain r1 where a: "alt (tl r, m) = Inr (f, (r1, m'))" "r1 \<noteq> []" "hd r1 = CHR '')''" "r' = tl r1" and q: "\<not> starts ''?'' (tl r)"
      using p by (auto simp: parse_atom_def result_simps starts_def)
    obtain x where x: "g_alt (tl r) x r1" "builds m m' f (lang x)" using sound_parserD [OF assms wf a(1)] by blast
    have "r1 = CHR '')'' # r'" using a hd_tl by auto
    then have "g_atom (CHR ''('' # tl r) x r'" using x(1) group [OF q] by simp
    moreover have "r = CHR ''('' # tl r" using True by (cases r) auto
    ultimately show ?thesis using x(2) by metis
  next
    case False
    then obtain B where b: "byte_atom r = Inr (B, r')" "byteset_frag B m = (f, m')"
      using p by (auto simp: parse_atom_def result_simps)
    then show ?thesis
      using byteset_frag_builds [OF wf b(2)] byte_atom_atom [OF b(1) False] by (intro exI [of _ "Bytes B"]) simp
  qed
qed

lemma parse_repeat_sound:
  assumes "sound_parser alt g_alt"
  shows "sound_parser (parse_repeat alt) g_repeat"
  unfolding sound_parser_def
proof (intro allI impI)
  fix r m f r' m'
  assume wf: "wf m" and p: "parse_repeat alt (r, m) = Inr (f, (r', m'))"
  obtain f1 r1 m1 where a: "parse_atom alt (r, m) = Inr (f1, (r1, m1))" using p by (auto simp: parse_repeat_def result_simps)
  obtain x where x: "g_atom r x r1" "builds m m1 f1 (lang x)" using sound_parserD [OF parse_atom_sound [OF assms] wf a] by blast
  show "\<exists>x. g_repeat r x r' \<and> builds m m' f (lang x)"
  proof (cases "r1 \<noteq> [] \<and> quant (hd r1)")
    case True
    then have q: "apply_quant f1 (hd r1) m1 = (f, m')" "r' = tl r1" "\<not> starts ''*+?'' r'" using p a by (auto simp: parse_repeat_def result_simps quant_starts(2) [symmetric])
    have "r1 = hd r1 # r'" using True q(2) by simp
    then have "g_repeat r (quantified (hd r1) x) r'"
      using times [of r x "hd r1" r'] x(1) True q(3) quant_starts(1) by metis
    moreover have "builds m m' f (lang (quantified (hd r1) x))"
      using apply_quant_builds [OF x(2) _ q(1)] True by (simp add: quantified_def split: if_splits)
    ultimately show ?thesis by blast
  next
    case False
    then have "f = f1" "r' = r1" "m' = m1" using p a by (auto simp: parse_repeat_def result_simps)
    then show ?thesis using x once False unfolding quant_starts(2) by blast
  qed
qed

lemma parse_concats_sound:
  assumes "sound_parser alt g_alt"
  shows "wf m \<Longrightarrow> parse_concats alt n (r, m) = Inr (fs, (r', m')) \<Longrightarrow> \<exists>xs. g_concat r xs r' \<and> builds_chain m m' fs (map lang xs)"
proof (induction n arbitrary: r m fs)
  case (Suc n)
  show ?case
  proof (cases "concat_ends r")
    case True
    then have "fs = []" "r' = r" "m' = m" using Suc.prems(2) by auto
    then show ?thesis using builds_chain_Nil [OF Suc.prems(1)] concat_end True unfolding concat_ends_starts
      by (intro exI [of _ "[]"]) simp
  next
    case False
    then obtain f r1 m1 fs' where a: "parse_repeat alt (r, m) = Inr (f, (r1, m1))" "parse_concats alt n (r1, m1) = Inr (fs', (r', m'))" "fs = f # fs'"
      using Suc.prems(2) by (auto simp: result_simps)
    obtain x where x: "g_repeat r x r1" "builds m m1 f (lang x)"
      using sound_parserD [OF parse_repeat_sound [OF assms] Suc.prems(1) a(1)] by blast
    obtain xs where xs: "g_concat r1 xs r'" "builds_chain m1 m' fs' (map lang xs)" using Suc.IH [OF builds_wf(1) [OF x(2)] a(2)] by blast
    have "\<not> starts ''|)'' r" using False unfolding concat_ends_starts by blast
    then have "g_concat r (x # xs) r'" using x(1) xs(1) by (rule concat_more)
    moreover have "builds_chain m m' fs (map lang (x # xs))" using builds_chain_Cons [OF x(2) xs(2)] a(3) by simp
    ultimately show ?thesis by blast
  qed
qed simp

lemma parse_concat_sound:
  assumes "sound_parser alt g_alt" "wf m" "parse_concat alt (r, m) = Inr (f, (r', m'))"
  obtains xs where "g_concat r xs r'" "builds m m' f (lang (Cats xs))"
proof -
  obtain fs m1 where a: "parse_concats alt (Suc (length r)) (r, m) = Inr (fs, (r', m1))" "join_concat fs m1 = (f, m')"
    using assms(3) by (auto simp: parse_concat_def result_simps simp del: parse_concats.simps)
  obtain xs where xs: "g_concat r xs r'" "builds_chain m m1 fs (map lang xs)" using parse_concats_sound [OF assms(1,2) a(1)] by blast
  show ?thesis using that [OF xs(1)] join_concat_builds [OF xs(2) a(2)] by simp
qed

lemma parse_alts_sound:
  assumes "sound_parser alt g_alt"
  shows "wf m \<Longrightarrow> parse_alts alt n (r, m) = Inr (fs, (r', m')) \<Longrightarrow> \<exists>ys. g_alts r ys r' \<and> builds_chain m m' fs (map lang ys)"
proof (induction n arbitrary: r m fs)
  case (Suc n)
  show ?case
  proof (cases "r \<noteq> [] \<and> hd r = CHR ''|''")
    case False
    then have "fs = []" "r' = r" "m' = m" using Suc.prems(2) by (auto split: if_splits)
    moreover have "g_alts r [] r" using False by (intro alts_end) (simp add: starts_def)
    ultimately show ?thesis using builds_chain_Nil [OF Suc.prems(1)]
      by (intro exI [of _ "[]"]) simp
  next
    case True
    then obtain f r1 m1 fs' where a: "parse_concat alt (tl r, m) = Inr (f, (r1, m1))" "parse_alts alt n (r1, m1) = Inr (fs', (r', m'))" "fs = f # fs'"
      using Suc.prems(2) by (auto simp: result_simps)
    obtain xs where x: "g_concat (tl r) xs r1" "builds m m1 f (lang (Cats xs))" using parse_concat_sound [OF assms Suc.prems(1) a(1)] by blast
    obtain ys where ys: "g_alts r1 ys r'" "builds_chain m1 m' fs' (map lang ys)" using Suc.IH [OF builds_wf(1) [OF x(2)] a(2)] by blast
    have "g_alts (CHR ''|'' # tl r) (Cats xs # ys) r'" using x(1) ys(1) by (rule alts_bar)
    moreover have "r = CHR ''|'' # tl r" using True by (cases r) auto
    moreover have "builds_chain m m' fs (map lang (Cats xs # ys))" using builds_chain_Cons [OF x(2) ys(2)] a(3) by simp
    ultimately show ?thesis by metis
  qed
qed simp

lemma parse_alt_sound: "sound_parser (parse_alt n) g_alt"
proof (induction n)
  case (Suc n)
  show ?case
    unfolding sound_parser_def
  proof (intro allI impI)
    fix r m f r' m'
    assume wf: "wf m" and p: "parse_alt (Suc n) (r, m) = Inr (f, (r', m'))"
    obtain f1 r1 m1 where a1: "parse_concat (parse_alt n) (r, m) = Inr (f1, (r1, m1))"
      and p1: "rbind (parse_alts (parse_alt n) (Suc (length r1)) (r1, m1)) (\<lambda>(fs, (r, m)). give r (join_alt (f1 # fs) m)) = Inr (f, (r', m'))"
    proof -
      obtain y where y: "parse_concat (parse_alt n) (r, m) = Inr y"
        "(\<lambda>(f, st1). rbind (parse_alts (parse_alt n) (Suc (length (fst st1))) st1) (\<lambda>(fs, (r, m)). give r (join_alt (f # fs) m))) y = Inr (f, (r', m'))"
        using p unfolding parse_alt.simps rbind_Inr_iff by blast
      then show ?thesis by (cases y) (auto intro: that simp del: parse_alts.simps)
    qed
    obtain fs m2 where a: "parse_alts (parse_alt n) (Suc (length r1)) (r1, m1) = Inr (fs, (r', m2))" "join_alt (f1 # fs) m2 = (f, m')"
      using p1 unfolding rbind_Inr_iff by (auto simp: give_Inr)
    obtain xs where x: "g_concat r xs r1" "builds m m1 f1 (lang (Cats xs))" using parse_concat_sound [OF Suc wf a1] by blast
    obtain ys where ys: "g_alts r1 ys r'" "builds_chain m1 m2 fs (map lang ys)"
      using parse_alts_sound [OF Suc builds_wf(1) [OF x(2)] a(1)] by blast
    have "g_alt r (Alts (Cats xs # ys)) r'" using x(1) ys(1) by (rule alt)
    moreover have "builds m m' f (lang (Alts (Cats xs # ys)))"
      using join_alt_builds [OF builds_chain_Cons [OF x(2) ys(2)] _ a(2)] by simp
    ultimately show "\<exists>x. g_alt r x r' \<and> builds m m' f (lang x)" by blast
  qed
qed (simp add: sound_parser_def)

text \<open>
  The NFA of an accepted pattern: the words it accepts are the language of an expression that
  the pattern spells.
\<close>

lemma parse_sound:
  assumes "parse p = Inr ((s, a), m)"
  obtains x where "spells p x" "\<And>w. reach m s w a \<longleftrightarrow> w \<in> lang x" "wf m" "s < len m" "a < len m" "closed m 0 (len m)"
proof -
  have e: "wf empty_nfa" "len empty_nfa = 0" by (simp_all add: wf_def len_def empty_nfa_def)
  have "parse_alt (Suc (length p)) (p, empty_nfa) = Inr ((s, a), ([], m))"
  proof -
    obtain y where y: "parse_alt (Suc (length p)) (p, empty_nfa) = Inr y"
      "(\<lambda>(f, (r, m)). ok (r = []) (Unsupported ''trailing input'') (Inr (f, m))) y = Inr ((s, a), m)"
      using assms unfolding parse_def rbind_Inr_iff by blast
    then show ?thesis by (cases y) (simp add: ok_Inr_iff split_beta del: parse_alt.simps)
  qed
  then obtain x where "g_alt p x []" "builds empty_nfa m (s, a) (lang x)" using sound_parserD [OF parse_alt_sound e(1)] by blast
  then show ?thesis using that by (auto simp: builds_def frag_def spells_def e)
qed

end
