(* ===== verification/Regex_Dfa.thy ===== *)
theory Regex_Dfa
  imports Regex_Lang
begin

text \<open>
  The regular-expression compiler of \<^verbatim>\<open>src/opt/ffn_fpga_emu.py\<close>, second half: epsilon
  closure, subset construction with its bound on the number of states, the dense transition
  table, and the matcher (\<^verbatim>\<open>_eps_closure\<close>, \<^verbatim>\<open>_subset_construct\<close>,
  \<^verbatim>\<open>_dfa_match_at\<close>, \<^verbatim>\<open>find_all\<close>). A Python set is iterated in ascending order here;
  the order only decides the numbering of the table's states.
\<close>

section \<open>Subset construction\<close>

definition eps_list :: "nfa \<Rightarrow> nat \<Rightarrow> nat list" where
  "eps_list m s = (if s < len m then eps m ! s else [])"

text \<open>The inner loop: unseen targets are marked and pushed.\<close>

fun push_unseen :: "nat list \<Rightarrow> nat list \<times> nat set \<Rightarrow> nat list \<times> nat set" where
  "push_unseen [] st = st"
| "push_unseen (t # ts) (stack, seen) =
     push_unseen ts (if t \<notin> seen then (t # stack, insert t seen) else (stack, seen))"

definition targets :: "nfa \<Rightarrow> nat set" where "targets m = \<Union>(set ` set (eps m))"

lemma eps_list_targets: "set (eps_list m s) \<subseteq> targets m"
  by (auto simp: eps_list_def targets_def len_def intro: nth_mem)

lemma push_unseen_seen: "push_unseen ts (stack, seen) = (stack', seen') \<Longrightarrow> seen' = seen \<union> set ts"
  by (induction ts arbitrary: stack seen) (auto split: if_splits)

lemma push_unseen_stack:
  "push_unseen ts (stack, seen) = (stack', seen') \<Longrightarrow>
     set stack' = set stack \<union> (set ts - seen) \<and> (set ts \<subseteq> seen \<longrightarrow> stack' = stack)"
  by (induction ts arbitrary: stack seen) (auto split: if_splits)

function eps_close :: "nfa \<Rightarrow> nat list \<Rightarrow> nat set \<Rightarrow> nat set" where
  "eps_close m [] seen = seen"
| "eps_close m (s # stack) seen = (case push_unseen (eps_list m s) (stack, seen) of (stack', seen') \<Rightarrow> eps_close m stack' seen')"
  by pat_completeness auto
termination
proof (relation "inv_image (less_than <*lex*> less_than) (\<lambda>(m, stack, seen). (card (targets m - seen), length stack))", goal_cases)
  case (2 m s stack seen stack' seen')
  have ss: "seen' = seen \<union> set (eps_list m s)" and st: "set (eps_list m s) \<subseteq> seen \<longrightarrow> stack' = stack"
    using push_unseen_seen push_unseen_stack 2 by metis+
  have fin: "finite (targets m)" by (simp add: targets_def)
  show ?case
  proof (cases "set (eps_list m s) \<subseteq> seen")
    case True
    then show ?thesis using ss st by (simp add: Un_absorb2)
  next
    case False
    then have "targets m - seen' \<subset> targets m - seen" using ss eps_list_targets [of m s] by blast
    then have "card (targets m - seen') < card (targets m - seen)" using fin by (intro psubset_card_mono) auto
    then show ?thesis by simp
  qed
qed auto

definition eps_closure :: "nfa \<Rightarrow> nat set \<Rightarrow> nat set" where
  "eps_closure m states = eps_close m (sorted_list_of_set states) states"

record dfa =
  trans :: "int list list"
  accept :: "nat set"
  start :: nat
  n_states :: nat

text \<open>The symbol transitions of a set of states, collected byte by byte.\<close>

definition add_target :: "nat \<Rightarrow> int \<Rightarrow> (int, nat set) odict \<Rightarrow> (int, nat set) odict" where
  "add_target tgt b d = dict_set b (insert tgt (case map_of d b of Some T \<Rightarrow> T | None \<Rightarrow> {})) d"

definition by_byte :: "nfa \<Rightarrow> nat set \<Rightarrow> (int, nat set) odict" where
  "by_byte m cur =
     fold (\<lambda>st d. fold (\<lambda>(B, tgt) d. fold (add_target tgt) (sorted_list_of_set B) d) (sym m ! st) d) (sorted_list_of_set cur) []"

definition MAX_STATES :: nat where "MAX_STATES = 4096"

fun index_in :: "'a list \<Rightarrow> 'a \<Rightarrow> nat option" where
  "index_in [] x = None"
| "index_in (y # ys) x = (if y = x then Some 0 else map_option Suc (index_in ys x))"

text \<open>\<^verbatim>\<open>row[b] = j\<close>, where a negative index counts from the end of the row.\<close>

definition set_row :: "int \<Rightarrow> nat \<Rightarrow> int list \<Rightarrow> int list res" where
  "set_row b j row =
     (if 0 \<le> b \<and> b < 256 then Inr (row[nat b := int j])
      else if -256 \<le> b \<and> b < 0 then Inr (row[nat (256 + b) := int j])
      else Inl IndexError)"

definition row_entry :: "nfa \<Rightarrow> nat \<Rightarrow> int \<times> nat set \<Rightarrow> nat set list \<times> int list \<Rightarrow> (nat set list \<times> int list) res" where
  "row_entry m max_states item st =
     (case (item, st) of ((b, tgts), (order, row)) \<Rightarrow>
        (let nxt = eps_closure m tgts in
         case index_in order nxt of
           Some j \<Rightarrow> rbind (set_row b j row) (\<lambda>row'. Inr (order, row'))
         | None \<Rightarrow>
             ok (length order < max_states) (Unsupported ''DFA state explosion'')
               (rbind (set_row b (length order) row) (\<lambda>row'. Inr (order @ [nxt], row')))))"

type_synonym sc_state = "nat set list \<times> int list list \<times> nat set"

fun subset_loop :: "nat \<Rightarrow> nfa \<Rightarrow> nat \<Rightarrow> nat \<Rightarrow> nat \<Rightarrow> sc_state \<Rightarrow> sc_state res" where
  "subset_loop 0 m acc max_states idx st = Inl out_of_fuel"
| "subset_loop (Suc n) m acc max_states idx st =
     (case st of (order, tr, accs) \<Rightarrow>
      if idx < length order then
        rbind (fold_res (row_entry m max_states) (by_byte m (order ! idx)) (order, replicate 256 (- 1))) (\<lambda>(order', row).
          subset_loop n m acc max_states (idx + 1)
            (order', tr @ [row], if acc \<in> order ! idx then insert idx accs else accs))
      else Inr st)"

definition subset_construct :: "nfa \<Rightarrow> nat \<Rightarrow> nat \<Rightarrow> nat \<Rightarrow> dfa res" where
  "subset_construct m s acc max_states =
     rbind (subset_loop (Suc (max 1 max_states)) m acc max_states 0 ([eps_closure m {s}], [], {})) (\<lambda>(order, tr, accs).
       Inr \<lparr>trans = tr, accept = accs, start = 0, n_states = length order\<rparr>)"

section \<open>Matching\<close>

fun match_loop :: "dfa \<Rightarrow> nat \<Rightarrow> int \<Rightarrow> nat \<Rightarrow> bytes \<Rightarrow> int" where
  "match_loop d state best j [] = best"
| "match_loop d state best j (b # rest) =
     (let nxt = trans d ! state ! unat b in
      if nxt < 0 then best
      else match_loop d (nat nxt) (if nat nxt \<in> accept d then int (j + 1) else best) (j + 1) rest)"

definition dfa_match_at :: "dfa \<Rightarrow> bytes \<Rightarrow> nat \<Rightarrow> int" where
  "dfa_match_at d data i = match_loop d (start d) (if start d \<in> accept d then int i else - 1) i (drop i data)"

function find_all_dfa :: "dfa \<Rightarrow> bytes \<Rightarrow> nat \<Rightarrow> (nat \<times> nat) list" where
  "find_all_dfa d data i =
     (if i < length data then
        (let stop = dfa_match_at d data i in
         if stop > int i then (i, nat stop) # find_all_dfa d data (nat stop) else find_all_dfa d data (i + 1))
      else [])"
  by pat_completeness auto
termination
  by (relation "measure (\<lambda>(d, data, i). length data - i)") auto

declare find_all_dfa.simps [simp del]

section \<open>Closures\<close>

lemma eps_close_char:
  "set stack \<subseteq> seen \<Longrightarrow> (\<forall>p \<in> seen - set stack. eps_of m p \<subseteq> seen) \<Longrightarrow>
     eps_close m stack seen = {q. \<exists>p \<in> seen. (p, q) \<in> {(x, y). y \<in> eps_of m x}\<^sup>*}"
proof (induction m stack seen rule: eps_close.induct)
  case (1 m seen)
  let ?R = "{(x, y). y \<in> eps_of m x}"
  have "q \<in> seen" if "(p, q) \<in> ?R\<^sup>*" "p \<in> seen" for p q
    using that by (induction rule: rtrancl_induct) (use 1 in auto)
  then show ?case by auto
next
  case (2 m s stack seen)
  let ?R = "{(x, y). y \<in> eps_of m x}"
  obtain stack' seen' where p: "push_unseen (eps_list m s) (stack, seen) = (stack', seen')" by fastforce
  have e: "set (eps_list m s) = eps_of m s" by (simp add: eps_list_def eps_of_def)
  have sp: "seen' = seen \<union> eps_of m s" "set stack' = set stack \<union> (eps_of m s - seen)"
    using push_unseen_seen [OF p] push_unseen_stack [OF p] e by auto
  have c1: "set stack' \<subseteq> seen'" using 2(2) sp by auto
  have c2: "\<forall>p \<in> seen' - set stack'. eps_of m p \<subseteq> seen'" using 2(3) sp by auto
  have "eps_close m (s # stack) seen = {q. \<exists>p \<in> seen'. (p, q) \<in> ?R\<^sup>*}"
    using 2(1) [OF p [symmetric] c1 c2] p by simp
  also have "\<dots> = {q. \<exists>p \<in> seen. (p, q) \<in> ?R\<^sup>*}"
  proof (intro Collect_cong iffI)
    fix q assume "\<exists>p \<in> seen'. (p, q) \<in> ?R\<^sup>*"
    then obtain p where p: "p \<in> seen'" "(p, q) \<in> ?R\<^sup>*" ..
    show "\<exists>p \<in> seen. (p, q) \<in> ?R\<^sup>*"
    proof (cases "p \<in> seen")
      case False
      then have "(s, p) \<in> ?R" using p(1) sp(1) by simp
      then have "(s, q) \<in> ?R\<^sup>*" using p(2) by (rule converse_rtrancl_into_rtrancl)
      moreover have "s \<in> seen" using 2(2) by simp
      ultimately show ?thesis by (rule bexI)
    qed (use p(2) in \<open>rule bexI\<close>)
  qed (use sp(1) in blast)
  finally show ?case .
qed

lemma eps_closure_char:
  assumes "finite A"
  shows "eps_closure m A = {q. \<exists>p \<in> A. reach m p [] q}"
proof -
  have "(p, q) \<in> {(x, y). y \<in> eps_of m x}\<^sup>* \<longleftrightarrow> reach m p [] q" for p q
  proof
    assume "(p, q) \<in> {(x, y). y \<in> eps_of m x}\<^sup>*"
    then show "reach m p [] q" by (induction rule: converse_rtrancl_induct) (auto intro: reach.intros)
  next
    have "reach m p w q \<Longrightarrow> w = [] \<Longrightarrow> (p, q) \<in> {(x, y). y \<in> eps_of m x}\<^sup>*" for w
      by (induction rule: reach.induct) (auto intro: converse_rtrancl_into_rtrancl)
    then show "reach m p [] q \<Longrightarrow> (p, q) \<in> {(x, y). y \<in> eps_of m x}\<^sup>*" by blast
  qed
  then show ?thesis unfolding eps_closure_def using eps_close_char [of "sorted_list_of_set A" A m] assms by simp
qed

lemma finite_eps_closure: "finite A \<Longrightarrow> finite (eps_closure m A)"
proof -
  assume A: "finite A"
  have "reach m p w q \<Longrightarrow> w = [] \<Longrightarrow> q = p \<or> q \<in> \<Union>(set ` set (eps m))" for p w q
  proof (induction rule: reach.induct)
    case (reach_eps q p w t)
    then have "q \<in> \<Union>(set ` set (eps m))" by (auto simp: eps_of_def len_def split: if_splits intro: nth_mem)
    then show ?case using reach_eps by auto
  qed simp_all
  then have "eps_closure m A \<subseteq> A \<union> \<Union>(set ` set (eps m))" unfolding eps_closure_char [OF A] by blast
  then show ?thesis by (rule finite_subset) (use A in simp)
qed

section \<open>One step of the construction\<close>

definition in_bytes :: "nfa \<Rightarrow> bool" where
  "in_bytes m \<longleftrightarrow> list_all (list_all (\<lambda>(B, t). B \<subseteq> {0..255})) (sym m)"

definition step :: "nfa \<Rightarrow> nat set \<Rightarrow> int \<Rightarrow> nat set" where
  "step m S b = {t. \<exists>p \<in> S. \<exists>B. (B, t) \<in> sym_of m p \<and> b \<in> B}"

definition found :: "(int, nat set) odict \<Rightarrow> int \<Rightarrow> nat set" where
  "found d b = (case map_of d b of Some T \<Rightarrow> T | None \<Rightarrow> {})"

definition tidy :: "(int, nat set) odict \<Rightarrow> bool" where
  "tidy d \<longleftrightarrow> distinct (map fst d) \<and> (\<forall>b T. map_of d b = Some T \<longrightarrow> T \<noteq> {})"

lemma add_target_step: "found (add_target t b d) c = found d c \<union> (if c = b then {t} else {})" "tidy d \<Longrightarrow> tidy (add_target t b d)"
  by (auto simp: found_def add_target_def tidy_def distinct_dict_set split: option.splits if_splits)

lemma add_targets_step:
  "found (fold (add_target t) bs d) c = found d c \<union> (if c \<in> set bs then {t} else {})"
  "tidy d \<Longrightarrow> tidy (fold (add_target t) bs d)"
  by (induction bs arbitrary: d) (auto simp: add_target_step)

lemma add_edges_step:
  assumes "\<forall>(B, t) \<in> set l. finite B"
  shows "found (fold (\<lambda>(B, tgt) d. fold (add_target tgt) (sorted_list_of_set B) d) l d) c = found d c \<union> {t. \<exists>B. (B, t) \<in> set l \<and> c \<in> B}"
    "tidy d \<Longrightarrow> tidy (fold (\<lambda>(B, tgt) d. fold (add_target tgt) (sorted_list_of_set B) d) l d)"
  using assms by (induction l arbitrary: d) (auto simp: add_targets_step split: if_splits)

lemma by_byte_step:
  assumes "in_bytes m" "wf m" "S \<subseteq> {..<len m}"
  shows "found (by_byte m S) b = step m S b" "tidy (by_byte m S)"
proof -
  let ?f = "\<lambda>st d. fold (\<lambda>(B, tgt) d. fold (add_target tgt) (sorted_list_of_set B) d) (sym m ! st) d"
  have fin: "\<forall>(B, t) \<in> set (sym m ! st). finite B" if "st < len m" for st
  proof -
    have "st < length (sym m)" using that assms(2) by (simp add: wf_def)
    then have "list_all (\<lambda>(B, t). B \<subseteq> {0..255}) (sym m ! st)" using assms(1) unfolding in_bytes_def by (simp add: list_all_length)
    then show ?thesis using finite_subset [of _ "{0..255::int}"] by (fastforce simp: list_all_iff)
  qed
  have *: "found (fold ?f l d) b = found d b \<union> {t. \<exists>st \<in> set l. \<exists>B. (B, t) \<in> set (sym m ! st) \<and> b \<in> B}"
    "tidy d \<Longrightarrow> tidy (fold ?f l d)" if "set l \<subseteq> {..<len m}" for l d
    using that by (induction l arbitrary: d) (auto simp: add_edges_step [OF fin])
  have S: "set (sorted_list_of_set S) = S" using assms(3) finite_subset by (metis finite_lessThan set_sorted_list_of_set)
  have "{t. \<exists>st \<in> S. \<exists>B. (B, t) \<in> set (sym m ! st) \<and> b \<in> B} = step m S b"
    using assms(3) by (auto simp: step_def sym_of_def)
  then show "found (by_byte m S) b = step m S b"
    unfolding by_byte_def using *(1) [of "sorted_list_of_set S" "[]"] S assms(3) by (simp add: found_def)
  show "tidy (by_byte m S)"
    unfolding by_byte_def using *(2) [of "sorted_list_of_set S" "[]"] S assms(3) by (simp add: tidy_def)
qed

lemma step_bytes: "in_bytes m \<Longrightarrow> wf m \<Longrightarrow> step m S b \<noteq> {} \<Longrightarrow> 0 \<le> b \<and> b < 256"
proof -
  assume a: "in_bytes m" "wf m" "step m S b \<noteq> {}"
  then obtain p B t where "(B, t) \<in> sym_of m p" "b \<in> B" unfolding step_def by blast
  then have "p < length (sym m)" "(B, t) \<in> set (sym m ! p)" "b \<in> B" using a(2) by (auto simp: sym_of_def wf_def split: if_splits)
  then have "B \<subseteq> {0..255}" using a(1) unfolding in_bytes_def list_all_length by (fastforce simp: list_all_iff in_set_conv_nth)
  then show ?thesis using \<open>b \<in> B\<close> by auto
qed

lemma step_in: "closed m 0 (len m) \<Longrightarrow> step m S b \<subseteq> {..<len m}"
proof
  fix t assume c: "closed m 0 (len m)" "t \<in> step m S b"
  then obtain p B where "(B, t) \<in> sym_of m p" unfolding step_def by blast
  moreover from this have "p < len m" by (auto simp: sym_of_def split: if_splits)
  ultimately show "t \<in> {..<len m}" using closed_step(2) [OF c(1), of p B t] by simp
qed

lemma reach_in: "reach m p w q \<Longrightarrow> closed m 0 (len m) \<Longrightarrow> p < len m \<Longrightarrow> q < len m"
proof (induction rule: reach.induct)
  case (reach_eps q p w t)
  then show ?case using closed_step(1) [OF reach_eps.prems(1) _ reach_eps.prems(2) reach_eps.hyps(1)] by simp
next
  case (reach_sym B q p b w t)
  then show ?case using closed_step(2) [OF reach_sym.prems(1) _ reach_sym.prems(2) reach_sym.hyps(1)] by simp
qed simp

lemma closure_in: "closed m 0 (len m) \<Longrightarrow> A \<subseteq> {..<len m} \<Longrightarrow> eps_closure m A \<subseteq> {..<len m}"
  using reach_in [of m] finite_subset [of A "{..<len m}"] by (auto simp: eps_closure_char)

lemma index_in_Some: "index_in xs x = Some j \<Longrightarrow> j < length xs \<and> xs ! j = x"
  by (induction xs arbitrary: j) (auto split: if_splits)

lemma index_in_None: "index_in xs x = None \<longleftrightarrow> x \<notin> set xs"
  by (induction xs) auto

lemmas index_in_facts = index_in_Some index_in_None

section \<open>The table\<close>

definition entry_ok :: "nfa \<Rightarrow> nat set list \<Rightarrow> nat set \<Rightarrow> int \<Rightarrow> bool" where
  "entry_ok m order T x \<longleftrightarrow> (if T = {} then x = - 1 else \<exists>j < length order. x = int j \<and> order ! j = eps_closure m T)"

definition row_ok :: "nfa \<Rightarrow> nat set list \<Rightarrow> (int \<Rightarrow> nat set) \<Rightarrow> int list \<Rightarrow> bool" where
  "row_ok m order f row \<longleftrightarrow> length row = 256 \<and> (\<forall>b. 0 \<le> b \<longrightarrow> b < 256 \<longrightarrow> entry_ok m order (f b) (row ! nat b))"

definition sets_ok :: "nfa \<Rightarrow> nat set list \<Rightarrow> bool" where
  "sets_ok m order \<longleftrightarrow> (\<forall>S \<in> set order. \<exists>A. A \<subseteq> {..<len m} \<and> S = eps_closure m A)"

lemma entry_ok_mono: "entry_ok m order T x \<Longrightarrow> entry_ok m (order @ new) T x"
  by (auto simp: entry_ok_def nth_append split: if_splits)

lemma row_ok_mono: "row_ok m order f row \<Longrightarrow> row_ok m (order @ new) f row"
  by (auto simp: row_ok_def entry_ok_mono)

lemma row_entry_step:
  assumes e: "row_entry m M (b, T) (order, row) = Inr (order', row')"
    and r: "row_ok m order f row" and b: "0 \<le> b" "b < 256" and T: "T \<noteq> {}" "T \<subseteq> {..<len m}" and o: "sets_ok m order" "length order \<le> max 1 M"
  shows "\<exists>new. order' = order @ new" "row_ok m order' (f(b := T)) row'" "sets_ok m order'" "length order' \<le> max 1 M"
proof -
  have upd: "row_ok m order2 (f(b := T)) (row[nat b := int j])" if "row_ok m order2 f row" "j < length order2" "order2 ! j = eps_closure m T" for order2 j
  proof -
    have "nat b < 256" using b by simp
    moreover have "row[nat b := int j] ! nat c = row ! nat c" if "0 \<le> c" "c \<noteq> b" for c using that b by simp
    ultimately have "entry_ok m order2 ((f(b := T)) c) (row[nat b := int j] ! nat c)" if "0 \<le> c" "c < 256" for c
      using that \<open>row_ok m order2 f row\<close> \<open>j < length order2\<close> \<open>order2 ! j = _\<close> T unfolding row_ok_def
      by (cases "c = b") (auto simp: entry_ok_def [of _ _ T])
    then show ?thesis using \<open>row_ok m order2 f row\<close> by (simp add: row_ok_def)
  qed
  have "(\<exists>new. order' = order @ new) \<and> row_ok m order' (f(b := T)) row' \<and> sets_ok m order' \<and> length order' \<le> max 1 M"
  proof (cases "index_in order (eps_closure m T)")
    case None
    then have eq: "order' = order @ [eps_closure m T]" "row' = row[nat b := int (length order)]" "length order < M"
      using e b by (auto simp: row_entry_def set_row_def ok_Inr_iff rbind_def)
    have "row_ok m order' (f(b := T)) row'" unfolding eq by (rule upd [OF row_ok_mono [OF r]]) auto
    then show ?thesis using eq o T by (auto simp: sets_ok_def)
  next
    case (Some j)
    then have eq: "order' = order" "row' = row[nat b := int j]" using e b by (auto simp: row_entry_def set_row_def rbind_def)
    then show ?thesis using o upd [OF r] index_in_Some [OF Some] by auto
  qed
  then show "\<exists>new. order' = order @ new" "row_ok m order' (f(b := T)) row'" "sets_ok m order'" "length order' \<le> max 1 M" by auto
qed

lemma row_entries:
  assumes "fold_res (row_entry m M) items (order, row) = Inr (order', row')" "row_ok m order f row" "distinct (map fst items)"
    and "\<forall>(b, T) \<in> set items. 0 \<le> b \<and> b < 256 \<and> T \<noteq> {} \<and> T \<subseteq> {..<len m}" "sets_ok m order" "length order \<le> max 1 M"
  shows "(\<exists>new. order' = order @ new) \<and> row_ok m order' (\<lambda>b. case map_of items b of Some T \<Rightarrow> T | None \<Rightarrow> f b) row'
    \<and> sets_ok m order' \<and> length order' \<le> max 1 M"
  using assms
proof (induction items arbitrary: order row f)
  case (Cons it items)
  obtain b T where it: "it = (b, T)" by fastforce
  obtain x where x: "row_entry m M (b, T) (order, row) = Inr x" "fold_res (row_entry m M) items x = Inr (order', row')"
    using Cons.prems(1) it by (auto simp: rbind_Inr_iff)
  obtain o2 r2 where x2: "x = (o2, r2)" by fastforce
  have T: "0 \<le> b" "b < 256" "T \<noteq> {}" "T \<subseteq> {..<len m}" using Cons.prems(4) it by auto
  note st = row_entry_step [OF x(1) [unfolded x2] Cons.prems(2) T Cons.prems(5,6)]
  have n: "map_of items b = None" using Cons.prems(3) it by (simp add: map_of_eq_None_iff)
  have ih: "(\<exists>new. order' = o2 @ new) \<and> row_ok m order' (\<lambda>c. case map_of items c of Some T \<Rightarrow> T | None \<Rightarrow> (f(b := T)) c) row'
    \<and> sets_ok m order' \<and> length order' \<le> max 1 M"
    by (rule Cons.IH [OF x(2) [unfolded x2] st(2) _ _ st(3,4)]) (use Cons.prems(3,4) in auto)
  have "(\<lambda>c. case map_of items c of Some T \<Rightarrow> T | None \<Rightarrow> (f(b := T)) c) = (\<lambda>c. case map_of (it # items) c of Some T \<Rightarrow> T | None \<Rightarrow> f c)"
    using n it by (auto simp: fun_eq_iff split: option.splits)
  then show ?case using ih st(1) by auto
qed simp

lemma table_row:
  assumes m: "in_bytes m" "wf m" "closed m 0 (len m)" and S: "S \<subseteq> {..<len m}"
    and f: "fold_res (row_entry m M) (by_byte m S) (order, replicate 256 (- 1)) = Inr (order', row)"
    and o: "sets_ok m order" "length order \<le> max 1 M"
  shows "(\<exists>new. order' = order @ new) \<and> row_ok m order' (step m S) row \<and> sets_ok m order' \<and> length order' \<le> max 1 M"
proof -
  note bb = by_byte_step [OF m(1,2) S]
  have items: "\<forall>(b, T) \<in> set (by_byte m S). 0 \<le> b \<and> b < 256 \<and> T \<noteq> {} \<and> T \<subseteq> {..<len m}"
  proof clarify
    fix b T assume "(b, T) \<in> set (by_byte m S)"
    then have mo: "map_of (by_byte m S) b = Some T" using bb(2) unfolding tidy_def by simp
    then have T: "T = step m S b" using bb(1) [of b] by (simp add: found_def)
    have "T \<noteq> {}" using mo bb(2) unfolding tidy_def by blast
    then show "0 \<le> b \<and> b < 256 \<and> T \<noteq> {} \<and> T \<subseteq> {..<len m}" using step_bytes [OF m(1,2)] step_in [OF m(3)] T by simp
  qed
  have "row_ok m order (\<lambda>b. {}) (replicate 256 (- 1))" by (simp add: row_ok_def entry_ok_def)
  from row_entries [OF f this _ items o] bb(2)
  have "(\<exists>new. order' = order @ new) \<and> row_ok m order' (found (by_byte m S)) row \<and> sets_ok m order' \<and> length order' \<le> max 1 M"
    unfolding tidy_def found_def by blast
  then show ?thesis using bb(1) by (metis ext)
qed

text \<open>The loop: the first \<open>idx\<close> sets have their rows; every set is a closure.\<close>

definition table_ok :: "nfa \<Rightarrow> nat \<Rightarrow> nat \<Rightarrow> sc_state \<Rightarrow> bool" where
  "table_ok m s acc st \<longleftrightarrow> (case st of (order, tr, accs) \<Rightarrow>
     order \<noteq> [] \<and> order ! 0 = eps_closure m {s} \<and> sets_ok m order \<and> length tr \<le> length order
     \<and> (\<forall>i < length tr. row_ok m order (step m (order ! i)) (tr ! i)) \<and> accs = {i. i < length tr \<and> acc \<in> order ! i})"

lemma sets_ok_in: "closed m 0 (len m) \<Longrightarrow> sets_ok m order \<Longrightarrow> i < length order \<Longrightarrow> order ! i \<subseteq> {..<len m}"
  unfolding sets_ok_def using closure_in by (metis nth_mem)

lemma table_ok_step:
  assumes m: "in_bytes m" "wf m" "closed m 0 (len m)"
    and t: "table_ok m s acc (order, tr, accs)" "length tr < length order" "length order \<le> max 1 M"
    and f: "fold_res (row_entry m M) (by_byte m (order ! length tr)) (order, replicate 256 (- 1)) = Inr (order', row)"
  shows "table_ok m s acc (order', tr @ [row], if acc \<in> order ! length tr then insert (length tr) accs else accs)" "length order' \<le> max 1 M"
proof -
  have so: "sets_ok m order" using t(1) by (simp add: table_ok_def)
  note r = table_row [OF m sets_ok_in [OF m(3) so t(2)] f so t(3)]
  obtain new where o: "order' = order @ new" using r by blast
  have nth: "order' ! i = order ! i" if "i \<le> length tr" for i using that t(2) o by (simp add: nth_append)
  have rows: "row_ok m order' (step m (order' ! i)) ((tr @ [row]) ! i)" if "i < length (tr @ [row])" for i
  proof (cases "i < length tr")
    case True
    then have "row_ok m order (step m (order ! i)) (tr ! i)" using t(1) by (simp add: table_ok_def)
    then show ?thesis using True nth [of i] o row_ok_mono by (simp add: nth_append)
  next
    case False
    then show ?thesis using that r nth [of i] by (simp add: nth_append less_Suc_eq)
  qed
  have accs: "(if acc \<in> order ! length tr then insert (length tr) accs else accs) = {i. i < length (tr @ [row]) \<and> acc \<in> order' ! i}"
  proof -
    have "accs = {i. i < length tr \<and> acc \<in> order ! i}" using t(1) by (simp add: table_ok_def)
    moreover have "{i. i < length (tr @ [row]) \<and> acc \<in> order' ! i} = {i. i < length (tr @ [row]) \<and> acc \<in> order ! i}" using nth by auto
    ultimately show ?thesis by (auto simp: less_Suc_eq)
  qed
  show "table_ok m s acc (order', tr @ [row], if acc \<in> order ! length tr then insert (length tr) accs else accs)"
    unfolding accs unfolding table_ok_def using t(1,2) r rows nth [of 0] o by (auto simp: table_ok_def)
  show "length order' \<le> max 1 M" using r by blast
qed

lemma subset_loop_ok:
  assumes m: "in_bytes m" "wf m" "closed m 0 (len m)"
  shows "table_ok m s acc (order, tr, accs) \<Longrightarrow> length order \<le> max 1 M \<Longrightarrow> subset_loop n m acc M (length tr) (order, tr, accs) = Inr (order', tr', accs') \<Longrightarrow>
     table_ok m s acc (order', tr', accs') \<and> length tr' = length order' \<and> length order' \<le> max 1 M"
proof (induction n arbitrary: order tr accs)
  case (Suc n)
  show ?case
  proof (cases "length tr < length order")
    case True
    from Suc.prems(3) True obtain x where x: "fold_res (row_entry m M) (by_byte m (order ! length tr)) (order, replicate 256 (- 1)) = Inr x"
      "(\<lambda>(o2, row). subset_loop n m acc M (length tr + 1) (o2, tr @ [row], if acc \<in> order ! length tr then insert (length tr) accs else accs)) x = Inr (order', tr', accs')"
      by (auto simp: rbind_Inr_iff)
    obtain o2 row where x2: "x = (o2, row)" by fastforce
    note st = table_ok_step [OF m Suc.prems(1) True Suc.prems(2) x(1) [unfolded x2]]
    show ?thesis by (rule Suc.IH [OF st]) (use x(2) x2 in simp)
  next
    case False
    then have "length tr = length order" using Suc.prems(1) by (simp add: table_ok_def)
    moreover have "order' = order" "tr' = tr" "accs' = accs" using Suc.prems(3) False by simp_all
    ultimately show ?thesis using Suc.prems(1,2) by simp
  qed
qed simp

lemma row_entry_no_fuel: "row_entry m M it st \<noteq> Inl out_of_fuel"
  by (auto simp: row_entry_def set_row_def ok_def rbind_def Let_def out_of_fuel_def split: prod.splits option.splits sum.splits if_splits)

lemma row_entry_bound: "row_entry m M it st = Inr st' \<Longrightarrow> length (fst st) \<le> max 1 M \<Longrightarrow> length (fst st') \<le> max 1 M"
  by (cases it, cases st) (auto simp: row_entry_def Let_def set_row_def ok_Inr_iff rbind_Inr_iff split: option.splits if_splits)

lemma row_entries_no_fuel: "fold_res (row_entry m M) items st \<noteq> Inl out_of_fuel"
  by (induction items arbitrary: st) (use row_entry_no_fuel in \<open>auto simp: rbind_def split: sum.splits\<close>)

lemma subset_loop_total:
  "length order \<le> max 1 M \<Longrightarrow> max 1 M < idx + n \<Longrightarrow> idx \<le> length order \<Longrightarrow> subset_loop n m acc M idx (order, tr, accs) \<noteq> Inl out_of_fuel"
proof (induction n arbitrary: idx order tr accs)
  case (Suc n)
  show ?case
  proof (cases "idx < length order")
    case True
    show ?thesis
    proof (cases "fold_res (row_entry m M) (by_byte m (order ! idx)) (order, replicate 256 (- 1))")
      case (Inl e)
      then show ?thesis using True row_entries_no_fuel [of m M "by_byte m (order ! idx)" "(order, replicate 256 (- 1))"] by (simp add: rbind_def)
    next
      case (Inr x)
      have b: "length (fst x) \<le> max 1 M"
        by (rule fold_res_inv [OF Inr, where P = "\<lambda>st. length (fst st) \<le> max 1 M"]) (use Suc.prems(1) row_entry_bound in auto)
      have g: "length order \<le> length (fst x)"
        by (rule fold_res_inv [OF Inr, where P = "\<lambda>st. length order \<le> length (fst st)"])
           (auto simp: row_entry_def Let_def set_row_def ok_Inr_iff rbind_Inr_iff split: option.splits if_splits prod.splits)
      show ?thesis using Suc.IH [of "fst x" "idx + 1"] b g True Suc.prems Inr by (cases x) (simp add: rbind_def)
    qed
  next
    case False
    then show ?thesis by simp
  qed
qed auto

section \<open>What the table recognises\<close>

lemma reach_Cons:
  "reach m p (b # w) q \<longleftrightarrow> (\<exists>p' B t. reach m p [] p' \<and> (B, t) \<in> sym_of m p' \<and> uint b \<in> B \<and> reach m t w q)"
proof
  have "reach m p u q \<Longrightarrow> u = b # w \<Longrightarrow> \<exists>p' B t. reach m p [] p' \<and> (B, t) \<in> sym_of m p' \<and> uint b \<in> B \<and> reach m t w q" for u
  proof (induction rule: reach.induct)
    case (reach_eps q p w t)
    then show ?case by (meson reach.reach_eps)
  next
    case (reach_sym B q p b w t)
    then show ?case using reach.reach_refl by blast
  qed simp
  then show "reach m p (b # w) q \<Longrightarrow> \<exists>p' B t. reach m p [] p' \<and> (B, t) \<in> sym_of m p' \<and> uint b \<in> B \<and> reach m t w q" by blast
next
  assume "\<exists>p' B t. reach m p [] p' \<and> (B, t) \<in> sym_of m p' \<and> uint b \<in> B \<and> reach m t w q"
  then obtain p' B t where "reach m p [] p'" "(B, t) \<in> sym_of m p'" "uint b \<in> B" "reach m t w q" by blast
  then show "reach m p (b # w) q" using reach_append [of m p "[]" p' "b # w" q] reach.reach_sym by simp
qed

definition words :: "nfa \<Rightarrow> nat \<Rightarrow> nat set \<Rightarrow> bytes set" where
  "words m acc S = {w. \<exists>p \<in> S. reach m p w acc}"

lemma words_closure: "finite A \<Longrightarrow> words m acc (eps_closure m A) = words m acc A"
  unfolding words_def eps_closure_char by (auto intro: reach.reach_refl) (use reach_append [of m _ "[]"] in fastforce)

lemma words_Nil: "finite A \<Longrightarrow> S = eps_closure m A \<Longrightarrow> [] \<in> words m acc S \<longleftrightarrow> acc \<in> S"
proof -
  assume a: "finite A" "S = eps_closure m A"
  have "[] \<in> words m acc S \<longleftrightarrow> [] \<in> words m acc A" using words_closure [OF a(1)] a(2) by simp
  also have "\<dots> \<longleftrightarrow> acc \<in> S" by (simp add: words_def a(2) eps_closure_char [OF a(1)])
  finally show ?thesis .
qed

lemma words_Cons:
  assumes "finite A" "S = eps_closure m A"
  shows "b # w \<in> words m acc S \<longleftrightarrow> w \<in> words m acc (step m S (uint b))"
proof -
  have "b # w \<in> words m acc S \<longleftrightarrow> b # w \<in> words m acc A" using words_closure [OF assms(1)] assms(2) by simp
  also have "\<dots> \<longleftrightarrow> (\<exists>p' B t. p' \<in> S \<and> (B, t) \<in> sym_of m p' \<and> uint b \<in> B \<and> reach m t w acc)"
    unfolding words_def assms(2) eps_closure_char [OF assms(1)] by (auto simp: reach_Cons)
  also have "\<dots> \<longleftrightarrow> w \<in> words m acc (step m S (uint b))" unfolding words_def step_def by blast
  finally show ?thesis .
qed

text \<open>\<open>longest L best j text r\<close>: \<open>r\<close> is the end of the longest non-empty prefix of \<open>text\<close> in \<open>L\<close>, or \<open>best\<close>.\<close>

definition longest :: "bytes set \<Rightarrow> int \<Rightarrow> nat \<Rightarrow> bytes \<Rightarrow> int \<Rightarrow> bool" where
  "longest L best j xs r \<longleftrightarrow>
     (\<exists>k. 0 < k \<and> k \<le> length xs \<and> take k xs \<in> L \<and> (\<forall>k'. k < k' \<longrightarrow> k' \<le> length xs \<longrightarrow> take k' xs \<notin> L) \<and> r = int (j + k))
     \<or> (\<forall>k. 0 < k \<longrightarrow> k \<le> length xs \<longrightarrow> take k xs \<notin> L) \<and> r = best"

lemma longest_Cons:
  assumes l: "longest L' (if [] \<in> L' then int (j + 1) else best) (j + 1) xs r" and L: "\<And>w. b # w \<in> L \<longleftrightarrow> w \<in> L'"
  shows "longest L best j (b # xs) r"
proof -
  have tk: "take k (b # xs) \<in> L \<longleftrightarrow> take (k - 1) xs \<in> L'" if "0 < k" for k using that L by (cases k) auto
  consider (hit) k where "0 < k" "k \<le> length xs" "take k xs \<in> L'" "\<forall>k'. k < k' \<longrightarrow> k' \<le> length xs \<longrightarrow> take k' xs \<notin> L'" "r = int (j + 1 + k)"
    | (miss) "\<forall>k. 0 < k \<longrightarrow> k \<le> length xs \<longrightarrow> take k xs \<notin> L'" "r = (if [] \<in> L' then int (j + 1) else best)"
    using l unfolding longest_def by blast
  then show ?thesis
  proof cases
    case hit
    have "take (Suc k) (b # xs) \<in> L" "\<forall>k'. Suc k < k' \<longrightarrow> k' \<le> length (b # xs) \<longrightarrow> take k' (b # xs) \<notin> L"
      using hit L tk by auto
    then show ?thesis unfolding longest_def using hit by (intro disjI1 exI [of _ "Suc k"]) auto
  next
    case miss
    have no: "take k' (b # xs) \<notin> L" if "1 < k'" "k' \<le> length (b # xs)" for k' using miss(1) tk that by auto
    show ?thesis
    proof (cases "[] \<in> L'")
      case True
      then have "take 1 (b # xs) \<in> L" using tk [of 1] by simp
      then show ?thesis unfolding longest_def using no True miss(2) by (intro disjI1 exI [of _ 1]) auto
    next
      case False
      then have "take 1 (b # xs) \<notin> L" using tk [of 1] by simp
      then have "\<forall>k. 0 < k \<longrightarrow> k \<le> length (b # xs) \<longrightarrow> take k (b # xs) \<notin> L" using no by (metis One_nat_def Suc_lessI)
      then show ?thesis unfolding longest_def using False miss(2) by auto
    qed
  qed
qed

lemma match_loop_longest:
  assumes t: "table_ok m s acc (order, trans d, accept d)" "length (trans d) = length order"
  shows "i < length order \<Longrightarrow> longest (words m acc (order ! i)) best j xs (match_loop d i best j xs)"
proof (induction xs arbitrary: i best j)
  case Nil
  then show ?case by (simp add: longest_def)
next
  case (Cons b xs)
  obtain A where A: "A \<subseteq> {..<len m}" "order ! i = eps_closure m A"
    using t(1) Cons.prems unfolding table_ok_def sets_ok_def by (auto dest!: nth_mem)
  have fin: "finite A" using A(1) finite_subset by blast
  note wc = words_Cons [OF fin A(2), where acc = acc]
  let ?T = "step m (order ! i) (uint b)" and ?x = "trans d ! i ! unat b"
  have "row_ok m order (step m (order ! i)) (trans d ! i)" using t Cons.prems by (simp add: table_ok_def)
  moreover have "0 \<le> uint b" "uint b < 256" using uint_bounded [of b] by simp_all
  moreover have "nat (uint b) = unat b" by simp
  ultimately have e: "entry_ok m order ?T ?x" unfolding row_ok_def by metis
  show ?case
  proof (cases "?T = {}")
    case True
    then have "b # w \<notin> words m acc (order ! i)" for w using wc by (simp add: words_def)
    moreover have "match_loop d i best j (b # xs) = best" using e True by (simp add: entry_ok_def)
    ultimately show ?thesis by (auto simp: longest_def take_Cons')
  next
    case False
    then obtain n where n: "n < length order" "?x = int n" "order ! n = eps_closure m ?T" using e by (auto simp: entry_ok_def)
    have "?T \<subseteq> snd ` (\<Union>p \<in> order ! i. sym_of m p)" unfolding step_def by force
    moreover have "finite (order ! i)" unfolding A(2) by (rule finite_eps_closure [OF fin])
    moreover have "finite (sym_of m p)" for p by (simp add: sym_of_def)
    ultimately have ft: "finite ?T" by (meson finite_UN_I finite_imageI finite_subset)
    have acc: "n \<in> accept d \<longleftrightarrow> [] \<in> words m acc (order ! n)"
      using words_Nil [OF ft n(3)] n(1) t by (simp add: table_ok_def)
    have "longest (words m acc (order ! n)) (if n \<in> accept d then int (j + 1) else best) (j + 1) xs (match_loop d n (if n \<in> accept d then int (j + 1) else best) (j + 1) xs)"
      by (rule Cons.IH [OF n(1)])
    then have "longest (words m acc (order ! n)) (if [] \<in> words m acc (order ! n) then int (j + 1) else best) (j + 1) xs (match_loop d i best j (b # xs))"
      using acc n(2) by simp
    then show ?thesis by (rule longest_Cons) (simp add: wc n(3) words_closure [OF ft])
  qed
qed

section \<open>Every occurrence\<close>

definition occurs :: "bytes set \<Rightarrow> bytes \<Rightarrow> nat \<Rightarrow> nat \<Rightarrow> bool" where
  "occurs L data a c \<longleftrightarrow> a < c \<and> c \<le> length data \<and> take (c - a) (drop a data) \<in> L"

text \<open>
  Left to right from \<open>i\<close>: disjoint non-empty occurrences, each the longest one at its start, and
  no occurrence starts outside them.
\<close>

definition leftmost_longest :: "bytes set \<Rightarrow> bytes \<Rightarrow> nat \<Rightarrow> (nat \<times> nat) list \<Rightarrow> bool" where
  "leftmost_longest L data i spans \<longleftrightarrow>
     (\<forall>(a, c) \<in> set spans. i \<le> a \<and> occurs L data a c \<and> (\<forall>c'. c < c' \<longrightarrow> \<not> occurs L data a c'))
     \<and> sorted_wrt (\<lambda>(a, c) (a', c'). c \<le> a') spans
     \<and> (\<forall>a c. i \<le> a \<longrightarrow> occurs L data a c \<longrightarrow> (\<exists>(x, y) \<in> set spans. x \<le> a \<and> a < y))"

lemma leftmost_longest_end: "length data \<le> i \<Longrightarrow> leftmost_longest L data i []"
  by (auto simp: leftmost_longest_def occurs_def)

lemma leftmost_longest_miss:
  assumes "\<And>c. \<not> occurs L data i c" "leftmost_longest L data (i + 1) spans"
  shows "leftmost_longest L data i spans"
proof -
  have "i + 1 \<le> a" if "i \<le> a" "occurs L data a c" for a c using assms(1) that by (cases "a = i") auto
  then show ?thesis using assms(2) unfolding leftmost_longest_def by fastforce
qed

lemma leftmost_longest_hit:
  assumes o: "occurs L data i e" "\<And>c. e < c \<Longrightarrow> \<not> occurs L data i c" and r: "leftmost_longest L data e spans"
  shows "leftmost_longest L data i ((i, e) # spans)"
proof -
  have ie: "i < e" using o(1) by (simp add: occurs_def)
  have cover: "\<exists>(x, y) \<in> set ((i, e) # spans). x \<le> a \<and> a < y" if "i \<le> a" "occurs L data a c" for a c
  proof (cases "a < e")
    case False
    then have "\<exists>(x, y) \<in> set spans. x \<le> a \<and> a < y" using r that(2) unfolding leftmost_longest_def by (meson leI)
    then show ?thesis by (simp add: disjI2)
  next
    case True
    then show ?thesis using that(1) by simp
  qed
  have each: "e \<le> a \<and> occurs L data a c \<and> (\<forall>c'. c < c' \<longrightarrow> \<not> occurs L data a c')" if "(a, c) \<in> set spans" for a c
    using r that unfolding leftmost_longest_def by blast
  have "\<forall>(a, c) \<in> set ((i, e) # spans). i \<le> a \<and> occurs L data a c \<and> (\<forall>c'. c < c' \<longrightarrow> \<not> occurs L data a c')"
  proof (intro ballI, clarify)
    fix a c assume "(a, c) \<in> set ((i, e) # spans)"
    then show "i \<le> a \<and> occurs L data a c \<and> (\<forall>c'. c < c' \<longrightarrow> \<not> occurs L data a c')"
      using each [of a c] o ie by (cases "(a, c) \<in> set spans") simp_all
  qed
  moreover have "sorted_wrt (\<lambda>(a, c) (a', c'). c \<le> a') ((i, e) # spans)"
    using r each unfolding leftmost_longest_def by (auto simp: case_prod_beta)
  ultimately show ?thesis using cover unfolding leftmost_longest_def by blast
qed

lemma longest_occurs:
  assumes "longest L best i (drop i data) r" "best \<le> int i"
  shows "(int i < r \<longrightarrow> occurs L data i (nat r) \<and> (\<forall>c. nat r < c \<longrightarrow> \<not> occurs L data i c)) \<and> (\<not> int i < r \<longrightarrow> (\<forall>c. \<not> occurs L data i c))"
proof -
  have occ: "occurs L data i c \<longleftrightarrow> 0 < c - i \<and> c - i \<le> length (drop i data) \<and> take (c - i) (drop i data) \<in> L" for c
    unfolding occurs_def by auto
  consider (hit) k where "0 < k" "k \<le> length (drop i data)" "take k (drop i data) \<in> L"
      "\<forall>k'. k < k' \<longrightarrow> k' \<le> length (drop i data) \<longrightarrow> take k' (drop i data) \<notin> L" "r = int (i + k)"
    | (miss) "\<forall>k. 0 < k \<longrightarrow> k \<le> length (drop i data) \<longrightarrow> take k (drop i data) \<notin> L" "r = best"
    using assms(1) unfolding longest_def by blast
  then show ?thesis
  proof cases
    case hit
    have r: "int i < r" "nat r = i + k" using hit(1,5) by simp_all
    have "occurs L data i (i + k)" using hit occ by simp
    moreover have "\<not> occurs L data i c" if "i + k < c" for c 
    proof -
      have "k < c - i" using that by simp
      then show ?thesis using hit(4) unfolding occ by blast
    qed
    ultimately show ?thesis using r by simp
  next
    case miss
    then show ?thesis using assms(2) occ by auto
  qed
qed

lemma find_all_dfa_exact:
  assumes "\<And>i. longest L (if start d \<in> accept d then int i else - 1) i (drop i data) (dfa_match_at d data i)"
  shows "leftmost_longest L data i (find_all_dfa d data i)"
  using assms
proof (induction d data i rule: find_all_dfa.induct)
  case (1 d data i)
  have b: "(if start d \<in> accept d then int i else - 1) \<le> int i" by simp
  note occ = longest_occurs [OF "1.prems" [of i] b]
  show ?case
  proof (cases "i < length data")
    case True
    show ?thesis
    proof (cases "int i < dfa_match_at d data i")
      case hit: True
      have "leftmost_longest L data (nat (dfa_match_at d data i)) (find_all_dfa d data (nat (dfa_match_at d data i)))"
        by (rule "1.IH"(1) [OF True refl hit "1.prems"])
      moreover have "occurs L data i (nat (dfa_match_at d data i))" "\<And>c. nat (dfa_match_at d data i) < c \<Longrightarrow> \<not> occurs L data i c"
        using occ hit by blast+
      ultimately have "leftmost_longest L data i ((i, nat (dfa_match_at d data i)) # find_all_dfa d data (nat (dfa_match_at d data i)))"
        by (intro leftmost_longest_hit)
      moreover have "find_all_dfa d data i = (i, nat (dfa_match_at d data i)) # find_all_dfa d data (nat (dfa_match_at d data i))"
        using True hit by (subst find_all_dfa.simps) (simp add: Let_def)
      ultimately show ?thesis by simp
    next
      case miss: False
      have "leftmost_longest L data (i + 1) (find_all_dfa d data (i + 1))"
        by (rule "1.IH"(2) [OF True refl miss "1.prems"])
      then have "leftmost_longest L data i (find_all_dfa d data (i + 1))" by (rule leftmost_longest_miss [rotated]) (use occ miss in blast)
      moreover have "find_all_dfa d data i = find_all_dfa d data (i + 1)"
        using True miss by (subst find_all_dfa.simps) (simp add: Let_def)
      ultimately show ?thesis by simp
    qed
  next
    case False
    then have "find_all_dfa d data i = []" by (subst find_all_dfa.simps) simp
    then show ?thesis using False leftmost_longest_end by simp
  qed
qed

lemma subset_construct_table:
  assumes m: "in_bytes m" "wf m" "closed m 0 (len m)" "s < len m" and d: "subset_construct m s acc M = Inr d"
  obtains order where "table_ok m s acc (order, trans d, accept d)" "length (trans d) = length order" "start d = 0"
    "n_states d = length order" "length order \<le> max 1 M"
proof -
  obtain x where x: "subset_loop (Suc (max 1 M)) m acc M 0 ([eps_closure m {s}], [], {}) = Inr x"
    "(\<lambda>(order, tr, accs). Inr \<lparr>trans = tr, accept = accs, start = 0, n_states = length order\<rparr>) x = (Inr d :: dfa res)"
    using d unfolding subset_construct_def rbind_Inr_iff by blast
  obtain order tr accs where xx: "x = (order, tr, accs)" by (metis prod_cases3)
  have init: "table_ok m s acc ([eps_closure m {s}], [], {})" using m(4) by (auto simp: table_ok_def sets_ok_def)
  have "table_ok m s acc (order, tr, accs) \<and> length tr = length order \<and> length order \<le> max 1 M"
    by (rule subset_loop_ok [OF m(1-3) init, where n = "Suc (max 1 M)"]) (use x(1) xx in simp_all)
  moreover have "d = \<lparr>trans = tr, accept = accs, start = 0, n_states = length order\<rparr>" using x(2) xx by simp
  ultimately show thesis using that [of order] by simp
qed

text \<open>
  (C2) A pattern that the emulator's own compiler accepts is matched exactly: there is one expression
  \<open>x\<close> that the pattern spells by the grammar of alternatives, sequences, quantified atoms, groups,
  literals and dots (the sets of classes and escapes being those the parser reads), and
  \<^verbatim>\<open>find_all\<close> on the compiled table returns the leftmost-longest matches of the language of
  \<open>x\<close>, disjoint and in order, and no non-empty match starts outside them. The hypothesis \<open>in_bytes\<close> holds unless the pattern contains an
  escape such as \<^verbatim>\<open>\x-1\<close>, whose value is negative.
\<close>

theorem regex_dfa_exact:
  assumes "parse p = Inr ((s, a), m)" "in_bytes m" "subset_construct m s a M = Inr d"
  shows "\<exists>x. spells p x \<and> (\<forall>y. spells p y \<longrightarrow> y = x) \<and> leftmost_longest (lang x) data 0 (find_all_dfa d data 0)"
proof -
  obtain x where x: "spells p x" "\<And>w. reach m s w a \<longleftrightarrow> w \<in> lang x" "wf m" "s < len m" "closed m 0 (len m)"
    using parse_sound [OF assms(1)] by metis
  obtain order where o: "table_ok m s a (order, trans d, accept d)" "length (trans d) = length order" "start d = 0"
    by (rule subset_construct_table [OF assms(2) x(3,5,4) assms(3)])
  have ord: "order ! 0 = eps_closure m {s}" "0 < length order" using o(1) by (simp_all add: table_ok_def)
  have L: "words m a (order ! 0) = lang x" unfolding ord(1) using words_closure [of "{s}" m a] x(2) by (auto simp: words_def)
  have "longest (lang x) (if start d \<in> accept d then int i else - 1) i (drop i data) (dfa_match_at d data i)" for i
    using match_loop_longest [OF o(1,2) ord(2)] L o(3) unfolding dfa_match_at_def by simp
  then show ?thesis using find_all_dfa_exact x(1) spells_unique by blast
qed

definition sample_nfa :: "frag \<times> nfa" where
  "sample_nfa = projr (parse ''ab+'')"

definition sample_dfa :: dfa where
  "sample_dfa = projr (subset_construct (snd sample_nfa) (fst (fst sample_nfa)) (snd (fst sample_nfa)) 8)"

lemma sample_compiles:
  "parse ''ab+'' = Inr ((fst (fst sample_nfa), snd (fst sample_nfa)), snd sample_nfa)" "in_bytes (snd sample_nfa)"
  "subset_construct (snd sample_nfa) (fst (fst sample_nfa)) (snd (fst sample_nfa)) 8 = Inr sample_dfa"
  "find_all_dfa sample_dfa [0x61, 0x62, 0x62, 0x61, 0x61, 0x62] 0 = [(0, 3), (4, 6)]" "n_states sample_dfa = 3"
proof -
  have "isl (parse ''ab+'') = False" by code_simp
  then show "parse ''ab+'' = Inr ((fst (fst sample_nfa), snd (fst sample_nfa)), snd sample_nfa)" by (simp add: sample_nfa_def)
  show "in_bytes (snd sample_nfa)" by code_simp
  have "isl (subset_construct (snd sample_nfa) (fst (fst sample_nfa)) (snd (fst sample_nfa)) 8) = False" by code_simp
  then show "subset_construct (snd sample_nfa) (fst (fst sample_nfa)) (snd (fst sample_nfa)) 8 = Inr sample_dfa" by (simp add: sample_dfa_def)
  show "find_all_dfa sample_dfa [0x61, 0x62, 0x62, 0x61, 0x61, 0x62] 0 = [(0, 3), (4, 6)]" by code_simp
  show "n_states sample_dfa = 3" by code_simp
qed

theorem regex_dfa_exact_witness:
  "\<exists>x. spells ''ab+'' x \<and> leftmost_longest (lang x) [0x61, 0x62, 0x62, 0x61, 0x61, 0x62] 0 [(0, 3), (4, 6)]"
  using regex_dfa_exact [OF sample_compiles(1-3), of "[0x61, 0x62, 0x62, 0x61, 0x61, 0x62]"] sample_compiles(4) by auto

text \<open>
  (C40) The subset construction ends: with a bound of \<open>M\<close> states it takes at most \<open>max 1 M\<close>
  rounds, so the fuel of the model is never used up, and the table it returns has at most
  \<open>max 1 M\<close> states, one row of 256 entries each, every entry dead or the number of a state.
\<close>

theorem subset_construct_bounded:
  assumes "parse p = Inr ((s, a), m)" "in_bytes m"
  shows "subset_construct m s a M \<noteq> Inl out_of_fuel
    \<and> (\<forall>d. subset_construct m s a M = Inr d \<longrightarrow> n_states d \<le> max 1 M \<and> length (trans d) = n_states d
         \<and> (\<forall>i < n_states d. length (trans d ! i) = 256 \<and> (\<forall>b < 256. trans d ! i ! b = - 1 \<or> (0 \<le> trans d ! i ! b \<and> trans d ! i ! b < int (n_states d)))))"
proof (intro conjI allI impI)
  have "subset_loop (Suc (max 1 M)) m a M 0 ([eps_closure m {s}], [], {}) \<noteq> Inl out_of_fuel" by (rule subset_loop_total) simp_all
  then show "subset_construct m s a M \<noteq> Inl out_of_fuel"
    unfolding subset_construct_def by (auto simp: rbind_def split: sum.splits)
next
  fix d assume d: "subset_construct m s a M = Inr d"
  have x: "wf m" "s < len m" "closed m 0 (len m)" using parse_sound [OF assms(1)] by metis+
  obtain order where o: "table_ok m s a (order, trans d, accept d)" "length (trans d) = length order" "n_states d = length order"
      "length order \<le> max 1 M"
    by (rule subset_construct_table [OF assms(2) x(1,3,2) d])
  show "n_states d \<le> max 1 M" "length (trans d) = n_states d" using o by simp_all
  fix i assume i: "i < n_states d"
  have r: "row_ok m order (step m (order ! i)) (trans d ! i)" using o i by (simp add: table_ok_def)
  then show "length (trans d ! i) = 256" by (simp add: row_ok_def)
  fix b :: nat assume "b < 256"
  then have "entry_ok m order (step m (order ! i) (int b)) (trans d ! i ! b)" using r unfolding row_ok_def by (metis nat_int of_nat_0_le_iff of_nat_less_iff of_nat_numeral)
  then show "trans d ! i ! b = - 1 \<or> (0 \<le> trans d ! i ! b \<and> trans d ! i ! b < int (n_states d))"
    using o(3) by (auto simp: entry_ok_def split: if_splits)
qed

theorem subset_construct_bounded_witness:
  "n_states sample_dfa = 3 \<and> length (trans sample_dfa) = n_states sample_dfa"
  using subset_construct_bounded [OF sample_compiles(1,2), of 8] sample_compiles(3,5) by blast

end
