(* ===== verification/Fpga_Emu.thy ===== *)
theory Fpga_Emu
  imports Regex_Dfa Aho_Corasick Transition
    "HOL-Library.Product_Lexorder" "HOL-Library.List_Lexorder" "HOL-Library.Char_ord"
begin

text \<open>
  The emulator of the DPI offload engine, \<^verbatim>\<open>src/opt/ffn_fpga_emu.py\<close>: compilation of a
  pattern to a table or, for what the compiler refuses, to a Python regular expression
  (\<^verbatim>\<open>_RegexDFA\<close>), the two engines, their scans and their counters
  (\<^verbatim>\<open>FpgaEmulator\<close>). The module \<^verbatim>\<open>re\<close> is a parameter: from a pattern to the spans
  \<^verbatim>\<open>finditer\<close> yields on a buffer, or \<open>None\<close> where \<^verbatim>\<open>re.compile\<close> raises. A loop of the
  Aho-Corasick automaton that would not end makes the result \<open>None\<close>; \<open>load_ac_total\<close> shows
  that it ends.
\<close>

section \<open>Tags and matches\<close>

text \<open>A tag: a number, a string, an object with an attribute \<^verbatim>\<open>sid\<close> or a dictionary.\<close>

datatype tag = TInt int | TBool bool | TStr string | TObj string json | TDict "(string \<times> json) list"

definition as_pyint :: "json \<Rightarrow> int option" where
  "as_pyint v = (case v of JInt n \<Rightarrow> Some n | JBool b \<Rightarrow> Some (of_bool b) | _ \<Rightarrow> None)"

definition derive_sid :: "tag \<Rightarrow> int option" where
  "derive_sid t =
     (case t of
        TBool b \<Rightarrow> None
      | TInt n \<Rightarrow> Some n
      | TObj name sid \<Rightarrow> as_pyint sid
      | TDict kvs \<Rightarrow> as_pyint (jget ''sid'' JNull kvs)
      | TStr s \<Rightarrow> None)"

text \<open>The key a tag is in a dictionary: booleans are integers, a dictionary cannot be one.\<close>

definition tag_key :: "tag \<Rightarrow> tag option" where
  "tag_key t = (case t of TDict kvs \<Rightarrow> None | TBool b \<Rightarrow> Some (TInt (of_bool b)) | _ \<Rightarrow> Some t)"

record emu_match =
  m_tag :: tag
  m_sid :: "int option"
  m_offset :: int
  m_engine :: string
  m_which :: string
  m_end :: int

section \<open>Compiling a pattern\<close>

text \<open>\<^verbatim>\<open>_FORCE_RE.search\<close>: \<open>prev\<close> says whether the character before is a backslash.\<close>

fun force_re :: "bool \<Rightarrow> string \<Rightarrow> bool" where
  "force_re prev [] = False"
| "force_re prev (c # r) =
     (c = CHR ''{''
      \<or> c = CHR ''('' \<and> r \<noteq> [] \<and> hd r = CHR ''?''
      \<or> c = CHR 0x5C \<and> r \<noteq> [] \<and> hd r \<in> set ''bBAZ123456789''
      \<or> (c = CHR ''^'' \<or> c = CHR ''$'') \<and> \<not> prev
      \<or> force_re (c = CHR 0x5C) r)"

type_synonym spans = "(nat \<times> nat) list"
type_synonym re_module = "string \<Rightarrow> (bytes \<Rightarrow> spans) option"

record regex_dfa =
  r_pattern :: string
  r_tag :: tag
  r_sid :: "int option"
  r_dfa :: "dfa option"
  r_rx :: "(bytes \<Rightarrow> spans) option"
  r_path :: string

definition fallback :: "re_module \<Rightarrow> regex_dfa \<Rightarrow> regex_dfa res" where
  "fallback re r =
     need (re (r_pattern r)) (ValueError ''re.error'') (\<lambda>rx. Inr (r\<lparr>r_path := ''re'', r_dfa := None, r_rx := Some rx\<rparr>))"

definition compile_dfa :: "string \<Rightarrow> dfa res" where
  "compile_dfa pattern = rbind (parse pattern) (\<lambda>((s, a), m). subset_construct m s a MAX_STATES)"

definition compile_regex :: "re_module \<Rightarrow> string \<Rightarrow> tag \<Rightarrow> regex_dfa res" where
  "compile_regex re pattern tag =
     (let r = \<lparr>r_pattern = pattern, r_tag = tag, r_sid = derive_sid tag, r_dfa = None, r_rx = None, r_path = ''dfa''\<rparr> in
      if force_re False pattern then fallback re r
      else (case compile_dfa pattern of Inr d \<Rightarrow> Inr (r\<lparr>r_dfa := Some d, r_path := ''dfa''\<rparr>) | Inl e \<Rightarrow> fallback re r))"

definition find_all :: "regex_dfa \<Rightarrow> bytes \<Rightarrow> spans" where
  "find_all r data =
     (case r_dfa r of
        Some d \<Rightarrow> find_all_dfa d data 0
      | None \<Rightarrow> (case r_rx r of Some rx \<Rightarrow> [s \<leftarrow> rx data. fst s < snd s] | None \<Rightarrow> []))"

section \<open>The emulator\<close>

record counter =
  enabled :: bool
  packets :: nat
  matches :: nat
  drops :: nat

definition new_counter :: "bool \<Rightarrow> counter" where
  "new_counter b = \<lparr>enabled = b, packets = 0, matches = 0, drops = 0\<rparr>"

record emu =
  e_ac :: "tag ac option"
  ac_engine :: string
  ac_patlen :: "(tag, nat) odict"
  ac_loaded :: nat
  e_dfa :: "regex_dfa list"
  dfa_engine :: string
  counters :: "(string, counter) odict"

definition new_emu :: emu where
  "new_emu = \<lparr>e_ac = None, ac_engine = ''dpi_l7'', ac_patlen = [], ac_loaded = 0, e_dfa = [], dfa_engine = ''dpi_regex'', counters = []\<rparr>"

definition setdefault :: "'k \<Rightarrow> 'v \<Rightarrow> ('k, 'v) odict \<Rightarrow> ('k, 'v) odict" where
  "setdefault k v d = (case map_of d k of Some _ \<Rightarrow> d | None \<Rightarrow> dict_set k v d)"

definition enable :: "string \<Rightarrow> bool \<Rightarrow> (string, counter) odict \<Rightarrow> (string, counter) odict" where
  "enable name b cs =
     (let cs' = setdefault name (new_counter b) cs in
      case map_of cs' name of Some c \<Rightarrow> dict_set name (c\<lparr>enabled := b\<rparr>) cs' | None \<Rightarrow> cs')"

definition named :: "string option \<Rightarrow> string \<Rightarrow> string" where
  "named engine old = (case engine of Some n \<Rightarrow> if n \<noteq> [] then n else old | None \<Rightarrow> old)"

fun load_loop :: "(bytes \<times> tag) list \<Rightarrow> tag ac \<Rightarrow> (tag, nat) odict \<Rightarrow> nat \<Rightarrow> (tag, nat) odict \<times> (tag ac \<times> nat) res" where
  "load_loop [] a lens n = (lens, Inr (a, n))"
| "load_loop ((pat, t) # rest) a lens n =
     (if pat = [] then load_loop rest a lens n
      else case add pat t a of
          Inl e \<Rightarrow> (lens, Inl e)
        | Inr a' \<Rightarrow>
            (case tag_key t of
               None \<Rightarrow> (lens, Inl TypeError)
             | Some k \<Rightarrow> load_loop rest a' (dict_set k (length pat) lens) (n + 1)))"

definition load_ac :: "(bytes \<times> tag) list \<Rightarrow> string option \<Rightarrow> emu \<Rightarrow> (nat res \<times> emu) option" where
  "load_ac patterns engine e =
     (let e1 = e\<lparr>ac_engine := named engine (ac_engine e)\<rparr>; (lens, r) = load_loop patterns new_ac [] 0; e2 = e1\<lparr>ac_patlen := lens\<rparr> in
      case r of
        Inl err \<Rightarrow> Some (Inl err, e2)
      | Inr (a, n) \<Rightarrow>
          map_option (\<lambda>a'. (Inr n, e2\<lparr>e_ac := (if n \<noteq> 0 then Some a' else None), ac_loaded := n,
              counters := enable (ac_engine e2) (n \<noteq> 0) (counters e2)\<rparr>)) (build a))"

definition load_dfa :: "re_module \<Rightarrow> (string \<times> tag) list \<Rightarrow> string option \<Rightarrow> emu \<Rightarrow> nat res \<times> emu" where
  "load_dfa re regexes engine e =
     (let e1 = e\<lparr>dfa_engine := named engine (dfa_engine e)\<rparr> in
      case map_res (\<lambda>(rx, t). compile_regex re rx t) regexes of
        Inl err \<Rightarrow> (Inl err, e1)
      | Inr rs \<Rightarrow> (Inr (length rs), e1\<lparr>e_dfa := rs, counters := enable (dfa_engine e1) (rs \<noteq> []) (counters e1)\<rparr>))"

definition dfa_paths :: "emu \<Rightarrow> (string \<times> string) list" where
  "dfa_paths e = map (\<lambda>r. (r_pattern r, r_path r)) (e_dfa e)"

definition ac_hit :: "emu \<Rightarrow> nat \<times> tag \<Rightarrow> emu_match" where
  "ac_hit e hit =
     (case hit of (i, t) \<Rightarrow>
        let plen = (case Option.bind (tag_key t) (map_of (ac_patlen e)) of Some n \<Rightarrow> n | None \<Rightarrow> 0) in
        \<lparr>m_tag = t, m_sid = derive_sid t, m_offset = (if plen \<noteq> 0 then int i - int plen + 1 else int i),
          m_engine = ac_engine e, m_which = ''ac'', m_end = int i + 1\<rparr>)"

definition scan_ac :: "emu \<Rightarrow> tag ac \<Rightarrow> bytes \<Rightarrow> emu_match list option" where
  "scan_ac e a data = map_option (map (ac_hit e)) (iter_matches a data)"

definition scan_dfa :: "emu \<Rightarrow> bytes \<Rightarrow> emu_match list" where
  "scan_dfa e data =
     concat (map (\<lambda>r. map (\<lambda>(s, t). \<lparr>m_tag = r_tag r, m_sid = r_sid r, m_offset = int s,
        m_engine = dfa_engine e, m_which = ''dfa'', m_end = int t\<rparr>) (find_all r data)) (e_dfa e))"

definition account :: "string \<Rightarrow> nat \<Rightarrow> emu \<Rightarrow> emu" where
  "account engine hits e =
     (let cs = setdefault engine (new_counter True) (counters e) in
      e\<lparr>counters := (case map_of cs engine of
          Some c \<Rightarrow> dict_set engine (c\<lparr>packets := packets c + 1, matches := matches c + hits,
              drops := (if hits \<noteq> 0 then drops c + 1 else drops c)\<rparr>) cs
        | None \<Rightarrow> cs)\<rparr>)"

definition emu_scan :: "bytes \<Rightarrow> string option \<Rightarrow> emu \<Rightarrow> (emu_match list \<times> emu) option" where
  "emu_scan data engine e =
     Option.bind
       (case e_ac e of
          Some a \<Rightarrow>
            if engine = None \<or> engine = Some (ac_engine e)
            then map_option (\<lambda>hits. (hits, account (ac_engine e) (length hits) e)) (scan_ac e a data)
            else Some ([], e)
        | None \<Rightarrow> Some ([], e))
       (\<lambda>(ms, e1).
          let (ms2, e2) =
            (if e_dfa e \<noteq> [] \<and> (engine = None \<or> engine = Some (dfa_engine e))
             then (let hits = scan_dfa e1 data in (ms @ hits, account (dfa_engine e) (length hits) e1))
             else (ms, e1))
          in Some (sort_key (\<lambda>m. (m_offset m, m_which m)) ms2, e2))"

record status =
  s_enabled :: bool
  s_packets :: nat
  s_matches :: nat
  s_drops :: nat
  s_mode :: string

definition emu_status :: "string \<Rightarrow> emu \<Rightarrow> status" where
  "emu_status name e =
     (case map_of (counters e) name of
        None \<Rightarrow> \<lparr>s_enabled = False, s_packets = 0, s_matches = 0, s_drops = 0, s_mode = ''emulated''\<rparr>
      | Some c \<Rightarrow> \<lparr>s_enabled = enabled c, s_packets = packets c, s_matches = matches c, s_drops = drops c, s_mode = ''emulated''\<rparr>)"

definition status_all :: "emu \<Rightarrow> (string, status) odict" where
  "status_all e = map (\<lambda>(name, _). (name, emu_status name e)) (counters e)"

definition reset_counters :: "emu \<Rightarrow> emu" where
  "reset_counters e = e\<lparr>counters := map (\<lambda>(n, c). (n, c\<lparr>packets := 0, matches := 0, drops := 0\<rparr>)) (counters e)\<rparr>"

section \<open>Loading and scanning literal patterns\<close>

definition hashable :: "(bytes \<times> tag) list \<Rightarrow> bool" where
  "hashable pats \<longleftrightarrow> list_all (\<lambda>(p, t). tag_key t \<noteq> None) pats"

lemma load_loop_add_all:
  "hashable pats \<Longrightarrow> load_loop pats a lens n =
     (let used = [x \<leftarrow> pats. fst x \<noteq> []] in
      case add_all used a of
        Inr a' \<Rightarrow> (fold (\<lambda>(p, t). dict_set (the (tag_key t)) (length p)) used lens, Inr (a', n + length used))
      | Inl e \<Rightarrow> load_loop pats a lens n)"
  by (induction pats a lens n rule: load_loop.induct) (auto simp: hashable_def rbind_def Let_def split: sum.splits option.splits)

text \<open>The automaton is always built, and what is loaded is the list of non-empty patterns.\<close>

lemma load_ac_total:
  assumes h: "hashable pats"
  defines "used \<equiv> [x \<leftarrow> pats. fst x \<noteq> []]"
  shows "\<exists>a e'. load_ac pats engine e = Some (Inr (length used), e') \<and> ac_ready used a
    \<and> e_ac e' = (if used \<noteq> [] then Some a else None) \<and> ac_engine e' = named engine (ac_engine e)
    \<and> ac_patlen e' = fold (\<lambda>(p, t). dict_set (the (tag_key t)) (length p)) used [] \<and> e_dfa e' = e_dfa e \<and> dfa_engine e' = dfa_engine e
    \<and> counters e' = enable (named engine (ac_engine e)) (used \<noteq> []) (counters e)"
proof -
  have ne: "[] \<notin> fst ` set used" unfolding used_def by auto
  obtain ws a where a: "add_all used new_ac = Inr a" "ac_inv used ws a"
    using add_all_ok [OF new_ac_inv ne] by auto
  obtain a' where b: "build a = Some a'" "ac_ready used a'" using build_ok [OF a(2)] by blast
  have l: "load_loop pats new_ac [] 0 = (fold (\<lambda>(p, t). dict_set (the (tag_key t)) (length p)) used [], Inr (a, length used))"
    using load_loop_add_all [OF h, of new_ac "[]" 0] a(1) by (simp add: used_def Let_def)
  show ?thesis using b l by (auto simp: load_ac_def Let_def)
qed

text \<open>One length per tag: what the table of lengths, keyed by tag, presupposes.\<close>

definition one_length :: "(bytes \<times> tag) list \<Rightarrow> bool" where
  "one_length pats \<longleftrightarrow> (\<forall>(p, t) \<in> set pats. \<forall>(p', t') \<in> set pats. p \<noteq> [] \<longrightarrow> p' \<noteq> [] \<longrightarrow> tag_key t = tag_key t' \<longrightarrow> length p = length p')"

lemma map_of_fold_lens:
  "\<forall>(p, t) \<in> set used. the (tag_key t) = k \<longrightarrow> length p = n \<Longrightarrow>
   (\<exists>(p, t) \<in> set used. the (tag_key t) = k) \<or> map_of lens k = Some n \<Longrightarrow>
   map_of (fold (\<lambda>(p, t). dict_set (the (tag_key t)) (length p)) used lens) k = Some n"
  by (induction used arbitrary: lens) (auto simp: case_prod_beta)

lemma lens_lookup:
  assumes "hashable pats" "one_length pats" "(p, t) \<in> set pats" "p \<noteq> []"
  shows "Option.bind (tag_key t) (map_of (fold (\<lambda>(p, t). dict_set (the (tag_key t)) (length p)) [x \<leftarrow> pats. fst x \<noteq> []] [])) = Some (length p)"
proof -
  have key: "\<exists>k. tag_key t' = Some k" if "(p', t') \<in> set pats" for p' t'
    using assms(1) that by (auto simp: hashable_def list_all_iff)
  obtain k where k: "tag_key t = Some k" using key [OF assms(3)] ..
  have "length p' = length p" if "(p', t') \<in> set pats" "p' \<noteq> []" "the (tag_key t') = k" for p' t'
  proof -
    have "tag_key t' = tag_key t" using key [OF that(1)] that(3) k by auto
    then show ?thesis using assms(2-4) that(1,2) unfolding one_length_def by blast
  qed
  then have 1: "\<forall>(p', t') \<in> set [x \<leftarrow> pats. fst x \<noteq> []]. the (tag_key t') = k \<longrightarrow> length p' = length p" by auto
  have "(p, t) \<in> set [x \<leftarrow> pats. fst x \<noteq> []]" using assms(3,4) by simp
  then have 2: "\<exists>(p', t') \<in> set [x \<leftarrow> pats. fst x \<noteq> []]. the (tag_key t') = k" using k by force
  show ?thesis using map_of_fold_lens [OF 1 disjI1 [OF 2]] k by simp
qed

definition literal_hit :: "string \<Rightarrow> bytes \<Rightarrow> tag \<Rightarrow> nat \<Rightarrow> emu_match" where
  "literal_hit engine p t i =
     \<lparr>m_tag = t, m_sid = derive_sid t, m_offset = int i, m_engine = engine, m_which = ''ac'', m_end = int (i + length p)\<rparr>"

lemma ends_at: "i < length data \<and> (\<exists>u. take (i + 1) data = u @ p) \<longleftrightarrow>
    (\<exists>j. i + 1 = j + length p \<and> j + length p \<le> length data \<and> take (length p) (drop j data) = p)" if "p \<noteq> []"
proof
  assume a: "i < length data \<and> (\<exists>u. take (i + 1) data = u @ p)"
  then obtain u where u: "take (i + 1) data = u @ p" by blast
  have len: "i + 1 = length u + length p" using a arg_cong [OF u, of length] by simp
  have "take (length p) (drop (length u) data) = drop (length u) (take (i + 1) data)" using len by (simp add: drop_take)
  then have "take (length p) (drop (length u) data) = p" using u by simp
  then show "\<exists>j. i + 1 = j + length p \<and> j + length p \<le> length data \<and> take (length p) (drop j data) = p" using len a by auto
next
  assume "\<exists>j. i + 1 = j + length p \<and> j + length p \<le> length data \<and> take (length p) (drop j data) = p"
  then obtain j where j: "i + 1 = j + length p" "j + length p \<le> length data" "take (length p) (drop j data) = p" by blast
  have "take (i + 1) data = take j data @ take (length p) (drop j data)" using j(1) by (simp add: take_add)
  then show "i < length data \<and> (\<exists>u. take (i + 1) data = u @ p)" using j by auto
qed

text \<open>
  The literal engine of the emulator is exact. After loading patterns whose tags can be
  dictionary keys and have one length each, a scan restricted to that engine reports, in the order
  of their offsets, exactly the occurrences of the non-empty patterns in the data, each with its
  tag, its first offset and the offset after its last byte, and counts one packet, the number of
  hits, and one drop when there is a hit.
\<close>

theorem emu_literal_exact:
  assumes "hashable pats" "one_length pats" "load_ac pats engine e = Some (r, e1)" "ac_engine e1 \<noteq> dfa_engine e1"
    and "\<exists>(p, t) \<in> set pats. p \<noteq> []"
  shows "\<exists>ms e2. emu_scan data (Some (ac_engine e1)) e1 = Some (ms, e2)
    \<and> (\<forall>m. m \<in> set ms \<longleftrightarrow> (\<exists>p t i. (p, t) \<in> set pats \<and> p \<noteq> [] \<and> i + length p \<le> length data
          \<and> take (length p) (drop i data) = p \<and> m = literal_hit (ac_engine e1) p t i))
    \<and> sorted (map m_offset ms)
    \<and> e2 = account (ac_engine e1) (length ms) e1"
proof -
  let ?used = "[x \<leftarrow> pats. fst x \<noteq> []]"
  obtain a where a: "ac_ready ?used a" "e_ac e1 = (if ?used \<noteq> [] then Some a else None)"
    "ac_patlen e1 = fold (\<lambda>(p, t). dict_set (the (tag_key t)) (length p)) ?used []"
    using load_ac_total [OF assms(1), of engine e] assms(3) by auto
  have ne: "?used \<noteq> []" using assms(5) by (fastforce simp: filter_empty_conv)
  let ?hits = "map (ac_hit e1) (occurrences ?used data)"
  have sc: "scan_ac e1 a data = Some ?hits" using iter_matches_ready [OF a(1)] by (simp add: scan_ac_def)
  let ?key = "\<lambda>m. (m_offset m, m_which m)"
  have res: "emu_scan data (Some (ac_engine e1)) e1 = Some (sort_key ?key ?hits, account (ac_engine e1) (length ?hits) e1)"
    using a(2) ne sc assms(4) by (simp add: emu_scan_def)
  have hit: "ac_hit e1 (j + length p - 1, t) = literal_hit (ac_engine e1) p t j" if "(p, t) \<in> set pats" "p \<noteq> []" for p t j
  proof -
    have "0 < length p" using that(2) by simp
    moreover from this have "int (j + length p - 1) = int j + int (length p) - 1" by (cases p) simp_all
    ultimately show ?thesis using lens_lookup [OF assms(1,2) that] a(3) by (simp add: ac_hit_def literal_hit_def Let_def)
  qed
  have mem: "m \<in> set ?hits \<longleftrightarrow> (\<exists>p t i. (p, t) \<in> set pats \<and> p \<noteq> [] \<and> i + length p \<le> length data
          \<and> take (length p) (drop i data) = p \<and> m = literal_hit (ac_engine e1) p t i)" (is "_ \<longleftrightarrow> ?R") for m
  proof
    assume "m \<in> set ?hits"
    then obtain i t where "(i, t) \<in> set (occurrences ?used data)" "m = ac_hit e1 (i, t)" by auto
    then obtain p where p: "(p, t) \<in> set pats" "p \<noteq> []" "i < length data \<and> (\<exists>u. take (i + 1) data = u @ p)" by (auto simp: set_occurrences)
    then obtain j where j: "i + 1 = j + length p" "j + length p \<le> length data" "take (length p) (drop j data) = p" using ends_at by blast
    have "i = j + length p - 1" using j(1) by simp
    then show ?R using hit [OF p(1,2), of j] p j \<open>m = _\<close> by blast
  next
    assume ?R
    then obtain p t i where p: "(p, t) \<in> set pats" "p \<noteq> []" "i + length p \<le> length data" "take (length p) (drop i data) = p"
      "m = literal_hit (ac_engine e1) p t i" by blast
    have "i + length p - 1 + 1 = i + length p" using p(2) by (cases p) simp_all
    then have "(i + length p - 1, t) \<in> set (occurrences ?used data)"
      unfolding set_occurrences using p ends_at [OF p(2), of "i + length p - 1" data] by auto
    then show "m \<in> set ?hits" using hit [OF p(1,2), of i] p(5) by force
  qed
  have "sorted (map ?key (sort_key ?key ?hits))" by (rule sorted_sort_key)
  then have "sorted (map m_offset (sort_key ?key ?hits))"
    unfolding sorted_map by (rule sorted_wrt_mono_rel [rotated]) (auto simp: less_eq_prod_def)
  then show ?thesis using res mem by simp
qed

definition sample_pats :: "(bytes \<times> tag) list" where
  "sample_pats = [([0x61, 0x62], TInt 7), ([], TInt 8), ([0x62], TStr ''b'')]"

definition sample_emu :: emu where
  "sample_emu = snd (the (load_ac sample_pats None new_emu))"

lemma sample_loaded:
  "load_ac sample_pats None new_emu = Some (Inr 2, sample_emu)" "ac_engine sample_emu = ''dpi_l7''" "dfa_engine sample_emu = ''dpi_regex''"
proof -
  have "hashable sample_pats" by (simp add: hashable_def sample_pats_def tag_key_def)
  then obtain e' where "load_ac sample_pats None new_emu = Some (Inr (length [x \<leftarrow> sample_pats. fst x \<noteq> []]), e')"
    "ac_engine e' = named None (ac_engine new_emu)" "dfa_engine e' = dfa_engine new_emu"
    using load_ac_total [of sample_pats None new_emu] by blast
  then show "load_ac sample_pats None new_emu = Some (Inr 2, sample_emu)" "ac_engine sample_emu = ''dpi_l7''" "dfa_engine sample_emu = ''dpi_regex''"
    by (simp_all add: sample_emu_def named_def new_emu_def) (simp add: sample_pats_def)
qed

theorem emu_literal_exact_witness:
  "\<exists>ms e2. emu_scan [0x61, 0x62] (Some ''dpi_l7'') sample_emu = Some (ms, e2)
    \<and> literal_hit ''dpi_l7'' [0x61, 0x62] (TInt 7) 0 \<in> set ms \<and> literal_hit ''dpi_l7'' [0x62] (TStr ''b'') 1 \<in> set ms"
proof -
  have "hashable sample_pats" "one_length sample_pats" "\<exists>(p, t) \<in> set sample_pats. p \<noteq> []"
    by (simp_all add: hashable_def one_length_def sample_pats_def tag_key_def)
  from emu_literal_exact [OF this(1,2) sample_loaded(1) _ this(3), of "[0x61, 0x62]"] sample_loaded(2,3)
  obtain ms e2 where ms: "emu_scan [0x61, 0x62] (Some ''dpi_l7'') sample_emu = Some (ms, e2)"
    "\<forall>m. m \<in> set ms \<longleftrightarrow> (\<exists>p t i. (p, t) \<in> set sample_pats \<and> p \<noteq> [] \<and> i + length p \<le> length [0x61, 0x62 :: byte]
          \<and> take (length p) (drop i [0x61, 0x62]) = p \<and> m = literal_hit ''dpi_l7'' p t i)" by auto
  have "literal_hit ''dpi_l7'' [0x61, 0x62] (TInt 7) 0 \<in> set ms"
    unfolding ms(2) [rule_format] by (intro exI [of _ "[0x61, 0x62]"] exI [of _ "TInt 7"] exI [of _ 0]) (simp add: sample_pats_def)
  moreover have "literal_hit ''dpi_l7'' [0x62] (TStr ''b'') 1 \<in> set ms"
    unfolding ms(2) [rule_format] by (intro exI [of _ "[0x62]"] exI [of _ "TStr ''b''"] exI [of _ 1]) (simp add: sample_pats_def)
  ultimately show ?thesis using ms(1) by blast
qed

section \<open>Counters\<close>

datatype emu_op = LoadAc "(bytes \<times> tag) list" "string option" | LoadDfa "(string \<times> tag) list" "string option"
  | Scan bytes "string option" | ResetCounters

text \<open>A call; one whose automaton loop did not end would leave the state.\<close>

definition emu_step :: "re_module \<Rightarrow> emu_op \<Rightarrow> emu \<Rightarrow> emu" where
  "emu_step re c e =
     (case c of
        LoadAc pats engine \<Rightarrow> (case load_ac pats engine e of Some (_, e') \<Rightarrow> e' | None \<Rightarrow> e)
      | LoadDfa rs engine \<Rightarrow> snd (load_dfa re rs engine e)
      | Scan data engine \<Rightarrow> (case emu_scan data engine e of Some (_, e') \<Rightarrow> e' | None \<Rightarrow> e)
      | ResetCounters \<Rightarrow> reset_counters e)"

definition counter_ok :: "counter \<Rightarrow> bool" where
  "counter_ok c \<longleftrightarrow> drops c \<le> packets c \<and> drops c \<le> matches c"

definition counters_ok :: "emu \<Rightarrow> bool" where
  "counters_ok e \<longleftrightarrow> distinct (map fst (counters e)) \<and> list_all (\<lambda>(n, c). counter_ok c) (counters e)"

lemma dict_set_all: "list_all (\<lambda>(n, c). P c) d \<Longrightarrow> P v \<Longrightarrow> list_all (\<lambda>(n, c). P c) (dict_set k v d)"
  by (induction k v d rule: dict_set.induct) auto

lemma setdefault_ok:
  assumes "distinct (map fst cs)" "list_all (\<lambda>(n, c). counter_ok c) cs"
  shows "distinct (map fst (setdefault k (new_counter b) cs))" "list_all (\<lambda>(n, c). counter_ok c) (setdefault k (new_counter b) cs)"
  using assms by (auto simp: setdefault_def distinct_dict_set new_counter_def counter_ok_def intro!: dict_set_all split: option.splits)

lemma lookup_ok: "list_all (\<lambda>(n, c). counter_ok c) cs \<Longrightarrow> map_of cs k = Some c \<Longrightarrow> counter_ok c"
  by (auto simp: list_all_iff dest!: map_of_SomeD)

lemma account_ok: "counters_ok e \<Longrightarrow> counters_ok (account n h e)"
proof -
  assume e: "counters_ok e"
  let ?cs = "setdefault n (new_counter True) (counters e)"
  have cs: "distinct (map fst ?cs)" "list_all (\<lambda>(n, c). counter_ok c) ?cs"
    using setdefault_ok e by (auto simp: counters_ok_def)
  show ?thesis
  proof (cases "map_of ?cs n")
    case (Some c)
    have "counter_ok c" by (rule lookup_ok [OF cs(2) Some])
    then have "counter_ok (c\<lparr>packets := packets c + 1, matches := matches c + h, drops := (if h \<noteq> 0 then drops c + 1 else drops c)\<rparr>)"
      by (auto simp: counter_ok_def)
    then show ?thesis using cs Some by (auto simp: account_def counters_ok_def Let_def distinct_dict_set intro!: dict_set_all)
  qed (use cs in \<open>auto simp: account_def counters_ok_def Let_def\<close>)
qed

lemma enable_ok:
  assumes "distinct (map fst cs)" "list_all (\<lambda>(n, c). counter_ok c) cs"
  shows "distinct (map fst (enable k b cs))" "list_all (\<lambda>(n, c). counter_ok c) (enable k b cs)"
proof -
  note cs = setdefault_ok [OF assms, of k b]
  show "distinct (map fst (enable k b cs))"
    using cs by (auto simp: enable_def Let_def distinct_dict_set split: option.splits)
  show "list_all (\<lambda>(n, c). counter_ok c) (enable k b cs)"
    using cs lookup_ok [OF cs(2)] by (auto simp: enable_def Let_def counter_ok_def intro!: dict_set_all split: option.splits)
qed

lemma load_ac_ok: "counters_ok e \<Longrightarrow> load_ac pats engine e = Some (r, e') \<Longrightarrow> counters_ok e'"
  by (auto simp: load_ac_def counters_ok_def Let_def intro: enable_ok split: prod.splits sum.splits)

lemma load_dfa_ok: "counters_ok e \<Longrightarrow> counters_ok (snd (load_dfa re rs engine e))"
  by (auto simp: load_dfa_def counters_ok_def Let_def intro: enable_ok split: sum.splits)

lemma emu_scan_ok: "counters_ok e \<Longrightarrow> emu_scan data engine e = Some (ms, e') \<Longrightarrow> counters_ok e'"
  by (auto simp: emu_scan_def Let_def account_ok split: option.splits if_splits prod.splits simp: Option.bind_eq_Some_conv)

lemma reset_ok: "counters_ok e \<Longrightarrow> counters_ok (reset_counters e)"
  by (auto simp: counters_ok_def reset_counters_def list_all_iff counter_ok_def comp_def case_prod_beta)

interpretation emu: invariant_system "emu_step re" counters_ok
proof unfold_locales
  fix e c assume "counters_ok e"
  then show "counters_ok (emu_step re c e)"
    by (cases c) (auto simp: emu_step_def reset_ok load_dfa_ok intro: load_ac_ok emu_scan_ok split: option.splits)
qed

text \<open>
  Telemetry of the emulator: after any sequence of loads, scans and resets, whatever \<^verbatim>\<open>re\<close>
  does, \<^verbatim>\<open>emu_status\<close> of any engine name reports at most as many drops as packets and at
  most as many drops as matches.
\<close>

theorem emu_status_consistent:
  "s_drops (emu_status name (run (emu_step re) cs new_emu)) \<le> s_packets (emu_status name (run (emu_step re) cs new_emu))
   \<and> s_drops (emu_status name (run (emu_step re) cs new_emu)) \<le> s_matches (emu_status name (run (emu_step re) cs new_emu))"
proof -
  have "counters_ok new_emu" by (simp add: counters_ok_def new_emu_def)
  then have "counters_ok (run (emu_step re) cs new_emu)" by (rule emu.inv_run)
  then have "list_all (\<lambda>(n, c). counter_ok c) (counters (run (emu_step re) cs new_emu))" by (simp add: counters_ok_def)
  note lookup = lookup_ok [OF this, of name]
  show ?thesis
    by (cases "map_of (counters (run (emu_step re) cs new_emu)) name") (use lookup in \<open>auto simp: emu_status_def counter_ok_def\<close>)
qed

end
