(* ===== verification/Session_Decode.thy ===== *)
theory Session_Decode
  imports Ipaddr
begin

text \<open>
  The decoder of connection-tracking events of \<^verbatim>\<open>src/opt/ffn_session_events.py\<close>:
  netlink attributes (\<^verbatim>\<open>attributes\<close>, \<^verbatim>\<open>integer\<close>), address tuples
  (\<^verbatim>\<open>tuple_data\<close>), the messages of a datagram (\<^verbatim>\<open>decode\<close>) and the parsing of a
  snapshot dump (\<^verbatim>\<open>snapshot\<close>). The byte order of headers is an argument, as in the source;
  what follows is in network order. The theory gives the netlink format as a grammar (attribute
  streams, tuples, events, datagrams) and shows that decoding accepts exactly its datagrams with
  exactly their events, and that a datagram that is not understood is never a silent success.
\<close>

datatype endian = Little | Big

definition uint_of :: "endian \<Rightarrow> bytes \<Rightarrow> nat" where
  "uint_of e bs = (case e of Little \<Rightarrow> from_le bs | Big \<Rightarrow> from_be bs)"

text \<open>\<^verbatim>\<open>(size + 3) & ~3\<close>\<close>

definition align4 :: "nat \<Rightarrow> nat" where "align4 n = (n + 3) div 4 * 4"

lemma align4_bounds: "n \<le> align4 n" "align4 n < n + 4"
  unfolding align4_def by presburger+

section \<open>Attributes\<close>

type_synonym attrs = "(nat, bytes) odict"

function attrs_from :: "endian \<Rightarrow> nat list \<Rightarrow> bytes \<Rightarrow> attrs \<Rightarrow> attrs res" where
  "attrs_from e padding r d =
     (if r = [] then Inr d
      else if length r < 4 then Inl (EventError ''Truncated netlink attribute'')
      else
        (let size = uint_of e (seg 0 2 r); kind = uint_of e (seg 2 4 r) mod 0x4000 in
         if size < 4 \<or> length r < size then Inl (EventError ''Invalid netlink attribute length'')
         else if kind \<in> set padding \<and> size = 4 then attrs_from e padding (drop 4 r) d
         else if map_of d kind \<noteq> None then Inl (EventError ''Duplicate netlink attribute'')
         else if length r < align4 size then Inl (EventError ''Truncated netlink attribute padding'')
         else attrs_from e padding (drop (align4 size) r) (dict_set kind (seg 4 size r) d)))"
  by pat_completeness auto
termination
proof (relation "measure (\<lambda>(e, padding, r, d). length r)", goal_cases)
  case (3 e padding r d size kind)
  then show ?case using align4_bounds(1) [of size] by simp
qed auto

declare attrs_from.simps [simp del]

definition attributes :: "endian \<Rightarrow> nat list \<Rightarrow> bytes \<Rightarrow> attrs res" where
  "attributes e padding raw = attrs_from e padding raw []"

definition get_attr :: "nat \<Rightarrow> attrs \<Rightarrow> bytes res" where
  "get_attr k d = (case map_of d k of Some v \<Rightarrow> Inr v | None \<Rightarrow> Inl KeyError)"

definition integer :: "bytes \<Rightarrow> nat \<Rightarrow> nat res" where
  "integer raw n = ok (length raw = n) (EventError ''Invalid conntrack scalar length'') (Inr (from_be raw))"

text \<open>\<^verbatim>\<open>integer(d[k], size) if k in d else None\<close>\<close>

definition opt_integer :: "nat \<Rightarrow> nat \<Rightarrow> attrs \<Rightarrow> nat option res" where
  "opt_integer k n d = (case map_of d k of None \<Rightarrow> Inr None | Some v \<Rightarrow> rbind (integer v n) (\<lambda>x. Inr (Some x)))"

section \<open>Events\<close>

record tuple_rec =
  t_source :: string
  t_destination :: string
  t_protocol :: nat
  source_port :: "nat option"
  destination_port :: "nat option"
  icmp_id :: "nat option"
  icmp_type :: "nat option"
  icmp_code :: "nat option"

definition ipv4_text :: "bytes \<Rightarrow> string res" where
  "ipv4_text b = ok (length b = 4) (ValueError ''address length'') (Inr (print_ip4 (from_be b)))"

definition tuple_data :: "endian \<Rightarrow> bytes \<Rightarrow> tuple_rec res" where
  "tuple_data e raw =
     rbind (attributes e [] raw) (\<lambda>data.
     rbind (get_attr 1 data) (\<lambda>d1. rbind (attributes e [] d1) (\<lambda>ip.
     rbind (get_attr 2 data) (\<lambda>d2. rbind (attributes e [] d2) (\<lambda>proto.
     rbind (get_attr 1 ip) (\<lambda>s. rbind (ipv4_text s) (\<lambda>src.
     rbind (get_attr 2 ip) (\<lambda>t. rbind (ipv4_text t) (\<lambda>dst.
     rbind (get_attr 1 proto) (\<lambda>p. rbind (integer p 1) (\<lambda>pr.
     rbind (opt_integer 2 2 proto) (\<lambda>sp.
     rbind (opt_integer 3 2 proto) (\<lambda>dp.
     rbind (opt_integer 4 2 proto) (\<lambda>ii.
     rbind (opt_integer 5 1 proto) (\<lambda>it.
     rbind (opt_integer 6 1 proto) (\<lambda>ic.
       Inr \<lparr>t_source = src, t_destination = dst, t_protocol = pr, source_port = sp, destination_port = dp,
            icmp_id = ii, icmp_type = it, icmp_code = ic\<rparr>))))))))))))))))"

record counts =
  c_packets :: nat
  c_bytes :: nat

datatype event_kind = Start | Update | End | Interrupted | Recovered

record row =
  event :: event_kind
  ct_id :: nat
  token :: "nat option"
  original :: tuple_rec
  reply :: tuple_rec
  counters_original :: "counts option"
  counters_reply :: "counts option"
  status :: "nat option"
  timeout :: "nat option"
  zone :: nat
  tcp_state :: "nat option"

definition counts_of :: "endian \<Rightarrow> nat \<Rightarrow> attrs \<Rightarrow> counts option res" where
  "counts_of e k data =
     (case map_of data k of
        None \<Rightarrow> Inr None
      | Some raw \<Rightarrow>
          rbind (attributes e [5] raw) (\<lambda>nested.
          rbind (get_attr 1 nested) (\<lambda>p. rbind (integer p 8) (\<lambda>packets.
          rbind (get_attr 2 nested) (\<lambda>b. rbind (integer b 8) (\<lambda>bs.
            Inr (Some \<lparr>c_packets = packets, c_bytes = bs\<rparr>)))))))"

definition tcp_state_of :: "endian \<Rightarrow> attrs \<Rightarrow> nat option res" where
  "tcp_state_of e data =
     (case map_of data 4 of
        None \<Rightarrow> Inr None
      | Some raw \<Rightarrow>
          rbind (attributes e [] raw) (\<lambda>info.
            case map_of info 1 of
              None \<Rightarrow> Inr None
            | Some raw2 \<Rightarrow> rbind (attributes e [] raw2) (opt_integer 1 1)))"

text \<open>The body of the \<^verbatim>\<open>try\<close>.\<close>

definition event_row :: "endian \<Rightarrow> nat \<Rightarrow> nat \<Rightarrow> bytes \<Rightarrow> row res" where
  "event_row e kind flags raw =
     rbind (attributes e [] raw) (\<lambda>data.
     let label = (case map_of data 22 of Some l \<Rightarrow> l | None \<Rightarrow> []) in
     ok (length label \<in> {0, 16}) (EventError ''Invalid conntrack label size'')
     (let labels = uint_of e label in
     rbind (opt_integer 3 4 data) (\<lambda>st.
     rbind (opt_integer 7 4 data) (\<lambda>tm.
     rbind (opt_integer 18 2 data) (\<lambda>zn.
     rbind (tcp_state_of e data) (\<lambda>tcp.
     rbind (counts_of e 9 data) (\<lambda>co.
     rbind (counts_of e 10 data) (\<lambda>cr.
     rbind (get_attr 12 data) (\<lambda>i. rbind (integer i 4) (\<lambda>ident.
     rbind (get_attr 1 data) (\<lambda>o1. rbind (tuple_data e o1) (\<lambda>orig.
     rbind (get_attr 2 data) (\<lambda>o2. rbind (tuple_data e o2) (\<lambda>rep.
       Inr \<lparr>event = (if kind = 0x102 then End else if flags mod 0x800 div 0x200 \<noteq> 0 then Start else Update),
            ct_id = ident, token = (if odd labels then Some (labels div 2) else None), original = orig, reply = rep,
            counters_original = co, counters_reply = cr, status = st, timeout = tm,
            zone = (case zn of Some z \<Rightarrow> z | None \<Rightarrow> 0), tcp_state = tcp\<rparr>))))))))))))))"

text \<open>\<^verbatim>\<open>except (KeyError, ValueError, struct.error)\<close>\<close>

definition wrap_error :: "'a res \<Rightarrow> 'a res" where
  "wrap_error r = (case r of Inl e \<Rightarrow> Inl (EventError ''Malformed owned conntrack event'') | Inr x \<Rightarrow> Inr x)"

text \<open>One message; \<open>None\<close> is a message that is skipped.\<close>

definition decode_message :: "endian \<Rightarrow> nat \<Rightarrow> nat \<Rightarrow> bytes \<Rightarrow> row option res" where
  "decode_message e kind flags body =
     (if kind = 4 then Inl (EventGap ''Conntrack event stream overrun'')
      else if kind = 2 then
        (if length body < 4 then Inl (EventError ''Truncated conntrack netlink error'')
         else if uint_of e (take 4 body) \<noteq> 0 then Inl (EventError ''Conntrack netlink error'')
         else Inr None)
      else if kind \<noteq> 0x100 \<and> kind \<noteq> 0x102 then Inr None
      else if length body < 4 then Inl (EventError ''Truncated nfgenmsg'')
      else if body ! 0 \<noteq> 2 then Inr None
      else rbind (wrap_error (event_row e kind flags (drop 4 body))) (\<lambda>row. Inr (Some row)))"

function decode :: "endian \<Rightarrow> bytes \<Rightarrow> row list res" where
  "decode e r =
     (if r = [] then Inr []
      else if length r < 16 then Inl (EventError ''Truncated netlink header'')
      else
        (let size = uint_of e (seg 0 4 r); kind = uint_of e (seg 4 6 r); flags = uint_of e (seg 6 8 r) in
         if size < 16 \<or> length r < size then Inl (EventError ''Invalid netlink message length'')
         else
           rbind (decode_message e kind flags (seg 16 size r)) (\<lambda>row.
             if length r < align4 size then Inl (EventError ''Truncated netlink message padding'')
             else rbind (decode e (drop (align4 size) r)) (\<lambda>rows.
               Inr (case row of Some x \<Rightarrow> x # rows | None \<Rightarrow> rows)))))"
  by pat_completeness auto
termination
proof (relation "measure (\<lambda>(e, r). length r)", goal_cases)
  case (2 e r size kind flags row)
  then show ?case using align4_bounds(1) [of size] by simp
qed auto

declare decode.simps [simp del]

section \<open>What is raised\<close>

definition event_error :: "py_error \<Rightarrow> bool" where
  "event_error err = (case err of EventError s \<Rightarrow> True | EventGap s \<Rightarrow> True | _ \<Rightarrow> False)"

lemma wrap_error_Inl: "wrap_error r = Inl err \<Longrightarrow> event_error err"
  by (cases r) (auto simp: wrap_error_def event_error_def)

lemma decode_message_error: "decode_message e kind flags body = Inl err \<Longrightarrow> event_error err"
  by (auto simp: decode_message_def event_error_def [of "EventError _"] event_error_def [of "EventGap _"] rbind_def
      split: if_splits sum.splits intro: wrap_error_Inl)

lemma decode_Nil [simp]: "decode e [] = Inr []"
  by (subst decode.simps) simp

lemma decode_short: "r \<noteq> [] \<Longrightarrow> length r < 16 \<Longrightarrow> decode e r = Inl (EventError ''Truncated netlink header'')"
  by (subst decode.simps) simp

lemma decode_bad_size:
  "16 \<le> length r \<Longrightarrow> uint_of e (seg 0 4 r) < 16 \<or> length r < uint_of e (seg 0 4 r) \<Longrightarrow>
     decode e r = Inl (EventError ''Invalid netlink message length'')"
  by (subst decode.simps) (auto simp: Let_def)

lemma decode_step:
  assumes "16 \<le> length r" "16 \<le> uint_of e (seg 0 4 r)" "uint_of e (seg 0 4 r) \<le> length r"
  shows "decode e r =
     rbind (decode_message e (uint_of e (seg 4 6 r)) (uint_of e (seg 6 8 r)) (seg 16 (uint_of e (seg 0 4 r)) r)) (\<lambda>row.
       if length r < align4 (uint_of e (seg 0 4 r)) then Inl (EventError ''Truncated netlink message padding'')
       else rbind (decode e (drop (align4 (uint_of e (seg 0 4 r))) r)) (\<lambda>rows. Inr (case row of Some x \<Rightarrow> x # rows | None \<Rightarrow> rows)))"
  using assms by (subst decode.simps) (auto simp: Let_def)

lemma decode_error: "decode e r = Inl err \<Longrightarrow> event_error err"
proof (induction "length r" arbitrary: r err rule: less_induct)
  case less
  let ?size = "uint_of e (seg 0 4 r)" and ?m = "decode_message e (uint_of e (seg 4 6 r)) (uint_of e (seg 6 8 r)) (seg 16 (uint_of e (seg 0 4 r)) r)"
  show ?case
  proof (cases "16 \<le> length r \<and> 16 \<le> ?size \<and> ?size \<le> length r")
    case False
    have "r \<noteq> []" using less.prems by auto
    then show ?thesis using False less.prems decode_short [of r e] decode_bad_size [of r e]
      by (cases "length r < 16") (auto simp: event_error_def)
  next
    case True
    note step = decode_step [of r e]
    show ?thesis
    proof (cases ?m)
      case (Inl x)
      then show ?thesis using less.prems step True decode_message_error [OF Inl] by simp
    next
      case (Inr row)
      show ?thesis
      proof (cases "length r < align4 ?size")
        case short: True
        then show ?thesis using less.prems step True Inr by (auto simp: event_error_def)
      next
        case False
        then have "decode e (drop (align4 ?size) r) = Inl err"
          using less.prems step True Inr by (cases "decode e (drop (align4 ?size) r)") simp_all
        moreover have "length (drop (align4 ?size) r) < length r" unfolding length_drop using True align4_bounds(1) [of ?size] by linarith
        ultimately show ?thesis using less.hyps by blast
      qed
    qed
  qed
qed

section \<open>The format\<close>

text \<open>
  An attribute: its length with the header, its type below two flag bits, the value, and any bytes
  up to a multiple of four.
\<close>

definition attr_block :: "endian \<Rightarrow> nat \<Rightarrow> bytes \<Rightarrow> bytes \<Rightarrow> bool" where
  "attr_block e k v b \<longleftrightarrow>
     (\<exists>s t p f. b = s @ t @ v @ p \<and> length s = 2 \<and> uint_of e s = length v + 4 \<and> length t = 2 \<and> uint_of e t = f * 0x4000 + k \<and> k < 0x4000
        \<and> 4 dvd length v + length p \<and> length p < 4)"

text \<open>
  A stream of attributes of different types, and between them empty ones of the types that only
  align.
\<close>

inductive attr_stream :: "endian \<Rightarrow> nat list \<Rightarrow> attrs \<Rightarrow> bytes \<Rightarrow> bool" for e padding where
  stream_end: "attr_stream e padding [] []"
| stream_attr: "attr_block e k v b \<Longrightarrow> k \<notin> set padding \<or> v \<noteq> [] \<Longrightarrow> k \<notin> fst ` set d \<Longrightarrow> attr_stream e padding d r
    \<Longrightarrow> attr_stream e padding ((k, v) # d) (b @ r)"
| stream_pad: "attr_block e k [] b \<Longrightarrow> k \<in> set padding \<Longrightarrow> attr_stream e padding d r \<Longrightarrow> attr_stream e padding d (b @ r)"

text \<open>An attribute that is absent, or a number of \<open>n\<close> bytes in network order.\<close>

definition number :: "nat \<Rightarrow> bytes option \<Rightarrow> nat option \<Rightarrow> bool" where
  "number n a x \<longleftrightarrow> (case a of None \<Rightarrow> x = None | Some b \<Rightarrow> length b = n \<and> x = Some (from_be b))"

definition address :: "bytes option \<Rightarrow> string \<Rightarrow> bool" where
  "address a text \<longleftrightarrow> (\<exists>b. a = Some b \<and> length b = 4 \<and> text = print_ip4 (from_be b))"

text \<open>An attribute whose value is again a stream.\<close>

definition nested :: "endian \<Rightarrow> nat list \<Rightarrow> bytes option \<Rightarrow> attrs \<Rightarrow> bool" where
  "nested e padding a d \<longleftrightarrow> (\<exists>b. a = Some b \<and> attr_stream e padding d b)"

definition says_tuple :: "endian \<Rightarrow> bytes option \<Rightarrow> tuple_rec \<Rightarrow> bool" where
  "says_tuple e a t \<longleftrightarrow>
     (\<exists>d ip proto. nested e [] a d \<and> nested e [] (map_of d 1) ip \<and> nested e [] (map_of d 2) proto
        \<and> address (map_of ip 1) (t_source t) \<and> address (map_of ip 2) (t_destination t) \<and> number 1 (map_of proto 1) (Some (t_protocol t))
        \<and> number 2 (map_of proto 2) (source_port t) \<and> number 2 (map_of proto 3) (destination_port t) \<and> number 2 (map_of proto 4) (icmp_id t)
        \<and> number 1 (map_of proto 5) (icmp_type t) \<and> number 1 (map_of proto 6) (icmp_code t))"

definition says_counts :: "endian \<Rightarrow> bytes option \<Rightarrow> counts option \<Rightarrow> bool" where
  "says_counts e a c \<longleftrightarrow> a = None \<and> c = None
     \<or> (\<exists>d p b. nested e [5] a d \<and> number 8 (map_of d 1) (Some p) \<and> number 8 (map_of d 2) (Some b) \<and> c = Some \<lparr>c_packets = p, c_bytes = b\<rparr>)"

definition says_tcp :: "endian \<Rightarrow> bytes option \<Rightarrow> nat option \<Rightarrow> bool" where
  "says_tcp e a x \<longleftrightarrow> a = None \<and> x = None
     \<or> (\<exists>d. nested e [] a d \<and> (map_of d 1 = None \<and> x = None \<or> (\<exists>d'. nested e [] (map_of d 1) d' \<and> number 1 (map_of d' 1) x)))"

text \<open>The label of 16 bytes holds twice the token of the rule and one, or an even number without a rule.\<close>

definition says_label :: "endian \<Rightarrow> bytes option \<Rightarrow> nat option \<Rightarrow> bool" where
  "says_label e a x \<longleftrightarrow> (a = None \<or> a = Some []) \<and> x = None
     \<or> (\<exists>b n. a = Some b \<and> length b = 16 \<and> (uint_of e b = 2 * n + 1 \<and> x = Some n \<or> uint_of e b = 2 * n \<and> x = None))"

definition says_row :: "endian \<Rightarrow> bytes \<Rightarrow> row \<Rightarrow> bool" where
  "says_row e raw r \<longleftrightarrow>
     (\<exists>d zn. attr_stream e [] d raw \<and> says_label e (map_of d 22) (token r) \<and> number 4 (map_of d 3) (status r) \<and> number 4 (map_of d 7) (timeout r)
        \<and> number 2 (map_of d 18) zn \<and> zone r = (case zn of Some z \<Rightarrow> z | None \<Rightarrow> 0) \<and> says_tcp e (map_of d 4) (tcp_state r)
        \<and> says_counts e (map_of d 9) (counters_original r) \<and> says_counts e (map_of d 10) (counters_reply r)
        \<and> number 4 (map_of d 12) (Some (ct_id r)) \<and> says_tuple e (map_of d 1) (original r) \<and> says_tuple e (map_of d 2) (reply r))"

text \<open>A message is a creation or change (0x100, new with one of two flags) or a removal (0x102).\<close>

definition says_event :: "nat \<Rightarrow> nat \<Rightarrow> event_kind \<Rightarrow> bool" where
  "says_event kind flags ev \<longleftrightarrow>
     kind = 0x102 \<and> ev = End \<or> kind = 0x100 \<and> ev = (if odd (flags div 0x200) \<or> odd (flags div 0x400) then Start else Update)"

definition msg_block :: "endian \<Rightarrow> nat \<Rightarrow> nat \<Rightarrow> bytes \<Rightarrow> bytes \<Rightarrow> bool" where
  "msg_block e kind flags body b \<longleftrightarrow>
     (\<exists>s t f h p. b = s @ t @ f @ h @ body @ p \<and> length s = 4 \<and> uint_of e s = length body + 16 \<and> length t = 2 \<and> uint_of e t = kind
        \<and> length f = 2 \<and> uint_of e f = flags \<and> length h = 8 \<and> 4 dvd length body + length p \<and> length p < 4)"

text \<open>Messages without an event for the firewall: acknowledgements, other kinds, other families.\<close>

definition uninteresting :: "endian \<Rightarrow> nat \<Rightarrow> bytes \<Rightarrow> bool" where
  "uninteresting e kind body \<longleftrightarrow>
     kind = 2 \<and> 4 \<le> length body \<and> uint_of e (take 4 body) = 0 \<or> kind \<notin> {2, 4, 0x100, 0x102}
     \<or> kind \<in> {0x100, 0x102} \<and> 4 \<le> length body \<and> body ! 0 \<noteq> 2"

inductive datagram :: "endian \<Rightarrow> row list \<Rightarrow> bytes \<Rightarrow> bool" for e where
  no_more: "datagram e [] []"
| an_event: "msg_block e kind flags (2 # g @ raw) b \<Longrightarrow> length g = 3 \<Longrightarrow> says_event kind flags (event r) \<Longrightarrow> says_row e raw r \<Longrightarrow> datagram e rs rest
    \<Longrightarrow> datagram e (r # rs) (b @ rest)"
| another: "msg_block e kind flags body b \<Longrightarrow> uninteresting e kind body \<Longrightarrow> datagram e rs rest \<Longrightarrow> datagram e rs (b @ rest)"

section \<open>Attribute streams\<close>

lemma align4_pad: "4 dvd n + p \<Longrightarrow> p < 4 \<Longrightarrow> align4 (n + 4) = n + p + 4"
  unfolding align4_def by presburger

lemma attrs_Nil [simp]: "attrs_from e pad [] d = Inr d"
  by (subst attrs_from.simps) simp

lemma attrs_block:
  assumes "attr_block e k v b"
  shows "attrs_from e pad (b @ rest) d =
     (if k \<in> set pad \<and> v = [] then attrs_from e pad rest d
      else if map_of d k \<noteq> None then Inl (EventError ''Duplicate netlink attribute'')
      else attrs_from e pad rest (dict_set k v d))"
proof -
  obtain s t p f where b: "b = s @ t @ v @ p" "length s = 2" "uint_of e s = length v + 4" "length t = 2" "uint_of e t = f * 0x4000 + k" "k < 0x4000"
    "4 dvd length v + length p" "length p < 4" using assms unfolding attr_block_def by blast
  have al: "align4 (length v + 4) = length b" using align4_pad [OF b(7,8)] b by simp
  have h: "uint_of e (seg 0 2 (b @ rest)) = length v + 4" "uint_of e (seg 2 4 (b @ rest)) mod 0x4000 = k" "seg 4 (length v + 4) (b @ rest) = v"
    using b by (simp_all add: bytes_simps)
  have l: "4 \<le> length b" "length v + 4 \<le> length b" "v = [] \<Longrightarrow> length b = 4" using b by auto
  show ?thesis using l h al by (subst attrs_from.simps) (auto simp: Let_def)
qed

lemma dict_set_fresh: "k \<notin> fst ` set d \<Longrightarrow> dict_set k v d = d @ [(k, v)]"
  by (induction k v d rule: dict_set.induct) auto

lemma stream_decodes:
  "attr_stream e pad d raw \<Longrightarrow> fst ` set d0 \<inter> fst ` set d = {} \<Longrightarrow> attrs_from e pad raw d0 = Inr (d0 @ d)"
proof (induction arbitrary: d0 rule: attr_stream.induct)
  case (stream_attr k v b d r)
  have "k \<notin> fst ` set d0" "fst ` set (d0 @ [(k, v)]) \<inter> fst ` set d = {}" using stream_attr.prems stream_attr.hyps(3) by auto
  moreover from this(1) have "map_of d0 k = None" by (simp add: map_of_eq_None_iff)
  ultimately show ?case using stream_attr.IH [of "d0 @ [(k, v)]"] stream_attr.hyps(2)
    by (auto simp: attrs_block [OF stream_attr.hyps(1)] dict_set_fresh)
next
  case (stream_pad k b d r)
  then show ?case by (simp add: attrs_block)
qed simp

lemma seg_from_0: "seg 0 n r = take n r"
  by (simp add: seg_def)

text \<open>A decoded attribute is a block.\<close>

lemma block_at:
  assumes "4 \<le> uint_of e (seg 0 2 r)" "align4 (uint_of e (seg 0 2 r)) \<le> length r"
  shows "attr_block e (uint_of e (seg 2 4 r) mod 0x4000) (seg 4 (uint_of e (seg 0 2 r)) r) (take (align4 (uint_of e (seg 0 2 r))) r)"
proof -
  define n where "n = uint_of e (seg 0 2 r)"
  note n = assms [folded n_def] align4_bounds [of n]
  have "4 dvd align4 n" by (simp add: align4_def)
  moreover have "take (align4 n) r = seg 0 2 r @ seg 2 4 r @ seg 4 n r @ seg n (align4 n) r"
    using n by (simp add: seg_from_0 [symmetric] flip: seg_split)
  moreover have "uint_of e (seg 2 4 r) = uint_of e (seg 2 4 r) div 0x4000 * 0x4000 + uint_of e (seg 2 4 r) mod 0x4000" by simp
  moreover have "length (seg n (align4 n) r) < 4" "length (seg 4 n r) + length (seg n (align4 n) r) + 4 = align4 n" using n by auto
  moreover from this(2) \<open>4 dvd align4 n\<close> have "4 dvd length (seg 4 n r) + length (seg n (align4 n) r)" by presburger
  ultimately show ?thesis using n unfolding attr_block_def n_def [symmetric]
    by - (rule exI [of _ "seg 0 2 r"], rule exI [of _ "seg 2 4 r"], rule exI [of _ "seg n (align4 n) r"], rule exI [of _ "uint_of e (seg 2 4 r) div 0x4000"],
      simp add: n_def [symmetric])
qed

lemma attrs_from_stream:
  "attrs_from e pad r d0 = Inr d' \<Longrightarrow> \<exists>d. d' = d0 @ d \<and> fst ` set d0 \<inter> fst ` set d = {} \<and> attr_stream e pad d r"
proof (induction "length r" arbitrary: r d0 rule: less_induct)
  case less
  define n k where "n = uint_of e (seg 0 2 r)" and "k = uint_of e (seg 2 4 r) mod 0x4000"
  define v b rest where "v = seg 4 n r" and "b = take (align4 n) r" and "rest = drop (align4 n) r"
  show ?case
  proof (cases "r = []")
    case True
    then show ?thesis using less.prems by (auto intro: attr_stream.intros)
  next
    case False
    have s: "4 \<le> length r" "4 \<le> n" "n \<le> length r" "align4 n \<le> length r"
    proof -
      show "4 \<le> length r" "4 \<le> n" "n \<le> length r"
        using less.prems False unfolding n_def by (subst (asm) attrs_from.simps; force simp: Let_def split: if_splits)+
      then show "align4 n \<le> length r"
        using less.prems False unfolding n_def by (subst (asm) attrs_from.simps) (auto simp: Let_def align4_def split: if_splits)
    qed
    have blk: "attr_block e k v b" using block_at [of e r] s unfolding n_def k_def v_def b_def by simp
    have rb: "r = b @ rest" by (simp add: b_def rest_def)
    have sh: "length rest < length r" using s align4_bounds(1) [of n] by (simp add: rest_def)
    note step = less.prems [unfolded rb, unfolded attrs_block [OF blk]]
    show ?thesis
    proof (cases "k \<in> set pad \<and> v = []")
      case True
      then obtain d where "d' = d0 @ d" "fst ` set d0 \<inter> fst ` set d = {}" "attr_stream e pad d rest" using less.hyps [OF sh, of d0] step by auto
      then show ?thesis using stream_pad [of e k b pad d rest] blk True rb by auto
    next
      case False
      then have fr: "k \<notin> fst ` set d0" "attrs_from e pad rest (d0 @ [(k, v)]) = Inr d'"
        using step by (auto simp: map_of_eq_None_iff dict_set_fresh split: if_splits)
      obtain d where d: "d' = (d0 @ [(k, v)]) @ d" "fst ` set (d0 @ [(k, v)]) \<inter> fst ` set d = {}" "attr_stream e pad d rest"
        using less.hyps [OF sh fr(2)] by blast
      then have "attr_stream e pad ((k, v) # d) r" using stream_attr [OF blk, of pad d rest] False rb by auto
      then show ?thesis using d(1,2) fr(1) by (intro exI [of _ "(k, v) # d"]) auto
    qed
  qed
qed

lemma attributes_iff: "attributes e pad raw = Inr d \<longleftrightarrow> attr_stream e pad d raw"
  using attrs_from_stream [of e pad raw "[]" d] stream_decodes [of e pad d raw "[]"] by (auto simp: attributes_def)

section \<open>Events\<close>

lemma get_attr_iff: "get_attr k d = Inr v \<longleftrightarrow> map_of d k = Some v"
  by (simp add: get_attr_def split: option.splits)

lemma opt_integer_iff: "opt_integer k n d = Inr x \<longleftrightarrow> number n (map_of d k) x"
  by (auto simp: opt_integer_def number_def integer_def ok_Inr_iff rbind_Inr_iff split: option.splits)

lemma number_get: "number n (map_of d k) (Some x) \<longleftrightarrow> (\<exists>b. get_attr k d = Inr b \<and> integer b n = Inr x)"
  by (auto simp: get_attr_iff number_def integer_def ok_Inr_iff split: option.splits)

lemma address_get: "address (map_of d k) x \<longleftrightarrow> (\<exists>b. get_attr k d = Inr b \<and> ipv4_text b = Inr x)"
  by (auto simp: get_attr_iff address_def ipv4_text_def ok_Inr_iff)

lemma nested_get: "nested e pad (map_of d k) d' \<longleftrightarrow> (\<exists>b. get_attr k d = Inr b \<and> attributes e pad b = Inr d')"
  by (auto simp: get_attr_iff nested_def attributes_iff)

lemmas says_get = number_get address_get nested_get

lemma tuple_data_iff: "tuple_data e raw = Inr t \<longleftrightarrow> says_tuple e (Some raw) t"
proof -
  have n: "nested e [] (Some raw) d \<longleftrightarrow> attributes e [] raw = Inr d" for d by (simp add: nested_def attributes_iff)
  show ?thesis
    unfolding tuple_data_def rbind_Inr_iff opt_integer_iff says_tuple_def says_get n
    by (cases t) (simp; blast)
qed

lemma counts_of_iff: "counts_of e k d = Inr c \<longleftrightarrow> says_counts e (map_of d k) c"
proof (cases "map_of d k")
  case (Some raw)
  have n: "nested e [5] (Some raw) x \<longleftrightarrow> attributes e [5] raw = Inr x" for x by (simp add: nested_def attributes_iff)
  show ?thesis unfolding counts_of_def says_counts_def Some n says_get by (simp add: rbind_Inr_iff) blast
qed (auto simp: counts_of_def says_counts_def nested_def)

lemma tcp_state_iff: "tcp_state_of e d = Inr x \<longleftrightarrow> says_tcp e (map_of d 4) x"
proof (cases "map_of d 4")
  case (Some raw)
  have n: "nested e [] (Some raw) y \<longleftrightarrow> attributes e [] raw = Inr y" for raw y by (simp add: nested_def attributes_iff)
  have "(case map_of (i :: attrs) 1 of None \<Rightarrow> Inr None | Some raw2 \<Rightarrow> rbind (attributes e [] raw2) (opt_integer 1 1)) = Inr x
      \<longleftrightarrow> map_of i 1 = None \<and> x = None \<or> (\<exists>d'. nested e [] (map_of i 1) d' \<and> number 1 (map_of d' 1) x)" for i
    by (cases "map_of i 1") (auto simp: n rbind_Inr_iff opt_integer_iff, simp add: nested_def)
  then show ?thesis unfolding tcp_state_of_def says_tcp_def Some n by (simp add: rbind_Inr_iff del: One_nat_def)
qed (auto simp: tcp_state_of_def says_tcp_def nested_def)

lemma label_iff:
  "(let label = (case a of Some l \<Rightarrow> l | None \<Rightarrow> []) in length label \<in> {0, 16} \<and> x = (if odd (uint_of e label) then Some (uint_of e label div 2) else None))
     \<longleftrightarrow> says_label e a x"
proof (cases "a = None \<or> a = Some []")
  case True
  then show ?thesis by (auto simp: says_label_def uint_of_def from_le_def from_be_def split: endian.splits)
next
  case False
  then obtain b where b: "a = Some b" "b \<noteq> []" by auto
  show ?thesis
  proof (cases "odd (uint_of e b)")
    case True
    then have "uint_of e b = 2 * (uint_of e b div 2) + 1" "\<And>n. uint_of e b \<noteq> 2 * n" by presburger+
    then show ?thesis using b True by (auto simp: says_label_def)
  next
    case False
    then have "uint_of e b = 2 * (uint_of e b div 2)" "\<And>n. uint_of e b \<noteq> 2 * n + 1" by presburger+
    then show ?thesis using b False by (auto simp: says_label_def)
  qed
qed

lemma event_iff:
  "kind = 0x100 \<or> kind = 0x102 \<Longrightarrow>
     ev = (if kind = 0x102 then End else if flags mod 0x800 div 0x200 \<noteq> 0 then Start else Update) \<longleftrightarrow> says_event kind flags ev"
proof -
  have "flags mod (0x200 * 4) div 0x200 = flags div 0x200 mod 4" by (subst mod_mult2_eq) simp
  moreover have "flags div (0x200 * 2) = flags div 0x200 div 2" by (rule div_mult2_eq)
  moreover have "q mod 4 \<noteq> 0 \<longleftrightarrow> odd q \<or> odd (q div 2)" for q :: nat by presburger
  ultimately have "flags mod 0x800 div 0x200 \<noteq> 0 \<longleftrightarrow> odd (flags div 0x200) \<or> odd (flags div 0x400)" by simp
  then show "kind = 0x100 \<or> kind = 0x102 \<Longrightarrow> ?thesis" by (auto simp: says_event_def)
qed

lemma tuple_attr: "says_tuple e (map_of d k) t \<longleftrightarrow> (\<exists>b. get_attr k d = Inr b \<and> tuple_data e b = Inr t)"
  by (cases "map_of d k") (auto simp: get_attr_iff tuple_data_iff, simp add: says_tuple_def nested_def)

lemma event_row_iff:
  assumes "kind = 0x100 \<or> kind = 0x102"
  shows "event_row e kind flags raw = Inr r \<longleftrightarrow> says_event kind flags (event r) \<and> says_row e raw r"
proof
  assume "event_row e kind flags raw = Inr r"
  then obtain d st tm zn tcp co cr ident orig rep where d: "attr_stream e [] d raw"
      "let label = (case map_of d 22 of Some l \<Rightarrow> l | None \<Rightarrow> []) in
         length label \<in> {0, 16} \<and> token r = (if odd (uint_of e label) then Some (uint_of e label div 2) else None)"
      "number 4 (map_of d 3) st" "number 4 (map_of d 7) tm" "number 2 (map_of d 18) zn" "says_tcp e (map_of d 4) tcp"
      "says_counts e (map_of d 9) co" "says_counts e (map_of d 10) cr" "number 4 (map_of d 12) (Some ident)"
      "says_tuple e (map_of d 1) orig" "says_tuple e (map_of d 2) rep"
    and r: "event r = (if kind = 0x102 then End else if flags mod 0x800 div 0x200 \<noteq> 0 then Start else Update)"
      "status r = st" "timeout r = tm" "zone r = (case zn of Some z \<Rightarrow> z | None \<Rightarrow> 0)" "tcp_state r = tcp"
      "counters_original r = co" "counters_reply r = cr" "ct_id r = ident" "original r = orig" "reply r = rep"
    unfolding event_row_def rbind_Inr_iff ok_Inr_iff Let_def attributes_iff opt_integer_iff tcp_state_iff counts_of_iff tuple_attr number_get [of 4 _ 12]
    by (elim exE conjE) (drule sym [of "Inr _" "Inr r"], simp)
  have "says_row e raw r" unfolding says_row_def r using d(1,3-11) d(2) [unfolded label_iff] by blast
  then show "says_event kind flags (event r) \<and> says_row e raw r" using r(1) event_iff [OF assms] by blast
next
  assume a: "says_event kind flags (event r) \<and> says_row e raw r"
  then obtain d zn i o1 o2 where d: "attributes e [] raw = Inr d" "says_label e (map_of d 22) (token r)"
      "opt_integer 3 4 d = Inr (status r)" "opt_integer 7 4 d = Inr (timeout r)" "opt_integer 18 2 d = Inr zn" "zone r = (case zn of Some z \<Rightarrow> z | None \<Rightarrow> 0)"
      "tcp_state_of e d = Inr (tcp_state r)" "counts_of e 9 d = Inr (counters_original r)" "counts_of e 10 d = Inr (counters_reply r)"
      "get_attr 12 d = Inr i" "integer i 4 = Inr (ct_id r)" "get_attr 1 d = Inr o1" "tuple_data e o1 = Inr (original r)"
      "get_attr 2 d = Inr o2" "tuple_data e o2 = Inr (reply r)"
    unfolding says_row_def attributes_iff opt_integer_iff tcp_state_iff counts_of_iff tuple_attr number_get [of 4 _ 12] by blast
  note l = d(2) [folded label_iff, unfolded Let_def]
  note ev = a [THEN conjunct1, folded event_iff [OF assms]]
  show "event_row e kind flags raw = Inr r"
    unfolding event_row_def Let_def d(1,3-5,7-15) rbind_simps d(6) [symmetric] ok_def if_P [OF l [THEN conjunct1]] l [THEN conjunct2, symmetric] ev [symmetric] by simp
qed

section \<open>Datagrams\<close>

lemma align4_pad16: "4 dvd n + p \<Longrightarrow> p < 4 \<Longrightarrow> align4 (n + 16) = n + p + 16"
  unfolding align4_def by presburger

lemma decode_block:
  assumes "msg_block e kind flags body b"
  shows "decode e (b @ rest) = rbind (decode_message e kind flags body) (\<lambda>row. rbind (decode e rest) (\<lambda>rows. Inr (case row of Some x \<Rightarrow> x # rows | None \<Rightarrow> rows)))"
proof -
  obtain s t f h p where b: "b = s @ t @ f @ h @ body @ p" "length s = 4" "uint_of e s = length body + 16" "length t = 2" "uint_of e t = kind"
    "length f = 2" "uint_of e f = flags" "length h = 8" "4 dvd length body + length p" "length p < 4" using assms unfolding msg_block_def by blast
  have al: "align4 (length body + 16) = length b" using align4_pad16 [OF b(9,10)] b by simp
  have l: "16 \<le> length b" "length body + 16 \<le> length b" using b by auto
  have g: "seg 0 4 (b @ rest) = s" "seg 4 6 (b @ rest) = t" "seg 6 8 (b @ rest) = f" "seg 16 (length body + 16) (b @ rest) = body"
    using b by (simp_all add: bytes_simps)
  show ?thesis using decode_step [of "b @ rest" e] l al unfolding g b(3,5,7) by simp
qed

lemma msg_at:
  assumes "16 \<le> uint_of e (seg 0 4 r)" "align4 (uint_of e (seg 0 4 r)) \<le> length r"
  shows "msg_block e (uint_of e (seg 4 6 r)) (uint_of e (seg 6 8 r)) (seg 16 (uint_of e (seg 0 4 r)) r) (take (align4 (uint_of e (seg 0 4 r))) r)"
proof -
  define n where "n = uint_of e (seg 0 4 r)"
  note n = assms [folded n_def] align4_bounds [of n]
  have "4 dvd align4 n" by (simp add: align4_def)
  moreover have "take (align4 n) r = seg 0 4 r @ seg 4 6 r @ seg 6 8 r @ seg 8 16 r @ seg 16 n r @ seg n (align4 n) r"
    using n by (simp add: seg_from_0 [symmetric] flip: seg_split)
  moreover have "length (seg n (align4 n) r) < 4" "length (seg 16 n r) + length (seg n (align4 n) r) + 16 = align4 n" using n by auto
  moreover from this(2) \<open>4 dvd align4 n\<close> have "4 dvd length (seg 16 n r) + length (seg n (align4 n) r)" by presburger
  ultimately show ?thesis using n unfolding msg_block_def n_def [symmetric]
    by - (rule exI [of _ "seg 0 4 r"], rule exI [of _ "seg 4 6 r"], rule exI [of _ "seg 6 8 r"], rule exI [of _ "seg 8 16 r"], rule exI [of _ "seg n (align4 n) r"],
      simp add: n_def [symmetric])
qed

lemma message_event:
  "decode_message e kind flags body = Inr (Some r)
     \<longleftrightarrow> (\<exists>g raw. body = 2 # g @ raw \<and> length g = 3 \<and> says_event kind flags (event r) \<and> says_row e raw r)"
proof (cases "(kind = 0x100 \<or> kind = 0x102) \<and> 4 \<le> length body \<and> body ! 0 = 2")
  case True
  then obtain g raw where b: "body = 2 # g @ raw" "length g = 3"
    using that [of "take 3 (tl body)" "drop 3 (tl body)"] by (cases body) auto
  have "decode_message e kind flags body = Inr (Some r) \<longleftrightarrow> event_row e kind flags raw = Inr r"
    using True b by (auto simp: decode_message_def wrap_error_def rbind_Inr_iff split: sum.splits)
  then show ?thesis using event_row_iff [of kind e flags raw r] True b by auto
next
  case False
  then have "decode_message e kind flags body \<noteq> Inr (Some r)" by (auto simp: decode_message_def split: if_splits)
  moreover have "\<not> (\<exists>g raw. body = 2 # g @ raw \<and> length g = 3 \<and> says_event kind flags (event r))" using False by (auto simp: says_event_def)
  ultimately show ?thesis by blast
qed

lemma message_none: "decode_message e kind flags body = Inr None \<longleftrightarrow> uninteresting e kind body"
  by (auto simp: decode_message_def uninteresting_def rbind_Inr_iff not_le)

lemma datagram_decodes: "datagram e rs raw \<Longrightarrow> decode e (raw @ rest) = rbind (decode e rest) (\<lambda>rows. Inr (rs @ rows))"
proof (induction rule: datagram.induct)
  case no_more
  then show ?case by (cases "decode e rest") auto
next
  case (an_event kind flags g raw b r rs rest')
  have "decode_message e kind flags (2 # g @ raw) = Inr (Some r)" using an_event.hyps(2-4) unfolding message_event by blast
  then show ?case using an_event.IH by (cases "decode e rest") (simp_all add: decode_block [OF an_event.hyps(1)])
next
  case (another kind flags body b rs rest')
  have "decode_message e kind flags body = Inr None" using another.hyps(2) unfolding message_none .
  then show ?case using another.IH by (cases "decode e rest") (simp_all add: decode_block [OF another.hyps(1)])
qed

lemma decode_datagram: "decode e r = Inr rs \<Longrightarrow> datagram e rs r"
proof (induction "length r" arbitrary: r rs rule: less_induct)
  case less
  define n where "n = uint_of e (seg 0 4 r)"
  define b rest where "b = take (align4 n) r" and "rest = drop (align4 n) r"
  let ?kind = "uint_of e (seg 4 6 r)" and ?flags = "uint_of e (seg 6 8 r)" and ?body = "seg 16 n r"
  show ?case
  proof (cases "r = []")
    case False
    have s: "16 \<le> length r" "16 \<le> n" "n \<le> length r"
      using less.prems False decode_short [of r e] decode_bad_size [of r e] unfolding n_def by (cases "length r < 16"; force)+
    then have "align4 n \<le> length r"
      using less.prems decode_step [of r e] unfolding n_def by (auto simp: rbind_Inr_iff split: if_splits)
    then have blk: "msg_block e ?kind ?flags ?body b" using msg_at [of e r] s unfolding n_def b_def by simp
    have rb: "r = b @ rest" by (simp add: b_def rest_def)
    have sh: "length rest < length r" using s align4_bounds(1) [of n] by (simp add: rest_def)
    obtain row rows where m: "decode_message e ?kind ?flags ?body = Inr row" "decode e rest = Inr rows" "rs = (case row of Some x \<Rightarrow> x # rows | None \<Rightarrow> rows)"
      using less.prems unfolding arg_cong [OF rb, of "decode e"] decode_block [OF blk] by (auto simp: rbind_Inr_iff)
    note d = less.hyps [OF sh m(2)]
    show ?thesis
    proof (cases row)
      case None
      then have "uninteresting e ?kind ?body" using m(1) by (simp add: message_none)
      then show ?thesis using another [OF blk _ d] m(3) None rb by simp
    next
      case (Some x)
      obtain g raw where g: "?body = 2 # g @ raw" "length g = 3" "says_event ?kind ?flags (event x)" "says_row e raw x"
        using m(1) [unfolded Some message_event] by blast
      show ?thesis using an_event [OF blk [unfolded g(1)] g(2-4) d] m(3) Some rb by simp
    qed
  qed (use less.prems in \<open>auto intro: datagram.intros\<close>)
qed

text \<open>
  (C12) Decoding is exact for the netlink format: \<^verbatim>\<open>decode\<close> returns a list of events if and only
  if the datagram is a sequence of messages, padded to four bytes, that carries exactly these events
  in this order. An event's attributes come in any order, with or without the flag bits of
  their types, between attributes the code does not read and, in the counters, alignment
  attributes; an optional field is absent exactly when its attribute is, and the token of the rule
  is the label without its marker bit. Acknowledgements, other kinds of messages and other address
  families carry no event; every other datagram is refused.
\<close>

theorem session_decode_exact: "decode e raw = Inr rows \<longleftrightarrow> datagram e rows raw"
  using decode_datagram [of e raw rows] datagram_decodes [of e rows raw "[]"] by auto

definition sample_tuple :: tuple_rec where
  "sample_tuple = \<lparr>t_source = ''10.0.0.1'', t_destination = ''10.0.0.2'', t_protocol = 6, source_port = Some 40000,
     destination_port = Some 443, icmp_id = None, icmp_type = None, icmp_code = None\<rparr>"

definition sample_row :: row where
  "sample_row = \<lparr>event = Start, ct_id = 77, token = Some 5, original = sample_tuple, reply = sample_tuple,
     counters_original = None, counters_reply = None, status = Some 8, timeout = None, zone = 0, tcp_state = Some 3\<rparr>"

text \<open>An event with the nesting flags and the alignment attribute in its counters.\<close>

lemma sample_datagram:
  "datagram Little [sample_row\<lparr>counters_original := Some \<lparr>c_packets = 3, c_bytes = 300\<rparr>\<rparr>]
    [208, 0, 0, 0, 0, 1, 0, 6, 1, 0, 0, 0, 0, 0, 0, 0, 2, 0, 0, 0, 52, 0, 1, 128, 20, 0, 1, 128, 8, 0, 1, 0, 10, 0, 0, 1, 8, 0, 2, 0, 10, 0, 0, 2, 28, 0,
     2, 128, 5, 0, 1, 0, 6, 0, 0, 0, 6, 0, 2, 0, 156, 64, 0, 0, 6, 0, 3, 0, 1, 187, 0, 0, 52, 0, 2, 128, 20, 0, 1, 128, 8, 0, 1, 0, 10, 0, 0, 1, 8, 0, 2,
     0, 10, 0, 0, 2, 28, 0, 2, 128, 5, 0, 1, 0, 6, 0, 0, 0, 6, 0, 2, 0, 156, 64, 0, 0, 6, 0, 3, 0, 1, 187, 0, 0, 8, 0, 12, 0, 0, 0, 0, 77, 8, 0, 3, 0, 0,
     0, 0, 8, 16, 0, 4, 128, 12, 0, 1, 128, 5, 0, 1, 0, 3, 0, 0, 0, 32, 0, 9, 128, 12, 0, 1, 0, 0, 0, 0, 0, 0, 0, 0, 3, 4, 0, 5, 0, 12, 0, 2, 0, 0, 0, 0,
     0, 0, 0, 1, 44, 20, 0, 22, 0, 11, 0, 0, 0, 0, 0, 0, 0, 0, 0, 0, 0, 0, 0, 0, 0]"
  by (rule decode_datagram) code_simp

text \<open>
  Loss is never silent: the only errors \<^verbatim>\<open>decode\<close> raises are \<^verbatim>\<open>EventError\<close> and
  \<^verbatim>\<open>EventGap\<close>, whatever the bytes, and a datagram that contains an overrun message after
  well-formed messages raises \<^verbatim>\<open>EventGap\<close>, so no events of it are delivered.
\<close>

theorem session_decode_loss:
  "(\<forall>raw err. decode e raw = Inl err \<longrightarrow> event_error err)
   \<and> (\<forall>rows raw flags body b rest. datagram e rows raw \<and> msg_block e 4 flags body b \<longrightarrow>
        decode e (raw @ b @ rest) = Inl (EventGap ''Conntrack event stream overrun''))"
proof (intro conjI allI impI)
  show "event_error err" if "decode e raw = Inl err" for raw err using that by (rule decode_error)
next
  fix rows raw flags body b rest
  assume a: "datagram e rows raw \<and> msg_block e 4 flags body b"
  then have "decode e (b @ rest) = Inl (EventGap ''Conntrack event stream overrun'')"
    using decode_block [of e 4 flags body b rest] by (simp add: decode_message_def)
  then show "decode e (raw @ b @ rest) = Inl (EventGap ''Conntrack event stream overrun'')" using datagram_decodes [of e rows raw "b @ rest"] a by simp
qed

end
