(* ===== verification/Session_Journal.thy ===== *)
theory Session_Journal
  imports Session_Decode Transition "HOL-Library.List_Lexorder" "HOL-Library.Char_ord"
begin

text \<open>
  Snapshots and the durable session journal of \<^verbatim>\<open>src/opt/ffn_session_events.py\<close>
  (\<^verbatim>\<open>snapshot\<close>, \<^verbatim>\<open>Journal\<close>). The tables of the SQLite database are association lists
  in the order of insertion; the body of a \<^verbatim>\<open>with self.db\<close> block that raises leaves the
  journal as it was, which is the result type: an error carries no journal. A session's identity,
  in the source the JSON text of boot, connection id and original tuple, is the triple. Readings
  of the clock are arguments; tokens are below the range of an SQLite integer.
\<close>

section \<open>Snapshots\<close>

text \<open>
  What \<^verbatim>\<open>select\<close> and \<^verbatim>\<open>receive_raw\<close> give in one round: nothing, or a datagram or its
  error. The rounds end when the deadline has passed.
\<close>

datatype poll = Idle | Datagram "bytes res"

record snap =
  dump_rows :: "row list"
  dump_changes :: "row list"
  dump_done :: bool

definition snap_message :: "endian \<Rightarrow> nat \<Rightarrow> nat \<Rightarrow> nat \<Rightarrow> nat \<Rightarrow> nat \<Rightarrow> bytes \<Rightarrow> snap \<Rightarrow> snap res" where
  "snap_message e sequence n kind flags sq msg s =
     (if odd (flags div 16) then Inl (EventGap ''Interrupted conntrack snapshot'')
      else if sq = sequence then
        (if kind = 3 then
           ok (\<not> (16 < n \<and> (n < 20 \<or> uint_of e (seg 16 20 msg) \<noteq> 0))) (EventGap ''Failed conntrack snapshot'')
             (Inr (s\<lparr>dump_done := True\<rparr>))
         else rbind (decode e (msg @ replicate (align4 n - n) 0)) (\<lambda>rows. Inr (s\<lparr>dump_rows := dump_rows s @ rows\<rparr>)))
      else if sq = 0 then
        rbind (decode e (msg @ replicate (align4 n - n) 0)) (\<lambda>rows. Inr (s\<lparr>dump_changes := dump_changes s @ rows\<rparr>))
      else Inl (EventError ''Unexpected conntrack snapshot sequence''))"

function snap_messages :: "endian \<Rightarrow> nat \<Rightarrow> bytes \<Rightarrow> snap \<Rightarrow> snap res" where
  "snap_messages e sequence r s =
     (if r = [] then Inr s
      else if length r < 16 then Inl (EventError ''Truncated snapshot header'')
      else
        (let n = uint_of e (seg 0 4 r) in
         if n < 16 \<or> length r < n then Inl (EventError ''Invalid snapshot message'')
         else
           rbind (snap_message e sequence n (uint_of e (seg 4 6 r)) (uint_of e (seg 6 8 r)) (uint_of e (seg 8 12 r)) (take n r) s) (\<lambda>s'.
             if length r < align4 n then Inl (EventError ''Truncated snapshot padding'')
             else snap_messages e sequence (drop (align4 n) r) s')))"
  by pat_completeness auto
termination
proof (relation "measure (\<lambda>(e, sequence, r, s). length r)", goal_cases)
  case (2 e sequence r s n s')
  then show ?case using align4_bounds(1) [of n] by simp
qed auto

declare snap_messages.simps [simp del]

fun snapshot_rounds :: "endian \<Rightarrow> nat \<Rightarrow> nat \<Rightarrow> poll list \<Rightarrow> snap \<Rightarrow> (row list \<times> row list) res" where
  "snapshot_rounds e sequence capacity [] s = Inl (EventGap ''Conntrack snapshot did not complete and drain'')"
| "snapshot_rounds e sequence capacity (Idle # ps) s =
     (if dump_done s then Inr (dump_rows s, dump_changes s) else snapshot_rounds e sequence capacity ps s)"
| "snapshot_rounds e sequence capacity (Datagram d # ps) s =
     rbind d (\<lambda>raw. rbind (snap_messages e sequence raw s) (\<lambda>s'.
       ok (length (dump_rows s') + length (dump_changes s') \<le> capacity) (EventGap ''Conntrack snapshot capacity exceeded'')
         (snapshot_rounds e sequence capacity ps s')))"

definition snapshot :: "endian \<Rightarrow> nat \<Rightarrow> nat \<Rightarrow> poll list \<Rightarrow> (row list \<times> row list) res" where
  "snapshot e sequence capacity ps = snapshot_rounds e sequence capacity ps \<lparr>dump_rows = [], dump_changes = [], dump_done = False\<rparr>"

section \<open>The journal\<close>

type_synonym identity = "string \<times> nat \<times> tuple_rec"

record jrecord =
  j_row :: row
  j_boot :: string
  j_rule :: json
  j_started :: "int option"
  j_ended :: "int option"
  j_duration :: "int option"
  j_gap :: bool
  j_reason :: "string option"
  j_complete :: bool

record session =
  s_token :: nat
  s_started :: "int option"
  s_updated :: int
  s_data :: jrecord

record log_event =
  l_observed :: int
  l_kind :: event_kind
  l_token :: nat
  l_data :: jrecord

record journal =
  boot :: string
  rules :: "(nat, json) odict"
  sessions :: "(identity, session) odict"
  events :: "log_event list"
  health :: "string option"

definition identity_of :: "string \<Rightarrow> row \<Rightarrow> identity" where
  "identity_of b r = (b, ct_id r, original r)"

text \<open>Opening the database keeps what it holds.\<close>

definition open_journal :: "string \<Rightarrow> journal \<Rightarrow> journal" where
  "open_journal b j = j\<lparr>boot := b\<rparr>"

text \<open>\<^verbatim>\<open>json.dumps(metadata, sort_keys=True)\<close> is what the table holds: the value with its keys in order.\<close>

primrec canon :: "json \<Rightarrow> json" where
  "canon JNull = JNull"
| "canon (JBool b) = JBool b"
| "canon (JInt n) = JInt n"
| "canon (JFloat n) = JFloat n"
| "canon (JStr s) = JStr s"
| "canon (JList vs) = JList (map canon vs)"
| "canon (JObj kvs) = JObj (sort_key fst (map (map_prod id canon) kvs))"

definition register_one :: "nat \<times> json \<Rightarrow> (nat, json) odict \<Rightarrow> (nat, json) odict res" where
  "register_one r rs =
     (case r of (t, m) \<Rightarrow>
        case map_of rs t of
          Some old \<Rightarrow> ok (old = canon m) (EventError ''A Security session token cannot be reused'') (Inr rs)
        | None \<Rightarrow> Inr (rs @ [(t, canon m)]))"

definition register :: "(nat \<times> json) list \<Rightarrow> journal \<Rightarrow> journal res" where
  "register new j = rbind (fold_res register_one new (rules j)) (\<lambda>rs. Inr (j\<lparr>rules := rs\<rparr>))"

definition rule_flag :: "string \<Rightarrow> json \<Rightarrow> bool res" where
  "rule_flag w rule =
     (case rule of
        JObj kvs \<Rightarrow>
          (case map_of kvs ''logging'' of
             None \<Rightarrow> Inl KeyError
           | Some (JObj l) \<Rightarrow> (case map_of l w of None \<Rightarrow> Inl KeyError | Some v \<Rightarrow> Inr (truthy v))
           | Some _ \<Rightarrow> Inl TypeError)
      | _ \<Rightarrow> Inl TypeError)"

definition both_counters :: "row \<Rightarrow> bool" where
  "both_counters r \<longleftrightarrow> counters_original r \<noteq> None \<and> counters_reply r \<noteq> None"

definition replace_row :: "'k \<Rightarrow> 'v \<Rightarrow> ('k, 'v) odict \<Rightarrow> ('k, 'v) odict" where
  "replace_row k v d = dict_del k d @ [(k, v)]"

text \<open>The record that \<^verbatim>\<open>_record\<close> stores.\<close>

definition event_record :: "int \<Rightarrow> string \<Rightarrow> json \<Rightarrow> session option \<Rightarrow> row \<Rightarrow> jrecord" where
  "event_record now b rule old r =
     (let started = (case old of Some s \<Rightarrow> s_started s | None \<Rightarrow> if event r \<in> {Start, Update} then Some now else None) in
      \<lparr>j_row = r, j_boot = b, j_rule = rule, j_started = started,
       j_ended = (if event r = End then Some now else None),
       j_duration = (if event r = End then map_option (\<lambda>s. max 0 (now - s)) started else None),
       j_gap = (case old of Some s \<Rightarrow> j_gap (s_data s) | None \<Rightarrow> False), j_reason = None, j_complete = True\<rparr>)"

definition store_row :: "identity \<Rightarrow> int \<Rightarrow> nat \<Rightarrow> json \<Rightarrow> jrecord \<Rightarrow> row \<Rightarrow> journal \<Rightarrow> journal res" where
  "store_row k now t rule ev r j =
     (if event r = End then
        rbind (rule_flag ''end'' rule) (\<lambda>f.
          ok (f \<longrightarrow> both_counters r) (EventError ''Session-end accounting counters are missing'')
            (Inr (j\<lparr>sessions := dict_del k (sessions j)\<rparr>)))
      else Inr (j\<lparr>sessions := replace_row k \<lparr>s_token = t, s_started = j_started ev, s_updated = now, s_data = ev\<rparr> (sessions j)\<rparr>))"

definition log_row :: "int \<Rightarrow> nat \<Rightarrow> json \<Rightarrow> bool \<Rightarrow> jrecord \<Rightarrow> row \<Rightarrow> journal \<Rightarrow> journal res" where
  "log_row now t rule first_admission ev r j =
     rbind (if event r = End then rule_flag ''end'' rule else Inr False) (\<lambda>e.
     rbind (if e then Inr True else if first_admission then rule_flag ''start'' rule else Inr False) (\<lambda>wanted.
       let ev' = (if first_admission then ev\<lparr>j_row := (j_row ev)\<lparr>event := Start\<rparr>\<rparr> else ev) in
       Inr (if wanted then j\<lparr>events := events j @ [\<lparr>l_observed = now, l_kind = event (j_row ev'), l_token = t, l_data = ev'\<rparr>]\<rparr> else j)))"

definition record_row :: "int \<Rightarrow> row \<Rightarrow> journal \<Rightarrow> journal res" where
  "record_row now r j =
     (let k = identity_of (boot j) r; old = map_of (sessions j) k in
      case (token r, old) of
        (None, None) \<Rightarrow> Inr j
      | _ \<Rightarrow>
          (let t = (case token r of Some t \<Rightarrow> t | None \<Rightarrow> s_token (the old)); r' = r\<lparr>token := Some t\<rparr> in
           need (map_of (rules j) t) (EventError ''No durable rule generation for owned conntrack event'') (\<lambda>rule.
           ok (case old of Some s \<Rightarrow> s_token s = t | None \<Rightarrow> True) (EventError ''Session changed its Security rule identity'')
           (let ev = event_record now (boot j) rule old r' in
            rbind (store_row k now t rule ev r' j) (log_row now t rule (old = None \<and> event r \<in> {Start, Update}) ev r')))))"

definition record_batch :: "(int \<times> row) list \<Rightarrow> journal \<Rightarrow> journal res" where
  "record_batch rows j = fold_res (\<lambda>(now, r). record_row now r) rows j"

section \<open>Reconciliation\<close>

definition merge_counts :: "counts option \<Rightarrow> counts option \<Rightarrow> counts option" where
  "merge_counts new old =
     (case old of
        None \<Rightarrow> new
      | Some c \<Rightarrow> Some (case new of
            None \<Rightarrow> c
          | Some d \<Rightarrow> \<lparr>c_packets = max (c_packets c) (c_packets d), c_bytes = max (c_bytes c) (c_bytes d)\<rparr>))"

definition live_of :: "string \<Rightarrow> row list \<Rightarrow> (identity, row) odict" where
  "live_of b rows = fold (\<lambda>r. dict_set (identity_of b r) r) [r \<leftarrow> rows. token r \<noteq> None] []"

definition apply_change :: "string \<Rightarrow> row \<Rightarrow> (identity, row) odict \<Rightarrow> (identity, row) odict res" where
  "apply_change b r live =
     (let k = identity_of b r in
      if event r = End then Inr (dict_del k live)
      else if token r \<noteq> None then
        (case map_of live k of
           None \<Rightarrow> Inr (dict_set k r live)
         | Some old \<Rightarrow>
             ok (token old = token r) (EventError ''Snapshot token changed'')
               (Inr (dict_set k (r\<lparr>counters_original := merge_counts (counters_original r) (counters_original old),
                                    counters_reply := merge_counts (counters_reply r) (counters_reply old)\<rparr>) live)))
      else Inr live)"

definition interrupt :: "string \<Rightarrow> jrecord \<Rightarrow> jrecord" where
  "interrupt reason ev =
     ev\<lparr>j_row := (j_row ev)\<lparr>event := Interrupted\<rparr>, j_reason := Some reason, j_ended := None, j_duration := None, j_complete := False\<rparr>"

text \<open>An open session that is gone: an event where the rule logs ends.\<close>

definition log_interrupted :: "int \<Rightarrow> string \<Rightarrow> session \<Rightarrow> log_event list \<Rightarrow> log_event list res" where
  "log_interrupted now reason s evs =
     rbind (rule_flag ''end'' (j_rule (s_data s))) (\<lambda>f.
       Inr (if f then evs @ [\<lparr>l_observed = now, l_kind = Interrupted, l_token = s_token s, l_data = interrupt reason (s_data s)\<rparr>] else evs))"

definition log_gone :: "int \<Rightarrow> string \<Rightarrow> (identity, row) odict \<Rightarrow> identity \<times> session \<Rightarrow> log_event list \<Rightarrow> log_event list res" where
  "log_gone now reason live ks evs =
     (case ks of (k, s) \<Rightarrow> if map_of live k \<noteq> None then Inr evs else log_interrupted now reason s evs)"

definition restore :: "int \<Rightarrow> (identity, session) odict \<Rightarrow> identity \<times> row \<Rightarrow> journal \<Rightarrow> journal res" where
  "restore now previous kr j =
     (case kr of (k, r) \<Rightarrow>
        need (token r) (EventError ''No durable rule generation for snapshot session'') (\<lambda>t.
        need (map_of (rules j) t) (EventError ''No durable rule generation for snapshot session'') (\<lambda>rule.
        ok (case map_of previous k of Some s \<Rightarrow> s_token s = t | None \<Rightarrow> True) (EventError ''Snapshot changed durable session identity'')
        (let started = (case map_of previous k of Some s \<Rightarrow> s_started s | None \<Rightarrow> None);
             ev = \<lparr>j_row = r\<lparr>event := Recovered\<rparr>, j_boot = boot j, j_rule = rule, j_started = started, j_ended = None,
                   j_duration = None, j_gap = True, j_reason = None, j_complete = True\<rparr>;
             j1 = j\<lparr>sessions := sessions j @ [(k, \<lparr>s_token = t, s_started = started, s_updated = now, s_data = ev\<rparr>)]\<rparr> in
         rbind (if map_of previous k = None then rule_flag ''start'' rule else Inr False) (\<lambda>f.
           Inr (if f then j1\<lparr>events := events j1 @ [\<lparr>l_observed = now, l_kind = Recovered, l_token = t, l_data = ev\<rparr>]\<rparr> else j1))))))"

definition reconcile :: "int \<Rightarrow> row list \<Rightarrow> row list \<Rightarrow> string \<Rightarrow> journal \<Rightarrow> (nat \<times> journal) res" where
  "reconcile now rows changes reason j =
     rbind (fold_res (apply_change (boot j)) changes (live_of (boot j) rows)) (\<lambda>live.
     rbind (fold_res (log_gone now reason live) (sessions j) (events j)) (\<lambda>evs.
     rbind (fold_res (restore now (sessions j)) live (j\<lparr>events := evs, sessions := []\<rparr>)) (\<lambda>j'.
       Inr (length live, j'\<lparr>health := None\<rparr>))))"

definition fault :: "string \<Rightarrow> journal \<Rightarrow> journal" where
  "fault reason j = j\<lparr>health := Some reason\<rparr>"

definition recover_one :: "int \<Rightarrow> identity \<times> session \<Rightarrow> journal \<Rightarrow> journal res" where
  "recover_one now ks j =
     (case ks of (k, s) \<Rightarrow>
        if fst k = boot j then Inr j
        else rbind (log_interrupted now ''dataplane-boot-changed'' s (events j)) (\<lambda>evs.
          Inr (j\<lparr>events := evs, sessions := dict_del k (sessions j)\<rparr>)))"

definition recover_boot :: "int \<Rightarrow> journal \<Rightarrow> journal res" where
  "recover_boot now j = fold_res (recover_one now) (sessions j) j"

definition fault_reason :: "journal \<Rightarrow> string option" where
  "fault_reason j = health j"

definition recent :: "int \<Rightarrow> journal \<Rightarrow> jrecord list" where
  "recent limit j = take (nat (min 100 (max 1 limit))) (map l_data (rev (events j)))"

text \<open>The faults from which the collector may restart: \<^verbatim>\<open>Collector.recoverable\<close>; \<open>enobufs\<close> is the text of that error.\<close>

definition recoverable :: "string \<Rightarrow> string option \<Rightarrow> bool" where
  "recoverable enobufs reason =
     (case reason of
        None \<Rightarrow> True
      | Some r \<Rightarrow> r = [] \<or> starts_with ''Session event gap:'' r \<or> starts_with ''Policy gate close failed:'' r
          \<or> r = ''Collector restarted with active sessions; event-gap reconciliation is required'' \<or> r = enobufs)"

section \<open>The invariant of the journal\<close>

text \<open>
  Sessions are keyed, each carries the rule generation its token is registered for, and every
  session-end event that was logged has the counters of both directions.
\<close>

definition session_ok :: "(nat, json) odict \<Rightarrow> session \<Rightarrow> bool" where
  "session_ok rs s \<longleftrightarrow> map_of rs (s_token s) = Some (j_rule (s_data s))"

definition log_ok :: "(nat, json) odict \<Rightarrow> log_event \<Rightarrow> bool" where
  "log_ok rs l \<longleftrightarrow> map_of rs (l_token l) = Some (j_rule (l_data l)) \<and> (l_kind l = End \<longrightarrow> both_counters (j_row (l_data l)))"

definition journal_ok :: "journal \<Rightarrow> bool" where
  "journal_ok j \<longleftrightarrow> distinct (map fst (sessions j)) \<and> (\<forall>(k, s) \<in> set (sessions j). session_ok (rules j) s) \<and> (\<forall>l \<in> set (events j). log_ok (rules j) l)"

lemma journal_okI:
  "distinct (map fst (sessions j)) \<Longrightarrow> (\<And>k s. (k, s) \<in> set (sessions j) \<Longrightarrow> session_ok (rules j) s) \<Longrightarrow>
   (\<And>l. l \<in> set (events j) \<Longrightarrow> log_ok (rules j) l) \<Longrightarrow> journal_ok j"
  by (auto simp: journal_ok_def)

lemma journal_okD:
  assumes "journal_ok j"
  shows "distinct (map fst (sessions j))" "(k, s) \<in> set (sessions j) \<Longrightarrow> session_ok (rules j) s" "l \<in> set (events j) \<Longrightarrow> log_ok (rules j) l"
    "map_of (sessions j) k = Some s \<Longrightarrow> session_ok (rules j) s"
  using assms by (auto simp: journal_ok_def dest!: map_of_SomeD)

lemma set_dict_del: "set (dict_del k d) = {(k', v) \<in> set d. k' \<noteq> k}"
  by (auto simp: dict_del_def)

lemma replace_row_distinct: "distinct (map fst d) \<Longrightarrow> distinct (map fst (replace_row k v d))"
  using distinct_dict_del [of d k] by (auto simp: replace_row_def set_dict_del)

lemma set_replace_row: "set (replace_row k v d) = insert (k, v) {(k', v') \<in> set d. k' \<noteq> k}"
  by (auto simp: replace_row_def set_dict_del)

lemma map_of_replace_row: "map_of (replace_row k v d) = (map_of d)(k \<mapsto> v)"
  by (auto simp: replace_row_def map_add_def fun_eq_iff split: option.splits)

lemma store_row_ok:
  assumes "journal_ok j" "map_of (rules j) t = Some rule" "j_rule ev = rule" "store_row k now t rule ev r j = Inr j'"
  shows "journal_ok j' \<and> rules j' = rules j \<and> boot j' = boot j \<and> events j' = events j"
proof (cases "event r = End")
  case True
  then have "j' = j\<lparr>sessions := dict_del k (sessions j)\<rparr>" using assms(4) by (auto simp: store_row_def result_simps ok_Inr_iff)
  then show ?thesis using assms(1) distinct_dict_del [of "sessions j" k] by (auto simp: journal_ok_def set_dict_del)
next
  case False
  then have "j' = j\<lparr>sessions := replace_row k \<lparr>s_token = t, s_started = j_started ev, s_updated = now, s_data = ev\<rparr> (sessions j)\<rparr>"
    using assms(4) by (simp add: store_row_def)
  then show ?thesis using assms(1-3) replace_row_distinct [of "sessions j" k] by (auto simp: journal_ok_def set_replace_row session_ok_def)
qed

lemma store_row_counters:
  "store_row k now t rule ev r j = Inr j' \<Longrightarrow> event r = End \<Longrightarrow> rule_flag ''end'' rule = Inr True \<Longrightarrow> both_counters r"
  by (auto simp: store_row_def result_simps ok_Inr_iff)

lemma log_row_ok:
  assumes "journal_ok j" "map_of (rules j) t = Some rule" "j_rule ev = rule" "j_row ev = r" "log_row now t rule first ev r j = Inr j'"
    and "event r = End \<Longrightarrow> rule_flag ''end'' rule = Inr True \<Longrightarrow> both_counters r" "first \<Longrightarrow> event r \<noteq> End"
  shows "journal_ok j' \<and> rules j' = rules j \<and> boot j' = boot j \<and> sessions j' = sessions j"
proof -
  obtain e wanted where w: "(if event r = End then rule_flag ''end'' rule else Inr False) = Inr e"
    "(if e then Inr True else if first then rule_flag ''start'' rule else Inr False) = Inr wanted"
    using assms(5) unfolding log_row_def rbind_Inr_iff by blast
  let ?ev = "if first then ev\<lparr>j_row := (j_row ev)\<lparr>event := Start\<rparr>\<rparr> else ev"
  let ?l = "\<lparr>l_observed = now, l_kind = event (j_row ?ev), l_token = t, l_data = ?ev\<rparr>"
  have j': "j' = (if wanted then j\<lparr>events := events j @ [?l]\<rparr> else j)" using assms(5) w by (simp add: log_row_def Let_def)
  have "log_ok (rules j) ?l" if wanted
  proof -
    have "both_counters r" if "event r = End"
    proof -
      have "e" using w that assms(7) \<open>wanted\<close> by (auto split: if_splits)
      then show ?thesis using w(1) that assms(6) by simp
    qed
    then show ?thesis using assms(2-4) by (simp add: log_ok_def)
  qed
  then show ?thesis using j' assms(1) by (auto simp: journal_ok_def)
qed

lemma event_record_simps [simp]:
  "j_row (event_record now b rule old r) = r" "j_rule (event_record now b rule old r) = rule" "j_boot (event_record now b rule old r) = b"
  by (simp_all add: event_record_def Let_def)

lemma record_row_ok:
  assumes "journal_ok j" "record_row now r j = Inr j'"
  shows "journal_ok j' \<and> rules j' = rules j \<and> boot j' = boot j"
proof -
  let ?k = "identity_of (boot j) r"
  let ?old = "map_of (sessions j) ?k"
  let ?t = "case token r of Some t \<Rightarrow> t | None \<Rightarrow> s_token (the ?old)"
  let ?r = "r\<lparr>token := Some ?t\<rparr>" and ?first = "?old = None \<and> event r \<in> {Start, Update}"
  show ?thesis
  proof (cases "token r = None \<and> ?old = None")
    case True
    then show ?thesis using assms by (simp add: record_row_def Let_def)
  next
    case False
    then have "need (map_of (rules j) ?t) (EventError ''No durable rule generation for owned conntrack event'') (\<lambda>rule.
        ok (case ?old of Some s \<Rightarrow> s_token s = ?t | None \<Rightarrow> True) (EventError ''Session changed its Security rule identity'')
        (rbind (store_row ?k now ?t rule (event_record now (boot j) rule ?old ?r) ?r j)
          (log_row now ?t rule ?first (event_record now (boot j) rule ?old ?r) ?r))) = Inr j'"
      using assms(2) unfolding record_row_def Let_def by (auto split: option.splits)
    then obtain rule j1 where x: "map_of (rules j) ?t = Some rule" "store_row ?k now ?t rule (event_record now (boot j) rule ?old ?r) ?r j = Inr j1"
      "log_row now ?t rule ?first (event_record now (boot j) rule ?old ?r) ?r j1 = Inr j'"
      by (auto simp: need_Inr_iff ok_Inr_iff rbind_Inr_iff simp del: One_nat_def)
    note s = store_row_ok [OF assms(1) x(1) event_record_simps(2) x(2)]
    have "journal_ok j' \<and> rules j' = rules j1 \<and> boot j' = boot j1 \<and> sessions j' = sessions j1"
      by (rule log_row_ok [OF _ _ event_record_simps(2,1) x(3)]) (use s x(1) store_row_counters [OF x(2)] in auto)
    then show ?thesis using s by simp
  qed
qed

lemma record_batch_ok:
  assumes "journal_ok j" "record_batch rows j = Inr j'"
  shows "journal_ok j' \<and> rules j' = rules j \<and> boot j' = boot j"
  by (rule fold_res_inv [OF assms(2) [unfolded record_batch_def], where P = "\<lambda>x. journal_ok x \<and> rules x = rules j \<and> boot x = boot j"])
     (use assms(1) record_row_ok in \<open>auto split: prod.splits\<close>)

text \<open>Rule generations are only added.\<close>

definition rules_le :: "journal \<Rightarrow> journal \<Rightarrow> bool" where
  "rules_le j j' \<longleftrightarrow> (\<forall>t m. map_of (rules j) t = Some m \<longrightarrow> map_of (rules j') t = Some m)"

lemma register_ok:
  assumes "journal_ok j" "register new j = Inr j'"
  shows "journal_ok j' \<and> rules_le j j'"
proof -
  obtain rs where rs: "fold_res register_one new (rules j) = Inr rs" "j' = j\<lparr>rules := rs\<rparr>"
    using assms(2) by (auto simp: register_def rbind_Inr_iff)
  have "\<forall>t m. map_of (rules j) t = Some m \<longrightarrow> map_of rs t = Some m"
  proof (rule fold_res_inv [OF rs(1), where P = "\<lambda>d. \<forall>t m. map_of (rules j) t = Some m \<longrightarrow> map_of d t = Some m"])
    fix x d d' assume d: "\<forall>t m. map_of (rules j) t = Some m \<longrightarrow> map_of d t = Some m" "register_one x d = Inr d'"
    have "map_of d' t = Some m" if "map_of d t = Some m" for t m
      using d(2) that by (auto simp: register_one_def ok_Inr_iff split: prod.splits option.splits)
    then show "\<forall>t m. map_of (rules j) t = Some m \<longrightarrow> map_of d' t = Some m" using d(1) by blast
  qed simp
  then show ?thesis using assms(1) rs(2) by (auto simp: journal_ok_def session_ok_def log_ok_def rules_le_def)
qed

lemma log_interrupted_ok:
  assumes "log_interrupted now reason s evs = Inr evs'" "session_ok rs s" "\<forall>l \<in> set evs. log_ok rs l"
  shows "\<forall>l \<in> set evs'. log_ok rs l"
  using assms by (auto simp: log_interrupted_def rbind_Inr_iff log_ok_def session_ok_def interrupt_def split: if_splits)

lemma log_gone_ok:
  assumes "fold_res (log_gone now reason live) ss evs = Inr evs'" "\<forall>(k, s) \<in> set ss. session_ok rs s" "\<forall>l \<in> set evs. log_ok rs l"
  shows "\<forall>l \<in> set evs'. log_ok rs l"
proof (rule fold_res_inv [OF assms(1), where P = "\<lambda>es. \<forall>l \<in> set es. log_ok rs l"])
  fix ks es es' assume a: "ks \<in> set ss" "\<forall>l \<in> set es. log_ok rs l" "log_gone now reason live ks es = Inr es'"
  obtain k s where ks: "ks = (k, s)" by fastforce
  have s: "session_ok rs s" using assms(2) a(1) ks by auto
  show "\<forall>l \<in> set es'. log_ok rs l"
    using a(3) a(2) log_interrupted_ok [OF _ s a(2)] ks by (cases "map_of live k") (auto simp: log_gone_def)
qed (rule assms(3))

text \<open>What \<^verbatim>\<open>reconcile\<close> writes for one live session.\<close>

lemma restore_Inr:
  assumes "restore now previous (k, r) j = Inr j'"
  obtains s rule where "sessions j' = sessions j @ [(k, s)]" "rules j' = rules j" "boot j' = boot j" "health j' = health j"
    "token r = Some (s_token s)" "map_of (rules j) (s_token s) = Some rule" "j_rule (s_data s) = rule" "j_gap (s_data s)"
    "s_started s = (case map_of previous k of Some p \<Rightarrow> s_started p | None \<Rightarrow> None)"
    "events j' = events j \<or> events j' = events j @ [\<lparr>l_observed = now, l_kind = Recovered, l_token = s_token s, l_data = s_data s\<rparr>]"
proof -
  obtain t rule where x: "token r = Some t" "map_of (rules j) t = Some rule"
    using assms by (auto simp: restore_def need_Inr_iff)
  let ?started = "case map_of previous k of Some s \<Rightarrow> s_started s | None \<Rightarrow> None"
  let ?ev = "\<lparr>j_row = r\<lparr>event := Recovered\<rparr>, j_boot = boot j, j_rule = rule, j_started = ?started, j_ended = None,
                   j_duration = None, j_gap = True, j_reason = None, j_complete = True\<rparr>"
  let ?s = "\<lparr>s_token = t, s_started = ?started, s_updated = now, s_data = ?ev\<rparr>"
  let ?j1 = "j\<lparr>sessions := sessions j @ [(k, ?s)]\<rparr>"
  obtain f where f: "j' = (if f then ?j1\<lparr>events := events ?j1 @ [\<lparr>l_observed = now, l_kind = Recovered, l_token = t, l_data = ?ev\<rparr>]\<rparr> else ?j1)"
    using assms x by (auto simp: restore_def Let_def rbind_Inr_iff ok_Inr_iff)
  show thesis by (rule that [of ?s rule]) (use f x in auto)
qed

lemma restore_fold:
  assumes "fold_res (restore now previous) live j = Inr j'"
  shows "\<exists>ss new. sessions j' = sessions j @ ss \<and> map fst ss = map fst live \<and> rules j' = rules j \<and> boot j' = boot j
    \<and> (\<forall>(k, s) \<in> set ss. session_ok (rules j) s \<and> j_gap (s_data s)
          \<and> s_started s = (case map_of previous k of Some p \<Rightarrow> s_started p | None \<Rightarrow> None))
    \<and> events j' = events j @ new \<and> (\<forall>l \<in> set new. log_ok (rules j) l \<and> l_kind l = Recovered)"
  using assms
proof (induction live arbitrary: j)
  case (Cons x live)
  obtain k r where x: "x = (k, r)" by fastforce
  obtain j1 where j1: "restore now previous (k, r) j = Inr j1" "fold_res (restore now previous) live j1 = Inr j'"
    using Cons.prems x by (auto simp: rbind_Inr_iff)
  obtain s rule where r: "sessions j1 = sessions j @ [(k, s)]" "rules j1 = rules j" "boot j1 = boot j"
    "map_of (rules j) (s_token s) = Some rule" "j_rule (s_data s) = rule" "j_gap (s_data s)"
    "s_started s = (case map_of previous k of Some p \<Rightarrow> s_started p | None \<Rightarrow> None)"
    "events j1 = events j \<or> events j1 = events j @ [\<lparr>l_observed = now, l_kind = Recovered, l_token = s_token s, l_data = s_data s\<rparr>]"
    using restore_Inr [OF j1(1)] by metis
  obtain ss new where ih: "sessions j' = sessions j1 @ ss" "map fst ss = map fst live" "rules j' = rules j1" "boot j' = boot j1"
    "\<forall>(k, s) \<in> set ss. session_ok (rules j1) s \<and> j_gap (s_data s) \<and> s_started s = (case map_of previous k of Some p \<Rightarrow> s_started p | None \<Rightarrow> None)"
    "events j' = events j1 @ new" "\<forall>l \<in> set new. log_ok (rules j1) l \<and> l_kind l = Recovered"
    using Cons.IH [OF j1(2)] by blast
  have new1: "\<exists>new'. events j1 = events j @ new' \<and> (\<forall>l \<in> set new'. log_ok (rules j) l \<and> l_kind l = Recovered)"
    using r(4,5,8) by (auto simp: log_ok_def)
  then obtain new' where "events j1 = events j @ new'" "\<forall>l \<in> set new'. log_ok (rules j) l \<and> l_kind l = Recovered" by blast
  then show ?case using x r ih by (intro exI [of _ "(k, s) # ss"] exI [of _ "new' @ new"]) (auto simp: session_ok_def)
qed simp

lemma live_of_distinct: "distinct (map fst (live_of b rows))"
proof -
  have "distinct (map fst d) \<Longrightarrow> distinct (map fst (fold (\<lambda>r. dict_set (identity_of b r) r) rs d))" for rs d
    by (induction rs arbitrary: d) (auto simp: distinct_dict_set)
  then show ?thesis by (simp add: live_of_def)
qed

lemma apply_change_distinct: "apply_change b r live = Inr live' \<Longrightarrow> distinct (map fst live) \<Longrightarrow> distinct (map fst live')"
  by (auto simp: apply_change_def Let_def ok_Inr_iff distinct_dict_set distinct_dict_del split: if_splits option.splits)

lemma changes_distinct:
  "fold_res (apply_change b) changes live = Inr live' \<Longrightarrow> distinct (map fst live) \<Longrightarrow> distinct (map fst live')"
  by (erule fold_res_inv) (auto dest: apply_change_distinct)

lemma reconcile_Inr:
  assumes "reconcile now rows changes reason j = Inr (n, j')"
  obtains live evs j1 where "fold_res (apply_change (boot j)) changes (live_of (boot j) rows) = Inr live"
    "fold_res (log_gone now reason live) (sessions j) (events j) = Inr evs"
    "fold_res (restore now (sessions j)) live (j\<lparr>events := evs, sessions := []\<rparr>) = Inr j1" "n = length live" "j' = j1\<lparr>health := None\<rparr>"
  using assms unfolding reconcile_def rbind_Inr_iff by blast

lemma reconcile_ok:
  assumes "journal_ok j" "reconcile now rows changes reason j = Inr (n, j')"
  shows "journal_ok j' \<and> rules j' = rules j"
proof -
  obtain live evs j1 where r: "fold_res (apply_change (boot j)) changes (live_of (boot j) rows) = Inr live"
    "fold_res (log_gone now reason live) (sessions j) (events j) = Inr evs"
    "fold_res (restore now (sessions j)) live (j\<lparr>events := evs, sessions := []\<rparr>) = Inr j1" "j' = j1\<lparr>health := None\<rparr>"
    by (rule reconcile_Inr [OF assms(2)])
  obtain ss new where f: "sessions j1 = ss" "map fst ss = map fst live" "rules j1 = rules j"
    "\<forall>(k, s) \<in> set ss. session_ok (rules j) s" "events j1 = evs @ new" "\<forall>l \<in> set new. log_ok (rules j) l"
    using restore_fold [OF r(3)] by (auto simp: case_prod_beta)
  have "\<forall>l \<in> set evs. log_ok (rules j) l"
    by (rule log_gone_ok [OF r(2)]) (use assms(1) in \<open>auto simp: journal_ok_def\<close>)
  moreover have "distinct (map fst live)" by (rule changes_distinct [OF r(1) live_of_distinct])
  ultimately show ?thesis using f r(4) by (auto simp: journal_ok_def)
qed

lemma recover_boot_ok:
  assumes "journal_ok j" "recover_boot now j = Inr j'"
  shows "journal_ok j' \<and> rules j' = rules j"
proof (rule fold_res_inv [OF assms(2) [unfolded recover_boot_def], where P = "\<lambda>x. journal_ok x \<and> rules x = rules j"])
  fix ks x x' assume a: "ks \<in> set (sessions j)" "journal_ok x \<and> rules x = rules j" "recover_one now ks x = Inr x'"
  obtain k s where ks: "ks = (k, s)" by fastforce
  have s: "session_ok (rules x) s" using assms(1) a(1,2) ks by (auto simp: journal_ok_def)
  show "journal_ok x' \<and> rules x' = rules j"
  proof (cases "fst k = boot x")
    case False
    then obtain evs where e: "log_interrupted now ''dataplane-boot-changed'' s (events x) = Inr evs"
      "x' = x\<lparr>events := evs, sessions := dict_del k (sessions x)\<rparr>" using a(3) ks by (auto simp: recover_one_def rbind_Inr_iff)
    have "\<forall>l \<in> set evs. log_ok (rules x) l" by (rule log_interrupted_ok [OF e(1) s]) (use a(2) in \<open>auto simp: journal_ok_def\<close>)
    then show ?thesis using a(2) e(2) distinct_dict_del [of "sessions x" k] by (auto simp: journal_ok_def set_dict_del)
  qed (use a ks in \<open>auto simp: recover_one_def\<close>)
qed (use assms(1) in auto)

datatype journal_op = Open string | Register "(nat \<times> json) list" | RecordBatch "(int \<times> row) list"
  | Reconcile int "row list" "row list" string | Fault string | RecoverBoot int

text \<open>A call: one that raises leaves the database as it was.\<close>

definition journal_step :: "journal_op \<Rightarrow> journal \<Rightarrow> journal" where
  "journal_step c j =
     (case c of
        Open b \<Rightarrow> open_journal b j
      | Register new \<Rightarrow> (case register new j of Inr j' \<Rightarrow> j' | Inl _ \<Rightarrow> j)
      | RecordBatch rows \<Rightarrow> (case record_batch rows j of Inr j' \<Rightarrow> j' | Inl _ \<Rightarrow> j)
      | Reconcile now rows changes reason \<Rightarrow> (case reconcile now rows changes reason j of Inr (_, j') \<Rightarrow> j' | Inl _ \<Rightarrow> j)
      | Fault reason \<Rightarrow> fault reason j
      | RecoverBoot now \<Rightarrow> (case recover_boot now j of Inr j' \<Rightarrow> j' | Inl _ \<Rightarrow> j))"

lemma rules_le_refl: "rules j' = rules j \<Longrightarrow> rules_le j j'"
  by (simp add: rules_le_def)

lemma journal_step_ok:
  assumes "journal_ok j"
  shows "journal_ok (journal_step c j) \<and> rules_le j (journal_step c j)"
proof (cases c)
  case (Reconcile now rows changes reason)
  show ?thesis
  proof (cases "reconcile now rows changes reason j")
    case (Inr p)
    obtain n j' where p: "p = (n, j')" by fastforce
    have "journal_step c j = j'" using Inr p Reconcile by (simp add: journal_step_def)
    then show ?thesis using reconcile_ok [OF assms Inr [unfolded p]] rules_le_refl by blast
  qed (use assms Reconcile in \<open>simp add: journal_step_def rules_le_refl\<close>)
next
  case (RecordBatch rows)
  show ?thesis
  proof (cases "record_batch rows j")
    case (Inr j')
    then have "journal_step c j = j'" using RecordBatch by (simp add: journal_step_def)
    then show ?thesis using record_batch_ok [OF assms Inr] rules_le_refl by blast
  qed (use assms RecordBatch in \<open>simp add: journal_step_def rules_le_refl\<close>)
next
  case (Register new)
  show ?thesis
  proof (cases "register new j")
    case (Inr j')
    then have "journal_step c j = j'" using Register by (simp add: journal_step_def)
    then show ?thesis using register_ok [OF assms Inr] by blast
  qed (use assms Register in \<open>simp add: journal_step_def rules_le_refl\<close>)
next
  case (RecoverBoot now)
  show ?thesis
  proof (cases "recover_boot now j")
    case (Inr j')
    then have "journal_step c j = j'" using RecoverBoot by (simp add: journal_step_def)
    then show ?thesis using recover_boot_ok [OF assms Inr] rules_le_refl by blast
  qed (use assms RecoverBoot in \<open>simp add: journal_step_def rules_le_refl\<close>)
qed (use assms in \<open>simp_all add: journal_step_def journal_ok_def open_journal_def fault_def rules_le_refl\<close>)

interpretation journal: invariant_system journal_step journal_ok
  by unfold_locales (use journal_step_ok in blast)

definition new_journal :: "string \<Rightarrow> journal" where
  "new_journal b = \<lparr>boot = b, rules = [], sessions = [], events = [], health = None\<rparr>"

text \<open>
  (C10) The durable session journal: after any sequence of openings, registrations, recorded
  batches, reconciliations, boot recoveries and faults, whether they succeed or raise, every open
  session and every logged event carries the metadata that its token was first registered with,
  every logged session end has the counters of both directions, and a token that is registered
  keeps its metadata whatever happens next.
\<close>

theorem session_journal_sound:
  assumes "j = run journal_step cs (new_journal b)"
  shows "(\<forall>k s. map_of (sessions j) k = Some s \<longrightarrow> map_of (rules j) (s_token s) = Some (j_rule (s_data s)))
    \<and> (\<forall>l \<in> set (events j). map_of (rules j) (l_token l) = Some (j_rule (l_data l)) \<and> (l_kind l = End \<longrightarrow> both_counters (j_row (l_data l))))
    \<and> (\<forall>t m. map_of (rules j) t = Some m \<longrightarrow> map_of (rules (run journal_step later j)) t = Some m)"
proof -
  have "journal_ok (new_journal b)" by (simp add: journal_ok_def new_journal_def)
  then have ok: "journal_ok j" unfolding assms by (rule journal.inv_run)
  have keep: "map_of (rules (run journal_step later j)) t = Some m" if "map_of (rules j) t = Some m" for t m
    by (rule journal.stable_run [where P = "\<lambda>x. map_of (rules x) t = Some m" and allowed = "\<lambda>_. True"])
       (use ok that journal_step_ok in \<open>simp_all add: rules_le_def list_all_iff\<close>)
  show ?thesis using ok keep by (auto simp: session_ok_def log_ok_def dest: journal_okD)
qed

definition sample_rule :: json where
  "sample_rule = JObj [(''logging'', JObj [(''end'', JBool True), (''start'', JBool True)])]"

definition sample_ops :: "journal_op list" where
  "sample_ops = [Register [(5, sample_rule)], RecordBatch [(100, sample_row)]]"

lemma sample_journal_run:
  "map_of (sessions (run journal_step sample_ops (new_journal ''b1''))) (identity_of ''b1'' sample_row) \<noteq> None"
  "map_of (rules (run journal_step sample_ops (new_journal ''b1''))) 5 = Some sample_rule"
  by code_simp+

theorem session_journal_sound_witness:
  "map_of (rules (run journal_step [Register [(5, JNull)], Fault ''x''] (run journal_step sample_ops (new_journal ''b1'')))) 5 = Some sample_rule"
  using session_journal_sound [OF refl, of sample_ops "''b1''" "[Register [(5, JNull)], Fault ''x'']"] sample_journal_run(2) by blast

section \<open>Reconciliation is exact\<close>

text \<open>Whether an identity is live once the changes have been replayed over the dump.\<close>

definition alive :: "string \<Rightarrow> row list \<Rightarrow> row list \<Rightarrow> identity \<Rightarrow> bool" where
  "alive b rows changes k =
     fold (\<lambda>c live. if identity_of b c = k then event c \<noteq> End \<and> (token c \<noteq> None \<or> live) else live) changes
       (\<exists>r \<in> set rows. token r \<noteq> None \<and> identity_of b r = k)"

lemma live_of_keys: "map_of (live_of b rows) k \<noteq> None \<longleftrightarrow> (\<exists>r \<in> set rows. token r \<noteq> None \<and> identity_of b r = k)"
proof -
  have "map_of (fold (\<lambda>r. dict_set (identity_of b r) r) rs d) k \<noteq> None \<longleftrightarrow> (\<exists>r \<in> set rs. identity_of b r = k) \<or> map_of d k \<noteq> None" for rs d
    by (induction rs arbitrary: d) auto
  then show ?thesis by (auto simp: live_of_def)
qed

lemma apply_change_keys:
  "apply_change b c live = Inr live' \<Longrightarrow>
     (map_of live' k \<noteq> None) = (if identity_of b c = k then event c \<noteq> End \<and> (token c \<noteq> None \<or> map_of live k \<noteq> None) else map_of live k \<noteq> None)"
  by (auto simp: apply_change_def Let_def ok_Inr_iff split: if_splits option.splits)

lemma live_alive:
  assumes "fold_res (apply_change b) changes (live_of b rows) = Inr live"
  shows "map_of live k \<noteq> None \<longleftrightarrow> alive b rows changes k"
proof -
  have "fold_res (apply_change b) changes l0 = Inr live \<Longrightarrow> map_of live k \<noteq> None \<longleftrightarrow>
      fold (\<lambda>c live. if identity_of b c = k then event c \<noteq> End \<and> (token c \<noteq> None \<or> live) else live) changes (map_of l0 k \<noteq> None)" for l0
  proof (induction changes arbitrary: l0)
    case (Cons c changes)
    obtain l1 where l1: "apply_change b c l0 = Inr l1" "fold_res (apply_change b) changes l1 = Inr live"
      using Cons.prems by (auto simp: rbind_Inr_iff)
    show ?case unfolding fold.simps(2) comp_def apply_change_keys [OF l1(1), of k, symmetric] by (rule Cons.IH [OF l1(2)])
  qed simp
  from this [OF assms] show ?thesis unfolding live_of_keys alive_def .
qed

text \<open>The events written for the sessions that are gone.\<close>

lemma log_gone_new:
  assumes "fold_res (log_gone now reason live) ss evs = Inr evs'"
  shows "\<exists>new. evs' = evs @ new \<and> (\<forall>l \<in> set new. l_kind l = Interrupted)
    \<and> (\<forall>(k, s) \<in> set ss. map_of live k = None \<longrightarrow> rule_flag ''end'' (j_rule (s_data s)) = Inr True \<longrightarrow>
         \<lparr>l_observed = now, l_kind = Interrupted, l_token = s_token s, l_data = interrupt reason (s_data s)\<rparr> \<in> set new)"
  using assms
proof (induction ss arbitrary: evs)
  case (Cons x ss)
  obtain k s where x: "x = (k, s)" by fastforce
  obtain e1 where e1: "log_gone now reason live (k, s) evs = Inr e1" "fold_res (log_gone now reason live) ss e1 = Inr evs'"
    using Cons.prems x by (auto simp: rbind_Inr_iff)
  let ?l = "\<lparr>l_observed = now, l_kind = Interrupted, l_token = s_token s, l_data = interrupt reason (s_data s)\<rparr>"
  obtain new1 where n1: "e1 = evs @ new1" "new1 = [] \<or> new1 = [?l]"
    "map_of live k = None \<longrightarrow> rule_flag ''end'' (j_rule (s_data s)) = Inr True \<longrightarrow> new1 = [?l]"
  proof (cases "map_of live k")
    case None
    then obtain f where f: "rule_flag ''end'' (j_rule (s_data s)) = Inr f" "e1 = (if f then evs @ [?l] else evs)"
      using e1(1) by (auto simp: log_gone_def log_interrupted_def rbind_Inr_iff)
    then show ?thesis using that [of "if f then [?l] else []"] by auto
  next
    case (Some r)
    then show ?thesis using that [of "[]"] e1(1) by (simp add: log_gone_def)
  qed
  obtain new where n: "evs' = e1 @ new" "\<forall>l \<in> set new. l_kind l = Interrupted"
    "\<forall>(k, s) \<in> set ss. map_of live k = None \<longrightarrow> rule_flag ''end'' (j_rule (s_data s)) = Inr True \<longrightarrow>
       \<lparr>l_observed = now, l_kind = Interrupted, l_token = s_token s, l_data = interrupt reason (s_data s)\<rparr> \<in> set new"
    using Cons.IH [OF e1(2)] by blast
  show ?case
  proof (intro exI [of _ "new1 @ new"] conjI)
    show "evs' = evs @ new1 @ new" using n(1) n1(1) by simp
    show "\<forall>l \<in> set (new1 @ new). l_kind l = Interrupted" using n(2) n1(2) by auto
    show "\<forall>(k, s) \<in> set (x # ss). map_of live k = None \<longrightarrow> rule_flag ''end'' (j_rule (s_data s)) = Inr True \<longrightarrow>
       \<lparr>l_observed = now, l_kind = Interrupted, l_token = s_token s, l_data = interrupt reason (s_data s)\<rparr> \<in> set (new1 @ new)"
      using n(3) n1(3) x by auto
  qed
qed simp

text \<open>
  (C6) Reconciliation after a gap is exact: when it succeeds, the open sessions are exactly the
  identities that are live once the interleaved changes are replayed over the kernel's dump, each
  keeps its start time if it was open before and has none otherwise and is marked as having a
  gap, and the fault is cleared. The log grows only by interruptions and recoveries, never by an
  invented start or end, and a session that was open, is not live any more and has its ends
  logged is recorded as interrupted.
\<close>

theorem session_reconcile_exact:
  assumes "journal_ok j" "reconcile now rows changes reason j = Inr (n, j')"
  shows "n = length (sessions j') \<and> health j' = None
    \<and> (\<forall>k. map_of (sessions j') k \<noteq> None \<longleftrightarrow> alive (boot j) rows changes k)
    \<and> (\<forall>k s. map_of (sessions j') k = Some s \<longrightarrow> j_gap (s_data s)
          \<and> s_started s = (case map_of (sessions j) k of Some p \<Rightarrow> s_started p | None \<Rightarrow> None))
    \<and> (\<exists>new. events j' = events j @ new \<and> (\<forall>l \<in> set new. l_kind l \<in> {Interrupted, Recovered})
          \<and> (\<forall>k s. map_of (sessions j) k = Some s \<longrightarrow> \<not> alive (boot j) rows changes k \<longrightarrow>
               rule_flag ''end'' (j_rule (s_data s)) = Inr True \<longrightarrow>
               (\<exists>l \<in> set new. l_kind l = Interrupted \<and> l_token l = s_token s \<and> l_data l = interrupt reason (s_data s))))"
proof -
  obtain live evs j1 where r: "fold_res (apply_change (boot j)) changes (live_of (boot j) rows) = Inr live"
    "fold_res (log_gone now reason live) (sessions j) (events j) = Inr evs"
    "fold_res (restore now (sessions j)) live (j\<lparr>events := evs, sessions := []\<rparr>) = Inr j1" "n = length live" "j' = j1\<lparr>health := None\<rparr>"
    by (rule reconcile_Inr [OF assms(2)])
  obtain ss new2 where f: "sessions j1 = ss" "map fst ss = map fst live"
    "\<forall>(k, s) \<in> set ss. j_gap (s_data s) \<and> s_started s = (case map_of (sessions j) k of Some p \<Rightarrow> s_started p | None \<Rightarrow> None)"
    "events j1 = evs @ new2" "\<forall>l \<in> set new2. l_kind l = Recovered"
    using restore_fold [OF r(3)] by (auto simp: case_prod_beta)
  obtain new1 where g: "evs = events j @ new1" "\<forall>l \<in> set new1. l_kind l = Interrupted"
    "\<forall>(k, s) \<in> set (sessions j). map_of live k = None \<longrightarrow> rule_flag ''end'' (j_rule (s_data s)) = Inr True \<longrightarrow>
         \<lparr>l_observed = now, l_kind = Interrupted, l_token = s_token s, l_data = interrupt reason (s_data s)\<rparr> \<in> set new1"
    using log_gone_new [OF r(2)] by blast
  have keys: "map_of (sessions j') k \<noteq> None \<longleftrightarrow> alive (boot j) rows changes k" for k
  proof -
    have "map_of (sessions j') k \<noteq> None \<longleftrightarrow> k \<in> set (map fst ss)" using f(1) r(5) by (simp add: map_of_eq_None_iff)
    also have "\<dots> \<longleftrightarrow> map_of live k \<noteq> None" unfolding f(2) by (simp add: map_of_eq_None_iff)
    finally show ?thesis using live_alive [OF r(1)] by blast
  qed
  have gone: "\<exists>l \<in> set (new1 @ new2). l_kind l = Interrupted \<and> l_token l = s_token s \<and> l_data l = interrupt reason (s_data s)"
    if "map_of (sessions j) k = Some s" "\<not> alive (boot j) rows changes k" "rule_flag ''end'' (j_rule (s_data s)) = Inr True" for k s
  proof -
    have "(k, s) \<in> set (sessions j)" "map_of live k = None" using map_of_SomeD [OF that(1)] live_alive [OF r(1), of k] that(2) by auto
    then have "\<lparr>l_observed = now, l_kind = Interrupted, l_token = s_token s, l_data = interrupt reason (s_data s)\<rparr> \<in> set new1"
      using g(3) that(3) by blast
    then show ?thesis by (intro bexI) auto
  qed
  have len: "length ss = length live" using arg_cong [OF f(2), of length] by simp
  show ?thesis
  proof (intro conjI)
    show "n = length (sessions j')" "health j' = None" using r(4,5) f(1) len by simp_all
    show "\<forall>k. (map_of (sessions j') k \<noteq> None) = alive (boot j) rows changes k" using keys by blast
    show "\<forall>k s. map_of (sessions j') k = Some s \<longrightarrow> j_gap (s_data s)
          \<and> s_started s = (case map_of (sessions j) k of Some p \<Rightarrow> s_started p | None \<Rightarrow> None)"
      using f(1,3) r(5) by (fastforce dest!: map_of_SomeD)
    show "\<exists>new. events j' = events j @ new \<and> (\<forall>l \<in> set new. l_kind l \<in> {Interrupted, Recovered})
          \<and> (\<forall>k s. map_of (sessions j) k = Some s \<longrightarrow> \<not> alive (boot j) rows changes k \<longrightarrow>
               rule_flag ''end'' (j_rule (s_data s)) = Inr True \<longrightarrow>
               (\<exists>l \<in> set new. l_kind l = Interrupted \<and> l_token l = s_token s \<and> l_data l = interrupt reason (s_data s)))"
    proof (intro exI [of _ "new1 @ new2"] conjI allI impI)
      show "events j' = events j @ new1 @ new2" using r(5) f(4) g(1) by simp
      show "\<forall>l \<in> set (new1 @ new2). l_kind l \<in> {Interrupted, Recovered}" using f(5) g(2) by auto
    qed (rule gone)
  qed
qed

lemma sample_reconcile:
  "journal_ok (run journal_step sample_ops (new_journal ''b1''))"
  "reconcile 200 [] [] ''gap'' (run journal_step sample_ops (new_journal ''b1'')) =
     Inr (0, journal_step (Reconcile 200 [] [] ''gap'') (run journal_step sample_ops (new_journal ''b1'')))"
proof -
  show "journal_ok (run journal_step sample_ops (new_journal ''b1''))"
    by (rule journal.inv_run) (simp add: journal_ok_def new_journal_def)
  have "(case reconcile 200 [] [] ''gap'' (run journal_step sample_ops (new_journal ''b1'')) of Inr (n, j) \<Rightarrow> n = 0 | Inl e \<Rightarrow> False)"
    by code_simp
  then show "reconcile 200 [] [] ''gap'' (run journal_step sample_ops (new_journal ''b1'')) =
     Inr (0, journal_step (Reconcile 200 [] [] ''gap'') (run journal_step sample_ops (new_journal ''b1'')))"
    by (auto simp: journal_step_def split: sum.splits prod.splits)
qed

theorem session_reconcile_exact_witness:
  "health (journal_step (Reconcile 200 [] [] ''gap'') (run journal_step sample_ops (new_journal ''b1''))) = None
   \<and> (\<forall>k. map_of (sessions (journal_step (Reconcile 200 [] [] ''gap'') (run journal_step sample_ops (new_journal ''b1'')))) k = None)"
  using session_reconcile_exact [OF sample_reconcile] by (simp add: alive_def)

section \<open>The life of a session\<close>

lemma record_row_owned:
  assumes "map_of (rules j) t = Some rule" "token r = Some t \<or> token r = None \<and> map_of (sessions j) (identity_of (boot j) r) \<noteq> None"
    and "case map_of (sessions j) (identity_of (boot j) r) of Some s \<Rightarrow> s_token s = t | None \<Rightarrow> True"
  shows "record_row now r j =
    (let old = map_of (sessions j) (identity_of (boot j) r); r' = r\<lparr>token := Some t\<rparr>; ev = event_record now (boot j) rule old r' in
     rbind (store_row (identity_of (boot j) r) now t rule ev r' j) (log_row now t rule (old = None \<and> event r \<in> {Start, Update}) ev r'))"
  using assms unfolding record_row_def Let_def by (auto split: option.splits)

definition both_logged :: "json \<Rightarrow> bool" where
  "both_logged rule \<longleftrightarrow> rule_flag ''start'' rule = Inr True \<and> rule_flag ''end'' rule = Inr True"

text \<open>A journal in which the session \<open>k\<close> of token \<open>t\<close> started at \<open>t0\<close>.\<close>

definition running :: "identity \<Rightarrow> nat \<Rightarrow> int \<Rightarrow> journal \<Rightarrow> journal \<Rightarrow> bool" where
  "running k t t0 j0 j \<longleftrightarrow> (\<exists>s. map_of (sessions j) k = Some s \<and> s_token s = t \<and> s_started s = Some t0) \<and> boot j = boot j0 \<and> rules j = rules j0
     \<and> dict_del k (sessions j) = dict_del k (sessions j0)"

lemma dict_del_replace: "dict_del k (replace_row k v d) = dict_del k d"
  by (simp add: replace_row_def dict_del_def)

lemma record_update:
  assumes "running k t t0 j0 j" "map_of (rules j0) t = Some rule" "identity_of (boot j0) r = k" "event r = Update" "token r = None \<or> token r = Some t"
  shows "\<exists>j'. record_row now r j = Inr j' \<and> running k t t0 j0 j' \<and> events j' = events j"
proof -
  obtain s where s: "map_of (sessions j) k = Some s" "s_token s = t" "s_started s = Some t0" and b: "boot j = boot j0" "rules j = rules j0"
    "dict_del k (sessions j) = dict_del k (sessions j0)" using assms(1) by (auto simp: running_def)
  have "record_row now r j = (let old = map_of (sessions j) (identity_of (boot j) r); r' = r\<lparr>token := Some t\<rparr>; ev = event_record now (boot j) rule old r' in
     rbind (store_row (identity_of (boot j) r) now t rule ev r' j) (log_row now t rule (old = None \<and> event r \<in> {Start, Update}) ev r'))"
    by (rule record_row_owned) (use assms b s in auto)
  then show ?thesis using s b assms
    by (auto simp: Let_def store_row_def log_row_def running_def map_of_replace_row dict_del_replace event_record_def)
qed

lemma record_updates:
  assumes "running k t t0 j0 j" "map_of (rules j0) t = Some rule"
    and "\<forall>(now, r) \<in> set us. identity_of (boot j0) r = k \<and> event r = Update \<and> (token r = None \<or> token r = Some t)"
  shows "\<exists>j'. record_batch us j = Inr j' \<and> running k t t0 j0 j' \<and> events j' = events j"
  using assms(1,3)
proof (induction us arbitrary: j)
  case (Cons u us)
  obtain now r where u: "u = (now, r)" by fastforce
  obtain j1 where j1: "record_row now r j = Inr j1" "running k t t0 j0 j1" "events j1 = events j"
    using record_update [OF Cons.prems(1) assms(2), of r now] Cons.prems(2) u by auto
  obtain j' where "record_batch us j1 = Inr j'" "running k t t0 j0 j'" "events j' = events j1"
    using Cons.IH [OF j1(2)] Cons.prems(2) by auto
  then show ?case using j1 u by (auto simp: record_batch_def)
qed (simp add: record_batch_def)

lemma record_first:
  assumes "map_of (rules j) t = Some rule" "both_logged rule" "map_of (sessions j) (identity_of (boot j) r) = None" "token r = Some t" "event r \<in> {Start, Update}"
  shows "\<exists>j' ev. record_row now r j = Inr j' \<and> running (identity_of (boot j) r) t now j j'
    \<and> events j' = events j @ [\<lparr>l_observed = now, l_kind = Start, l_token = t, l_data = ev\<rparr>] \<and> j_started ev = Some now \<and> j_rule ev = rule"
proof -
  have "record_row now r j = (let old = map_of (sessions j) (identity_of (boot j) r); r' = r\<lparr>token := Some t\<rparr>; ev = event_record now (boot j) rule old r' in
     rbind (store_row (identity_of (boot j) r) now t rule ev r' j) (log_row now t rule (old = None \<and> event r \<in> {Start, Update}) ev r'))"
    by (rule record_row_owned) (use assms in auto)
  then show ?thesis using assms
    by (auto simp: Let_def store_row_def log_row_def running_def map_of_replace_row dict_del_replace event_record_def both_logged_def)
qed

lemma record_end:
  assumes "running k t t0 j0 j" "map_of (rules j0) t = Some rule" "both_logged rule" "identity_of (boot j0) r = k" "event r = End"
    "token r = None \<or> token r = Some t" "both_counters r"
  shows "\<exists>j' ev. record_row now r j = Inr j' \<and> sessions j' = dict_del k (sessions j0)
    \<and> events j' = events j @ [\<lparr>l_observed = now, l_kind = End, l_token = t, l_data = ev\<rparr>]
    \<and> j_started ev = Some t0 \<and> j_duration ev = Some (max 0 (now - t0)) \<and> j_row ev = r\<lparr>token := Some t\<rparr>"
proof -
  obtain s where s: "map_of (sessions j) k = Some s" "s_token s = t" "s_started s = Some t0" and b: "boot j = boot j0" "rules j = rules j0"
    "dict_del k (sessions j) = dict_del k (sessions j0)" using assms(1) by (auto simp: running_def)
  have "record_row now r j = (let old = map_of (sessions j) (identity_of (boot j) r); r' = r\<lparr>token := Some t\<rparr>; ev = event_record now (boot j) rule old r' in
     rbind (store_row (identity_of (boot j) r) now t rule ev r' j) (log_row now t rule (old = None \<and> event r \<in> {Start, Update}) ev r'))"
    by (rule record_row_owned) (use assms b s in auto)
  then show ?thesis using s b assms
    by (auto simp: Let_def store_row_def log_row_def event_record_def both_logged_def both_counters_def)
qed

text \<open>
  (C11) A session is accounted once: for a rule that logs starts and ends, recording the first
  sighting of a connection at \<open>t0\<close>, any number of updates (with or without a label) and its end
  at \<open>t1\<close> succeeds, logs exactly a start and an end under the rule's token, the end with the start
  time, the duration and the counters of the end row, and leaves the other sessions as they were.
\<close>

theorem session_accounted_once:
  assumes "map_of (rules j) t = Some rule" "both_logged rule" "map_of (sessions j) (identity_of (boot j) r) = None"
    and "token r = Some t" "event r \<in> {Start, Update}"
    and "\<forall>(now, u) \<in> set us. identity_of (boot j) u = identity_of (boot j) r \<and> event u = Update \<and> (token u = None \<or> token u = Some t)"
    and "identity_of (boot j) f = identity_of (boot j) r" "event f = End" "token f = None \<or> token f = Some t" "both_counters f"
  shows "\<exists>j' s e. record_batch ((t0, r) # us @ [(t1, f)]) j = Inr j' \<and> sessions j' = sessions j \<and> events j' = events j @ [s, e]
    \<and> l_kind s = Start \<and> l_observed s = t0 \<and> l_token s = t
    \<and> l_kind e = End \<and> l_observed e = t1 \<and> l_token e = t \<and> j_started (l_data e) = Some t0
    \<and> j_duration (l_data e) = Some (max 0 (t1 - t0)) \<and> j_row (l_data e) = f\<lparr>token := Some t\<rparr>"
proof -
  let ?k = "identity_of (boot j) r"
  obtain j1 ev1 where 1: "record_row t0 r j = Inr j1" "running ?k t t0 j j1"
    "events j1 = events j @ [\<lparr>l_observed = t0, l_kind = Start, l_token = t, l_data = ev1\<rparr>]"
    using record_first [OF assms(1-5), of t0] by blast
  obtain j2 where 2: "record_batch us j1 = Inr j2" "running ?k t t0 j j2" "events j2 = events j1"
    using record_updates [OF 1(2) assms(1,6)] by blast
  obtain j3 ev3 where 3: "record_row t1 f j2 = Inr j3" "sessions j3 = dict_del ?k (sessions j)"
    "events j3 = events j2 @ [\<lparr>l_observed = t1, l_kind = End, l_token = t, l_data = ev3\<rparr>]"
    "j_started ev3 = Some t0" "j_duration ev3 = Some (max 0 (t1 - t0))" "j_row ev3 = f\<lparr>token := Some t\<rparr>"
    using record_end [OF 2(2) assms(1,2,7-10), of t1] by blast
  have "dict_del ?k (sessions j) = sessions j"
    using assms(3) unfolding dict_del_def map_of_eq_None_iff by (intro filter_True) force
  moreover have "record_batch ((t0, r) # us @ [(t1, f)]) j = Inr j3"
    using 1(1) 2(1) 3(1) by (simp add: record_batch_def fold_res_append)
  ultimately show ?thesis using 1(3) 2(3) 3 by auto
qed

definition sample_end :: row where
  "sample_end = sample_row\<lparr>event := End, token := None, counters_original := Some \<lparr>c_packets = 3, c_bytes = 300\<rparr>,
     counters_reply := Some \<lparr>c_packets = 2, c_bytes = 250\<rparr>\<rparr>"

definition sample_journal :: journal where
  "sample_journal = (new_journal ''b1'')\<lparr>rules := [(5, sample_rule)]\<rparr>"

theorem session_accounted_once_witness:
  "\<exists>j' s e. record_batch [(100, sample_row), (110, sample_row\<lparr>event := Update, token := None\<rparr>), (130, sample_end)] sample_journal = Inr j'
    \<and> events j' = [s, e] \<and> l_kind s = Start \<and> l_kind e = End \<and> j_duration (l_data e) = Some 30"
proof -
  have "map_of (rules sample_journal) 5 = Some sample_rule" "both_logged sample_rule"
    "map_of (sessions sample_journal) (identity_of (boot sample_journal) sample_row) = None" "token sample_row = Some 5" "event sample_row \<in> {Start, Update}"
    "\<forall>(now, u) \<in> set [(110 :: int, sample_row\<lparr>event := Update, token := None\<rparr>)].
       identity_of (boot sample_journal) u = identity_of (boot sample_journal) sample_row \<and> event u = Update \<and> (token u = None \<or> token u = Some 5)"
    "identity_of (boot sample_journal) sample_end = identity_of (boot sample_journal) sample_row" "event sample_end = End"
    "token sample_end = None \<or> token sample_end = Some 5" "both_counters sample_end"
    by (simp_all add: sample_journal_def new_journal_def both_logged_def rule_flag_def sample_rule_def sample_row_def sample_end_def identity_of_def both_counters_def)
  from session_accounted_once [OF this, of 100 130]
  show ?thesis by (auto simp: sample_journal_def new_journal_def)
qed

end
