(* ===== verification/Mpdp_Wire.thy ===== *)
theory Mpdp_Wire
  imports Transition
begin

text \<open>
  The codec and the channels between management plane and data plane,
  \<^verbatim>\<open>src/opt/ffn_mpdp_wire.py\<close>: the primitive writer and reader, the leaf and message
  tables, the frame with its header, and the in-process and file-backed channels. A body is a
  record with one field per key; a key that the caller leaves out has the value that
  \<^verbatim>\<open>get\<close> defaults to, and a \<^verbatim>\<open>None\<close> for text or bytes is the empty one. Text is a list of
  code points. A writer that raises gives no bytes, so an encoder is a result.
\<close>

section \<open>UTF-8\<close>

type_synonym text_points = "nat list"

definition utf8_point :: "nat \<Rightarrow> nat list option" where
  "utf8_point c =
     (if c < 0x80 then Some [c]
      else if c < 0x800 then Some [0xC0 + c div 64, 0x80 + c mod 64]
      else if 0xD800 \<le> c \<and> c \<le> 0xDFFF then None
      else if c < 0x10000 then Some [0xE0 + c div 4096, 0x80 + c div 64 mod 64, 0x80 + c mod 64]
      else if c < 0x110000 then Some [0xF0 + c div 262144, 0x80 + c div 4096 mod 64, 0x80 + c div 64 mod 64, 0x80 + c mod 64]
      else None)"

fun utf8_points :: "text_points \<Rightarrow> nat list option" where
  "utf8_points [] = Some []"
| "utf8_points (c # cs) = (case (utf8_point c, utf8_points cs) of (Some a, Some b) \<Rightarrow> Some (a @ b) | _ \<Rightarrow> None)"

definition cont :: "nat \<Rightarrow> bool" where "cont b \<longleftrightarrow> 0x80 \<le> b \<and> b < 0xC0"

text \<open>One code point of the input; \<open>None\<close> where \<^verbatim>\<open>decode\<close> raises.\<close>

definition utf8_next :: "nat list \<Rightarrow> (nat \<times> nat list) option" where
  "utf8_next bs =
     (case bs of
        [] \<Rightarrow> None
      | b # r \<Rightarrow>
          if b < 0x80 then Some (b, r)
          else if 0xC2 \<le> b \<and> b < 0xE0 then
            (case r of c1 # r' \<Rightarrow> if cont c1 then Some ((b - 0xC0) * 64 + (c1 - 0x80), r') else None | _ \<Rightarrow> None)
          else if 0xE0 \<le> b \<and> b < 0xF0 then
            (case r of c1 # c2 # r' \<Rightarrow>
               let v = (b - 0xE0) * 4096 + (c1 - 0x80) * 64 + (c2 - 0x80) in
               if cont c1 \<and> cont c2 \<and> 0x800 \<le> v \<and> \<not> (0xD800 \<le> v \<and> v \<le> 0xDFFF) then Some (v, r') else None
             | _ \<Rightarrow> None)
          else if 0xF0 \<le> b \<and> b < 0xF5 then
            (case r of c1 # c2 # c3 # r' \<Rightarrow>
               let v = (b - 0xF0) * 262144 + (c1 - 0x80) * 4096 + (c2 - 0x80) * 64 + (c3 - 0x80) in
               if cont c1 \<and> cont c2 \<and> cont c3 \<and> 0x10000 \<le> v \<and> v < 0x110000 then Some (v, r') else None
             | _ \<Rightarrow> None)
          else None)"

lemma utf8_next_shorter: "utf8_next bs = Some (c, r) \<Longrightarrow> length r < length bs"
  by (auto simp: utf8_next_def Let_def split: list.splits if_splits)

function utf8_decode :: "nat list \<Rightarrow> text_points option" where
  "utf8_decode bs =
     (if bs = [] then Some []
      else case utf8_next bs of None \<Rightarrow> None | Some (c, r) \<Rightarrow> map_option ((#) c) (utf8_decode r))"
  by pat_completeness auto
termination
  by (relation "measure length") (auto dest: utf8_next_shorter)

declare utf8_decode.simps [simp del]

lemma split64: "(c :: nat) div 64 * 64 + c mod 64 = c" "c div 4096 * 4096 + c div 64 mod 64 * 64 + c mod 64 = c"
  "c div 262144 * 262144 + c div 4096 mod 64 * 4096 + c div 64 mod 64 * 64 + c mod 64 = c"
proof -
  have e: "c div 4096 = c div 64 div 64" "c div 262144 = c div 64 div 64 div 64" by (simp_all add: div_mult2_eq [symmetric])
  have d: "n div 64 * 64 + n mod 64 = n" for n :: nat by simp
  show "c div 64 * 64 + c mod 64 = c" by (rule d)
  show 2: "c div 4096 * 4096 + c div 64 mod 64 * 64 + c mod 64 = c" unfolding e using d [of "c div 64"] d [of c] by linarith
  show "c div 262144 * 262144 + c div 4096 mod 64 * 4096 + c div 64 mod 64 * 64 + c mod 64 = c"
    unfolding e using d [of "c div 64 div 64"] d [of "c div 64"] d [of c] by linarith
qed

lemma utf8_next_point:
  assumes "utf8_point c = Some a"
  shows "utf8_next (a @ r) = Some (c, r) \<and> a \<noteq> [] \<and> (\<forall>b \<in> set a. b < 256)"
proof -
  have m: "x mod 64 < 128" for x :: nat using mod_less_divisor [of 64 x] by linarith
  consider "c < 0x80" | "0x80 \<le> c" "c < 0x800" | "0x800 \<le> c" "c < 0x10000" "\<not> (0xD800 \<le> c \<and> c \<le> 0xDFFF)" | "0x10000 \<le> c" "c < 0x110000"
    using assms by (force simp: utf8_point_def split: if_splits)
  then show ?thesis
  proof cases
    case 1
    then show ?thesis using assms by (auto simp: utf8_point_def utf8_next_def)
  next
    case 2
    then have a: "a = [0xC0 + c div 64, 0x80 + c mod 64]" using assms by (simp add: utf8_point_def)
    have "2 \<le> c div 64" "c div 64 < 32" "c mod 64 < 64" using 2 by simp_all
    then show ?thesis unfolding a using split64(1) [of c] by (simp add: utf8_next_def cont_def m)
  next
    case 3
    then have a: "a = [0xE0 + c div 4096, 0x80 + c div 64 mod 64, 0x80 + c mod 64]" using assms by (auto simp: utf8_point_def split: if_splits)
    have "c div 4096 < 16" "c mod 64 < 64" "c div 64 mod 64 < 64" using 3 by simp_all
    then show ?thesis unfolding a using split64(2) [of c] 3 by (simp add: utf8_next_def cont_def Let_def m)
  next
    case 4
    then have a: "a = [0xF0 + c div 262144, 0x80 + c div 4096 mod 64, 0x80 + c div 64 mod 64, 0x80 + c mod 64]" using assms by (simp add: utf8_point_def)
    have "c div 262144 < 5" "c mod 64 < 64" "c div 64 mod 64 < 64" "c div 4096 mod 64 < 64" using 4 by simp_all
    then show ?thesis unfolding a using split64(3) [of c] 4 by (simp add: utf8_next_def cont_def Let_def m)
  qed
qed

lemma utf8_roundtrip: "utf8_points cs = Some bs \<Longrightarrow> utf8_decode bs = Some cs \<and> (\<forall>b \<in> set bs. b < 256)"
proof (induction cs arbitrary: bs)
  case Nil
  then show ?case by (simp add: utf8_decode.simps)
next
  case (Cons c cs)
  obtain a b where ab: "utf8_point c = Some a" "utf8_points cs = Some b" "bs = a @ b" using Cons.prems by (auto split: option.splits)
  note n = utf8_next_point [OF ab(1), of b]
  show ?case using n Cons.IH [OF ab(2)] ab(3) by (subst utf8_decode.simps) auto
qed

section \<open>Writer and reader\<close>

definition w_uint :: "nat \<Rightarrow> int \<Rightarrow> bytes res" where
  "w_uint n v = Inr (to_le n (nat (v mod 256 ^ n)))"

definition w_blob :: "bytes \<Rightarrow> bytes res" where
  "w_blob b = Inr (to_le 4 (length b mod 2 ^ 32) @ b)"

definition w_s :: "text_points \<Rightarrow> bytes res" where
  "w_s t = (case utf8_points t of Some bs \<Rightarrow> w_blob (map of_nat bs) | None \<Rightarrow> Inl (ValueError ''UnicodeEncodeError''))"

text \<open>The writes of an encoder, in order.\<close>

fun writes :: "bytes res list \<Rightarrow> bytes res" where
  "writes [] = Inr []"
| "writes (x # xs) = rbind x (\<lambda>a. rbind (writes xs) (\<lambda>b. Inr (a @ b)))"

type_synonym 'a reader = "bytes \<Rightarrow> ('a \<times> bytes) res"

definition r_take :: "nat \<Rightarrow> bytes reader" where
  "r_take n r = ok (n \<le> length r) (ValueError ''wire underrun'') (Inr (take n r, drop n r))"

definition r_uint :: "nat \<Rightarrow> int reader" where
  "r_uint n r = rbind (r_take n r) (\<lambda>(b, r'). Inr (int (from_le b), r'))"

definition r_blob :: "bytes reader" where
  "r_blob r = rbind (r_uint 4 r) (\<lambda>(n, r'). r_take (nat n) r')"

definition r_s :: "text_points reader" where
  "r_s r = rbind (r_blob r) (\<lambda>(b, r').
     case utf8_decode (map unat b) of Some t \<Rightarrow> Inr (t, r') | None \<Rightarrow> Inl (ValueError ''UnicodeDecodeError''))"

section \<open>Enumerations\<close>

datatype enum_arg = EInt int | EStr string | EBool bool

definition upper_char :: "char \<Rightarrow> char" where
  "upper_char c = (let n = (of_char c :: nat) in if 97 \<le> n \<and> n \<le> 122 then char_of (n - 32) else c)"

definition strip_spaces :: "string \<Rightarrow> string" where
  "strip_spaces s =
     (let sp = (\<lambda>c. let n = (of_char c :: nat) in 9 \<le> n \<and> n \<le> 13 \<or> 28 \<le> n \<and> n \<le> 32 \<or> n = 0x85 \<or> n = 0xA0) in
      rev (dropWhile sp (rev (dropWhile sp s))))"

definition DIR_NAMES :: "(int \<times> string) list" where "DIR_NAMES = [(0, ''MP2DP''), (1, ''DP2MP'')]"
definition VERDICT_NAMES :: "(int \<times> string) list" where "VERDICT_NAMES = [(0, ''BENIGN''), (1, ''GRAYWARE''), (2, ''MALWARE'')]"
definition ML_NAMES :: "(int \<times> string) list" where "ML_NAMES = [(0, ''XGBOOST''), (1, ''NGRAM'')]"

definition enum_val :: "(int \<times> string) list \<Rightarrow> enum_arg \<Rightarrow> int res" where
  "enum_val names v =
     (case v of
        EBool b \<Rightarrow> Inl TypeError
      | EInt n \<Rightarrow> ok (map_of names n \<noteq> None) (ValueError ''bad value'') (Inr n)
      | EStr s \<Rightarrow>
          (case List.find (\<lambda>(iv, name). name = map upper_char (strip_spaces s)) names of
             Some (iv, name) \<Rightarrow> Inr iv
           | None \<Rightarrow> Inl (ValueError ''bad name'')))"

definition w_enum :: "(int \<times> string) list \<Rightarrow> enum_arg \<Rightarrow> bytes res" where
  "w_enum names v = rbind (enum_val names v) (w_uint 1)"

definition r_enum :: "enum_arg reader" where
  "r_enum r = rbind (r_uint 1 r) (\<lambda>(n, r'). Inr (EInt n, r'))"

section \<open>Reading back what was written\<close>

definition in_range :: "nat \<Rightarrow> int \<Rightarrow> bool" where
  "in_range n v \<longleftrightarrow> 0 \<le> v \<and> v < 256 ^ n"

definition text_ok :: "text_points \<Rightarrow> bool" where
  "text_ok t \<longleftrightarrow> (case utf8_points t of Some bs \<Rightarrow> length bs < 2 ^ 32 | None \<Rightarrow> False)"

definition enum_ok :: "(int \<times> string) list \<Rightarrow> enum_arg \<Rightarrow> bool" where
  "enum_ok names v \<longleftrightarrow> (case v of EInt n \<Rightarrow> map_of names n \<noteq> None \<and> in_range 1 n | _ \<Rightarrow> False)"

text \<open>A table of the wire: what an encoder of valid values writes, its decoder reads, and no more.\<close>

locale codec =
  fixes enc :: "'a \<Rightarrow> bytes res" and dec :: "'a reader" and valid :: "'a \<Rightarrow> bool"
  assumes enc_dec: "valid x \<Longrightarrow> \<exists>b. enc x = Inr b \<and> (\<forall>rest. dec (b @ rest) = Inr (x, rest))"
begin

lemma encE:
  assumes "valid x"
  obtains b where "enc x = Inr b" "\<And>rest. dec (b @ rest) = Inr (x, rest)"
  using enc_dec [OF assms] by blast

end

lemma r_take_append: "length b = n \<Longrightarrow> r_take n (b @ rest) = Inr (b, rest)"
  by (simp add: r_take_def)

lemma w_uint_read: "in_range n v \<Longrightarrow> r_uint n (to_le n (nat (v mod 256 ^ n)) @ rest) = Inr (v, rest)"
proof -
  assume v: "in_range n v"
  have "int (nat v mod 256 ^ n) = v"
  proof -
    have "nat v < 256 ^ n" using v unfolding in_range_def by (metis int_nat_eq nat_less_iff of_nat_numeral of_nat_power)
    then show ?thesis using v by (simp add: in_range_def)
  qed
  moreover have "v mod 256 ^ n = v" using v by (simp add: in_range_def)
  ultimately show ?thesis by (simp add: r_uint_def r_take_append from_le_to_le)
qed

interpretation uint: codec "w_uint n" "r_uint n" "in_range n"
  by unfold_locales (auto simp: w_uint_def w_uint_read)

lemma blob_read: "length b < 2 ^ 32 \<Longrightarrow> r_blob (to_le 4 (length b) @ b @ rest) = Inr (b, rest)"
proof -
  assume b: "length b < 2 ^ 32"
  have "r_uint 4 (to_le 4 (nat (int (length b) mod 256 ^ 4)) @ b @ rest) = Inr (int (length b), b @ rest)"
    by (rule w_uint_read) (use b in \<open>simp add: in_range_def\<close>)
  moreover have "nat (int (length b) mod 256 ^ 4) = length b" using b by (simp add: nat_mod_distrib)
  ultimately show ?thesis by (simp add: r_blob_def r_take_append)
qed

interpretation blob: codec w_blob r_blob "\<lambda>b. length b < 2 ^ 32"
  by unfold_locales (auto simp: w_blob_def blob_read)

interpretation str: codec w_s r_s text_ok
proof unfold_locales
  fix t assume "text_ok t"
  then obtain bs where bs: "utf8_points t = Some bs" "length bs < 2 ^ 32" by (auto simp: text_ok_def split: option.splits)
  note u = utf8_roundtrip [OF bs(1)]
  have "map unat (map of_nat bs :: bytes) = bs" using u by (simp add: map_idI unat_of_nat_byte)
  then have "r_s (to_le 4 (length bs) @ map of_nat bs @ rest) = Inr (t, rest)" for rest
    using blob_read [of "map of_nat bs :: bytes"] bs(2) u by (simp add: r_s_def)
  then show "\<exists>b. w_s t = Inr b \<and> (\<forall>rest. r_s (b @ rest) = Inr (t, rest))"
    using bs by (simp add: w_s_def w_blob_def)
qed

interpretation enum: codec "w_enum names" r_enum "enum_ok names"
proof unfold_locales
  fix v assume "enum_ok names v"
  then obtain n where n: "v = EInt n" "map_of names n \<noteq> None" "in_range 1 n" by (cases v) (auto simp: enum_ok_def)
  then show "\<exists>b. w_enum names v = Inr b \<and> (\<forall>rest. r_enum (b @ rest) = Inr (v, rest))"
    using w_uint_read [OF n(3)] by (simp add: w_enum_def enum_val_def w_uint_def r_enum_def)
qed

section \<open>Leaf tables\<close>

record signature =
  sg_sid :: int
  sg_name :: text_points
  sg_type :: text_points
  sg_hash_type :: text_points
  sg_digest :: bytes
  sg_hex_pattern :: text_points
  sg_severity :: int
  sg_verdict :: enum_arg
  sg_family :: text_points

definition enc_signature :: "signature \<Rightarrow> bytes res" where
  "enc_signature g = writes [w_uint 4 (sg_sid g), w_s (sg_name g), w_s (sg_type g), w_s (sg_hash_type g), w_blob (sg_digest g),
     w_s (sg_hex_pattern g), w_uint 1 (sg_severity g), w_enum VERDICT_NAMES (sg_verdict g), w_s (sg_family g)]"

definition dec_signature :: "signature reader" where
  "dec_signature r =
     rbind (r_uint 4 r) (\<lambda>(sid, r). rbind (r_s r) (\<lambda>(name, r). rbind (r_s r) (\<lambda>(ty, r). rbind (r_s r) (\<lambda>(ht, r).
     rbind (r_blob r) (\<lambda>(dg, r). rbind (r_s r) (\<lambda>(hp, r). rbind (r_uint 1 r) (\<lambda>(sev, r). rbind (r_enum r) (\<lambda>(v, r).
     rbind (r_s r) (\<lambda>(fam, r).
       Inr (\<lparr>sg_sid = sid, sg_name = name, sg_type = ty, sg_hash_type = ht, sg_digest = dg, sg_hex_pattern = hp,
             sg_severity = sev, sg_verdict = v, sg_family = fam\<rparr>, r))))))))))"

definition signature_ok :: "signature \<Rightarrow> bool" where
  "signature_ok g \<longleftrightarrow> in_range 4 (sg_sid g) \<and> text_ok (sg_name g) \<and> text_ok (sg_type g) \<and> text_ok (sg_hash_type g) \<and> length (sg_digest g) < 2 ^ 32
     \<and> text_ok (sg_hex_pattern g) \<and> in_range 1 (sg_severity g) \<and> enum_ok VERDICT_NAMES (sg_verdict g) \<and> text_ok (sg_family g)"

record ioc =
  io_kind :: text_points
  io_value :: text_points
  io_verdict :: enum_arg

definition enc_ioc :: "ioc \<Rightarrow> bytes res" where
  "enc_ioc i = writes [w_s (io_kind i), w_s (io_value i), w_enum VERDICT_NAMES (io_verdict i)]"

definition dec_ioc :: "ioc reader" where
  "dec_ioc r = rbind (r_s r) (\<lambda>(k, r). rbind (r_s r) (\<lambda>(v, r). rbind (r_enum r) (\<lambda>(e, r).
     Inr (\<lparr>io_kind = k, io_value = v, io_verdict = e\<rparr>, r))))"

definition ioc_ok :: "ioc \<Rightarrow> bool" where
  "ioc_ok i \<longleftrightarrow> text_ok (io_kind i) \<and> text_ok (io_value i) \<and> enum_ok VERDICT_NAMES (io_verdict i)"

record policy_row =
  pr_vsys :: int
  pr_proto :: int
  pr_src_ip :: text_points
  pr_src_port :: int
  pr_dst_ip :: text_points
  pr_dst_port :: int
  pr_action :: int
  pr_name :: text_points

definition enc_policy_row :: "policy_row \<Rightarrow> bytes res" where
  "enc_policy_row p = writes [w_uint 1 (pr_vsys p), w_uint 1 (pr_proto p), w_s (pr_src_ip p), w_uint 2 (pr_src_port p), w_s (pr_dst_ip p),
     w_uint 2 (pr_dst_port p), w_uint 1 (pr_action p), w_s (pr_name p)]"

definition dec_policy_row :: "policy_row reader" where
  "dec_policy_row r =
     rbind (r_uint 1 r) (\<lambda>(vs, r). rbind (r_uint 1 r) (\<lambda>(pr, r). rbind (r_s r) (\<lambda>(si, r). rbind (r_uint 2 r) (\<lambda>(sp, r).
     rbind (r_s r) (\<lambda>(di, r). rbind (r_uint 2 r) (\<lambda>(dp, r). rbind (r_uint 1 r) (\<lambda>(ac, r). rbind (r_s r) (\<lambda>(nm, r).
       Inr (\<lparr>pr_vsys = vs, pr_proto = pr, pr_src_ip = si, pr_src_port = sp, pr_dst_ip = di, pr_dst_port = dp, pr_action = ac, pr_name = nm\<rparr>, r)))))))))"

definition policy_row_ok :: "policy_row \<Rightarrow> bool" where
  "policy_row_ok p \<longleftrightarrow> in_range 1 (pr_vsys p) \<and> in_range 1 (pr_proto p) \<and> text_ok (pr_src_ip p) \<and> in_range 2 (pr_src_port p) \<and> text_ok (pr_dst_ip p)
     \<and> in_range 2 (pr_dst_port p) \<and> in_range 1 (pr_action p) \<and> text_ok (pr_name p)"

record flow_key =
  fk_vsys :: int
  fk_proto :: int
  fk_src_ip :: int
  fk_src_port :: int
  fk_dst_ip :: int
  fk_dst_port :: int

definition enc_flow_key :: "flow_key \<Rightarrow> bytes res" where
  "enc_flow_key k = writes [w_uint 1 (fk_vsys k), w_uint 1 (fk_proto k), w_uint 4 (fk_src_ip k), w_uint 2 (fk_src_port k),
     w_uint 4 (fk_dst_ip k), w_uint 2 (fk_dst_port k)]"

definition dec_flow_key :: "flow_key reader" where
  "dec_flow_key r =
     rbind (r_uint 1 r) (\<lambda>(vs, r). rbind (r_uint 1 r) (\<lambda>(pr, r). rbind (r_uint 4 r) (\<lambda>(si, r). rbind (r_uint 2 r) (\<lambda>(sp, r).
     rbind (r_uint 4 r) (\<lambda>(di, r). rbind (r_uint 2 r) (\<lambda>(dp, r).
       Inr (\<lparr>fk_vsys = vs, fk_proto = pr, fk_src_ip = si, fk_src_port = sp, fk_dst_ip = di, fk_dst_port = dp\<rparr>, r)))))))"

definition flow_key_ok :: "flow_key \<Rightarrow> bool" where
  "flow_key_ok k \<longleftrightarrow> in_range 1 (fk_vsys k) \<and> in_range 1 (fk_proto k) \<and> in_range 4 (fk_src_ip k) \<and> in_range 2 (fk_src_port k)
     \<and> in_range 4 (fk_dst_ip k) \<and> in_range 2 (fk_dst_port k)"

text \<open>Vectors: a count and the items.\<close>

definition enc_vec :: "('a \<Rightarrow> bytes res) \<Rightarrow> 'a list \<Rightarrow> bytes res" where
  "enc_vec enc xs = writes (w_uint 4 (int (length xs)) # map enc xs)"

fun dec_times :: "nat \<Rightarrow> 'a reader \<Rightarrow> 'a list reader" where
  "dec_times 0 dec r = Inr ([], r)"
| "dec_times (Suc n) dec r = rbind (dec r) (\<lambda>(x, r'). rbind (dec_times n dec r') (\<lambda>(xs, r''). Inr (x # xs, r'')))"

definition dec_vec :: "'a reader \<Rightarrow> 'a list reader" where
  "dec_vec dec r = rbind (r_uint 4 r) (\<lambda>(n, r'). dec_times (nat n) dec r')"

context codec
begin

lemma dec_times_enc:
  "\<forall>x \<in> set xs. valid x \<Longrightarrow> \<exists>b. writes (map enc xs) = Inr b \<and> (\<forall>rest. dec_times (length xs) dec (b @ rest) = Inr (xs, rest))"
proof (induction xs)
  case (Cons x xs)
  obtain b where b: "enc x = Inr b" "\<And>rest. dec (b @ rest) = Inr (x, rest)" using encE [of x] Cons.prems by auto
  obtain c where c: "writes (map enc xs) = Inr c" "\<And>rest. dec_times (length xs) dec (c @ rest) = Inr (xs, rest)"
    using Cons by auto
  then show ?case using b by (intro exI [of _ "b @ c"]) simp
qed simp

lemma vec: "(\<forall>x \<in> set xs. valid x) \<and> length xs < 2 ^ 32 \<Longrightarrow>
    \<exists>b. enc_vec enc xs = Inr b \<and> (\<forall>rest. dec_vec dec (b @ rest) = Inr (xs, rest))"
proof -
  assume a: "(\<forall>x \<in> set xs. valid x) \<and> length xs < 2 ^ 32"
  obtain b where b: "writes (map enc xs) = Inr b" "\<And>rest. dec_times (length xs) dec (b @ rest) = Inr (xs, rest)"
    using dec_times_enc a by blast
  have "in_range 4 (int (length xs))" using a by (simp add: in_range_def)
  then obtain h where h: "w_uint 4 (int (length xs)) = Inr h" "\<And>rest. r_uint 4 (h @ rest) = Inr (int (length xs), rest)"
    using uint.encE by blast
  show ?thesis using b h by (intro exI [of _ "h @ b"]) (simp add: enc_vec_def dec_vec_def)
qed

end

text \<open>A table is written and read field by field.\<close>

lemma field:
  assumes "\<exists>b. x = Inr b \<and> (\<forall>rest. rd (b @ rest) = Inr (v, rest))" "\<exists>c. writes xs = Inr c \<and> (\<forall>rest. k v (c @ rest) = Inr (y, rest))"
  shows "\<exists>b. writes (x # xs) = Inr b \<and> (\<forall>rest. rbind (rd (b @ rest)) (case_prod k) = Inr (y, rest))"
proof -
  obtain b where "x = Inr b" "\<And>rest. rd (b @ rest) = Inr (v, rest)" using assms(1) by blast
  moreover obtain c where "writes xs = Inr c" "\<And>rest. k v (c @ rest) = Inr (y, rest)" using assms(2) by blast
  ultimately show ?thesis by (intro exI [of _ "b @ c"]) simp
qed

lemma last_field: "z = y \<Longrightarrow> \<exists>c. writes [] = Inr c \<and> (\<forall>rest. Inr (z, c @ rest) = Inr (y, rest))"
  by simp

lemmas wire_fields = field last_field uint.enc_dec str.enc_dec blob.enc_dec enum.enc_dec

interpretation signature: codec enc_signature dec_signature signature_ok
proof unfold_locales
  fix g assume v: "signature_ok g"
  show "\<exists>b. enc_signature g = Inr b \<and> (\<forall>rest. dec_signature (b @ rest) = Inr (g, rest))"
    unfolding enc_signature_def dec_signature_def by (rule wire_fields | (use v in \<open>simp add: signature_ok_def\<close>))+
qed

interpretation ioc: codec enc_ioc dec_ioc ioc_ok
proof unfold_locales
  fix i assume v: "ioc_ok i"
  show "\<exists>b. enc_ioc i = Inr b \<and> (\<forall>rest. dec_ioc (b @ rest) = Inr (i, rest))"
    unfolding enc_ioc_def dec_ioc_def by (rule wire_fields | (use v in \<open>simp add: ioc_ok_def\<close>))+
qed

interpretation policy_row: codec enc_policy_row dec_policy_row policy_row_ok
proof unfold_locales
  fix p assume v: "policy_row_ok p"
  show "\<exists>b. enc_policy_row p = Inr b \<and> (\<forall>rest. dec_policy_row (b @ rest) = Inr (p, rest))"
    unfolding enc_policy_row_def dec_policy_row_def by (rule wire_fields | (use v in \<open>simp add: policy_row_ok_def\<close>))+
qed

interpretation flow_key: codec enc_flow_key dec_flow_key flow_key_ok
proof unfold_locales
  fix k assume v: "flow_key_ok k"
  show "\<exists>b. enc_flow_key k = Inr b \<and> (\<forall>rest. dec_flow_key (b @ rest) = Inr (k, rest))"
    unfolding enc_flow_key_def dec_flow_key_def by (rule wire_fields | (use v in \<open>simp add: flow_key_ok_def\<close>))+
qed

lemmas wire_tables = wire_fields signature.vec ioc.vec policy_row.vec uint.vec flow_key.enc_dec

section \<open>Message tables\<close>

record threat_intel =
  ti_seq :: int
  ti_adds :: "signature list"
  ti_removes :: "int list"
  ti_iocs :: "ioc list"

definition enc_threat_intel :: "threat_intel \<Rightarrow> bytes res" where
  "enc_threat_intel m = writes [w_uint 4 (ti_seq m), enc_vec enc_signature (ti_adds m), enc_vec (w_uint 4) (ti_removes m), enc_vec enc_ioc (ti_iocs m)]"

definition dec_threat_intel :: "threat_intel reader" where
  "dec_threat_intel r =
     rbind (r_uint 4 r) (\<lambda>(sq, r). rbind (dec_vec dec_signature r) (\<lambda>(ad, r). rbind (dec_vec (r_uint 4) r) (\<lambda>(rm, r). rbind (dec_vec dec_ioc r) (\<lambda>(io, r).
       Inr (\<lparr>ti_seq = sq, ti_adds = ad, ti_removes = rm, ti_iocs = io\<rparr>, r)))))"

definition threat_intel_ok :: "threat_intel \<Rightarrow> bool" where
  "threat_intel_ok m \<longleftrightarrow> in_range 4 (ti_seq m) \<and> ((\<forall>g \<in> set (ti_adds m). signature_ok g) \<and> length (ti_adds m) < 2 ^ 32)
     \<and> ((\<forall>v \<in> set (ti_removes m). in_range 4 v) \<and> length (ti_removes m) < 2 ^ 32) \<and> ((\<forall>i \<in> set (ti_iocs m). ioc_ok i) \<and> length (ti_iocs m) < 2 ^ 32)"

record ml_model =
  ml_version :: int
  ml_kind :: enum_arg
  ml_tree_blob :: bytes
  ml_ngram_params :: bytes
  ml_features_version :: int

definition enc_ml_model :: "ml_model \<Rightarrow> bytes res" where
  "enc_ml_model m = writes [w_uint 4 (ml_version m), w_enum ML_NAMES (ml_kind m), w_blob (ml_tree_blob m), w_blob (ml_ngram_params m), w_uint 4 (ml_features_version m)]"

definition dec_ml_model :: "ml_model reader" where
  "dec_ml_model r =
     rbind (r_uint 4 r) (\<lambda>(v, r). rbind (r_enum r) (\<lambda>(k, r). rbind (r_blob r) (\<lambda>(tb, r). rbind (r_blob r) (\<lambda>(np, r). rbind (r_uint 4 r) (\<lambda>(fv, r).
       Inr (\<lparr>ml_version = v, ml_kind = k, ml_tree_blob = tb, ml_ngram_params = np, ml_features_version = fv\<rparr>, r))))))"

definition ml_model_ok :: "ml_model \<Rightarrow> bool" where
  "ml_model_ok m \<longleftrightarrow> in_range 4 (ml_version m) \<and> enum_ok ML_NAMES (ml_kind m) \<and> length (ml_tree_blob m) < 2 ^ 32
     \<and> length (ml_ngram_params m) < 2 ^ 32 \<and> in_range 4 (ml_features_version m)"

record sig_verdict =
  sv_sid :: int
  sv_sha256 :: bytes
  sv_verdict :: enum_arg
  sv_ts :: int

definition enc_sig_verdict :: "sig_verdict \<Rightarrow> bytes res" where
  "enc_sig_verdict m = writes [w_uint 4 (sv_sid m), w_blob (sv_sha256 m), w_enum VERDICT_NAMES (sv_verdict m), w_uint 8 (sv_ts m)]"

definition dec_sig_verdict :: "sig_verdict reader" where
  "dec_sig_verdict r = rbind (r_uint 4 r) (\<lambda>(i, r). rbind (r_blob r) (\<lambda>(h, r). rbind (r_enum r) (\<lambda>(v, r). rbind (r_uint 8 r) (\<lambda>(t, r).
     Inr (\<lparr>sv_sid = i, sv_sha256 = h, sv_verdict = v, sv_ts = t\<rparr>, r)))))"

definition sig_verdict_ok :: "sig_verdict \<Rightarrow> bool" where
  "sig_verdict_ok m \<longleftrightarrow> in_range 4 (sv_sid m) \<and> length (sv_sha256 m) < 2 ^ 32 \<and> enum_ok VERDICT_NAMES (sv_verdict m) \<and> in_range 8 (sv_ts m)"

record policy_update =
  pu_vsys :: int
  pu_rows :: "policy_row list"

definition enc_policy_update :: "policy_update \<Rightarrow> bytes res" where
  "enc_policy_update m = writes [w_uint 4 (pu_vsys m), enc_vec enc_policy_row (pu_rows m)]"

definition dec_policy_update :: "policy_update reader" where
  "dec_policy_update r = rbind (r_uint 4 r) (\<lambda>(v, r). rbind (dec_vec dec_policy_row r) (\<lambda>(rs, r). Inr (\<lparr>pu_vsys = v, pu_rows = rs\<rparr>, r)))"

definition policy_update_ok :: "policy_update \<Rightarrow> bool" where
  "policy_update_ok m \<longleftrightarrow> in_range 4 (pu_vsys m) \<and> ((\<forall>p \<in> set (pu_rows m). policy_row_ok p) \<and> length (pu_rows m) < 2 ^ 32)"

record telemetry =
  te_engine :: text_points
  te_packets :: int
  te_matches :: int
  te_drops :: int
  te_mode :: text_points

definition enc_engine_telemetry :: "telemetry \<Rightarrow> bytes res" where
  "enc_engine_telemetry m = writes [w_s (te_engine m), w_uint 8 (te_packets m), w_uint 8 (te_matches m), w_uint 8 (te_drops m), w_s (te_mode m)]"

definition dec_engine_telemetry :: "telemetry reader" where
  "dec_engine_telemetry r =
     rbind (r_s r) (\<lambda>(en, r). rbind (r_uint 8 r) (\<lambda>(pk, r). rbind (r_uint 8 r) (\<lambda>(ma, r). rbind (r_uint 8 r) (\<lambda>(dr, r). rbind (r_s r) (\<lambda>(mo, r).
       Inr (\<lparr>te_engine = en, te_packets = pk, te_matches = ma, te_drops = dr, te_mode = mo\<rparr>, r))))))"

definition telemetry_ok :: "telemetry \<Rightarrow> bool" where
  "telemetry_ok m \<longleftrightarrow> text_ok (te_engine m) \<and> in_range 8 (te_packets m) \<and> in_range 8 (te_matches m) \<and> in_range 8 (te_drops m) \<and> text_ok (te_mode m)"

record flow_event =
  fe_vsys :: int
  fe_key :: flow_key
  fe_verdict :: enum_arg
  fe_bytes :: int

definition enc_flow_event :: "flow_event \<Rightarrow> bytes res" where
  "enc_flow_event m = writes [w_uint 4 (fe_vsys m), enc_flow_key (fe_key m), w_enum VERDICT_NAMES (fe_verdict m), w_uint 8 (fe_bytes m)]"

definition dec_flow_event :: "flow_event reader" where
  "dec_flow_event r = rbind (r_uint 4 r) (\<lambda>(v, r). rbind (dec_flow_key r) (\<lambda>(k, r). rbind (r_enum r) (\<lambda>(e, r). rbind (r_uint 8 r) (\<lambda>(b, r).
     Inr (\<lparr>fe_vsys = v, fe_key = k, fe_verdict = e, fe_bytes = b\<rparr>, r)))))"

definition flow_event_ok :: "flow_event \<Rightarrow> bool" where
  "flow_event_ok m \<longleftrightarrow> in_range 4 (fe_vsys m) \<and> flow_key_ok (fe_key m) \<and> enum_ok VERDICT_NAMES (fe_verdict m) \<and> in_range 8 (fe_bytes m)"

interpretation threat_intel: codec enc_threat_intel dec_threat_intel threat_intel_ok
proof unfold_locales
  fix m assume v: "threat_intel_ok m"
  show "\<exists>b. enc_threat_intel m = Inr b \<and> (\<forall>rest. dec_threat_intel (b @ rest) = Inr (m, rest))"
    unfolding enc_threat_intel_def dec_threat_intel_def by (rule wire_tables | (use v in \<open>simp add: threat_intel_ok_def\<close>))+
qed

interpretation ml_model: codec enc_ml_model dec_ml_model ml_model_ok
proof unfold_locales
  fix m assume v: "ml_model_ok m"
  show "\<exists>b. enc_ml_model m = Inr b \<and> (\<forall>rest. dec_ml_model (b @ rest) = Inr (m, rest))"
    unfolding enc_ml_model_def dec_ml_model_def by (rule wire_tables | (use v in \<open>simp add: ml_model_ok_def\<close>))+
qed

interpretation sig_verdict: codec enc_sig_verdict dec_sig_verdict sig_verdict_ok
proof unfold_locales
  fix m assume v: "sig_verdict_ok m"
  show "\<exists>b. enc_sig_verdict m = Inr b \<and> (\<forall>rest. dec_sig_verdict (b @ rest) = Inr (m, rest))"
    unfolding enc_sig_verdict_def dec_sig_verdict_def by (rule wire_tables | (use v in \<open>simp add: sig_verdict_ok_def\<close>))+
qed

interpretation policy_update: codec enc_policy_update dec_policy_update policy_update_ok
proof unfold_locales
  fix m assume v: "policy_update_ok m"
  show "\<exists>b. enc_policy_update m = Inr b \<and> (\<forall>rest. dec_policy_update (b @ rest) = Inr (m, rest))"
    unfolding enc_policy_update_def dec_policy_update_def by (rule wire_tables | (use v in \<open>simp add: policy_update_ok_def\<close>))+
qed

interpretation telemetry: codec enc_engine_telemetry dec_engine_telemetry telemetry_ok
proof unfold_locales
  fix m assume v: "telemetry_ok m"
  show "\<exists>b. enc_engine_telemetry m = Inr b \<and> (\<forall>rest. dec_engine_telemetry (b @ rest) = Inr (m, rest))"
    unfolding enc_engine_telemetry_def dec_engine_telemetry_def by (rule wire_tables | (use v in \<open>simp add: telemetry_ok_def\<close>))+
qed

interpretation flow_event: codec enc_flow_event dec_flow_event flow_event_ok
proof unfold_locales
  fix m assume v: "flow_event_ok m"
  show "\<exists>b. enc_flow_event m = Inr b \<and> (\<forall>rest. dec_flow_event (b @ rest) = Inr (m, rest))"
    unfolding enc_flow_event_def dec_flow_event_def by (rule wire_tables | (use v in \<open>simp add: flow_event_ok_def\<close>))+
qed

section \<open>Frames\<close>

datatype body =
    ThreatIntelUpdate threat_intel
  | MlModelUpdate ml_model
  | SignatureVerdict sig_verdict
  | PolicyUpdate policy_update
  | EngineTelemetry telemetry
  | FlowEvent flow_event

primrec body_tag :: "body \<Rightarrow> int" where
  "body_tag (ThreatIntelUpdate m) = 1"
| "body_tag (MlModelUpdate m) = 2"
| "body_tag (SignatureVerdict m) = 3"
| "body_tag (PolicyUpdate m) = 4"
| "body_tag (EngineTelemetry m) = 5"
| "body_tag (FlowEvent m) = 6"

primrec enc_body :: "body \<Rightarrow> bytes res" where
  "enc_body (ThreatIntelUpdate m) = enc_threat_intel m"
| "enc_body (MlModelUpdate m) = enc_ml_model m"
| "enc_body (SignatureVerdict m) = enc_sig_verdict m"
| "enc_body (PolicyUpdate m) = enc_policy_update m"
| "enc_body (EngineTelemetry m) = enc_engine_telemetry m"
| "enc_body (FlowEvent m) = enc_flow_event m"

text \<open>\<^verbatim>\<open>dec(_R(body_raw))\<close>: what is left over is ignored.\<close>

definition decoded :: "('m \<Rightarrow> body) \<Rightarrow> 'm reader \<Rightarrow> bytes \<Rightarrow> body res" where
  "decoded mk dec raw = rbind (dec raw) (\<lambda>(m, rest). Inr (mk m))"

definition dec_body :: "int \<Rightarrow> bytes \<Rightarrow> body res" where
  "dec_body tag raw =
     (if tag = 1 then decoded ThreatIntelUpdate dec_threat_intel raw
      else if tag = 2 then decoded MlModelUpdate dec_ml_model raw
      else if tag = 3 then decoded SignatureVerdict dec_sig_verdict raw
      else if tag = 4 then decoded PolicyUpdate dec_policy_update raw
      else if tag = 5 then decoded EngineTelemetry dec_engine_telemetry raw
      else if tag = 6 then decoded FlowEvent dec_flow_event raw
      else Inl (ValueError ''unknown body tag on wire''))"

definition WIRE_VERSION :: int where "WIRE_VERSION = 1"
definition FRAME_MAGIC :: bytes where "FRAME_MAGIC = [0x46, 0x4D, 0x44, 0x50]"

definition build_message :: "body \<Rightarrow> enum_arg \<Rightarrow> int \<Rightarrow> bytes res" where
  "build_message body direction ver =
     rbind (enc_body body) (\<lambda>b.
       writes [Inr FRAME_MAGIC, w_uint 4 ver, w_enum DIR_NAMES direction, w_uint 1 (body_tag body), w_uint 4 (int (length b)), Inr b])"

record mpdp_message =
  m_ver :: int
  m_dir :: int
  m_dir_name :: string
  m_body :: "body option"

definition parse_frame :: "bytes \<Rightarrow> mpdp_message res" where
  "parse_frame buf =
     rbind (r_take 4 buf) (\<lambda>(magic, r).
     ok (magic = FRAME_MAGIC) (ValueError ''bad magic'')
     (rbind (r_uint 4 r) (\<lambda>(ver, r). rbind (r_uint 1 r) (\<lambda>(dir, r). rbind (r_uint 1 r) (\<lambda>(tag, r). rbind (r_uint 4 r) (\<lambda>(n, r).
      rbind (r_take (nat n) r) (\<lambda>(raw, r).
        let out = \<lparr>m_ver = ver, m_dir = dir, m_dir_name = (case map_of DIR_NAMES dir of Some s \<Rightarrow> s | None \<Rightarrow> ''?''), m_body = None\<rparr> in
        if tag = 0 then Inr out
        else rbind (dec_body tag raw) (\<lambda>b. Inr (out\<lparr>m_body := Some b\<rparr>)))))))))"

text \<open>The helpers of the interface, with their default directions and version.\<close>

definition build_threat_intel_update :: "int \<Rightarrow> signature list \<Rightarrow> int list \<Rightarrow> ioc list \<Rightarrow> bytes res" where
  "build_threat_intel_update sq adds removes iocs =
     build_message (ThreatIntelUpdate \<lparr>ti_seq = sq, ti_adds = adds, ti_removes = removes, ti_iocs = iocs\<rparr>) (EInt 0) WIRE_VERSION"

definition build_ml_model_update :: "int \<Rightarrow> enum_arg \<Rightarrow> bytes \<Rightarrow> bytes \<Rightarrow> int \<Rightarrow> bytes res" where
  "build_ml_model_update ver kind tree ngram features =
     build_message (MlModelUpdate \<lparr>ml_version = ver, ml_kind = kind, ml_tree_blob = tree, ml_ngram_params = ngram, ml_features_version = features\<rparr>) (EInt 0) WIRE_VERSION"

definition build_signature_verdict :: "int \<Rightarrow> bytes \<Rightarrow> enum_arg \<Rightarrow> int option \<Rightarrow> int \<Rightarrow> bytes res" where
  "build_signature_verdict sid sha verdict ts now_ms =
     build_message (SignatureVerdict \<lparr>sv_sid = sid, sv_sha256 = sha, sv_verdict = verdict,
       sv_ts = (case ts of Some t \<Rightarrow> t | None \<Rightarrow> now_ms)\<rparr>) (EInt 0) WIRE_VERSION"

definition build_policy_update :: "int \<Rightarrow> policy_row list \<Rightarrow> bytes res" where
  "build_policy_update vsys rows = build_message (PolicyUpdate \<lparr>pu_vsys = vsys, pu_rows = rows\<rparr>) (EInt 0) WIRE_VERSION"

definition build_engine_telemetry :: "text_points \<Rightarrow> int \<Rightarrow> int \<Rightarrow> int \<Rightarrow> text_points \<Rightarrow> bytes res" where
  "build_engine_telemetry engine packets matches drops mode =
     build_message (EngineTelemetry \<lparr>te_engine = engine, te_packets = packets, te_matches = matches, te_drops = drops, te_mode = mode\<rparr>) (EInt 1) WIRE_VERSION"

definition build_flow_event :: "int \<Rightarrow> flow_key \<Rightarrow> enum_arg \<Rightarrow> int \<Rightarrow> bytes res" where
  "build_flow_event vsys key verdict n =
     build_message (FlowEvent \<lparr>fe_vsys = vsys, fe_key = key, fe_verdict = verdict, fe_bytes = n\<rparr>) (EInt 1) WIRE_VERSION"

primrec body_ok :: "body \<Rightarrow> bool" where
  "body_ok (ThreatIntelUpdate m) = threat_intel_ok m"
| "body_ok (MlModelUpdate m) = ml_model_ok m"
| "body_ok (SignatureVerdict m) = sig_verdict_ok m"
| "body_ok (PolicyUpdate m) = policy_update_ok m"
| "body_ok (EngineTelemetry m) = telemetry_ok m"
| "body_ok (FlowEvent m) = flow_event_ok m"

context codec
begin

lemma decoded_enc: "valid m \<Longrightarrow> \<exists>b. enc m = Inr b \<and> decoded mk dec b = Inr (mk m)"
proof -
  assume "valid m"
  then obtain b where b: "enc m = Inr b" "\<And>rest. dec (b @ rest) = Inr (m, rest)" by (rule encE) blast
  then show ?thesis using b(2) [of "[]"] by (simp add: decoded_def)
qed

end

lemmas body_decoded = threat_intel.decoded_enc ml_model.decoded_enc sig_verdict.decoded_enc policy_update.decoded_enc
  telemetry.decoded_enc flow_event.decoded_enc

lemma dec_enc_body: "body_ok x \<Longrightarrow> \<exists>b. enc_body x = Inr b \<and> dec_body (body_tag x) b = Inr x"
  by (cases x) (simp_all add: dec_body_def body_decoded)

text \<open>
  (C4) The two planes agree on the wire: for every message whose fields are in the ranges of the
  schema, in either direction, building the frame succeeds and parsing it, whatever bytes follow
  it, gives back the version, the direction and the same body, field by field, strings outside
  ASCII included.
\<close>

theorem mpdp_roundtrip:
  assumes "body_ok x" "enum_ok DIR_NAMES (EInt dir)" "in_range 4 ver" "\<forall>b. enc_body x = Inr b \<longrightarrow> length b < 2 ^ 32"
  shows "\<exists>frame. build_message x (EInt dir) ver = Inr frame
    \<and> (\<forall>rest. parse_frame (frame @ rest) = Inr \<lparr>m_ver = ver, m_dir = dir, m_dir_name = the (map_of DIR_NAMES dir), m_body = Some x\<rparr>)"
proof -
  obtain b where b: "enc_body x = Inr b" "dec_body (body_tag x) b = Inr x" using dec_enc_body [OF assms(1)] by blast
  have len: "length b < 2 ^ 32" using assms(4) b(1) by blast
  obtain v where v: "w_uint 4 ver = Inr v" "\<And>rest. r_uint 4 (v @ rest) = Inr (ver, rest)" using uint.encE [OF assms(3)] by blast
  have dir: "in_range 1 dir" "map_of DIR_NAMES dir \<noteq> None" using assms(2) by (simp_all add: enum_ok_def)
  obtain e where e: "w_uint 1 dir = Inr e" "\<And>rest. r_uint 1 (e @ rest) = Inr (dir, rest)" using uint.encE [OF dir(1)] by blast
  have t: "in_range 1 (body_tag x)" "body_tag x \<noteq> 0" by (cases x; simp add: in_range_def)+
  obtain g where g: "w_uint 1 (body_tag x) = Inr g" "\<And>rest. r_uint 1 (g @ rest) = Inr (body_tag x, rest)" using uint.encE [OF t(1)] by blast
  have "in_range 4 (int (length b))" using len by (simp add: in_range_def)
  then obtain l where l: "w_uint 4 (int (length b)) = Inr l" "\<And>rest. r_uint 4 (l @ rest) = Inr (int (length b), rest)" using uint.encE by blast
  have en: "w_enum DIR_NAMES (EInt dir) = Inr e" using dir(2) e(1) by (simp add: w_enum_def enum_val_def)
  let ?frame = "FRAME_MAGIC @ v @ e @ g @ l @ b"
  have "build_message x (EInt dir) ver = Inr ?frame" by (simp add: build_message_def b(1) v(1) en g(1) l(1) del: One_nat_def)
  moreover have "parse_frame (?frame @ rest) = Inr \<lparr>m_ver = ver, m_dir = dir, m_dir_name = the (map_of DIR_NAMES dir), m_body = Some x\<rparr>" for rest
  proof -
    have "r_take 4 (FRAME_MAGIC @ q) = Inr (FRAME_MAGIC, q)" for q by (rule r_take_append) (simp add: FRAME_MAGIC_def)
    moreover have "r_take (length b) (b @ rest) = Inr (b, rest)" by (rule r_take_append) simp
    ultimately show ?thesis using dir(2) t(2) by (auto simp: parse_frame_def v(2) e(2) g(2) l(2) b(2) Let_def simp del: One_nat_def)
  qed
  ultimately show ?thesis by blast
qed

definition sample_body :: body where
  "sample_body = EngineTelemetry \<lparr>te_engine = [0x64, 0x70, 0xE9], te_packets = 7, te_matches = 2, te_drops = 2, te_mode = [0x68]\<rparr>"

theorem mpdp_roundtrip_witness:
  "\<exists>frame. build_message sample_body (EInt 1) 1 = Inr frame
    \<and> parse_frame frame = Inr \<lparr>m_ver = 1, m_dir = 1, m_dir_name = ''DP2MP'', m_body = Some sample_body\<rparr>"
proof -
  have "body_ok sample_body" "enum_ok DIR_NAMES (EInt 1)" "in_range 4 1" by code_simp+
  moreover have "\<forall>b. enc_body sample_body = Inr b \<longrightarrow> length b < 2 ^ 32"
  proof -
    have "(case enc_body sample_body of Inr b \<Rightarrow> length b < 2 ^ 32 | Inl e \<Rightarrow> False)" by code_simp
    then show ?thesis by auto
  qed
  ultimately obtain frame where "build_message sample_body (EInt 1) 1 = Inr frame"
    "\<And>rest. parse_frame (frame @ rest) = Inr \<lparr>m_ver = 1, m_dir = 1, m_dir_name = the (map_of DIR_NAMES 1), m_body = Some sample_body\<rparr>"
    using mpdp_roundtrip [of sample_body 1 1] by blast
  moreover have "the (map_of DIR_NAMES 1) = ''DP2MP''" by (simp add: DIR_NAMES_def)
  ultimately show ?thesis by (metis append_Nil2)
qed

section \<open>Channels\<close>

definition inproc_send :: "bytes \<Rightarrow> bytes list \<Rightarrow> bytes list" where
  "inproc_send frame q = q @ [frame]"

definition inproc_recv :: "bytes list \<Rightarrow> bytes option \<times> bytes list" where
  "inproc_recv q = (case q of [] \<Rightarrow> (None, []) | f # q' \<Rightarrow> (Some f, q'))"

text \<open>The file and the reader's cursor.\<close>

record file_ring =
  contents :: bytes
  rpos :: nat

definition new_file_ring :: "bytes option \<Rightarrow> bool \<Rightarrow> file_ring" where
  "new_file_ring existing trunc = \<lparr>contents = (case existing of Some c \<Rightarrow> if trunc then [] else c | None \<Rightarrow> []), rpos = 0\<rparr>"

definition ring_send :: "bytes \<Rightarrow> file_ring \<Rightarrow> file_ring res" where
  "ring_send frame f = ok (length frame < 2 ^ 32) StructError (Inr (f\<lparr>contents := contents f @ to_le 4 (length frame) @ frame\<rparr>))"

definition ring_recv :: "file_ring \<Rightarrow> bytes option \<times> file_ring" where
  "ring_recv f =
     (let hdr = take 4 (drop (rpos f) (contents f)) in
      if length hdr < 4 then (None, f)
      else
        (let n = from_le hdr; payload = take n (drop (rpos f + 4) (contents f)) in
         if length payload < n then (None, f) else (Some payload, f\<lparr>rpos := rpos f + 4 + n\<rparr>)))"

lemma ring_recv_advances: "ring_recv f = (Some p, f') \<Longrightarrow> contents f' = contents f \<and> rpos f < rpos f' \<and> rpos f < length (contents f)"
  by (auto simp: ring_recv_def Let_def split: if_splits)

function ring_drain :: "file_ring \<Rightarrow> bytes list \<times> file_ring" where
  "ring_drain f = (case ring_recv f of (None, f') \<Rightarrow> ([], f') | (Some p, f') \<Rightarrow> (let (ps, f'') = ring_drain f' in (p # ps, f'')))"
  by pat_completeness auto
termination
proof (relation "measure (\<lambda>f. length (contents f) - rpos f)", goal_cases)
  case (2 f p f' x)
  then have "ring_recv f = (Some x, f')" by simp
  then show ?case using ring_recv_advances [of f x f'] by (simp add: diff_less_mono2)
qed simp

declare ring_drain.simps [simp del]

definition on_file :: "bytes list \<Rightarrow> bytes" where
  "on_file frames = concat (map (\<lambda>p. to_le 4 (length p) @ p) frames)"

lemma sends_on_file:
  "\<forall>p \<in> set frames. length p < 2 ^ 32 \<Longrightarrow> fold (\<lambda>p r. rbind r (ring_send p)) frames (Inr f) = Inr (f\<lparr>contents := contents f @ on_file frames\<rparr>)"
  by (induction frames arbitrary: f) (simp_all add: ring_send_def on_file_def)

lemma ring_recv_frame:
  assumes "drop (rpos f) (contents f) = to_le 4 (length p) @ p @ rest" "length p < 2 ^ 32"
  shows "ring_recv f = (Some p, f\<lparr>rpos := rpos f + 4 + length p\<rparr>)"
proof -
  have "drop (rpos f + 4) (contents f) = p @ rest" using arg_cong [OF assms(1), of "drop 4"] by (simp add: add.commute)
  then show ?thesis using assms by (simp add: ring_recv_def Let_def from_le_to_le)
qed

text \<open>A frame that is not complete yet: it is not returned and the cursor stays.\<close>

definition torn :: "bytes \<Rightarrow> bool" where
  "torn r \<longleftrightarrow> length r < 4 \<or> length r - 4 < from_le (take 4 r)"

lemma ring_recv_torn: "drop (rpos f) (contents f) = r \<Longrightarrow> torn r \<Longrightarrow> ring_recv f = (None, f)"
proof -
  assume a: "drop (rpos f) (contents f) = r" "torn r"
  have "drop (rpos f + 4) (contents f) = drop 4 r" using arg_cong [OF a(1), of "drop 4"] by (simp add: add.commute)
  then show ?thesis using a by (auto simp: ring_recv_def Let_def torn_def min_def)
qed

lemma drain_frames:
  assumes "drop (rpos f) (contents f) = on_file frames @ tail" "torn tail" "\<forall>p \<in> set frames. length p < 2 ^ 32"
  shows "ring_drain f = (frames, f\<lparr>rpos := rpos f + length (on_file frames)\<rparr>)"
  using assms(1,3)
proof (induction frames arbitrary: f)
  case Nil
  then show ?case using ring_recv_torn [of f tail] assms(2) by (subst ring_drain.simps) (simp add: on_file_def)
next
  case (Cons p frames)
  let ?f = "f\<lparr>rpos := rpos f + 4 + length p\<rparr>"
  have d: "drop (rpos f) (contents f) = to_le 4 (length p) @ p @ (on_file frames @ tail)" using Cons.prems(1) by (simp add: on_file_def)
  have r: "ring_recv f = (Some p, ?f)" by (rule ring_recv_frame [OF d]) (use Cons.prems(2) in simp)
  have "drop (rpos ?f) (contents ?f) = on_file frames @ tail" using arg_cong [OF d, of "drop (4 + length p)"] by (simp add: add.commute add.left_commute)
  then have "ring_drain ?f = (frames, ?f\<lparr>rpos := rpos ?f + length (on_file frames)\<rparr>)" using Cons.IH [of ?f] Cons.prems(2) by simp
  then show ?case using r by (subst ring_drain.simps) (simp add: on_file_def add.assoc)
qed

text \<open>
  The file channel delivers: after frames have been sent on a fresh file, with a frame that
  another writer has only partly written behind them, \<^verbatim>\<open>drain\<close> ends and returns exactly the
  complete frames in the order they were sent, and leaves the cursor before the partial frame,
  so that it is read once it is complete.
\<close>

theorem file_ring_delivers:
  assumes "\<forall>p \<in> set frames. length p < 2 ^ 32" "torn tail"
  shows "\<exists>f. fold (\<lambda>p r. rbind r (ring_send p)) frames (Inr (new_file_ring None False)) = Inr f
    \<and> fst (ring_drain (f\<lparr>contents := contents f @ tail\<rparr>)) = frames
    \<and> drop (rpos (snd (ring_drain (f\<lparr>contents := contents f @ tail\<rparr>)))) (contents f @ tail) = tail"
proof -
  let ?f = "(new_file_ring None False)\<lparr>contents := on_file frames\<rparr>"
  have s: "fold (\<lambda>p r. rbind r (ring_send p)) frames (Inr (new_file_ring None False)) = Inr ?f"
    using sends_on_file [OF assms(1), of "new_file_ring None False"] by (simp add: new_file_ring_def)
  have "ring_drain (?f\<lparr>contents := contents ?f @ tail\<rparr>) = (frames, ?f\<lparr>contents := contents ?f @ tail, rpos := length (on_file frames)\<rparr>)"
    using drain_frames [of "?f\<lparr>contents := contents ?f @ tail\<rparr>" frames tail] assms by (simp add: new_file_ring_def)
  then show ?thesis using s by (intro exI [of _ ?f]) simp
qed

theorem file_ring_delivers_witness:
  "\<exists>f. fold (\<lambda>p r. rbind r (ring_send p)) [[1, 2], [], [3]] (Inr (new_file_ring None False)) = Inr f
    \<and> fst (ring_drain (f\<lparr>contents := contents f @ [9, 0, 0]\<rparr>)) = [[1, 2], [], [3]]"
proof -
  have "\<forall>p \<in> set [[1, 2], [], [3]]. length (p :: bytes) < 2 ^ 32" "torn [9, 0, 0]" by (simp_all add: torn_def)
  from file_ring_delivers [OF this] show ?thesis by blast
qed

end
