(* ===== verification/L3_Offload.thy ===== *)
theory L3_Offload
  imports Ipaddr
begin

text \<open>
  The next-hop planner for hardware offload, \<^verbatim>\<open>src/opt/ffn_l3_offload.py\<close>: choice of the
  main-table route, verification of interface bindings, neighbour resolution and the plan of a
  session's two directions. The inventory is what \<^verbatim>\<open>ip -j\<close> prints, with the fields it prints
  as text or numbers as such and those the code type-checks as JSON values; running the command,
  the digest of the inventory and the error texts' variable parts are not modelled.
\<close>

section \<open>Inventory\<close>

record link =
  ifname :: string
  ifindex :: int
  ifalias :: string
  address :: "string option"
  mtu :: int
  flags :: "string list"
  link_parent :: "string option"
  link_index :: "int option"
  master :: "string option"
  info_kind :: "string option"
  vlan_id :: "json option"
  vlan_protocol :: "string option"

record route =
  dst :: "string option"
  metric :: "json option"
  dev :: "string option"
  gateway :: "string option"
  rtype :: "string option"
  special :: bool
  tos :: "json option"
  rflags :: "string list"
  table :: "json option"
  metrics :: "json list"

record neighbor =
  n_dst :: "string option"
  n_dev :: "string option"
  lladdr :: "string option"
  valid :: "bool option"
  n_state :: "string list"

record rule =
  extra_keys :: bool
  priority :: "json option"
  src :: "string option"
  rule_table :: "json option"

record inventory =
  links :: "link list"
  addresses :: "string list"
  routes :: "route list"
  rules :: "rule list"
  neighbors :: "neighbor list"

record binding =
  b_device :: "string option"
  b_index :: "int option"
  b_alias :: "string option"

definition NUD_VALID :: "string list" where
  "NUD_VALID = [''PERMANENT'', ''NOARP'', ''REACHABLE'', ''PROBE'', ''STALE'', ''DELAY'']"

definition neighbor_valid :: "neighbor \<Rightarrow> bool" where
  "neighbor_valid n =
     (case valid n of
        Some v \<Rightarrow> v
      | None \<Rightarrow> list_ex (\<lambda>s. s \<in> set NUD_VALID) (n_state n) \<and> lladdr n \<noteq> None \<and> lladdr n \<noteq> Some [])"

text \<open>Only the link address and its validity are kept of a neighbour.\<close>

definition project_neighbor :: "neighbor \<Rightarrow> neighbor" where
  "project_neighbor n = n\<lparr>valid := Some (neighbor_valid n), n_state := []\<rparr>"

section \<open>Addresses and tables\<close>

definition hex_val :: "char \<Rightarrow> nat option" where
  "hex_val c =
     (let n = (of_char c :: nat) in
      if 48 \<le> n \<and> n \<le> 57 then Some (n - 48) else if 97 \<le> n \<and> n \<le> 102 then Some (n - 87)
      else if 65 \<le> n \<and> n \<le> 70 then Some (n - 55) else None)"

definition mac_byte :: "string \<Rightarrow> nat option" where
  "mac_byte s =
     (case s of
        [a, b] \<Rightarrow> (case (hex_val a, hex_val b) of (Some x, Some y) \<Rightarrow> Some (16 * x + y) | _ \<Rightarrow> None)
      | _ \<Rightarrow> None)"

definition unicast_mac :: "string option \<Rightarrow> string res" where
  "unicast_mac value =
     need value (ValueError ''Unresolved Ethernet MAC address'') (\<lambda>s.
     let raw = map mac_byte (split_on CHR '':'' s) in
     ok (length raw = 6 \<and> list_all (\<lambda>b. b \<noteq> None) raw) (ValueError ''Unresolved Ethernet MAC address'')
     (ok (list_ex (\<lambda>b. b \<noteq> Some 0) raw \<and> even (the (hd raw))) (ValueError ''Unicast Ethernet MAC address required'')
       (Inr (py_lower s))))"

definition table_name :: "json option \<Rightarrow> json option" where
  "table_name t =
     (case t of
        Some (JInt n) \<Rightarrow>
          Some (if n = 253 then JStr ''default'' else if n = 254 then JStr ''main'' else if n = 255 then JStr ''local'' else JInt n)
      | _ \<Rightarrow> t)"

definition main_table_only :: "inventory \<Rightarrow> unit res" where
  "main_table_only st =
     (let actual = map (\<lambda>r. (priority r, table_name (rule_table r))) (rules st);
          expected = [(Some (JInt 0), Some (JStr ''local'')), (Some (JInt 32766), Some (JStr ''main'')), (Some (JInt 32767), Some (JStr ''default''))] in
      ok (list_all (\<lambda>r. \<not> extra_keys r \<and> src r = Some ''all'') (rules st)) (ValueError ''Policy routing requires a qualified hardware route resolver'')
      (ok (set actual = set expected \<and> length (rules st) = 3) (ValueError ''Policy routing requires a qualified hardware route resolver'')
        (Inr ())))"

section \<open>Attachments\<close>

record attached =
  a_interface :: string
  a_device :: string
  a_index :: int
  a_alias :: string
  source_mac :: string
  a_mtu :: int
  a_vlan :: "int option"
  a_parent :: "(string \<times> int \<times> string) option"

definition operational :: "link \<Rightarrow> bool" where
  "operational l \<longleftrightarrow> {''UP'', ''LOWER_UP''} \<subseteq> set (flags l)"

definition has_master :: "link \<Rightarrow> bool" where
  "has_master l \<longleftrightarrow> (case master l of Some m \<Rightarrow> m \<noteq> [] | None \<Rightarrow> False)"

definition vlan_attachment :: "link \<Rightarrow> inventory \<Rightarrow> attached \<Rightarrow> attached res" where
  "vlan_attachment l st result =
     ok (case vlan_protocol l of None \<Rightarrow> True | Some p \<Rightarrow> p = ''802.1Q'') (ValueError ''Unsupported VLAN attachment'')
     (need (Option.bind (vlan_id l) as_int) (ValueError ''Unsupported VLAN attachment'') (\<lambda>tag.
     ok (1 \<le> tag \<and> tag \<le> 4094) (ValueError ''Unsupported VLAN attachment'')
     (case [p \<leftarrow> links st. Some (ifindex p) = link_index l \<or> Some (ifname p) = link_parent l] of
        [p] \<Rightarrow>
          ok (info_kind p \<noteq> Some ''vlan'') (ValueError ''Missing or stacked VLAN parent'')
          (ok (operational p \<and> \<not> has_master p) (ValueError ''VLAN parent is not an operational standalone attachment'')
            (Inr (result\<lparr>a_vlan := Some tag, a_parent := Some (ifname p, ifindex p, ifalias p)\<rparr>)))
      | _ \<Rightarrow> Inl (ValueError ''Missing or stacked VLAN parent''))))"

definition attachment :: "string \<Rightarrow> (string, binding) odict \<Rightarrow> inventory \<Rightarrow> attached res" where
  "attachment name bindings st =
     need (map_of bindings name) (ValueError ''No acknowledged binding'') (\<lambda>b.
     case [l \<leftarrow> links st. Some (ifname l) = b_device b] of
       [l] \<Rightarrow>
         ok (Some (ifindex l) = b_index b \<and> Some (ifalias l) = b_alias b) (ValueError ''Interface ownership changed'')
         (ok (operational l) (ValueError ''Interface has no operational carrier'')
         (ok (\<not> has_master l) (ValueError ''Bridged or VRF attachment requires hardware qualification'')
         (rbind (unicast_mac (address l)) (\<lambda>mac.
          let result = \<lparr>a_interface = name, a_device = ifname l, a_index = ifindex l, a_alias = ifalias l, source_mac = mac,
                        a_mtu = mtu l, a_vlan = None, a_parent = None\<rparr> in
          if info_kind l = Some ''vlan'' then vlan_attachment l st result
          else ok (info_kind l = None \<or> info_kind l = Some ''tun'') (ValueError ''Unsupported hardware attachment kind'') (Inr result)))))
     | _ \<Rightarrow> Inl (ValueError ''Bound interface is missing''))"

section \<open>Routes\<close>

definition route_net :: "route \<Rightarrow> (nat \<times> nat) res" where
  "route_net r =
     (case dst r of
        None \<Rightarrow> Inr (0, 0)
      | Some d \<Rightarrow> if d = ''default'' then Inr (0, 0) else need (parse_network d) (ValueError ''network'') Inr)"

definition route_metric :: "route \<Rightarrow> int res" where
  "route_metric r = (case metric r of None \<Rightarrow> Inr 0 | Some m \<Rightarrow> need (as_int m) (ValueError ''Unsupported route metric'') Inr)"

text \<open>The routes whose network contains the address, with prefix length and negated metric.\<close>

fun route_choices :: "nat \<Rightarrow> route list \<Rightarrow> (nat \<times> int \<times> route) list res" where
  "route_choices ip [] = Inr []"
| "route_choices ip (r # rs) =
     rbind (route_net r) (\<lambda>net.
       if in_net ip net then
         rbind (route_metric r) (\<lambda>m. rbind (route_choices ip rs) (\<lambda>cs. Inr ((snd net, - m, r) # cs)))
       else route_choices ip rs)"

definition better :: "nat \<times> int \<Rightarrow> nat \<times> int \<Rightarrow> bool" where
  "better a b \<longleftrightarrow> fst b < fst a \<or> fst a = fst b \<and> snd b \<le> snd a"

fun best_rank :: "nat \<times> int \<Rightarrow> (nat \<times> int \<times> route) list \<Rightarrow> nat \<times> int" where
  "best_rank k [] = k"
| "best_rank k ((p, m, r) # cs) = best_rank (if better k (p, m) then k else (p, m)) cs"

definition forwardable :: "route \<Rightarrow> bool" where
  "forwardable r \<longleftrightarrow> (case rtype r of None \<Rightarrow> True | Some t \<Rightarrow> t = ''unicast'') \<and> \<not> special r
     \<and> (case tos r of None \<Rightarrow> True | Some t \<Rightarrow> t = JInt 0 \<or> t = JStr ''0x00'') \<and> list_all (\<lambda>f. f = ''onlink'') (rflags r)
     \<and> (case table r of None \<Rightarrow> True | Some t \<Rightarrow> t = JStr ''main'' \<or> t = JInt 254)"

definition is_link_local :: "nat \<Rightarrow> bool" where "is_link_local ip = in_net ip (0xA9FE0000, 16)"

definition pick_route :: "(nat \<times> int \<times> route) list \<Rightarrow> route res" where
  "pick_route choices =
     (case choices of
        [] \<Rightarrow> Inl (ValueError ''No route'')
      | (p, m, r) # cs \<Rightarrow>
          (let rank = best_rank (p, m) cs in
           case [r. (p, m, r) \<leftarrow> choices, (p, m) = rank] of
             [r] \<Rightarrow> ok (forwardable r) (ValueError ''Selected route requires the software exception path'') (Inr r)
           | _ \<Rightarrow> Inl (ValueError ''Ambiguous or multipath route'')))"

definition route_for :: "string \<Rightarrow> inventory \<Rightarrow> route res" where
  "route_for destination st =
     need (parse_ip4 destination) (ValueError ''address'') (\<lambda>ip.
     ok (\<not> (is_unspecified ip \<or> is_multicast ip \<or> is_loopback ip \<or> is_link_local ip)) (ValueError ''Destination requires the software exception path'')
     (ok (print_ip4 ip \<notin> set (addresses st)) (ValueError ''Firewall-local destination must remain on the management-profile path'')
     (rbind (route_choices ip (routes st)) pick_route)))"

section \<open>Sessions\<close>

definition device_of :: "string \<Rightarrow> (string, binding) odict \<Rightarrow> string option" where
  "device_of name bindings = Option.bind (map_of bindings name) b_device"

definition select_pair :: "(string \<times> string) list \<Rightarrow> string \<Rightarrow> string \<Rightarrow> (string, binding) odict \<Rightarrow> inventory \<Rightarrow> (string \<times> string) res" where
  "select_pair pairs forward_destination reverse_destination bindings st =
     (case pairs of
        [] \<Rightarrow> Inl (ValueError ''No interface pair is authorised for this session'')
      | [p] \<Rightarrow> Inr p
      | _ \<Rightarrow>
          rbind (route_for forward_destination st) (\<lambda>f. rbind (route_for reverse_destination st) (\<lambda>r.
            case [p \<leftarrow> pairs. device_of (fst p) bindings = dev r \<and> device_of (snd p) bindings = dev f] of
              [p] \<Rightarrow> Inr p
            | _ \<Rightarrow> Inl (ValueError ''Routes select a pair which the rule does not authorise''))))"

record hop =
  h_attached :: attached
  h_destination :: string
  next_hop :: string
  destination_mac :: string
  h_route :: route

definition resolve :: "string \<Rightarrow> string \<Rightarrow> (string, binding) odict \<Rightarrow> inventory \<Rightarrow> hop res" where
  "resolve destination outgoing bindings st =
     rbind (route_for destination st) (\<lambda>r.
     rbind (attachment outgoing bindings st) (\<lambda>target.
     ok (dev r = Some (a_device target)) (ValueError ''Route egress disagrees with the authorized interface pair'')
     (need (parse_ip4 (case gateway r of Some g \<Rightarrow> g | None \<Rightarrow> destination)) (ValueError ''address'') (\<lambda>hop.
      case [n \<leftarrow> neighbors st. n_dev n = Some (a_device target) \<and> n_dst n = Some (print_ip4 hop)] of
        [n] \<Rightarrow>
          ok (neighbor_valid n) (ValueError ''Next-hop neighbor is not valid for forwarding'')
          (ok (metrics r = []) (ValueError ''Route metrics require hardware qualification'')
          (rbind (unicast_mac (lladdr n)) (\<lambda>mac.
            Inr \<lparr>h_attached = target, h_destination = destination, next_hop = print_ip4 hop, destination_mac = mac, h_route = r\<rparr>)))
      | _ \<Rightarrow> Inl (ValueError ''Next-hop neighbor is unresolved'')))))"

record session_row =
  software_candidate :: bool
  interface_pairs :: "(string \<times> string) list"
  translated_destination :: string
  original_source :: string

record plan_result =
  available :: bool
  blockers :: "py_error list"
  directions :: "hop list"
  pair :: "(string \<times> string) option"

definition plan :: "session_row \<Rightarrow> (string, binding) odict \<Rightarrow> inventory \<Rightarrow> plan_result" where
  "plan row bindings st =
     (let none = \<lparr>available = False, blockers = [], directions = [], pair = None\<rparr> in
      if \<not> software_candidate row then none\<lparr>blockers := [ValueError ''Session is not an acknowledged software candidate'']\<rparr>
      else
        case
          rbind (main_table_only st) (\<lambda>_.
          rbind (select_pair (interface_pairs row) (translated_destination row) (original_source row) bindings st) (\<lambda>(incoming, outgoing).
          rbind (attachment incoming bindings st) (\<lambda>_.
          rbind (resolve (translated_destination row) outgoing bindings st) (\<lambda>forward.
          rbind (resolve (original_source row) incoming bindings st) (\<lambda>reverse.
            Inr (none\<lparr>available := True, directions := [forward, reverse], pair := Some (incoming, outgoing)\<rparr>))))))
        of Inr r \<Rightarrow> r | Inl e \<Rightarrow> none\<lparr>blockers := [e]\<rparr>)"

section \<open>The selected route is the best one\<close>

definition covers :: "nat \<Rightarrow> route \<Rightarrow> nat \<Rightarrow> int \<Rightarrow> bool" where
  "covers ip r p m \<longleftrightarrow> (\<exists>net. route_net r = Inr net \<and> in_net ip net \<and> snd net = p \<and> route_metric r = Inr m)"

lemma route_choices_set:
  "route_choices ip rs = Inr cs \<Longrightarrow> (p, m, r) \<in> set cs \<longleftrightarrow> r \<in> set rs \<and> covers ip r p (- m)"
proof (induction rs arbitrary: cs)
  case (Cons x rs)
  obtain net where net: "route_net x = Inr net" using Cons.prems by (auto simp: rbind_Inr_iff)
  show ?case
  proof (cases "in_net ip net")
    case True
    obtain mx cs' where "route_metric x = Inr mx" "route_choices ip rs = Inr cs'" "cs = (snd net, - mx, x) # cs'"
      using Cons.prems net True by (auto simp: rbind_Inr_iff)
    then show ?thesis using Cons.IH [of cs'] net True by (cases net) (auto simp: covers_def)
  next
    case False
    then have "route_choices ip rs = Inr cs" using Cons.prems net by simp
    then show ?thesis using Cons.IH [of cs] net False by (auto simp: covers_def)
  qed
qed simp

lemma better_trans: "better a b \<Longrightarrow> better b c \<Longrightarrow> better a c"
  by (auto simp: better_def)

lemma best_rank_best: "better (best_rank k cs) k \<and> (\<forall>(p, m, r) \<in> set cs. better (best_rank k cs) (p, m))"
proof (induction k cs rule: best_rank.induct)
  case (1 k)
  then show ?case by (simp add: better_def)
next
  case (2 k p m r cs)
  let ?k = "if better k (p, m) then k else (p, m)"
  have k: "better ?k k" "better ?k (p, m)" by (auto simp: better_def)
  have ih: "better (best_rank ?k cs) ?k" "\<forall>(p, m, r) \<in> set cs. better (best_rank ?k cs) (p, m)" using 2 by blast+
  have "best_rank k ((p, m, r) # cs) = best_rank ?k cs" by simp
  then show ?case using ih(2) better_trans [OF ih(1) k(1)] better_trans [OF ih(1) k(2)] by auto
qed

text \<open>
  (C28) The offload planner forwards as the kernel would: a route that \<^verbatim>\<open>route_for\<close> returns is a
  forwardable route of the main table whose network contains the destination, and every other
  route that contains it has a shorter prefix, or the same prefix length and a larger metric.
\<close>

theorem l3_route_longest_prefix:
  assumes "route_for d st = Inr r"
  shows "\<exists>ip p m. parse_ip4 d = Some ip \<and> r \<in> set (routes st) \<and> covers ip r p m \<and> forwardable r
    \<and> (\<forall>r' \<in> set (routes st). \<forall>p' m'. covers ip r' p' m' \<longrightarrow> r' \<noteq> r \<longrightarrow> p' < p \<or> p' = p \<and> m < m')"
proof -
  obtain ip cs where ip: "parse_ip4 d = Some ip" and cs: "route_choices ip (routes st) = Inr cs" "pick_route cs = Inr r"
    using assms unfolding route_for_def need_Inr_iff ok_Inr_iff rbind_Inr_iff by blast
  obtain p0 m0 r0 cs' where c: "cs = (p0, m0, r0) # cs'" using cs(2) by (cases cs) (auto simp: pick_route_def)
  define rank where "rank = best_rank (p0, m0) cs'"
  let ?sel = "[r. (p, m, r) \<leftarrow> cs, (p, m) = rank]"
  have "(case ?sel of [r] \<Rightarrow> ok (forwardable r) (ValueError ''Selected route requires the software exception path'') (Inr r)
      | _ \<Rightarrow> Inl (ValueError ''Ambiguous or multipath route'')) = Inr r"
    using cs(2) unfolding pick_route_def rank_def c by (simp only: list.case prod.case Let_def)
  then have sel: "?sel = [r]" "forwardable r" by (auto split: list.splits simp: ok_Inr_iff)
  obtain p m where rank: "rank = (p, m)" by fastforce
  have in_sel: "x \<in> set ?sel \<longleftrightarrow> (p, m, x) \<in> set cs" for x unfolding rank by force
  have r: "r \<in> set (routes st)" "covers ip r p (- m)"
    using in_sel [of r] sel(1) route_choices_set [OF cs(1), of p m r] by auto
  have best: "p' < p \<or> p' = p \<and> - m < m'" if "r' \<in> set (routes st)" "covers ip r' p' m'" "r' \<noteq> r" for r' p' m'
  proof -
    have mem: "(p', - m', r') \<in> set cs" using route_choices_set [OF cs(1), of p' "- m'" r'] that by simp
    have "better rank (p', - m')" using best_rank_best [of "(p0, m0)" cs'] mem unfolding c rank_def by auto
    moreover have "(p', - m') \<noteq> (p, m)"
    proof
      assume "(p', - m') = (p, m)"
      then have "r' \<in> set ?sel" using mem in_sel [of r'] by simp
      then show False using sel(1) that(3) by simp
    qed
    ultimately show ?thesis unfolding rank better_def by auto
  qed
  show ?thesis using ip r sel(2) best by blast
qed

definition plain_route :: route where
  "plain_route = \<lparr>dst = None, metric = None, dev = None, gateway = None, rtype = None, special = False, tos = None, rflags = [], table = None, metrics = []\<rparr>"

definition sample_link :: "string \<Rightarrow> int \<Rightarrow> string \<Rightarrow> link" where
  "sample_link name i mac = \<lparr>ifname = name, ifindex = i, ifalias = ''ffn'', address = Some mac, mtu = 1500, flags = [''UP'', ''LOWER_UP''], link_parent = None,
     link_index = None, master = None, info_kind = None, vlan_id = None, vlan_protocol = None\<rparr>"

definition sample_inventory :: inventory where
  "sample_inventory = \<lparr>links = [sample_link ''eth0'' 2 ''02:00:00:00:00:01'', sample_link ''eth1'' 3 ''02:00:00:00:00:02''], addresses = [''10.0.0.1''],
     routes = [plain_route\<lparr>dev := Some ''eth1'', gateway := Some ''192.0.2.1''\<rparr>, plain_route\<lparr>dst := Some ''10.0.0.0/24'', dev := Some ''eth0''\<rparr>],
     rules = [\<lparr>extra_keys = False, priority = Some (JInt 0), src = Some ''all'', rule_table = Some (JStr ''local'')\<rparr>,
       \<lparr>extra_keys = False, priority = Some (JInt 32766), src = Some ''all'', rule_table = Some (JInt 254)\<rparr>,
       \<lparr>extra_keys = False, priority = Some (JInt 32767), src = Some ''all'', rule_table = Some (JStr ''default'')\<rparr>],
     neighbors = [\<lparr>n_dst = Some ''192.0.2.1'', n_dev = Some ''eth1'', lladdr = Some ''02:00:00:00:00:09'', valid = Some True, n_state = []\<rparr>,
       \<lparr>n_dst = Some ''10.0.0.7'', n_dev = Some ''eth0'', lladdr = Some ''02:00:00:00:00:07'', valid = None, n_state = [''STALE'']\<rparr>]\<rparr>"

theorem l3_route_longest_prefix_witness:
  "\<exists>ip p m. parse_ip4 ''10.0.0.7'' = Some ip \<and> covers ip (plain_route\<lparr>dst := Some ''10.0.0.0/24'', dev := Some ''eth0''\<rparr>) p m"
proof -
  have "route_for ''10.0.0.7'' sample_inventory = Inr (plain_route\<lparr>dst := Some ''10.0.0.0/24'', dev := Some ''eth0''\<rparr>)" by code_simp
  from l3_route_longest_prefix [OF this] show ?thesis by blast
qed

section \<open>What a plan guarantees\<close>

lemma resolve_sound:
  assumes "resolve d out bindings st = Inr h"
  shows "route_for d st = Inr (h_route h) \<and> attachment out bindings st = Inr (h_attached h) \<and> dev (h_route h) = Some (a_device (h_attached h))
    \<and> (\<exists>n \<in> set (neighbors st). n_dev n = Some (a_device (h_attached h)) \<and> n_dst n = Some (next_hop h) \<and> neighbor_valid n
         \<and> unicast_mac (lladdr n) = Inr (destination_mac h))"
proof -
  obtain r t ip where rt: "route_for d st = Inr r" "attachment out bindings st = Inr t" "dev r = Some (a_device t)"
    and k: "(case [n \<leftarrow> neighbors st. n_dev n = Some (a_device t) \<and> n_dst n = Some (print_ip4 ip)] of
        [n] \<Rightarrow>
          ok (neighbor_valid n) (ValueError ''Next-hop neighbor is not valid for forwarding'')
          (ok (metrics r = []) (ValueError ''Route metrics require hardware qualification'')
          (rbind (unicast_mac (lladdr n)) (\<lambda>mac.
            Inr \<lparr>h_attached = t, h_destination = d, next_hop = print_ip4 ip, destination_mac = mac, h_route = r\<rparr>)))
      | _ \<Rightarrow> Inl (ValueError ''Next-hop neighbor is unresolved'')) = Inr h"
    using assms unfolding resolve_def rbind_Inr_iff ok_Inr_iff need_Inr_iff by blast
  obtain n where n: "[n \<leftarrow> neighbors st. n_dev n = Some (a_device t) \<and> n_dst n = Some (print_ip4 ip)] = [n]"
    using k by (auto split: list.splits)
  have mem: "n \<in> set (neighbors st) \<and> n_dev n = Some (a_device t) \<and> n_dst n = Some (print_ip4 ip)"
  proof -
    have "n \<in> set [n \<leftarrow> neighbors st. n_dev n = Some (a_device t) \<and> n_dst n = Some (print_ip4 ip)]" unfolding n by simp
    then show ?thesis by simp
  qed
  obtain mac where "neighbor_valid n" "unicast_mac (lladdr n) = Inr mac"
    "h = \<lparr>h_attached = t, h_destination = d, next_hop = print_ip4 ip, destination_mac = mac, h_route = r\<rparr>"
    using k unfolding n by (auto simp: ok_Inr_iff rbind_Inr_iff)
  then show ?thesis using rt mem by auto
qed

lemma select_pair_member:
  assumes "select_pair pairs f r bindings st = Inr p"
  shows "p \<in> set pairs"
proof -
  have filter_one: "p \<in> set xs" if "(case [q \<leftarrow> xs. P q] of [q] \<Rightarrow> Inr q | _ \<Rightarrow> Inl (e :: py_error)) = Inr p" for xs P e
  proof -
    have "[q \<leftarrow> xs. P q] = [p]" using that by (auto split: list.splits)
    then have "p \<in> set [q \<leftarrow> xs. P q]" by simp
    then show ?thesis by simp
  qed
  show ?thesis
  proof (cases pairs)
    case (Cons q qs)
    show ?thesis
    proof (cases qs)
      case Nil
      then show ?thesis using assms Cons by (simp add: select_pair_def)
    next
      case (Cons q' qs')
      then obtain x xa :: route where "(case [p \<leftarrow> pairs. device_of (fst p) bindings = dev xa \<and> device_of (snd p) bindings = dev x] of [p] \<Rightarrow> Inr p
          | _ \<Rightarrow> Inl (ValueError ''Routes select a pair which the rule does not authorise'')) = Inr p"
        using assms \<open>pairs = q # qs\<close> by (simp add: select_pair_def rbind_Inr_iff del: filter.simps) blast
      then show ?thesis by (rule filter_one)
    qed
  qed (use assms in \<open>simp add: select_pair_def\<close>)
qed

text \<open>
  A session is planned for hardware only on what was authorised and observed: an available
  plan is for an acknowledged software candidate, its interface pair is one the rule lists, and
  each of its two directions leaves through the bound device of that pair, which is also the
  device of the route the kernel selects, towards a neighbour on that device that the kernel
  itself would forward to.
\<close>

theorem l3_plan_authorised:
  assumes "available (plan row bindings st)"
  shows "software_candidate row \<and> (\<exists>inc out f r. (inc, out) \<in> set (interface_pairs row) \<and> directions (plan row bindings st) = [f, r]
    \<and> (\<forall>(h, d, name) \<in> {(f, translated_destination row, out), (r, original_source row, inc)}.
         route_for d st = Inr (h_route h) \<and> attachment name bindings st = Inr (h_attached h) \<and> dev (h_route h) = Some (a_device (h_attached h))
         \<and> (\<exists>n \<in> set (neighbors st). n_dev n = Some (a_device (h_attached h)) \<and> n_dst n = Some (next_hop h) \<and> neighbor_valid n
              \<and> unicast_mac (lladdr n) = Inr (destination_mac h))))"
proof -
  have sc: "software_candidate row" using assms by (auto simp: plan_def Let_def split: if_splits)
  let ?none = "\<lparr>available = False, blockers = [], directions = [], pair = None\<rparr>"
  let ?m = "rbind (main_table_only st) (\<lambda>_.
          rbind (select_pair (interface_pairs row) (translated_destination row) (original_source row) bindings st) (\<lambda>(incoming, outgoing).
          rbind (attachment incoming bindings st) (\<lambda>_.
          rbind (resolve (translated_destination row) outgoing bindings st) (\<lambda>forward.
          rbind (resolve (original_source row) incoming bindings st) (\<lambda>reverse.
            Inr (?none\<lparr>available := True, directions := [forward, reverse], pair := Some (incoming, outgoing)\<rparr>))))))"
  have p: "plan row bindings st = (case ?m of Inr r \<Rightarrow> r | Inl e \<Rightarrow> ?none\<lparr>blockers := [e]\<rparr>)" using sc by (simp add: plan_def Let_def)
  obtain x where x: "?m = Inr x" using assms unfolding p by (cases ?m) simp_all
  obtain inc out f r where o: "select_pair (interface_pairs row) (translated_destination row) (original_source row) bindings st = Inr (inc, out)"
    "resolve (translated_destination row) out bindings st = Inr f" "resolve (original_source row) inc bindings st = Inr r"
    "x = ?none\<lparr>available := True, directions := [f, r], pair := Some (inc, out)\<rparr>"
    using x by (auto simp: rbind_Inr_iff)
  have "directions (plan row bindings st) = [f, r]" unfolding p x using o(4) by simp
  then show ?thesis
    using sc select_pair_member [OF o(1)] resolve_sound [OF o(2)] resolve_sound [OF o(3)]
    by (intro conjI exI [of _ inc] exI [of _ out] exI [of _ f] exI [of _ r]) auto
qed

definition sample_session :: session_row where
  "sample_session = \<lparr>software_candidate = True, interface_pairs = [(''lan'', ''wan'')], translated_destination = ''198.51.100.4'', original_source = ''10.0.0.7''\<rparr>"

definition sample_bindings :: "(string, binding) odict" where
  "sample_bindings = [(''lan'', \<lparr>b_device = Some ''eth0'', b_index = Some 2, b_alias = Some ''ffn''\<rparr>),
     (''wan'', \<lparr>b_device = Some ''eth1'', b_index = Some 3, b_alias = Some ''ffn''\<rparr>)]"

theorem l3_plan_authorised_witness:
  "available (plan sample_session sample_bindings sample_inventory) \<and> software_candidate sample_session"
proof
  show a: "available (plan sample_session sample_bindings sample_inventory)" by code_simp
  show "software_candidate sample_session" using l3_plan_authorised [OF a] by (rule conjunct1)
qed

end
