(* ===== verification/Policy_Match.thy ===== *)
theory Policy_Match
  imports Ipaddr
begin

text \<open>
  Policy simulation, \<^verbatim>\<open>src/opt/ffn_policy_plan.py\<close>: validation of a test packet, the
  three-valued match of a compiled rule (a predicate on a field the packet does not have is
  indeterminate), and the first-match selection with its trace; and the canonical addresses and
  port ranges of \<^verbatim>\<open>src/opt/ffn_nat_policy.py\<close> that compiled rules hold. Plans are IPv4 ones.
  The class \<^verbatim>\<open>PolicyError\<close> and \<^verbatim>\<open>NatError\<close>, both \<^verbatim>\<open>ValueError\<close>s, are the same error here.
\<close>

section \<open>Canonical addresses and ports\<close>

definition has_char :: "char \<Rightarrow> string \<Rightarrow> bool" where "has_char c s \<longleftrightarrow> c \<in> set s"

text \<open>\<^verbatim>\<open>ip_network(value, strict=False)\<close>\<close>

definition loose_network :: "string \<Rightarrow> (nat \<times> nat) option" where
  "loose_network s = map_option (\<lambda>(ip, l). (net_base ip l, l)) (parse_interface s)"

definition ipv4 :: "string \<Rightarrow> bool \<Rightarrow> string res" where
  "ipv4 value host =
     (if has_char CHR ''-'' value \<and> \<not> host then
        (case split_on CHR ''-'' value of
           [a, b] \<Rightarrow>
             need (parse_ip4 a) (ValueError ''Expected an IPv4 address'') (\<lambda>x.
             need (parse_ip4 b) (ValueError ''Expected an IPv4 address'') (\<lambda>y.
             ok (x \<le> y) (ValueError ''Expected an IPv4 address'') (Inr (print_ip4 x @ ''-'' @ print_ip4 y))))
         | _ \<Rightarrow> Inl (ValueError ''Expected an IPv4 address''))
      else
        need (loose_network value) (ValueError ''Expected an IPv4 address'') (\<lambda>(net, l).
        ok (\<not> (host \<and> l \<noteq> 32)) (ValueError ''Expected an IPv4 host address'')
        (ok (\<not> (host \<and> (is_multicast net \<or> is_unspecified net \<or> is_loopback net))) (ValueError ''Expected an IPv4 host address'')
          (Inr (if host then print_ip4 net else print_prefix (net, l))))))"

text \<open>One end of a port range: digits, from 1 to 65535.\<close>

definition port_end :: "string \<Rightarrow> nat option" where
  "port_end s = (case parse_dec s of Some n \<Rightarrow> if 1 \<le> n \<and> n \<le> 65535 then Some n else None | None \<Rightarrow> None)"

definition port_part :: "string \<Rightarrow> string res" where
  "port_part part =
     (case map port_end (split_on CHR ''-'' part) of
        [Some a] \<Rightarrow> Inr (dec a)
      | [Some a, Some b] \<Rightarrow> ok (a \<le> b) (ValueError ''Reversed service port range'') (Inr (dec a @ ''-'' @ dec b))
      | _ \<Rightarrow> Inl (ValueError ''Invalid service ports''))"

definition ports :: "string \<Rightarrow> string list res" where
  "ports value = map_res port_part (split_on CHR '','' value)"

section \<open>Packets and rules\<close>

record packet =
  p_source :: string
  p_destination :: string
  from_zone :: string
  to_zone :: string
  protocol :: string
  source_port :: "int option"
  destination_port :: "int option"
  application :: "string option"
  source_user :: "string option"
  source_device :: "string option"
  destination_device :: "string option"
  egress_interface :: "string option"

definition PACKET_KEYS :: "string list" where
  "PACKET_KEYS = [''source'', ''destination'', ''from_zone'', ''to_zone'', ''protocol'', ''source_port'', ''destination_port'',
     ''application'', ''source_user'', ''source_device'', ''destination_device'', ''egress_interface'']"

text \<open>\<^verbatim>\<open>IPv4Address\<close> of a value: dotted text or a number.\<close>

definition address_value :: "json option \<Rightarrow> nat option" where
  "address_value v =
     (case v of
        Some (JStr s) \<Rightarrow> parse_ip4 s
      | Some (JInt n) \<Rightarrow> if 0 \<le> n \<and> n < 2 ^ 32 then Some (nat n) else None
      | Some (JBool b) \<Rightarrow> Some (of_bool b)
      | _ \<Rightarrow> None)"

definition packet_port :: "string \<Rightarrow> string \<Rightarrow> (string \<times> json) list \<Rightarrow> int option res" where
  "packet_port key proto p =
     (case map_of p key of
        None \<Rightarrow> Inr None
      | Some v \<Rightarrow>
          need (as_int v) (ValueError ''Packet ports require TCP/UDP'') (\<lambda>n.
          ok (1 \<le> n \<and> n \<le> 65535 \<and> proto \<in> {''tcp'', ''udp''}) (ValueError ''Packet ports require TCP/UDP'') (Inr (Some n))))"

definition packet_text :: "string \<Rightarrow> (string \<times> json) list \<Rightarrow> string option res" where
  "packet_text key p =
     (case map_of p key of
        None \<Rightarrow> Inr None
      | Some v \<Rightarrow>
          need (as_str v) (ValueError ''Invalid packet field'') (\<lambda>s.
          ok (1 \<le> length s \<and> length s \<le> 1024) (ValueError ''Invalid packet field'') (Inr (Some s))))"

definition packet_zone :: "string \<Rightarrow> string list \<Rightarrow> (string \<times> json) list \<Rightarrow> string res" where
  "packet_zone key zones p =
     need (Option.bind (map_of p key) as_str) (ValueError ''Select a configured zone'') (\<lambda>z.
     ok (z \<in> set zones) (ValueError ''Select a configured zone'') (Inr z))"

definition validate_packet :: "(string \<times> json) list \<Rightarrow> string list \<Rightarrow> packet res" where
  "validate_packet p zones =
     ok (only_keys PACKET_KEYS p) (ValueError ''Unknown packet fields'')
     (need (address_value (map_of p ''source'')) (ValueError ''Packet source must be an IPv4 address'') (\<lambda>s.
     need (address_value (map_of p ''destination'')) (ValueError ''Packet destination must be an IPv4 address'') (\<lambda>d.
     rbind (packet_zone ''from_zone'' zones p) (\<lambda>fz.
     rbind (packet_zone ''to_zone'' zones p) (\<lambda>tz.
     need (Option.bind (map_of p ''protocol'') as_str) (ValueError ''Packet protocol must be tcp, udp, icmp or other'') (\<lambda>pr.
     ok (pr \<in> {''tcp'', ''udp'', ''icmp'', ''other''}) (ValueError ''Packet protocol must be tcp, udp, icmp or other'')
     (rbind (packet_port ''source_port'' pr p) (\<lambda>sp.
     rbind (packet_port ''destination_port'' pr p) (\<lambda>dp.
     rbind (packet_text ''application'' p) (\<lambda>ap.
     rbind (packet_text ''source_user'' p) (\<lambda>su.
     rbind (packet_text ''source_device'' p) (\<lambda>sd.
     rbind (packet_text ''destination_device'' p) (\<lambda>dd.
     rbind (packet_text ''egress_interface'' p) (\<lambda>eg.
       Inr \<lparr>p_source = print_ip4 s, p_destination = print_ip4 d, from_zone = fz, to_zone = tz, protocol = pr, source_port = sp,
            destination_port = dp, application = ap, source_user = su, source_device = sd, destination_device = dd, egress_interface = eg\<rparr>))))))))))))))"

record service =
  s_protocol :: string
  s_source_ports :: "string list"
  s_destination_ports :: "string list"

record match_spec =
  m_from :: "string list"
  m_to :: "string list"
  m_source_user :: "string list"
  m_application :: "string list"
  m_source_device :: "string list option"
  m_destination_device :: "string list option"
  m_rule_type :: "string option"
  m_source :: "string list"
  m_destination :: "string list"
  m_egress :: string
  m_services :: "service list option"

section \<open>Three-valued matching\<close>

fun any_res :: "('a \<Rightarrow> bool res) \<Rightarrow> 'a list \<Rightarrow> bool res" where
  "any_res f [] = Inr False"
| "any_res f (x # xs) = rbind (f x) (\<lambda>b. if b then Inr True else any_res f xs)"

definition address_item :: "nat \<Rightarrow> string \<Rightarrow> bool res" where
  "address_item ip item =
     (if has_char CHR ''-'' item then
        (case split_on CHR ''-'' item of
           [lo, hi] \<Rightarrow>
             need (parse_ip4 lo) (ValueError ''address'') (\<lambda>a.
               if \<not> a \<le> ip then Inr False else need (parse_ip4 hi) (ValueError ''address'') (\<lambda>b. Inr (ip \<le> b)))
         | _ \<Rightarrow> Inl (ValueError ''too many values to unpack''))
      else need (parse_network item) (ValueError ''network'') (\<lambda>net. Inr (in_net ip net)))"

definition address_match :: "string \<Rightarrow> string list \<Rightarrow> bool res" where
  "address_match value items = need (parse_ip4 value) (ValueError ''address'') (\<lambda>ip. any_res (address_item ip) items)"

definition port_item :: "int \<Rightarrow> string \<Rightarrow> bool res" where
  "port_item value part =
     (let ends = split_on CHR ''-'' part in
      need (parse_dec (hd ends)) (ValueError ''int'') (\<lambda>lo.
        if \<not> int lo \<le> value then Inr False else need (parse_dec (last ends)) (ValueError ''int'') (\<lambda>hi. Inr (value \<le> int hi))))"

definition port_match :: "int option \<Rightarrow> string list \<Rightarrow> bool option res" where
  "port_match value ranges =
     (if ranges = [] then Inr (Some True)
      else case value of None \<Rightarrow> Inr None | Some v \<Rightarrow> rbind (any_res (port_item v) ranges) (\<lambda>b. Inr (Some b)))"

definition all_matches :: "bool option list \<Rightarrow> bool option" where
  "all_matches values = (if Some False \<in> set values then Some False else if None \<in> set values then None else Some True)"

definition any_matches :: "bool option list \<Rightarrow> bool option" where
  "any_matches values = (if Some True \<in> set values then Some True else if None \<in> set values then None else Some False)"

definition field_match :: "string list \<Rightarrow> string option \<Rightarrow> bool option" where
  "field_match values present = (if values = [''any''] then Some True else map_option (\<lambda>v. v \<in> set values) present)"

definition opt_field :: "string list option \<Rightarrow> string option \<Rightarrow> bool option list" where
  "opt_field values present = (case values of None \<Rightarrow> [] | Some vs \<Rightarrow> [field_match vs present])"

definition service_match :: "packet \<Rightarrow> service \<Rightarrow> bool option res" where
  "service_match p s =
     (if s_protocol s = ''any'' then Inr (Some True)
      else rbind (port_match (source_port p) (s_source_ports s)) (\<lambda>a. rbind (port_match (destination_port p) (s_destination_ports s)) (\<lambda>b.
        Inr (all_matches [Some (s_protocol s = protocol p), a, b]))))"

definition match_packet :: "match_spec option \<Rightarrow> packet \<Rightarrow> bool option res" where
  "match_packet mo p =
     (case mo of
        None \<Rightarrow> Inr None
      | Some m \<Rightarrow>
          rbind (address_match (p_source p) (m_source m)) (\<lambda>src.
          rbind (address_match (p_destination p) (m_destination m)) (\<lambda>dst.
          rbind (map_res (service_match p) (case m_services m of Some ss \<Rightarrow> ss | None \<Rightarrow> [])) (\<lambda>services.
            Inr (all_matches
              ([field_match (m_from m) (Some (from_zone p)), field_match (m_to m) (Some (to_zone p)), field_match (m_source_user m) (source_user p),
                field_match (m_application m) (application p)]
               @ opt_field (m_source_device m) (source_device p) @ opt_field (m_destination_device m) (destination_device p)
               @ (if m_rule_type m \<in> {Some ''intrazone'', Some ''interzone''}
                  then [Some ((from_zone p = to_zone p) = (m_rule_type m = Some ''intrazone''))] else [])
               @ [Some src, Some dst, if m_egress m = ''any'' then Some True else map_option (\<lambda>e. e = m_egress m) (egress_interface p),
                  any_matches ((if m_services m = None then [None] else []) @ services)]))))))"

section \<open>Selection\<close>

record rule_row =
  r_name :: string
  r_position :: nat
  r_match :: "match_spec option"
  r_action :: string

text \<open>What was selected: a rule, an implicit default (allowed or not), or nothing yet.\<close>

datatype selection = Matched rule_row | Implicit string bool | Indeterminate

type_synonym trace = "(string \<times> nat option \<times> bool option) list"

text \<open>The loop of \<^verbatim>\<open>test_policy\<close>: the trace of results and, unless no rule matched, where it stopped.\<close>

fun select_loop :: "rule_row list \<Rightarrow> packet \<Rightarrow> (trace \<times> selection option) res" where
  "select_loop [] p = Inr ([], None)"
| "select_loop (r # rs) p =
     rbind (match_packet (r_match r) p) (\<lambda>m.
       case m of
         None \<Rightarrow> Inr ([(r_name r, Some (r_position r), None)], Some Indeterminate)
       | Some True \<Rightarrow> Inr ([(r_name r, Some (r_position r), Some True)], Some (Matched r))
       | Some False \<Rightarrow> rbind (select_loop rs p) (\<lambda>(trace, sel). Inr ((r_name r, Some (r_position r), Some False) # trace, sel)))"

definition test_policy :: "string \<Rightarrow> rule_row list \<Rightarrow> packet \<Rightarrow> (trace \<times> selection option) res" where
  "test_policy kind rules p =
     rbind (select_loop rules p) (\<lambda>(trace, sel).
       if kind = ''security'' \<and> sel = None then
         (let same = (from_zone p = to_zone p); name = (if same then ''intrazone-default'' else ''interzone-default'') in
          Inr (trace @ [(name, None, Some True)], Some (Implicit name same)))
       else Inr (trace, sel))"

section \<open>A decision does not depend on what the packet leaves open\<close>

definition sub :: "'a option \<Rightarrow> 'a option \<Rightarrow> bool" where
  "sub a b \<longleftrightarrow> a = None \<or> a = b"

lemma sub_simps [simp]: "sub None b" "sub a a" "sub (Some x) b \<longleftrightarrow> b = Some x"
  by (auto simp: sub_def)

lemma all_matches_mono: "list_all2 sub xs ys \<Longrightarrow> sub (all_matches xs) (all_matches ys)"
proof -
  assume a: "list_all2 sub xs ys"
  have "Some False \<in> set ys" if "Some False \<in> set xs"
    using a that by (induction rule: list_all2_induct) auto
  moreover have "ys = xs" if "None \<notin> set xs"
    using a that by (induction rule: list_all2_induct) (auto simp: sub_def)
  ultimately show ?thesis by (auto simp: all_matches_def sub_def)
qed

lemma any_matches_mono: "list_all2 sub xs ys \<Longrightarrow> sub (any_matches xs) (any_matches ys)"
proof -
  assume a: "list_all2 sub xs ys"
  have "Some True \<in> set ys" if "Some True \<in> set xs"
    using a that by (induction rule: list_all2_induct) auto
  moreover have "ys = xs" if "None \<notin> set xs"
    using a that by (induction rule: list_all2_induct) (auto simp: sub_def)
  ultimately show ?thesis by (auto simp: any_matches_def sub_def)
qed

lemma field_match_mono: "sub a b \<Longrightarrow> sub (field_match vs a) (field_match vs b)"
  by (auto simp: field_match_def sub_def)

lemma opt_field_mono: "sub a b \<Longrightarrow> list_all2 sub (opt_field vs a) (opt_field vs b)"
  by (simp add: opt_field_def field_match_mono split: option.splits)

text \<open>The port ranges that \<^verbatim>\<open>ports\<close> returns can be read.\<close>

definition port_ok :: "string \<Rightarrow> bool" where
  "port_ok part \<longleftrightarrow> parse_dec (hd (split_on CHR ''-'' part)) \<noteq> None \<and> parse_dec (last (split_on CHR ''-'' part)) \<noteq> None"

lemma dash_not_digit: "CHR ''-'' \<notin> set (dec n)"
proof
  assume "CHR ''-'' \<in> set (dec n)"
  then have "is_digit CHR ''-''" using dec_digits [of n] by (simp add: list_all_iff)
  then show False by (simp add: is_digit_def)
qed

lemma split_dec: "split_on CHR ''-'' (dec a) = [dec a]" "split_on CHR ''-'' (dec a @ CHR ''-'' # dec b) = [dec a, dec b]"
proof -
  show "split_on CHR ''-'' (dec a) = [dec a]" by (rule split_on_none [OF dash_not_digit])
  have "split_on CHR ''-'' (join_with ''-'' [dec a, dec b]) = [dec a, dec b]" by (rule split_join) (simp_all add: dash_not_digit)
  then show "split_on CHR ''-'' (dec a @ CHR ''-'' # dec b) = [dec a, dec b]" by (simp add: join_Cons)
qed

lemma port_part_ok: "port_part s = Inr t \<Longrightarrow> port_ok t"
  by (auto simp: port_part_def port_ok_def split_dec parse_dec_dec ok_Inr_iff split: list.splits option.splits)

lemma ports_ok: "ports v = Inr out \<Longrightarrow> list_all port_ok out"
  unfolding ports_def map_res_Inr by (induction rule: list_all2_induct) (auto dest: port_part_ok)

definition service_ok :: "service \<Rightarrow> bool" where
  "service_ok s \<longleftrightarrow> list_all port_ok (s_source_ports s) \<and> list_all port_ok (s_destination_ports s)"

definition rule_ok :: "rule_row \<Rightarrow> bool" where
  "rule_ok r \<longleftrightarrow> (case r_match r of None \<Rightarrow> True | Some m \<Rightarrow> (case m_services m of None \<Rightarrow> True | Some ss \<Rightarrow> list_all service_ok ss))"

lemma any_res_total: "(\<And>x. x \<in> set xs \<Longrightarrow> \<exists>b. f x = Inr b) \<Longrightarrow> \<exists>b. any_res f xs = Inr b"
proof (induction xs)
  case (Cons x xs)
  obtain b where "f x = Inr b" using Cons.prems [of x] by auto
  moreover obtain c where "any_res f xs = Inr c" using Cons by auto
  ultimately show ?case by auto
qed auto

lemma port_match_mono:
  assumes "port_match v rs = Inr a" "sub v v'" "list_all port_ok rs"
  shows "\<exists>b. port_match v' rs = Inr b \<and> sub a b"
proof (cases v)
  case (Some n)
  then show ?thesis using assms by simp
next
  case None
  show ?thesis
  proof (cases v')
    case (Some n)
    have "\<exists>b. port_item n r = Inr b" if r: "r \<in> set rs" for r
    proof -
      obtain lo hi where "parse_dec (hd (split_on CHR ''-'' r)) = Some lo" "parse_dec (last (split_on CHR ''-'' r)) = Some hi"
        using assms(3) r by (auto simp: list_all_iff port_ok_def)
      then show ?thesis by (cases "int lo \<le> n") (auto simp: port_item_def Let_def)
    qed
    then obtain b where "any_res (port_item n) rs = Inr b" using any_res_total by blast
    then show ?thesis using assms(1) None Some by (auto simp: port_match_def)
  qed (use assms None in simp)
qed

text \<open>A packet with the same addresses, zones and protocol, and at least the same further fields.\<close>

definition extends :: "packet \<Rightarrow> packet \<Rightarrow> bool" where
  "extends p q \<longleftrightarrow> p_source q = p_source p \<and> p_destination q = p_destination p \<and> from_zone q = from_zone p \<and> to_zone q = to_zone p
     \<and> protocol q = protocol p \<and> sub (source_port p) (source_port q) \<and> sub (destination_port p) (destination_port q)
     \<and> sub (application p) (application q) \<and> sub (source_user p) (source_user q) \<and> sub (source_device p) (source_device q)
     \<and> sub (destination_device p) (destination_device q) \<and> sub (egress_interface p) (egress_interface q)"

lemma service_match_mono:
  assumes "service_match p s = Inr a" "extends p q" "service_ok s"
  shows "\<exists>b. service_match q s = Inr b \<and> sub a b"
proof (cases "s_protocol s = ''any''")
  case False
  obtain x y where xy: "port_match (source_port p) (s_source_ports s) = Inr x" "port_match (destination_port p) (s_destination_ports s) = Inr y"
    "a = all_matches [Some (s_protocol s = protocol p), x, y]" using assms(1) False by (auto simp: service_match_def rbind_Inr_iff)
  have e: "sub (source_port p) (source_port q)" "sub (destination_port p) (destination_port q)" using assms(2) by (simp_all add: extends_def)
  have k: "list_all port_ok (s_source_ports s)" "list_all port_ok (s_destination_ports s)" using assms(3) by (simp_all add: service_ok_def)
  obtain x' where "port_match (source_port q) (s_source_ports s) = Inr x'" "sub x x'" using port_match_mono [OF xy(1) e(1) k(1)] by blast
  moreover obtain y' where "port_match (destination_port q) (s_destination_ports s) = Inr y'" "sub y y'" using port_match_mono [OF xy(2) e(2) k(2)] by blast
  moreover from calculation have "sub a (all_matches [Some (s_protocol s = protocol q), x', y'])"
    unfolding xy(3) using assms(2) by (intro all_matches_mono) (simp add: extends_def)
  ultimately show ?thesis using False by (simp add: service_match_def)
qed (use assms in \<open>simp add: service_match_def\<close>)

lemma services_mono:
  assumes "extends p q"
  shows "map_res (service_match p) ss = Inr as \<Longrightarrow> list_all service_ok ss \<Longrightarrow> \<exists>bs. map_res (service_match q) ss = Inr bs \<and> list_all2 sub as bs"
proof (induction ss arbitrary: as)
  case (Cons s ss)
  obtain a as' where a: "service_match p s = Inr a" "map_res (service_match p) ss = Inr as'" "as = a # as'"
    using Cons.prems(1) by (auto simp: rbind_Inr_iff)
  obtain b bs where "service_match q s = Inr b" "sub a b" "map_res (service_match q) ss = Inr bs" "list_all2 sub as' bs"
    using service_match_mono [OF a(1) assms] Cons.IH [OF a(2)] Cons.prems(2) by auto
  then show ?case using a(3) by simp
qed simp

lemma match_packet_mono:
  assumes "match_packet (r_match r) p = Inr a" "extends p q" "rule_ok r"
  shows "\<exists>b. match_packet (r_match r) q = Inr b \<and> sub a b"
proof (cases "r_match r")
  case (Some m)
  let ?ss = "case m_services m of Some ss \<Rightarrow> ss | None \<Rightarrow> []"
  note e = assms(2) [unfolded extends_def]
  obtain src d sv where x: "address_match (p_source p) (m_source m) = Inr src" "address_match (p_destination p) (m_destination m) = Inr d"
    "map_res (service_match p) ?ss = Inr sv" using assms(1) Some by (auto simp: match_packet_def rbind_Inr_iff)
  have "list_all service_ok ?ss" using assms(3) Some by (auto simp: rule_ok_def split: option.splits)
  then obtain sv' where y: "map_res (service_match q) ?ss = Inr sv'" "list_all2 sub sv sv'" using services_mono [OF assms(2) x(3)] by blast
  let ?list = "\<lambda>p sv. [field_match (m_from m) (Some (from_zone p)), field_match (m_to m) (Some (to_zone p)), field_match (m_source_user m) (source_user p),
                field_match (m_application m) (application p)]
               @ opt_field (m_source_device m) (source_device p) @ opt_field (m_destination_device m) (destination_device p)
               @ (if m_rule_type m \<in> {Some ''intrazone'', Some ''interzone''}
                  then [Some ((from_zone p = to_zone p) = (m_rule_type m = Some ''intrazone''))] else [])
               @ [Some src, Some d, if m_egress m = ''any'' then Some True else map_option (\<lambda>e. e = m_egress m) (egress_interface p),
                  any_matches ((if m_services m = None then [None] else []) @ sv)]"
  have sv2: "sub (any_matches ((if m_services m = None then [None] else []) @ sv)) (any_matches ((if m_services m = None then [None] else []) @ sv'))"
    using y(2) by (intro any_matches_mono list_all2_appendI) simp_all
  have eg: "sub (map_option (\<lambda>e. e = m_egress m) (egress_interface p)) (map_option (\<lambda>e. e = m_egress m) (egress_interface q))"
    using e by (auto simp: sub_def)
  have "list_all2 sub (?list p sv) (?list q sv')"
    using e sv2 eg by (intro list_all2_appendI) (simp_all add: field_match_mono opt_field_mono)
  then have "sub (all_matches (?list p sv)) (all_matches (?list q sv'))" by (rule all_matches_mono)
  moreover have "match_packet (r_match r) p = Inr (all_matches (?list p sv))" unfolding Some match_packet_def using x by simp
  moreover have "match_packet (r_match r) q = Inr (all_matches (?list q sv'))" unfolding Some match_packet_def using x(1,2) y(1) e by simp
  ultimately show ?thesis using assms(1) by simp
qed (use assms in \<open>simp add: match_packet_def\<close>)

definition decided :: "selection option \<Rightarrow> bool" where
  "decided sel \<longleftrightarrow> sel \<noteq> Some Indeterminate"

lemma select_loop_mono:
  assumes "extends p q"
  shows "select_loop rs p = Inr (tr, sel) \<Longrightarrow> decided sel \<Longrightarrow> list_all rule_ok rs \<Longrightarrow> select_loop rs q = Inr (tr, sel)"
proof (induction rs arbitrary: tr sel)
  case (Cons r rs)
  obtain a where a: "match_packet (r_match r) p = Inr a" using Cons.prems(1) by (auto simp: rbind_Inr_iff)
  obtain b where b: "match_packet (r_match r) q = Inr b" "sub a b" using match_packet_mono [OF a assms] Cons.prems(3) by auto
  consider "a = None" | "a = Some True" | "a = Some False" by (cases a) auto
  then show ?case
  proof cases
    case 1
    then show ?thesis using Cons.prems(1,2) a by (auto simp: decided_def)
  next
    case 2
    then show ?thesis using Cons.prems(1) a b by simp
  next
    case 3
    then obtain tr' where "select_loop rs p = Inr (tr', sel)" "tr = (r_name r, Some (r_position r), Some False) # tr'" using Cons.prems(1) a by (auto simp: rbind_Inr_iff)
    then show ?thesis using Cons.IH [of tr' sel] Cons.prems(2,3) b 3 by simp
  qed
qed simp

text \<open>
  (C31) A policy test that reaches a decision is final: when the rules' port ranges are as
  \<^verbatim>\<open>ports\<close> writes them and the test of a packet selects a rule, an implicit default or nothing,
  then a packet that supplies further fields (ports, application, user, devices, egress
  interface) gets the same trace and the same selection; only an indeterminate answer can change.
\<close>

theorem policy_test_stable:
  assumes "test_policy kind rules p = Inr (tr, sel)" "decided sel" "extends p q" "list_all rule_ok rules"
  shows "test_policy kind rules q = Inr (tr, sel)"
proof -
  obtain t0 s0 where l: "select_loop rules p = Inr (t0, s0)" using assms(1) by (auto simp: test_policy_def rbind_Inr_iff)
  have "decided s0" using assms(1,2) l by (auto simp: test_policy_def decided_def split: if_splits option.splits)
  then have "select_loop rules q = Inr (t0, s0)" using select_loop_mono [OF assms(3) l] assms(4) by blast
  moreover have "from_zone q = from_zone p" "to_zone q = to_zone p" using assms(3) by (simp_all add: extends_def)
  ultimately have "test_policy kind rules q = test_policy kind rules p" using l by (simp add: test_policy_def)
  then show ?thesis using assms(1) by simp
qed

definition sample_rules :: "rule_row list" where
  "sample_rules =
     [\<lparr>r_name = ''web'', r_position = 1, r_match = Some \<lparr>m_from = [''lan''], m_to = [''wan''], m_source_user = [''any''], m_application = [''any''],
         m_source_device = None, m_destination_device = None, m_rule_type = None, m_source = [''10.0.0.0/8''], m_destination = [''0.0.0.0/0''],
         m_egress = ''any'', m_services = Some [\<lparr>s_protocol = ''tcp'', s_source_ports = [], s_destination_ports = [''443'', ''8000-8080'']\<rparr>]\<rparr>,
       r_action = ''allow''\<rparr>]"

definition sample_packet :: packet where
  "sample_packet = \<lparr>p_source = ''10.1.2.3'', p_destination = ''192.0.2.9'', from_zone = ''lan'', to_zone = ''wan'', protocol = ''tcp'', source_port = None,
     destination_port = Some 8001, application = None, source_user = None, source_device = None, destination_device = None, egress_interface = None\<rparr>"

theorem policy_test_stable_witness:
  "test_policy ''security'' sample_rules (sample_packet\<lparr>source_port := Some 40000, source_user := Some ''amy''\<rparr>) = Inr ([(''web'', Some 1, Some True)], Some (Matched (hd sample_rules)))"
proof -
  have "test_policy ''security'' sample_rules sample_packet = Inr ([(''web'', Some 1, Some True)], Some (Matched (hd sample_rules)))" by code_simp
  moreover have "list_all rule_ok sample_rules" by code_simp
  moreover have "decided (Some (Matched (hd sample_rules)))" by (simp add: decided_def)
  moreover have "extends sample_packet (sample_packet\<lparr>source_port := Some 40000, source_user := Some ''amy''\<rparr>)"
    by (simp add: extends_def sample_packet_def)
  ultimately show ?thesis using policy_test_stable [of "''security''" sample_rules sample_packet] by blast
qed

end
