(* ===== verification/Cpu_Lists.thy ===== *)
theory Cpu_Lists
  imports Json
begin

text \<open>
  CPU lists as text: \<^verbatim>\<open>expand_cpu_list\<close>, \<^verbatim>\<open>format_cpu_list\<close>, the kernel command line and the plane
  file of \<^verbatim>\<open>src/opt/ffn_cpu_planes.py\<close>, and the two list helpers of \<^verbatim>\<open>src/opt/ffn_cpuisol.py\<close>.
  A CPU number is a \<^typ>\<open>nat\<close>: the text before the first dash holds no sign but a plus, and a
  range that ends below zero is empty, as is one that does not read.
\<close>

section \<open>Python text\<close>

definition ws :: "char \<Rightarrow> bool" where
  "ws c = (let n = (of_char c :: nat) in 9 \<le> n \<and> n \<le> 13 \<or> 28 \<le> n \<and> n \<le> 32 \<or> n = 0x85 \<or> n = 0xA0)"

definition strip_by :: "(char \<Rightarrow> bool) \<Rightarrow> string \<Rightarrow> string" where
  "strip_by P s = rev (dropWhile P (rev (dropWhile P s)))"

definition before :: "char \<Rightarrow> string \<Rightarrow> string" where
  "before c s = takeWhile (\<lambda>x. x \<noteq> c) s"

definition after :: "char \<Rightarrow> string \<Rightarrow> string" where
  "after c s = drop 1 (dropWhile (\<lambda>x. x \<noteq> c) s)"

text \<open>\<^verbatim>\<open>str.splitlines\<close>, on the current line (reversed) and the rest.\<close>

definition line_break :: "char \<Rightarrow> bool" where
  "line_break c = (let n = (of_char c :: nat) in 10 \<le> n \<and> n \<le> 13 \<or> 28 \<le> n \<and> n \<le> 30 \<or> n = 0x85)"

function lines_from :: "string \<Rightarrow> string \<Rightarrow> string list" where
  "lines_from cur [] = (if cur = [] then [] else [rev cur])"
| "lines_from cur (c # cs) =
     (if line_break c then rev cur # lines_from [] (if c = CHR 0x0D \<and> take 1 cs = [CHR 0x0A] then drop 1 cs else cs)
      else lines_from (c # cur) cs)"
  by pat_completeness auto

termination by (relation "measure (\<lambda>(cur, s). length s)") auto

text \<open>\<^verbatim>\<open>str.split()\<close>\<close>

fun words_from :: "string \<Rightarrow> string \<Rightarrow> string list" where
  "words_from cur [] = (if cur = [] then [] else [rev cur])"
| "words_from cur (c # cs) =
     (if ws c then (if cur = [] then words_from [] cs else rev cur # words_from [] cs) else words_from (c # cur) cs)"

text \<open>\<^verbatim>\<open>int(text)\<close> of a text that denotes no negative number; underscores may stand between digits.\<close>

definition py_nat :: "string \<Rightarrow> nat option" where
  "py_nat s =
     (let t = strip_by ws s; u = (if take 1 t = ''+'' then drop 1 t else t); parts = split_on CHR ''_'' u in
      if list_all (\<lambda>p. p \<noteq> [] \<and> list_all is_digit p) parts then parse_dec (concat parts) else None)"

section \<open>Lists and ranges\<close>

definition expand_part :: "string \<Rightarrow> nat list" where
  "expand_part part =
     (let p = strip_by ws part in
      if p = [] then []
      else if CHR ''-'' \<in> set p then
        (case (py_nat (before CHR ''-'' p), py_nat (after CHR ''-'' p)) of (Some a, Some b) \<Rightarrow> [a..<Suc b] | _ \<Rightarrow> [])
      else (case py_nat p of Some n \<Rightarrow> [n] | None \<Rightarrow> []))"

definition expand_cpu_list :: "string \<Rightarrow> nat list" where
  "expand_cpu_list spec = sort (remdups (concat (map expand_part (split_on CHR '','' spec))))"

fun runs :: "nat \<Rightarrow> nat \<Rightarrow> nat list \<Rightarrow> (nat \<times> nat) list" where
  "runs start prev [] = [(start, prev)]"
| "runs start prev (c # cs) = (if c = prev + 1 then runs start c cs else (start, prev) # runs c c cs)"

definition show_run :: "nat \<times> nat \<Rightarrow> string" where
  "show_run r = (case r of (a, b) \<Rightarrow> if a = b then dec a else dec a @ ''-'' @ dec b)"

definition format_cpu_list :: "nat list \<Rightarrow> string" where
  "format_cpu_list cores = (case sort (remdups cores) of [] \<Rightarrow> [] | c # cs \<Rightarrow> join_with '','' (map show_run (runs c c cs)))"

text \<open>The helpers of \<^verbatim>\<open>ffn_cpuisol.py\<close>: parts must match \<^verbatim>\<open>^\d+(-\d+)?$\<close>, and text is built run by run.\<close>

definition isol_expand_part :: "string \<Rightarrow> nat list" where
  "isol_expand_part part =
     (case map parse_dec (split_on CHR ''-'' (strip_by ws part)) of
        [Some a] \<Rightarrow> [a]
      | [Some a, Some b] \<Rightarrow> if a \<le> b then [a..<Suc b] else []
      | _ \<Rightarrow> [])"

definition isol_expand_cpu_list :: "string \<Rightarrow> nat list" where
  "isol_expand_cpu_list spec = sort (remdups (concat (map isol_expand_part (split_on CHR '','' spec))))"

fun isol_runs :: "string list \<Rightarrow> nat \<Rightarrow> nat \<Rightarrow> nat list \<Rightarrow> string list" where
  "isol_runs out start prev [] = out @ [show_run (start, prev)]"
| "isol_runs out start prev (c # cs) =
     (if c = prev + 1 then isol_runs out start c cs else isol_runs (out @ [show_run (start, prev)]) c c cs)"

definition isol_format_cpu_list :: "nat list \<Rightarrow> string" where
  "isol_format_cpu_list cores =
     (if cores = [] then [] else case sort (remdups cores) of [] \<Rightarrow> [] | c # cs \<Rightarrow> join_with '','' (isol_runs [] c c cs))"

section \<open>Kernel command line and plane file\<close>

definition ISOLCPUS_FLAGS :: "string list" where
  "ISOLCPUS_FLAGS = [''managed_irq'', ''domain'', ''nohz'', ''rcu'']"

definition first_option :: "string \<Rightarrow> string \<Rightarrow> string option" where
  "first_option key cmdline = map_option (after CHR ''='') (List.find (\<lambda>tok. take (length key) tok = key) (words_from [] cmdline))"

definition parse_isolcpus :: "string \<Rightarrow> nat list" where
  "parse_isolcpus cmdline =
     (case first_option ''isolcpus='' cmdline of
        None \<Rightarrow> []
      | Some spec \<Rightarrow> expand_cpu_list (join_with '','' (filter (\<lambda>p. p \<notin> set ISOLCPUS_FLAGS) (split_on CHR '','' spec))))"

definition parse_nohz_full :: "string \<Rightarrow> nat list" where
  "parse_nohz_full cmdline = (case first_option ''nohz_full='' cmdline of None \<Rightarrow> [] | Some spec \<Rightarrow> expand_cpu_list spec)"

definition PLANE_MGMT :: string where "PLANE_MGMT = ''mgmt''"
definition PLANE_CTRL :: string where "PLANE_CTRL = ''ctrl''"
definition PLANE_DATA :: string where "PLANE_DATA = ''data''"

definition PLANES :: "string list" where
  "PLANES = [PLANE_MGMT, PLANE_CTRL, PLANE_DATA]"

definition CONF_KEY :: "(string \<times> string) list" where
  "CONF_KEY = [(PLANE_MGMT, ''FFN_MGMT_CORES''), (PLANE_CTRL, ''FFN_CTRL_CORES''), (PLANE_DATA, ''FFN_DPDK_CORES'')]"

definition CONF_ALIASES :: "(string \<times> string) list" where
  "CONF_ALIASES = [(''FFN_DP_CORES'', PLANE_DATA), (''FFN_DATA_CORES'', PLANE_DATA), (''FFN_DATAPLANE_CORES'', PLANE_DATA)]"

definition plane_of_key :: "string \<Rightarrow> string option" where
  "plane_of_key k = (case List.find (\<lambda>(p, key). key = k) CONF_KEY of Some (p, key) \<Rightarrow> Some p | None \<Rightarrow> map_of CONF_ALIASES k)"

definition conf_line :: "string \<Rightarrow> (string, nat list) odict \<Rightarrow> (string, nat list) odict" where
  "conf_line raw planes =
     (let line = strip_by ws raw in
      if line = [] \<or> take 1 line = ''#'' \<or> CHR ''='' \<notin> set line then planes
      else
        (case plane_of_key (strip_by ws (before CHR ''='' line)) of
           None \<Rightarrow> planes
         | Some p \<Rightarrow> dict_set p (expand_cpu_list (strip_by (\<lambda>c. c = CHR 0x22) (strip_by ws (after CHR ''='' line)))) planes))"

definition parse_conf :: "string \<Rightarrow> (string, nat list) odict" where
  "parse_conf s = fold conf_line (lines_from [] s) []"

definition conf_row :: "(string \<Rightarrow> nat list) \<Rightarrow> string \<times> string \<Rightarrow> string" where
  "conf_row planes pk = snd pk @ ''='' @ [CHR 0x22] @ format_cpu_list (planes (fst pk)) @ [CHR 0x22]"

definition render_conf :: "(string \<Rightarrow> nat list) \<Rightarrow> string" where
  "render_conf planes =
     join_with [CHR 0x0A]
       ([''# /etc/ffn-ngfw/cpu-planes.conf -- generated by ffn_cpu_planes'', ''# FFN NGFW CPU plane split (mgmt/ctrl/data).'']
        @ map (conf_row planes) CONF_KEY) @ [CHR 0x0A]"

section \<open>A list reads back\<close>

definition cpu_char :: "char \<Rightarrow> bool" where
  "cpu_char c \<longleftrightarrow> is_digit c \<or> c = CHR ''-'' \<or> c = CHR '',''"

lemma cpu_char_plain: "cpu_char c \<Longrightarrow> \<not> ws c \<and> \<not> line_break c \<and> c \<noteq> CHR ''='' \<and> c \<noteq> CHR 0x22"
  by (auto simp: cpu_char_def is_digit_def ws_def line_break_def Let_def)

lemma dec_chars: "c \<in> set (dec n) \<Longrightarrow> is_digit c"
  using dec_digits [of n] by (simp add: list_all_iff)

lemma digit_plain: "is_digit c \<Longrightarrow> c \<noteq> CHR ''-'' \<and> c \<noteq> CHR '','' \<and> c \<noteq> CHR ''_'' \<and> c \<noteq> CHR ''+'' \<and> \<not> ws c"
  by (auto simp: is_digit_def ws_def Let_def)

lemma strip_none: "(\<And>c. c \<in> set s \<Longrightarrow> \<not> P c) \<Longrightarrow> strip_by P s = s"
proof -
  assume a: "\<And>c. c \<in> set s \<Longrightarrow> \<not> P c"
  have "dropWhile P t = t" if "\<And>c. c \<in> set t \<Longrightarrow> \<not> P c" for t using that by (cases t) auto
  from this [of s] this [of "rev s"] a show ?thesis by (simp add: strip_by_def)
qed

lemma strip_ends: "s \<noteq> [] \<Longrightarrow> \<not> P (hd s) \<Longrightarrow> \<not> P (last s) \<Longrightarrow> strip_by P s = s"
proof -
  assume a: "s \<noteq> []" "\<not> P (hd s)" "\<not> P (last s)"
  have "dropWhile P t = t" if "t \<noteq> []" "\<not> P (hd t)" for t using that by (cases t) auto
  from this [of s] this [of "rev s"] a show ?thesis by (simp add: strip_by_def hd_rev)
qed

lemma split_dec_one: "c \<notin> {x. is_digit x} \<Longrightarrow> split_on c (dec n) = [dec n]"
  by (rule split_on_none) (auto dest: dec_chars)

lemma py_nat_dec: "py_nat (dec n) = Some n"
proof -
  have 1: "strip_by ws (dec n) = dec n" by (rule strip_none) (auto dest: dec_chars digit_plain)
  obtain c cs where c: "dec n = c # cs" using dec_digits [of n] by (cases "dec n") auto
  then have "c \<noteq> CHR ''+''" using dec_chars [of c n] digit_plain by auto
  then have 2: "take 1 (dec n) \<noteq> ''+''" using c by simp
  have 3: "split_on CHR ''_'' (dec n) = [dec n]" by (rule split_dec_one) (simp add: is_digit_def)
  show ?thesis using 1 2 3 dec_digits [of n] by (simp add: py_nat_def Let_def parse_dec_dec)
qed

lemma show_run_chars: "c \<in> set (show_run r) \<Longrightarrow> is_digit c \<or> c = CHR ''-''"
  by (auto simp: show_run_def dest: dec_chars split: if_splits prod.splits)

lemma before_after_dec: "before CHR ''-'' (dec a @ CHR ''-'' # t) = dec a" "after CHR ''-'' (dec a @ CHR ''-'' # t) = t"
proof -
  have d: "\<And>c. c \<in> set (dec a) \<Longrightarrow> c \<noteq> CHR ''-''" by (blast dest: dec_chars digit_plain)
  show "before CHR ''-'' (dec a @ CHR ''-'' # t) = dec a" using d by (simp add: before_def takeWhile_append2)
  show "after CHR ''-'' (dec a @ CHR ''-'' # t) = t" using d by (simp add: after_def dropWhile_append2)
qed

lemma strip_run: "strip_by ws (show_run r) = show_run r"
  by (rule strip_none) (auto dest!: show_run_chars dest: digit_plain simp: ws_def)

lemma expand_run: "a \<le> b \<Longrightarrow> expand_part (show_run (a, b)) = [a..<Suc b]"
proof (cases "a = b")
  case True
  have "CHR ''-'' \<notin> set (dec a)" by (blast dest: dec_chars digit_plain)
  then show ?thesis using True strip_run [of "(a, b)"] dec_digits [of a] by (simp add: expand_part_def Let_def show_run_def py_nat_dec)
next
  case False
  then show ?thesis using strip_run [of "(a, b)"] by (simp add: expand_part_def Let_def show_run_def before_after_dec py_nat_dec)
qed

lemma isol_expand_run: "a \<le> b \<Longrightarrow> isol_expand_part (show_run (a, b)) = [a..<Suc b]"
proof -
  assume ab: "a \<le> b"
  have d: "CHR ''-'' \<notin> set (dec n)" for n by (blast dest: dec_chars digit_plain)
  have "split_on CHR ''-'' (join_with ''-'' [dec a, dec b]) = [dec a, dec b]" by (rule split_join) (simp_all add: d)
  then have "split_on CHR ''-'' (dec a @ CHR ''-'' # dec b) = [dec a, dec b]" by (simp add: join_Cons)
  then show ?thesis using ab strip_run [of "(a, b)"] split_on_none [OF d] by (auto simp: isol_expand_part_def show_run_def parse_dec_dec)
qed

lemma runs_concat: "s \<le> p \<Longrightarrow> concat (map (\<lambda>(a, b). [a..<Suc b]) (runs s p cs)) = [s..<Suc p] @ cs"
  by (induction s p cs rule: runs.induct) auto

lemma runs_ordered: "s \<le> p \<Longrightarrow> (a, b) \<in> set (runs s p cs) \<Longrightarrow> a \<le> b"
  by (induction s p cs rule: runs.induct) (auto split: if_splits)

lemma runs_nonempty: "runs s p cs \<noteq> []"
  by (induction s p cs rule: runs.induct) auto

lemma read_runs:
  assumes "\<And>a b. a \<le> b \<Longrightarrow> f (show_run (a, b)) = [a..<Suc b]" and "f [] = []"
  shows "sort (remdups (concat (map f (split_on CHR '','' (format_cpu_list cores))))) = sort (remdups cores)"
proof (cases "sort (remdups cores)")
  case Nil
  then show ?thesis using assms(2) by (simp add: format_cpu_list_def)
next
  case (Cons c cs)
  let ?rs = "runs c c cs"
  have "split_on CHR '','' (join_with '','' (map show_run ?rs)) = map show_run ?rs"
    using runs_nonempty by (intro split_join) (auto dest!: show_run_chars dest: digit_plain)
  moreover have "map f (map show_run ?rs) = map (\<lambda>(a, b). [a..<Suc b]) ?rs"
    using assms(1) runs_ordered [of c c _ _ cs] by auto
  moreover have "format_cpu_list cores = join_with '','' (map show_run ?rs)" using Cons by (simp add: format_cpu_list_def)
  ultimately have "concat (map f (split_on CHR '','' (format_cpu_list cores))) = sort (remdups cores)"
    using Cons runs_concat [of c c cs] by (simp del: map_map)
  then show ?thesis by (simp add: distinct_remdups_id sorted_sort_id)
qed

lemma expand_format: "expand_cpu_list (format_cpu_list cores) = sort (remdups cores)"
  unfolding expand_cpu_list_def by (rule read_runs [OF expand_run]) (simp_all add: expand_part_def strip_by_def)

lemma isol_expand_format: "isol_expand_cpu_list (format_cpu_list cores) = sort (remdups cores)"
  unfolding isol_expand_cpu_list_def by (rule read_runs [OF isol_expand_run]) (simp_all add: isol_expand_part_def strip_by_def parse_dec_def)

lemma isol_runs_eq: "isol_runs out s p cs = out @ map show_run (runs s p cs)"
  by (induction s p cs arbitrary: out rule: runs.induct) auto

lemma isol_format_eq: "isol_format_cpu_list cores = format_cpu_list cores"
  by (auto simp: isol_format_cpu_list_def format_cpu_list_def isol_runs_eq split: list.splits)

lemma join_chars: "c \<in> set (join_with sep ps) \<Longrightarrow> c \<in> set sep \<or> (\<exists>p \<in> set ps. c \<in> set p)"
  by (induction sep ps rule: join_with.induct) auto

lemma format_chars: "c \<in> set (format_cpu_list cores) \<Longrightarrow> cpu_char c"
  by (auto simp: format_cpu_list_def cpu_char_def split: list.splits dest!: join_chars show_run_chars)

section \<open>The plane file reads back\<close>

lemma lines_one: "(\<And>c. c \<in> set l \<Longrightarrow> \<not> line_break c) \<Longrightarrow> lines_from cur (l @ CHR 0x0A # s) = (rev cur @ l) # lines_from [] s"
proof (induction l arbitrary: cur)
  case Nil
  then show ?case by (simp add: line_break_def)
next
  case (Cons c l)
  have "lines_from cur ((c # l) @ CHR 0x0A # s) = lines_from (c # cur) (l @ CHR 0x0A # s)" using Cons.prems [of c] by simp
  then show ?case using Cons.IH [of "c # cur"] Cons.prems by simp
qed

lemma lines_join:
  "ls \<noteq> [] \<Longrightarrow> (\<And>l c. l \<in> set ls \<Longrightarrow> c \<in> set l \<Longrightarrow> \<not> line_break c) \<Longrightarrow> lines_from [] (join_with [CHR 0x0A] ls @ [CHR 0x0A]) = ls"
proof (induction ls)
  case (Cons l ls)
  show ?case
  proof (cases "ls = []")
    case True
    then show ?thesis using lines_one [of l "[]" "[]"] Cons.prems(2) [of l] by simp
  next
    case False
    have "lines_from [] (join_with [CHR 0x0A] ls @ [CHR 0x0A]) = ls" by (rule Cons.IH [OF False]) (use Cons.prems(2) in auto)
    then show ?thesis using False lines_one [of l "[]" "join_with [CHR 0x0A] ls @ [CHR 0x0A]"] Cons.prems(2) [of l] by (simp add: join_Cons)
  qed
qed simp

lemma key_chars: "pk \<in> set CONF_KEY \<Longrightarrow> c \<in> set (snd pk) \<Longrightarrow> \<not> ws c \<and> \<not> line_break c \<and> c \<noteq> CHR ''=''"
  by (auto simp: CONF_KEY_def ws_def line_break_def)

lemma conf_line_row:
  assumes "pk \<in> set CONF_KEY"
  shows "conf_line (conf_row planes pk) d = dict_set (fst pk) (sort (remdups (planes (fst pk)))) d"
proof -
  let ?f = "format_cpu_list (planes (fst pk))"
  have key: "snd pk \<noteq> []" "hd (snd pk) = CHR ''F''" "plane_of_key (snd pk) = Some (fst pk)"
    using assms by (auto simp: CONF_KEY_def plane_of_key_def PLANE_MGMT_def PLANE_CTRL_def PLANE_DATA_def)
  have s: "strip_by ws (conf_row planes pk) = conf_row planes pk" 
    using key by (intro strip_ends) (auto simp: conf_row_def ws_def hd_append)
  have t: "take 1 (conf_row planes pk) = ''F''" using key by (cases "snd pk") (auto simp: conf_row_def)
  have b: "before CHR ''='' (conf_row planes pk) = snd pk"
    using key_chars [OF assms] by (simp add: before_def conf_row_def takeWhile_append2)
  have a: "after CHR ''='' (conf_row planes pk) = [CHR 0x22] @ ?f @ [CHR 0x22]"
    using key_chars [OF assms] by (simp add: after_def conf_row_def dropWhile_append2)
  have k: "strip_by ws (snd pk) = snd pk" using key_chars [OF assms] by (intro strip_none) auto
  have q: "strip_by ws ([CHR 0x22] @ ?f @ [CHR 0x22]) = [CHR 0x22] @ ?f @ [CHR 0x22]" by (rule strip_ends) (auto simp: ws_def)
  have u: "strip_by (\<lambda>c. c = CHR 0x22) ([CHR 0x22] @ ?f @ [CHR 0x22]) = ?f"
  proof -
    have "dropWhile (\<lambda>c. c = CHR 0x22) (?f @ [CHR 0x22]) = (if ?f = [] then [] else ?f @ [CHR 0x22])"
      using format_chars [of "hd ?f" "planes (fst pk)"] cpu_char_plain by (cases ?f) auto
    moreover have "dropWhile (\<lambda>c. c = CHR 0x22) (rev ?f) = rev ?f"
      using format_chars [of "hd (rev ?f)" "planes (fst pk)"] cpu_char_plain by (cases "rev ?f") auto
    ultimately show ?thesis by (simp add: strip_by_def)
  qed
  have "CHR ''='' \<in> set (conf_row planes pk)" "conf_row planes pk \<noteq> []" by (simp_all add: conf_row_def)
  then show ?thesis using s t b a k q u key expand_format by (simp add: conf_line_def Let_def)
qed

text \<open>
  The plane file reads back: parsing the text that \<^verbatim>\<open>render_conf\<close> writes gives, for each of the
  three planes in their order, its CPU numbers sorted and without repetition, whatever lists the
  planes hold (the empty one included); and the list text agrees with the one that
  \<^verbatim>\<open>ffn_cpuisol.py\<close> writes and reads.
\<close>

theorem plane_conf_roundtrip:
  "parse_conf (render_conf planes) = map (\<lambda>p. (p, sort (remdups (planes p)))) PLANES
   \<and> expand_cpu_list (isol_format_cpu_list cores) = sort (remdups cores)
   \<and> isol_expand_cpu_list (format_cpu_list cores) = sort (remdups cores)"
proof (intro conjI)
  let ?h = "[''# /etc/ffn-ngfw/cpu-planes.conf -- generated by ffn_cpu_planes'', ''# FFN NGFW CPU plane split (mgmt/ctrl/data).'']"
  have r: "\<not> line_break c" if "pk \<in> set CONF_KEY" "c \<in> set (conf_row planes pk)" for pk c
    using that key_chars [of pk c] format_chars cpu_char_plain by (auto simp: conf_row_def line_break_def)
  have h: "\<not> line_break c" if "l \<in> set ?h" "c \<in> set l" for l c
    using that by (auto simp: line_break_def)
  have "lines_from [] (render_conf planes) = ?h @ map (conf_row planes) CONF_KEY"
    unfolding render_conf_def
  proof (rule lines_join)
    show "\<not> line_break c" if "l \<in> set (?h @ map (conf_row planes) CONF_KEY)" "c \<in> set l" for l c
      using that r h unfolding set_append set_map by blast
  qed simp
  then have "parse_conf (render_conf planes) = fold conf_line (map (conf_row planes) CONF_KEY) (fold conf_line ?h [])"
    by (simp add: parse_conf_def)
  also have "fold conf_line ?h [] = []" by code_simp
  also have "fold conf_line (map (conf_row planes) CONF_KEY) [] = map (\<lambda>p. (p, sort (remdups (planes p)))) PLANES"
    by (simp add: CONF_KEY_def conf_line_row PLANES_def PLANE_MGMT_def PLANE_CTRL_def PLANE_DATA_def)
  finally show "parse_conf (render_conf planes) = map (\<lambda>p. (p, sort (remdups (planes p)))) PLANES" .
qed (simp_all add: isol_format_eq expand_format isol_expand_format)

end
