(* ===== verification/Cpu_Planes.thy ===== *)
theory Cpu_Planes
  imports Cpu_Lists
begin

text \<open>
  CPU planes: the grouping of logical CPUs into physical cores by union-find
  (\<^verbatim>\<open>physical_cores\<close> of \<^verbatim>\<open>src/opt/ffn_cpuisol.py\<close>), and the plans and plane object of
  \<^verbatim>\<open>src/opt/ffn_cpu_planes.py\<close>. The order in which Python iterates a set of CPU numbers is the
  parameter \<^verbatim>\<open>order\<close>. The dictionary \<^verbatim>\<open>parent\<close> is a function, the identity at first: it is only
  read at available CPUs. A fraction of cores, a float in the code, is the parameter that rounds it.
\<close>

section \<open>Physical cores\<close>

type_synonym parents = "nat \<Rightarrow> nat"

text \<open>\<^verbatim>\<open>owner\<close>, with path halving; \<^const>\<open>None\<close> would be a loop that does not end.\<close>

partial_function (option) owner :: "parents \<Rightarrow> nat \<Rightarrow> (parents \<times> nat) option" where
  "owner parent c =
     (if parent c = c then Some (parent, c)
      else (let p = parent(c := parent (parent c)) in owner p (p c)))"

declare owner.simps [code]

definition link_siblings :: "nat \<times> nat \<Rightarrow> parents \<Rightarrow> parents option" where
  "link_siblings e parent =
     (case e of (c, sibling) \<Rightarrow>
        Option.bind (owner parent c) (\<lambda>(p1, r). Option.bind (owner p1 sibling) (\<lambda>(p2, q). Some (p2(q := r)))))"

fun link_all :: "(nat \<times> nat) list \<Rightarrow> parents \<Rightarrow> parents option" where
  "link_all [] parent = Some parent"
| "link_all (e # es) parent = Option.bind (link_siblings e parent) (link_all es)"

definition sibling_pairs :: "(nat list \<Rightarrow> nat list) \<Rightarrow> (nat \<rightharpoonup> nat list) \<Rightarrow> nat list \<Rightarrow> (nat \<times> nat) list" where
  "sibling_pairs order sibs available =
     concat (map (\<lambda>c. map (Pair c) (order (filter (\<lambda>s. s \<in> set available) (remdups (case sibs c of Some ss \<Rightarrow> ss | None \<Rightarrow> [])))))
       (sort (remdups available)))"

definition append_to :: "nat \<Rightarrow> nat \<Rightarrow> (nat, nat list) odict \<Rightarrow> (nat, nat list) odict" where
  "append_to r c d = dict_set r ((case map_of d r of Some g \<Rightarrow> g | None \<Rightarrow> []) @ [c]) d"

fun group_all :: "nat list \<Rightarrow> parents \<Rightarrow> (nat, nat list) odict \<Rightarrow> (nat, nat list) odict option" where
  "group_all [] parent grouped = Some grouped"
| "group_all (c # cs) parent grouped = Option.bind (owner parent c) (\<lambda>(p, r). group_all cs p (append_to r c grouped))"

definition physical_cores :: "(nat list \<Rightarrow> nat list) \<Rightarrow> (nat \<rightharpoonup> nat list) \<Rightarrow> nat list \<Rightarrow> nat list list option" where
  "physical_cores order sibs available =
     Option.bind (link_all (sibling_pairs order sibs available) id) (\<lambda>parent.
     Option.bind (group_all (sort (remdups available)) parent []) (\<lambda>grouped.
       Some (sort_key hd (map snd grouped))))"

section \<open>Plans\<close>

text \<open>The cores to isolate: whole physical cores from the top, never that of CPU 0.\<close>

definition pick_dpdk_cores ::
  "(nat list \<Rightarrow> nat list) \<Rightarrow> (nat \<Rightarrow> nat option) \<Rightarrow> (nat \<Rightarrow> int) \<Rightarrow> (nat \<rightharpoonup> nat list) \<Rightarrow> nat option \<Rightarrow> nat list \<Rightarrow> (nat list \<times> string list) option" where
  "pick_dpdk_cores order numa_of_cpu rounded sibs prefer_node available =
     Option.bind (physical_cores order sibs available) (\<lambda>all.
       let groups = filter (\<lambda>g. 0 \<notin> set g) all in
       if groups = [] then Some ([], [''only one physical core is present; isolating nothing.''])
       else
         (let on_node = (case prefer_node of None \<Rightarrow> [] | Some n \<Rightarrow> filter (\<lambda>g. numa_of_cpu (hd g) = Some n) groups);
              chosen_from = (if 2 \<le> length on_node then on_node else groups);
              warn_node = (case prefer_node of
                  None \<Rightarrow> []
                | Some n \<Rightarrow> if length on_node = 1
                    then [''NIC is on NUMA node '' @ dec n @ '' but only '' @ dec (length on_node) @ '' usable physical core(s) there; ignoring the NUMA preference rather than isolating a single core.'']
                    else []);
              n_groups = min (nat (max 1 (rounded (length chosen_from)))) (length chosen_from);
              chosen_groups = drop (length chosen_from - n_groups) chosen_from;
              chosen = sort (concat chosen_groups)
          in Some (chosen, warn_node @ (if list_ex (\<lambda>g. 1 < length g) chosen_groups
               then [''isolated '' @ dec (length chosen_groups) @ '' whole physical core(s) ('' @ dec (length chosen) @ '' logical CPUs); SMT siblings move together because an isolated thread sharing a core with a schedulable one is still preempted.'']
               else []))))"

definition balanced_plan :: "(nat list \<Rightarrow> nat list) \<Rightarrow> (nat \<rightharpoonup> nat list) \<Rightarrow> nat list \<Rightarrow> (string, nat list) odict option" where
  "balanced_plan order siblings cpu_ids =
     (let ids = sort (remdups cpu_ids) in
      Option.bind (physical_cores order siblings ids) (\<lambda>groups.
        if length groups < 4 then Some (map (\<lambda>p. (p, ids)) PLANES)
        else
          (let reserve = max 1 (length groups div 8) in
           Some [(PLANE_MGMT, sort (concat (take reserve groups))), (PLANE_CTRL, sort (concat (take (2 * reserve - reserve) (drop reserve groups)))),
                 (PLANE_DATA, sort (concat (drop (2 * reserve) groups)))])))"

text \<open>The topology rows of the inventory, or else what sysfs reports.\<close>

definition inventory_plan :: "(nat list \<Rightarrow> nat list) \<Rightarrow> (nat \<rightharpoonup> nat list) \<Rightarrow> nat list \<Rightarrow> (nat \<times> nat list) list option \<Rightarrow> (string, nat list) odict option" where
  "inventory_plan order smt_siblings ids topology =
     balanced_plan order
       (case topology of
          None \<Rightarrow> smt_siblings
        | Some rows \<Rightarrow> map_of (rev (map (\<lambda>(cpu, sibs). (cpu, if sibs = [] then [cpu] else sibs)) rows))) ids"

definition auto_plan :: "(nat list \<Rightarrow> nat list) \<Rightarrow> nat \<Rightarrow> (int \<Rightarrow> int) option \<Rightarrow> int \<Rightarrow> int \<Rightarrow> (string, nat list) odict option" where
  "auto_plan order ncpu data_frac mgmt0 ctrl0 =
     (let cores = [0..<ncpu] in
      case data_frac of
        None \<Rightarrow> balanced_plan order Map.empty cores
      | Some rounded \<Rightarrow>
          if ncpu \<le> 2 then Some (map (\<lambda>p. (p, cores)) PLANES)
          else
            (let mgmt = max 1 mgmt0; ctrl = max 1 ctrl0; rest = int ncpu - mgmt - ctrl;
                 n_data = min (max 1 (rounded rest)) rest; cut = nat (int ncpu - n_data);
                 front = take cut cores;
                 ctrl1 = take (nat ctrl) (drop (nat mgmt) front);
                 ctrl_cores = (if ctrl1 = [] then take 1 front else ctrl1);
                 leftover = drop (nat (mgmt + ctrl)) front
             in Some [(PLANE_MGMT, take (nat mgmt) front), (PLANE_CTRL, sort (remdups (ctrl_cores @ leftover))), (PLANE_DATA, drop cut cores)]))"

section \<open>The plane object\<close>

record cpu_planes =
  planes :: "(string, nat list) odict"
  isolated :: "nat list"
  nohz_full :: "nat list"
  isolation_none :: bool

definition get_cores :: "(string, nat list) odict \<Rightarrow> string \<Rightarrow> nat list" where
  "get_cores d p = (case map_of d p of Some cs \<Rightarrow> cs | None \<Rightarrow> [])"

definition new_cpu_planes :: "(string, nat list) odict \<Rightarrow> nat list \<Rightarrow> nat list \<Rightarrow> bool \<Rightarrow> cpu_planes" where
  "new_cpu_planes d isol nohz none =
     \<lparr>planes = map (\<lambda>p. (p, sort (remdups (get_cores d p)))) PLANES, isolated = sort (remdups isol), nohz_full = sort (remdups nohz), isolation_none = none\<rparr>"

definition plane_cores :: "cpu_planes \<Rightarrow> string \<Rightarrow> nat list" where
  "plane_cores cp p = get_cores (planes cp) p"

definition data_cores :: "cpu_planes \<Rightarrow> nat list" where
  "data_cores cp = plane_cores cp PLANE_DATA"

definition plane_of :: "cpu_planes \<Rightarrow> nat \<Rightarrow> string option" where
  "plane_of cp core = List.find (\<lambda>p. core \<in> set (plane_cores cp p)) PLANES"

definition assign_data_cores :: "nat \<Rightarrow> cpu_planes \<Rightarrow> nat \<Rightarrow> nat list" where
  "assign_data_cores cpu_count cp n =
     (if isolation_none cp then []
      else (let dc = (if data_cores cp = [] then [0..<cpu_count] else data_cores cp) in map (\<lambda>i. dc ! (i mod length dc)) [0..<n]))"

definition grub_isolcpus :: "cpu_planes \<Rightarrow> string" where
  "grub_isolcpus cp =
     (let cl = format_cpu_list (data_cores cp) in
      if cl = [] \<or> set (data_cores cp) \<inter> (set (plane_cores cp PLANE_MGMT) \<union> set (plane_cores cp PLANE_CTRL)) \<noteq> {} then []
      else ''isolcpus=managed_irq,domain,'' @ cl @ '' nohz_full='' @ cl @ '' rcu_nocbs='' @ cl)"

definition eal_cores :: "cpu_planes \<Rightarrow> nat list option \<Rightarrow> nat list" where
  "eal_cores cp cores = (if isolation_none cp then [] else sort (remdups (case cores of Some cs \<Rightarrow> cs | None \<Rightarrow> data_cores cp)))"

definition eal_lcores_map :: "cpu_planes \<Rightarrow> nat list option \<Rightarrow> string" where
  "eal_lcores_map cp cores = join_with '','' (map (\<lambda>(i, c). dec i @ ''@'' @ dec c) (enumerate 0 (eal_cores cp cores)))"

text \<open>Each core's worker: its index is its lcore and its queue pair on every port.\<close>

definition dpdk_worker_map :: "cpu_planes \<Rightarrow> int \<Rightarrow> nat list option \<Rightarrow> (nat \<times> nat \<times> (nat \<times> nat \<times> nat) list) list res" where
  "dpdk_worker_map cp nb_ports cores =
     ok (0 \<le> nb_ports) (ValueError ''nb_ports must be >= 0'')
       (Inr (map (\<lambda>(i, core). (core, i, map (\<lambda>p. (p, i, i)) [0..<nat nb_ports])) (enumerate 0 (eal_cores cp cores))))"

section \<open>Roots of a parent forest\<close>

text \<open>Parents go down in some ranking, so chains of parents end in a root.\<close>

definition forest :: "parents \<Rightarrow> bool" where
  "forest p \<longleftrightarrow> (\<exists>rank :: nat \<Rightarrow> nat. \<forall>c. p c \<noteq> c \<longrightarrow> rank (p c) < rank c)"

inductive root :: "parents \<Rightarrow> nat \<Rightarrow> nat \<Rightarrow> bool" for p where
  here: "p r = r \<Longrightarrow> root p r r"
| up: "p c \<noteq> c \<Longrightarrow> root p (p c) r \<Longrightarrow> root p c r"

inductive_cases rootE: "root p c r"

lemma root_fix: "root p c r \<Longrightarrow> p r = r"
  by (induction rule: root.induct) auto

lemma root_unique: "root p c r \<Longrightarrow> root p c s \<Longrightarrow> r = s"
proof (induction arbitrary: s rule: root.induct)
  case (here r)
  from here.prems show ?case by (rule rootE) (use here.hyps in auto)
next
  case (up c r)
  have "root p (p c) s" by (rule rootE [OF up.prems]) (use up.hyps(1) in simp_all)
  then show ?case by (rule up.IH)
qed

lemma root_exists: "forest p \<Longrightarrow> \<exists>r. root p c r"
proof -
  assume "forest p"
  then obtain rank :: "nat \<Rightarrow> nat" where k: "\<And>c. p c \<noteq> c \<Longrightarrow> rank (p c) < rank c" by (auto simp: forest_def)
  show ?thesis
  proof (induction "rank c" arbitrary: c rule: less_induct)
    case less
    show ?case
    proof (cases "p c = c")
      case True
      then show ?thesis using root.here by blast
    next
      case False
      then obtain r where "root p (p c) r" using less [of "p c"] k by blast
      then show ?thesis using root.up [of p c r] False by blast
    qed
  qed
qed

definition rt :: "parents \<Rightarrow> nat \<Rightarrow> nat" where
  "rt p c = (THE r. root p c r)"

lemma rt_eq: "root p c r \<Longrightarrow> rt p c = r"
  unfolding rt_def by (rule the_equality) (auto intro: root_unique)

lemma root_rt: "forest p \<Longrightarrow> root p c (rt p c)"
  using root_exists rt_eq by metis

lemma root_parent: "root p (p c) r \<Longrightarrow> root p c r"
  using root.up [of p c r] by (cases "p c = c") auto

lemma parent_root: "root p c r \<Longrightarrow> root p (p c) r"
  by (erule rootE) (auto intro: root.here)

lemma rt_parent: "forest p \<Longrightarrow> rt p (p c) = rt p c"
  using root_rt [of p c] parent_root rt_eq by blast

text \<open>A parent map that keeps the roots of another one is a forest with the same roots.\<close>

lemma halve_root:
  assumes "forest p" "p c \<noteq> c"
  shows "forest (p(c := p (p c)))" "rt (p(c := p (p c))) = rt p"
proof -
  let ?q = "p(c := p (p c))"
  obtain rank :: "nat \<Rightarrow> nat" where k: "\<And>c. p c \<noteq> c \<Longrightarrow> rank (p c) < rank c" using assms(1) by (auto simp: forest_def)
  have "rank (?q x) < rank x" if "?q x \<noteq> x" for x
  proof (cases "x = c")
    case True
    have "rank (p (p c)) \<le> rank (p c)" using k [of "p c"] by (cases "p (p c) = p c") auto
    then show ?thesis using True k [of c] assms(2) by simp
  qed (use that k [of x] in auto)
  then show f: "forest ?q" unfolding forest_def by blast
  have no: "p (p c) \<noteq> c" 
  proof
    assume "p (p c) = c"
    then have "rank c < rank (p c)" using k [of "p c"] assms(2) by (metis)
    then show False using k [of c] assms(2) by simp
  qed
  have "root ?q x r \<Longrightarrow> root p x r" for x r
  proof (induction rule: root.induct)
    case (here r)
    then have "p r = r" using no assms(2) by (auto split: if_splits)
    then show ?case by (rule root.here)
  next
    case (up x r)
    show ?case
    proof (cases "x = c")
      case True
      then have "root p (p (p c)) r" using up.IH by simp
      then show ?thesis using True root_parent by blast
    qed (use up.IH root_parent [of p x r] in simp)
  qed
  then show "rt ?q = rt p" using root_rt [OF f] rt_eq by (metis ext)
qed

lemma owner_correct:
  assumes "forest p"
  shows "\<exists>q. owner p c = Some (q, rt p c) \<and> forest q \<and> rt q = rt p \<and> q (rt p c) = rt p c"
proof -
  obtain rank :: "nat \<Rightarrow> nat" where "\<forall>c. p c \<noteq> c \<longrightarrow> rank (p c) < rank c" using assms by (auto simp: forest_def)
  then show ?thesis
  proof (induction "rank c" arbitrary: c p rule: less_induct)
    case less
    have f: "forest p" using less.prems unfolding forest_def by blast
    show ?case
    proof (cases "p c = c")
      case True
      then have "rt p c = c" using root.here rt_eq by blast
      then show ?thesis using True f by (subst owner.simps) simp
    next
      case False
      let ?q = "p(c := p (p c))"
      have le: "rank (p (p c)) \<le> rank (p c)" using less.prems by (cases "p (p c) = p c") (auto intro: less_imp_le)
      have lt: "rank (p c) < rank c" using less.prems False by blast
      have d: "\<forall>x. ?q x \<noteq> x \<longrightarrow> rank (?q x) < rank x" using less.prems le lt by auto
      have "rank (?q c) < rank c" using le lt by simp
      from less.hyps [OF this d] obtain q where q: "owner ?q (?q c) = Some (q, rt ?q (?q c))" "forest q" "rt q = rt ?q"
        "q (rt ?q (?q c)) = rt ?q (?q c)" by blast
      have e: "rt ?q (?q c) = rt p c" using halve_root [OF f False] rt_parent by metis
      have "owner p c = owner ?q (?q c)" using False by (subst owner.simps) (simp add: Let_def)
      then show ?thesis using q e halve_root(2) [OF f False] by auto
    qed
  qed
qed

section \<open>Linking\<close>

lemma union_root:
  assumes "forest p" "p a = a" "p b = b"
  shows "forest (p(a := b))" "rt (p(a := b)) x = (if rt p x = a then b else rt p x)"
proof -
  let ?q = "p(a := b)"
  obtain rank :: "nat \<Rightarrow> nat" where k: "\<And>c. p c \<noteq> c \<Longrightarrow> rank (p c) < rank c" using assms(1) by (auto simp: forest_def)
  have rb: "rt p b = b" "rt p a = a" using assms(2,3) root.here rt_eq by blast+
  define rank' where "rank' = (\<lambda>x. if rt p x = a then rank x + rank b + 1 else rank x)"
  have "rank' (?q x) < rank' x" if "?q x \<noteq> x" for x
  proof (cases "x = a")
    case True
    then show ?thesis using that rb by (simp add: rank'_def)
  next
    case False
    then show ?thesis using that k [of x] rt_parent [OF assms(1), of x] by (simp add: rank'_def)
  qed
  then show f: "forest ?q" unfolding forest_def by blast
  have r: "root p x r \<Longrightarrow> root ?q x (if r = a then b else r)" for x r
  proof (induction rule: root.induct)
    case (here r)
    have qb: "root ?q b b" using assms(3) by (intro root.here) simp
    show ?case
    proof (cases "r = a")
      case True
      have "root ?q a b" by (rule root_parent) (use qb in simp)
      then show ?thesis unfolding True if_P [OF refl] .
    next
      case False
      then have "root ?q r r" using here by (intro root.here) simp
      then show ?thesis unfolding if_not_P [OF False] .
    qed
  next
    case (up x r)
    then have e: "?q x = p x" using assms(2) by auto
    have "root ?q (?q x) (if r = a then b else r)" unfolding e by (rule up.IH)
    then show ?case by (rule root_parent)
  qed
  then show "rt ?q x = (if rt p x = a then b else rt p x)" using root_rt [OF assms(1), of x] rt_eq by blast
qed

lemma link_correct:
  assumes "forest p"
  shows "\<exists>q. link_siblings (c, s) p = Some q \<and> forest q \<and> (\<forall>x. rt q x = (if rt p x = rt p s then rt p c else rt p x))"
proof -
  obtain p1 where p1: "owner p c = Some (p1, rt p c)" "forest p1" "rt p1 = rt p" "p1 (rt p c) = rt p c" using owner_correct [OF assms] by blast
  obtain p2 where p2: "owner p1 s = Some (p2, rt p s)" "forest p2" "rt p2 = rt p" "p2 (rt p s) = rt p s"
    using owner_correct [OF p1(2), of s] p1(3) by auto
  have "rt p (rt p c) = rt p c" using p1(3,4) root.here rt_eq by metis
  then have "p2 (rt p c) = rt p c" using root_rt [OF p2(2), of "rt p c"] root_fix p2(3) by metis
  then show ?thesis using p1(1) p2 union_root [OF p2(2) p2(4)] by (simp add: link_siblings_def)
qed

definition same_root :: "parents \<Rightarrow> (nat \<times> nat) set" where
  "same_root p = {(x, y). rt p x = rt p y}"

lemma link_same_root:
  assumes "\<forall>x. rt q x = (if rt p x = rt p s then rt p c else rt p x)"
  shows "same_root p \<union> {(c, s), (s, c)} \<subseteq> same_root q" "same_root q \<subseteq> (same_root p \<union> {(c, s), (s, c)})\<^sup>*"
proof -
  show "same_root p \<union> {(c, s), (s, c)} \<subseteq> same_root q" using assms by (auto simp: same_root_def)
  let ?R = "same_root p \<union> {(c, s), (s, c)}"
  have p: "(x, y) \<in> ?R\<^sup>*" if "rt p x = rt p y" for x y using that by (auto simp: same_root_def)
  have e: "(c, s) \<in> ?R\<^sup>*" "(s, c) \<in> ?R\<^sup>*" by auto
  show "same_root q \<subseteq> ?R\<^sup>*"
  proof clarify
    fix x y assume "(x, y) \<in> same_root q"
    then have "(if rt p x = rt p s then rt p c else rt p x) = (if rt p y = rt p s then rt p c else rt p y)"
      using assms by (simp add: same_root_def)
    then consider "rt p x = rt p y" | "rt p x = rt p s" "rt p c = rt p y" | "rt p x = rt p c" "rt p s = rt p y"
      by (auto split: if_splits)
    then show "(x, y) \<in> ?R\<^sup>*"
    proof cases
      case 2
      then show ?thesis using p [of x s] e(2) p [of c y] by (meson rtrancl_trans)
    next
      case 3
      then show ?thesis using p [of x c] e(1) p [of s y] by (meson rtrancl_trans)
    qed (rule p)
  qed
qed

lemma same_root_star: "(same_root p)\<^sup>* = same_root p"
proof -
  have "(x, y) \<in> same_root p" if "(x, y) \<in> (same_root p)\<^sup>*" for x y
    using that by (induction rule: rtrancl_induct) (auto simp: same_root_def)
  then show ?thesis by auto
qed

lemma star_between: "A \<subseteq> B \<Longrightarrow> B \<subseteq> A\<^sup>* \<Longrightarrow> (B :: ('a \<times> 'a) set)\<^sup>* = A\<^sup>*"
  using rtrancl_mono [of A B] rtrancl_subset_rtrancl [of B A] by blast

lemma link_all_correct:
  "forest p \<Longrightarrow> \<exists>q. link_all es p = Some q \<and> forest q \<and> same_root q = (same_root p \<union> (set es \<union> (set es)\<inverse>))\<^sup>*"
proof (induction es arbitrary: p)
  case Nil
  then show ?case by (simp add: same_root_star)
next
  case (Cons e es)
  obtain c s where e: "e = (c, s)" by (cases e)
  obtain q1 where q1: "link_siblings e p = Some q1" "forest q1" "\<forall>x. rt q1 x = (if rt p x = rt p s then rt p c else rt p x)"
    using link_correct [OF Cons.prems] e by blast
  obtain q where q: "link_all es q1 = Some q" "forest q" "same_root q = (same_root q1 \<union> (set es \<union> (set es)\<inverse>))\<^sup>*"
    using Cons.IH [OF q1(2)] by blast
  let ?E = "set es \<union> (set es)\<inverse>" and ?A = "same_root p \<union> (set (e # es) \<union> (set (e # es))\<inverse>)"
  have A: "?A = (same_root p \<union> {(c, s), (s, c)}) \<union> ?E" using e by auto
  have "(same_root q1 \<union> ?E)\<^sup>* = ?A\<^sup>*"
  proof (rule star_between)
    show "?A \<subseteq> same_root q1 \<union> ?E" unfolding A using link_same_root(1) [OF q1(3)] by blast
    have "(same_root p \<union> {(c, s), (s, c)})\<^sup>* \<subseteq> ?A\<^sup>*" unfolding A by (rule rtrancl_mono) blast
    then have "same_root q1 \<subseteq> ?A\<^sup>*" using link_same_root(2) [OF q1(3)] by blast
    moreover have "?E \<subseteq> ?A\<^sup>*" unfolding A by auto
    ultimately show "same_root q1 \<union> ?E \<subseteq> ?A\<^sup>*" by (rule Un_least)
  qed
  then show ?case using q1(1) q by simp
qed

section \<open>Grouping\<close>

definition group_of :: "(nat, nat list) odict \<Rightarrow> nat \<Rightarrow> nat list" where
  "group_of d r = (case map_of d r of Some g \<Rightarrow> g | None \<Rightarrow> [])"

lemma append_to_group: "group_of (append_to r c d) x = group_of d x @ (if x = r then [c] else [])"
  by (simp add: group_of_def append_to_def)

definition grouping :: "(nat, nat list) odict \<Rightarrow> bool" where
  "grouping d \<longleftrightarrow> distinct (map fst d) \<and> (\<forall>(r, g) \<in> set d. g \<noteq> [])"

lemma in_dict_set: "(x, g) \<in> set (dict_set k v d) \<Longrightarrow> (x, g) \<in> set d \<or> (x, g) = (k, v)"
  by (induction k v d rule: dict_set.induct) (auto split: if_splits)

lemma append_to_grouping: "grouping d \<Longrightarrow> grouping (append_to r c d)"
  by (auto simp: grouping_def append_to_def distinct_dict_set dest!: in_dict_set)

lemma group_all_correct:
  "forest p \<Longrightarrow> grouping d \<Longrightarrow>
   \<exists>d'. group_all cs p d = Some d' \<and> grouping d' \<and> (\<forall>x. group_of d' x = group_of d x @ filter (\<lambda>c. rt p c = x) cs)"
proof (induction cs arbitrary: p d)
  case (Cons c cs)
  obtain q where q: "owner p c = Some (q, rt p c)" "forest q" "rt q = rt p" using owner_correct [OF Cons.prems(1)] by blast
  obtain d' where "group_all cs q (append_to (rt p c) c d) = Some d'" "grouping d'"
    "\<forall>x. group_of d' x = group_of (append_to (rt p c) c d) x @ filter (\<lambda>c. rt q c = x) cs"
    using Cons.IH [OF q(2) append_to_grouping [OF Cons.prems(2)]] by blast
  then show ?case using q by (auto simp: append_to_group)
qed simp

text \<open>CPUs that the topology joins directly.\<close>

definition siblings :: "(nat \<rightharpoonup> nat list) \<Rightarrow> nat list \<Rightarrow> (nat \<times> nat) set" where
  "siblings sibs ids =
     {(c, d). c \<in> set ids \<and> d \<in> set ids \<and> ((\<exists>ss. sibs c = Some ss \<and> d \<in> set ss) \<or> (\<exists>ss. sibs d = Some ss \<and> c \<in> set ss))}"

lemma sibling_pairs_set:
  assumes "\<And>xs. set (order xs) = set xs"
  shows "set (sibling_pairs order sibs ids) \<union> (set (sibling_pairs order sibs ids))\<inverse> = siblings sibs ids"
  by (auto simp: sibling_pairs_def siblings_def assms split: option.splits)

lemma group_values:
  assumes "grouping d" "\<And>x. group_of d x = filter (\<lambda>c. f c = x) cs"
  shows "distinct (map snd d)" "set (map snd d) = (\<lambda>r. filter (\<lambda>c. f c = r) cs) ` f ` set cs"
proof -
  have v: "g = filter (\<lambda>c. f c = r) cs \<and> g \<noteq> []" if "(r, g) \<in> set d" for r g
    using that assms(1) assms(2) [of r] by (auto simp: grouping_def group_of_def)
  have i: "r = s" if m: "(r, g) \<in> set d" "(s, g) \<in> set d" for r s g
  proof -
    have "g \<noteq> []" using v [OF m(1)] by blast
    then obtain c where c: "c \<in> set g" by (cases g) auto
    have "f c = r" using c v [OF m(1)] by auto
    moreover have "f c = s" using c v [OF m(2)] by auto
    ultimately show ?thesis by simp
  qed
  have "inj_on snd (set d)" using i by (auto simp: inj_on_def)
  moreover have "distinct d" using assms(1) by (simp add: grouping_def distinct_map)
  ultimately show "distinct (map snd d)" by (simp add: distinct_map)
  show "set (map snd d) = (\<lambda>r. filter (\<lambda>c. f c = r) cs) ` f ` set cs"
  proof
    show "set (map snd d) \<subseteq> (\<lambda>r. filter (\<lambda>c. f c = r) cs) ` f ` set cs"
    proof clarsimp
      fix r g assume m: "(r, g) \<in> set d"
      have "g \<noteq> []" using v [OF m] by blast
      then obtain c where "c \<in> set g" by (cases g) auto
      then have "c \<in> set cs" "f c = r" using v [OF m] by auto
      then show "g \<in> (\<lambda>r. filter (\<lambda>c. f c = r) cs) ` f ` set cs" using v [OF m] by blast
    qed
    show "(\<lambda>r. filter (\<lambda>c. f c = r) cs) ` f ` set cs \<subseteq> set (map snd d)"
    proof clarify
      fix c assume c: "c \<in> set cs"
      then have "group_of d (f c) \<noteq> []" using assms(2) [of "f c"] by (auto simp: filter_empty_conv)
      then obtain g where "map_of d (f c) = Some g" by (cases "map_of d (f c)") (auto simp: group_of_def)
      then have m: "(f c, g) \<in> set d" by (rule map_of_SomeD)
      then have "filter (\<lambda>b. f b = f c) cs = snd (f c, g)" using v by simp
      then show "filter (\<lambda>b. f b = f c) cs \<in> set (map snd d)" using m by force
    qed
  qed
qed

text \<open>The groups are the classes of a labelling that joins exactly what a chain of siblings joins.\<close>

lemma physical_cores_classes:
  assumes "\<And>xs. set (order xs) = set xs"
  shows "\<exists>gs (f :: nat \<Rightarrow> nat). physical_cores order sibs ids = Some gs \<and> distinct gs \<and> sorted (map hd gs)
     \<and> set gs = (\<lambda>r. filter (\<lambda>c. f c = r) (sort (remdups ids))) ` f ` set ids \<and> (\<forall>c d. f c = f d \<longleftrightarrow> (c, d) \<in> (siblings sibs ids)\<^sup>*)"
proof -
  have "forest id" by (simp add: forest_def)
  have rid: "rt id c = c" for c by (rule rt_eq) (simp add: root.here)
  obtain p where p: "link_all (sibling_pairs order sibs ids) id = Some p" "forest p" "same_root p = (same_root id \<union> siblings sibs ids)\<^sup>*"
    using link_all_correct [OF \<open>forest id\<close>] sibling_pairs_set [OF assms] by metis
  have "same_root id = Id" using rid by (auto simp: same_root_def)
  then have R: "same_root p = (siblings sibs ids)\<^sup>*" using p(3) rtrancl_reflcl [of "siblings sibs ids"] by (simp add: Un_commute)
  have g0: "grouping []" "group_of [] x = []" for x by (simp_all add: grouping_def group_of_def)
  obtain d where d: "group_all (sort (remdups ids)) p [] = Some d" "grouping d" "\<And>x. group_of d x = filter (\<lambda>c. rt p c = x) (sort (remdups ids))"
    using group_all_correct [OF p(2) g0(1), of "sort (remdups ids)"] g0(2) by auto
  let ?gs = "sort_key hd (map snd d)"
  have "physical_cores order sibs ids = Some ?gs" using p(1) d(1) by (simp add: physical_cores_def)
  moreover have "distinct ?gs" using group_values(1) [OF d(2,3)] by simp
  moreover have "set ?gs = (\<lambda>r. filter (\<lambda>c. rt p c = r) (sort (remdups ids))) ` rt p ` set ids" using group_values(2) [OF d(2,3)] by simp
  moreover have "\<forall>c d. rt p c = rt p d \<longleftrightarrow> (c, d) \<in> (siblings sibs ids)\<^sup>*" using R by (auto simp: same_root_def)
  moreover have "sorted (map hd ?gs)" by simp
  ultimately have "physical_cores order sibs ids = Some ?gs \<and> distinct ?gs \<and> sorted (map hd ?gs)
     \<and> set ?gs = (\<lambda>r. filter (\<lambda>c. rt p c = r) (sort (remdups ids))) ` rt p ` set ids \<and> (\<forall>c d. rt p c = rt p d \<longleftrightarrow> (c, d) \<in> (siblings sibs ids)\<^sup>*)"
    by (intro conjI)
  then have "\<exists>f :: nat \<Rightarrow> nat. physical_cores order sibs ids = Some ?gs \<and> distinct ?gs \<and> sorted (map hd ?gs)
     \<and> set ?gs = (\<lambda>r. filter (\<lambda>c. f c = r) (sort (remdups ids))) ` f ` set ids \<and> (\<forall>c d. f c = f d \<longleftrightarrow> (c, d) \<in> (siblings sibs ids)\<^sup>*)"
    by (rule exI [where x = "rt p"])
  then show ?thesis by (rule exI [where x = ?gs])
qed

section \<open>What a plan promises\<close>

text \<open>The groups partition the CPUs, and siblings are in the same one.\<close>

lemma physical_cores_partition:
  assumes "\<And>xs. set (order xs) = set xs"
  obtains gs where "physical_cores order sibs ids = Some gs" "distinct gs" "sorted (map hd gs)" "\<And>g. g \<in> set gs \<Longrightarrow> g \<noteq> [] \<and> sorted g"
    "\<Union> (set ` set gs) = set ids" "\<And>g h. g \<in> set gs \<Longrightarrow> h \<in> set gs \<Longrightarrow> g \<noteq> h \<Longrightarrow> set g \<inter> set h = {}"
    "\<And>g c d. g \<in> set gs \<Longrightarrow> c \<in> set g \<Longrightarrow> d \<in> set ids \<Longrightarrow> d \<in> set g \<longleftrightarrow> (c, d) \<in> (siblings sibs ids)\<^sup>*"
proof -
  obtain gs and f :: "nat \<Rightarrow> nat" where p: "physical_cores order sibs ids = Some gs" "distinct gs" "sorted (map hd gs)"
    "set gs = (\<lambda>r. filter (\<lambda>c. f c = r) (sort (remdups ids))) ` f ` set ids" "\<forall>c d. f c = f d \<longleftrightarrow> (c, d) \<in> (siblings sibs ids)\<^sup>*"
    using physical_cores_classes [OF assms, of sibs ids] by (elim exE conjE) (rule that)
  have g: "\<exists>r \<in> f ` set ids. g = filter (\<lambda>c. f c = r) (sort (remdups ids))" if "g \<in> set gs" for g using that unfolding p(4) by blast
  show ?thesis
  proof (rule that [OF p(1-3)])
    show "g \<noteq> [] \<and> sorted g" if m: "g \<in> set gs" for g 
    proof -
      obtain r where r: "r \<in> f ` set ids" "g = filter (\<lambda>c. f c = r) (sort (remdups ids))" using g [OF m] by blast
      then show ?thesis by (auto simp: filter_empty_conv sorted_wrt_filter)
    qed
    show "\<Union> (set ` set gs) = set ids" unfolding p(4) by auto
    show "set g \<inter> set h = {}" if m: "g \<in> set gs" "h \<in> set gs" "g \<noteq> h" for g h
    proof -
      obtain r s where "g = filter (\<lambda>c. f c = r) (sort (remdups ids))" "h = filter (\<lambda>c. f c = s) (sort (remdups ids))"
        using g [OF m(1)] g [OF m(2)] by blast
      then show ?thesis using m(3) by auto
    qed
    show "d \<in> set g \<longleftrightarrow> (c, d) \<in> (siblings sibs ids)\<^sup>*" if m: "g \<in> set gs" "c \<in> set g" "d \<in> set ids" for g c d
    proof -
      obtain r where "g = filter (\<lambda>c. f c = r) (sort (remdups ids))" using g [OF m(1)] by blast
      then have "d \<in> set g \<longleftrightarrow> f c = f d" using m(2,3) by auto
      then show ?thesis using p(5) by blast
    qed
  qed
qed

lemma sorted_hd_le: "sorted g \<Longrightarrow> x \<in> set g \<Longrightarrow> hd g \<le> (x :: 'a :: linorder)"
  by (cases g) auto

lemma first_group_min:
  assumes "gs \<noteq> []" "sorted (map hd gs)" "\<And>g. g \<in> set gs \<Longrightarrow> g \<noteq> [] \<and> sorted g" "\<Union> (set ` set gs) = set ids"
  shows "Min (set ids) \<in> set (hd gs)"
proof -
  have h: "hd (hd gs) \<in> set (hd gs)" "hd gs \<in> set gs" using assms(1,3) by simp_all
  have "hd (hd gs) \<le> x" if x: "x \<in> set ids" for x
  proof -
    obtain g where g: "g \<in> set gs" "x \<in> set g" using x assms(4) by blast
    have "hd (hd gs) \<le> hd g" using sorted_hd_le [OF assms(2), of "hd g"] g(1) assms(1) by (simp add: hd_map)
    also have "hd g \<le> x" using sorted_hd_le g assms(3) by blast
    finally show ?thesis .
  qed
  moreover have "hd (hd gs) \<in> set ids" using h assms(4) by blast
  ultimately have "Min (set ids) = hd (hd gs)" by (intro Min_eqI) auto
  then show ?thesis using h by simp
qed

text \<open>Parts of a list of disjoint groups are disjoint and keep chains of siblings together.\<close>

lemma parts_disjoint:
  assumes "distinct (as @ bs)" "\<And>g h. g \<in> set (as @ bs) \<Longrightarrow> h \<in> set (as @ bs) \<Longrightarrow> g \<noteq> h \<Longrightarrow> set g \<inter> set h = {}"
  shows "set (concat as) \<inter> set (concat bs) = {}"
proof -
  have "False" if x: "x \<in> set (concat as)" "x \<in> set (concat bs)" for x
  proof -
    obtain g h where g: "g \<in> set as" "x \<in> set g" "h \<in> set bs" "x \<in> set h" using x by auto
    then have "g \<noteq> h" using assms(1) by auto
    then show False using assms(2) [of g h] g by auto
  qed
  then show ?thesis by blast
qed

text \<open>No chain of siblings leaves a set of CPUs.\<close>

definition keeps_siblings :: "(nat \<rightharpoonup> nat list) \<Rightarrow> nat list \<Rightarrow> nat list \<Rightarrow> bool" where
  "keeps_siblings sibs ids part \<longleftrightarrow> (\<forall>c \<in> set part. \<forall>d \<in> set ids. (c, d) \<in> (siblings sibs ids)\<^sup>* \<longrightarrow> d \<in> set part)"

lemma part_keeps:
  assumes "\<And>g c d. g \<in> set gs \<Longrightarrow> c \<in> set g \<Longrightarrow> d \<in> set ids \<Longrightarrow> d \<in> set g \<longleftrightarrow> (c, d) \<in> (siblings sibs ids)\<^sup>*" "set hs \<subseteq> set gs"
  shows "keeps_siblings sibs ids (sort (concat hs))"
  unfolding keeps_siblings_def using assms by fastforce

text \<open>The physical cores of the CPUs: the classes of CPUs that chains of siblings join.\<close>

definition core_of :: "(nat \<rightharpoonup> nat list) \<Rightarrow> nat list \<Rightarrow> nat \<Rightarrow> nat set" where
  "core_of sibs ids c = {d \<in> set ids. (c, d) \<in> (siblings sibs ids)\<^sup>*}"

lemma cores_of_groups:
  assumes "distinct gs" "\<And>g. g \<in> set gs \<Longrightarrow> g \<noteq> []" "\<Union> (set ` set gs) = set ids"
    and "\<And>g h. g \<in> set gs \<Longrightarrow> h \<in> set gs \<Longrightarrow> g \<noteq> h \<Longrightarrow> set g \<inter> set h = {}"
    and "\<And>g c d. g \<in> set gs \<Longrightarrow> c \<in> set g \<Longrightarrow> d \<in> set ids \<Longrightarrow> d \<in> set g \<longleftrightarrow> (c, d) \<in> (siblings sibs ids)\<^sup>*"
    and "set hs \<subseteq> set gs" "distinct hs"
  shows "card (core_of sibs ids ` set (concat hs)) = length hs"
proof -
  have k: "core_of sibs ids c = set g" if "g \<in> set gs" "c \<in> set g" for g c
    using assms(3) assms(5) [OF that] that(1) by (auto simp: core_of_def)
  have "core_of sibs ids ` set (concat hs) = set ` set hs"
  proof
    show "core_of sibs ids ` set (concat hs) \<subseteq> set ` set hs" using k assms(6) by auto
    show "set ` set hs \<subseteq> core_of sibs ids ` set (concat hs)"
    proof
      fix x assume "x \<in> set ` set hs"
      then obtain g where g: "g \<in> set hs" "x = set g" by auto
      then obtain c where "c \<in> set g" using assms(2,6) by (metis last_in_set subsetD)
      then show "x \<in> core_of sibs ids ` set (concat hs)" using k [of g c] g assms(6) by (auto intro!: image_eqI [where x = c])
    qed
  qed
  moreover have "inj_on set (set hs)"
  proof (rule inj_onI)
    fix g h assume g: "g \<in> set hs" "h \<in> set hs" "set g = set h"
    then have "set g \<noteq> {}" using assms(2,6) by auto
    then show "g = h" using g assms(4) [of g h] assms(6) by auto
  qed
  ultimately show ?thesis by (simp add: card_image distinct_card assms(7))
qed

text \<open>
  (C29) A balanced plan covers exactly the online CPUs, whatever order sets iterate in. With fewer than
  four physical cores all three planes share them all. With four or more the planes are nonempty
  and pairwise disjoint, the management and the control plane have an eighth of the cores each, rounded
  down but at least one, the lowest CPU stays with the management plane, and no plane boundary
  separates CPUs that a chain of SMT siblings joins. The search for a group's owner always ends.
\<close>

theorem balanced_plan_partition:
  assumes "\<And>xs. set (order xs) = set xs"
  shows "\<exists>m c d. balanced_plan order sibs ids = Some [(PLANE_MGMT, m), (PLANE_CTRL, c), (PLANE_DATA, d)] \<and> set m \<union> set c \<union> set d = set ids
     \<and> (let cores = card (core_of sibs ids ` set ids) in
        if cores < 4 then m = sort (remdups ids) \<and> c = m \<and> d = m
        else card (core_of sibs ids ` set m) = max 1 (cores div 8) \<and> card (core_of sibs ids ` set c) = max 1 (cores div 8)
          \<and> m \<noteq> [] \<and> c \<noteq> [] \<and> d \<noteq> [] \<and> set m \<inter> set c = {} \<and> set m \<inter> set d = {} \<and> set c \<inter> set d = {} \<and> Min (set ids) \<in> set m
          \<and> keeps_siblings sibs ids m \<and> keeps_siblings sibs ids c \<and> keeps_siblings sibs ids d)"
proof -
  let ?ids = "sort (remdups ids)"
  have S: "siblings sibs ?ids = siblings sibs ids" by (simp add: siblings_def)
  obtain gs where g: "physical_cores order sibs ?ids = Some gs" "distinct gs" "sorted (map hd gs)" "\<And>g. g \<in> set gs \<Longrightarrow> g \<noteq> [] \<and> sorted g"
    "\<Union> (set ` set gs) = set ?ids" "\<And>g h. g \<in> set gs \<Longrightarrow> h \<in> set gs \<Longrightarrow> g \<noteq> h \<Longrightarrow> set g \<inter> set h = {}"
    "\<And>g c d. g \<in> set gs \<Longrightarrow> c \<in> set g \<Longrightarrow> d \<in> set ?ids \<Longrightarrow> d \<in> set g \<longleftrightarrow> (c, d) \<in> (siblings sibs ?ids)\<^sup>*"
    by (rule physical_cores_partition [where sibs = sibs and ids = ?ids, OF assms]) (rule that)
  have core: "card (core_of sibs ids ` set (concat hs)) = length hs" if "set hs \<subseteq> set gs" "distinct hs" for hs
    using cores_of_groups [OF g(2) _ g(5-7) that] g(4) by (simp add: core_of_def S)
  have n: "card (core_of sibs ids ` set ids) = length gs" using core [of gs] g(2,5) by simp
  show ?thesis
  proof (cases "length gs < 4")
    case True
    then have "balanced_plan order sibs ids = Some [(PLANE_MGMT, ?ids), (PLANE_CTRL, ?ids), (PLANE_DATA, ?ids)]"
      using g(1) by (simp add: balanced_plan_def Let_def PLANES_def)
    then show ?thesis using True by (simp add: n)
  next
    case False
    define r where "r = max 1 (length gs div 8)"
    define as bs cs where parts: "as = take r gs" "bs = take (2 * r - r) (drop r gs)" "cs = drop (2 * r) gs"
    have r: "1 \<le> r" "2 * r < length gs" using False by (auto simp: r_def)
    have "drop r gs = bs @ cs" using append_take_drop_id [of r "drop r gs"] by (simp add: parts mult_2)
    then have gs: "gs = as @ bs @ cs" using append_take_drop_id [of r gs] by (simp add: parts)
    have len: "length as = r" "length bs = r" "length cs = length gs - 2 * r" using r by (simp_all add: parts)
    have ne: "concat hs \<noteq> []" if "hs \<noteq> []" "set hs \<subseteq> set gs" for hs using that g(4) by (cases hs) auto
    have sub: "set as \<subseteq> set gs" "set bs \<subseteq> set gs" "set cs \<subseteq> set gs" using gs by auto
    have kp: "keeps_siblings sibs ids (sort (concat hs))" if "set hs \<subseteq> set gs" for hs
      using part_keeps [OF g(7) that] by (simp add: keeps_siblings_def S)
    have dj: "set (concat as) \<inter> set (concat bs) = {}" "set (concat as) \<inter> set (concat cs) = {}" "set (concat bs) \<inter> set (concat cs) = {}"
      using g(2,6) unfolding gs by (intro parts_disjoint; auto)+
    have un: "set (concat as) \<union> set (concat bs) \<union> set (concat cs) = set ids" using g(5) unfolding gs by auto
    have "Min (set ?ids) \<in> set (hd gs)" by (rule first_group_min [OF _ g(3-5)]) (use r in auto)
    moreover have "hd gs \<in> set as"
    proof -
      have "as \<noteq> []" using len(1) r(1) by auto
      then show ?thesis unfolding gs by simp
    qed
    ultimately have mn: "Min (set ids) \<in> set (concat as)" by auto
    define m c d where planes: "m = sort (concat as)" "c = sort (concat bs)" "d = sort (concat cs)"
    have sets: "set (concat as) = set m" "set (concat bs) = set c" "set (concat cs) = set d" by (simp_all add: planes)
    have "balanced_plan order sibs ids = Some [(PLANE_MGMT, m), (PLANE_CTRL, c), (PLANE_DATA, d)]"
      using g(1) False by (simp add: balanced_plan_def Let_def parts r_def planes)
    moreover have "as \<noteq> []" "bs \<noteq> []" "cs \<noteq> []" using len r by auto
    then have "set (concat as) \<noteq> {}" "set (concat bs) \<noteq> {}" "set (concat cs) \<noteq> {}" using ne sub by (metis set_empty)+
    then have "m \<noteq> []" "c \<noteq> []" "d \<noteq> []" unfolding sets by auto
    moreover have "keeps_siblings sibs ids m" "keeps_siblings sibs ids c" "keeps_siblings sibs ids d" unfolding planes using kp sub by blast+
    moreover have "distinct as" "distinct bs" using g(2) by (simp_all add: parts)
    then have "card (core_of sibs ids ` set m) = r" "card (core_of sibs ids ` set c) = r" unfolding sets [symmetric] using core [OF sub(1)] core [OF sub(2)] len by metis+
    moreover note dj [unfolded sets] un [unfolded sets] mn [unfolded sets] False
    ultimately show ?thesis unfolding n Let_def if_not_P [OF False] r_def by blast
  qed
qed

text \<open>
  The cores picked for isolation are whole physical cores away from CPU 0: the choice
  always ends, it consists of available CPUs, and neither CPU 0 nor any CPU that a chain of SMT
  siblings joins to it is chosen, whatever the fraction, the NUMA preference and the topology.
\<close>

theorem pick_dpdk_cores_safe:
  assumes "\<And>xs. set (order xs) = set xs"
  shows "\<exists>chosen warnings. pick_dpdk_cores order numa_of_cpu rounded sibs prefer_node ids = Some (chosen, warnings) \<and> set chosen \<subseteq> set ids
     \<and> keeps_siblings sibs ids chosen \<and> (\<forall>c \<in> set chosen. (c, 0) \<notin> (siblings sibs ids)\<^sup>*)"
proof -
  obtain gs where g: "physical_cores order sibs ids = Some gs" "distinct gs" "sorted (map hd gs)" "\<And>g. g \<in> set gs \<Longrightarrow> g \<noteq> [] \<and> sorted g"
    "\<Union> (set ` set gs) = set ids" "\<And>g h. g \<in> set gs \<Longrightarrow> h \<in> set gs \<Longrightarrow> g \<noteq> h \<Longrightarrow> set g \<inter> set h = {}"
    "\<And>g c d. g \<in> set gs \<Longrightarrow> c \<in> set g \<Longrightarrow> d \<in> set ids \<Longrightarrow> d \<in> set g \<longleftrightarrow> (c, d) \<in> (siblings sibs ids)\<^sup>*"
    by (rule physical_cores_partition [where sibs = sibs and ids = ids, OF assms]) (rule that)
  obtain hs w where h: "pick_dpdk_cores order numa_of_cpu rounded sibs prefer_node ids = Some (sort (concat hs), w)"
    "set hs \<subseteq> set (filter (\<lambda>g. 0 \<notin> set g) gs)"
  proof (cases "filter (\<lambda>g. 0 \<notin> set g) gs = []")
    case True
    then show ?thesis using that [of "[]"] g(1) by (simp add: pick_dpdk_cores_def)
  next
    case False
    let ?groups = "filter (\<lambda>g. 0 \<notin> set g) gs"
    let ?on = "case prefer_node of None \<Rightarrow> [] | Some n \<Rightarrow> filter (\<lambda>g. numa_of_cpu (hd g) = Some n) ?groups"
    let ?from = "if 2 \<le> length ?on then ?on else ?groups"
    let ?hs = "drop (length ?from - min (nat (max 1 (rounded (length ?from)))) (length ?from)) ?from"
    have "set ?hs \<subseteq> set ?from" by (rule set_drop_subset)
    also have "set ?from \<subseteq> set ?groups" by (auto split: option.splits)
    finally have s: "set ?hs \<subseteq> set ?groups" .
    have "\<exists>w. pick_dpdk_cores order numa_of_cpu rounded sibs prefer_node ids = Some (sort (concat ?hs), w)"
      unfolding pick_dpdk_cores_def g(1) Let_def using False by simp
    then show ?thesis using that s by blast
  qed
  have sub: "set hs \<subseteq> set gs" using h(2) by auto
  have "(c, 0) \<notin> (siblings sibs ids)\<^sup>*" if c: "c \<in> set (concat hs)" for c
  proof
    assume a: "(c, 0) \<in> (siblings sibs ids)\<^sup>*"
    obtain x where x: "x \<in> set hs" "c \<in> set x" using c by auto
    then have "0 \<notin> set x" using h(2) by auto
    then have "c \<noteq> 0" using x(2) by metis
    then have "0 \<in> set ids" using a by (auto elim: rtranclE simp: siblings_def)
    then have "0 \<in> set x" using g(7) [of x c 0] x sub a by blast
    then show False using \<open>0 \<notin> set x\<close> by simp
  qed
  moreover have "set (sort (concat hs)) \<subseteq> set ids" using g(5) sub by auto
  ultimately show ?thesis using h(1) part_keeps [OF g(7) sub] by auto
qed

definition sample_topology :: "nat \<rightharpoonup> nat list" where
  "sample_topology = map_of (map (\<lambda>c. (c, [c mod 5, c mod 5 + 5])) [0..<10])"

theorem balanced_plan_partition_witness:
  "balanced_plan rev sample_topology [0..<10] = Some [(PLANE_MGMT, [0, 5]), (PLANE_CTRL, [1, 6]), (PLANE_DATA, [2, 3, 4, 7, 8, 9])]
   \<and> keeps_siblings sample_topology [0..<10] [0, 5]"
proof -
  have b: "balanced_plan rev sample_topology [0..<10] = Some [(PLANE_MGMT, [0, 5]), (PLANE_CTRL, [1, 6]), (PLANE_DATA, [2, 3, 4, 7, 8, 9])]"
    by code_simp
  have "\<And>xs :: nat list. set (rev xs) = set xs" by simp
  from balanced_plan_partition [OF this, of sample_topology "[0..<10]"] obtain m c d
    where m: "balanced_plan rev sample_topology [0..<10] = Some [(PLANE_MGMT, m), (PLANE_CTRL, c), (PLANE_DATA, d)]"
      "m = sort (remdups [0..<10]) \<or> keeps_siblings sample_topology [0..<10] m" unfolding Let_def by metis
  have "m = [0, 5]" using m(1) b by simp
  moreover have "length (sort (remdups [0..<10])) = 10" by simp
  ultimately have "m \<noteq> sort (remdups [0..<10])" by (auto dest: arg_cong [where f = length])
  then show ?thesis using m(2) b \<open>m = [0, 5]\<close> by simp
qed

theorem pick_dpdk_cores_safe_witness:
  "\<exists>w. pick_dpdk_cores rev (\<lambda>c. Some 0) (\<lambda>n. int n div 2) sample_topology (Some 0) [0..<10] = Some ([3, 4, 8, 9], w) \<and> keeps_siblings sample_topology [0..<10] [3, 4, 8, 9]"
proof -
  have b: "map_option fst (pick_dpdk_cores rev (\<lambda>c. Some 0) (\<lambda>n. int n div 2) sample_topology (Some 0) [0..<10]) = Some [3, 4, 8, 9]"
    by code_simp
  have "\<And>xs :: nat list. set (rev xs) = set xs" by simp
  from pick_dpdk_cores_safe [OF this, of "\<lambda>c. Some 0" "\<lambda>n. int n div 2" sample_topology "Some 0" "[0..<10]"] b show ?thesis by auto
qed

end
