(* ===== verification/Alerts.thy ===== *)
theory Alerts
  imports Cpu_Lists Transition
begin

text \<open>
  Alerts, \<^verbatim>\<open>src/opt/ffn_alerts.py\<close>: the conditions found by an evaluation, the confirmation of a
  condition over consecutive evaluations, raised and cleared events, processor reboots, the
  bounded event log, the outputs and the published view. Clock readings, the JSON text of an
  event and the outcome of an output are parameters; the state file holds the state record.
\<close>

section \<open>Units and conditions\<close>

record unit_state =
  restarts :: int
  active :: string
  unit_result :: string

text \<open>\<^verbatim>\<open>int(text)\<close>\<close>

definition py_int :: "string \<Rightarrow> int option" where
  "py_int s =
     (let t = strip_by ws s in
      if take 1 t = ''-'' then
        (let u = drop 1 t in if take 1 u = ''+'' \<or> list_ex ws (take 1 u) then None else map_option (\<lambda>n. - int n) (py_nat u))
      else map_option int (py_nat t))"

text \<open>\<^verbatim>\<open>text.split('\n\n')\<close>, on the current block (reversed) and the rest.\<close>

fun blocks_from :: "string \<Rightarrow> string \<Rightarrow> string list" where
  "blocks_from cur [] = [rev cur]"
| "blocks_from cur [c] = [rev (c # cur)]"
| "blocks_from cur (c # d # cs) =
     (if c = CHR 0x0A \<and> d = CHR 0x0A then rev cur # blocks_from [] cs else blocks_from (c # cur) (d # cs))"

definition block_fields :: "string \<Rightarrow> (string, string) odict" where
  "block_fields block =
     fold (\<lambda>l d. if CHR ''='' \<in> set l then dict_set (before CHR ''='' l) (after CHR ''='' l) d else d) (lines_from [] block) []"

definition get_or :: "'v \<Rightarrow> 'k \<Rightarrow> ('k, 'v) odict \<Rightarrow> 'v" where
  "get_or v k d = (case map_of d k of Some x \<Rightarrow> x | None \<Rightarrow> v)"

definition unit_block :: "string \<Rightarrow> (string, unit_state) odict \<Rightarrow> (string, unit_state) odict" where
  "unit_block block res =
     (let fields = block_fields block; unit = get_or [] ''Id'' fields in
      if unit = [] then res
      else dict_set unit
        \<lparr>restarts = (case py_int (get_or ''0'' ''NRestarts'' fields) of Some n \<Rightarrow> n | None \<Rightarrow> 0),
         active = get_or ''unknown'' ''ActiveState'' fields, unit_result = get_or [] ''Result'' fields\<rparr> res)"

text \<open>\<^verbatim>\<open>unit_states\<close> on the output of \<^verbatim>\<open>systemctl show\<close>; \<^const>\<open>None\<close> when it could not be run.\<close>

definition unit_states :: "string option \<Rightarrow> (string, unit_state) odict" where
  "unit_states raw = (case raw of None \<Rightarrow> [] | Some r \<Rightarrow> fold unit_block (blocks_from [] (strip_by ws r)) [])"

record subsystem =
  sub_id :: string
  sub_state :: "string option"
  sub_plane :: "string option"
  sub_summary :: "string option"
  sub_details :: "string list"

record report =
  subsystems :: "subsystem list"
  processor_boots :: "(string, string) odict"
  overall :: "string option"
  generation :: "string option"

record cond =
  severity :: string
  plane :: "string option"
  source :: string
  summary :: string
  details :: "string list"
  cond_state :: string

definition SEVERITY :: "(string \<times> string) list" where
  "SEVERITY = [(''failed'', ''critical''), (''drift'', ''warning''), (''unavailable'', ''warning'')]"

definition CONFIRMATIONS :: nat where "CONFIRMATIONS = 2"
definition EVENTS_KEPT :: nat where "EVENTS_KEPT = 500"
definition RECENT_SHOWN :: nat where "RECENT_SHOWN = 30"
definition RESTART_FLAP :: int where "RESTART_FLAP = 3"

definition RANK :: "(string \<times> int) list" where
  "RANK = [(''critical'', 2), (''warning'', 1), (''info'', 0)]"

text \<open>\<^verbatim>\<open>a or b\<close> on text that may be absent\<close>

definition text_or :: "string option \<Rightarrow> string \<Rightarrow> string" where
  "text_or a b = (case a of Some s \<Rightarrow> if s = [] then b else s | None \<Rightarrow> b)"

definition subsystem_condition :: "subsystem \<Rightarrow> (string, cond) odict \<Rightarrow> (string, cond) odict" where
  "subsystem_condition s found =
     (case Option.bind (sub_state s) (map_of SEVERITY) of
        None \<Rightarrow> found
      | Some sev \<Rightarrow>
          dict_set (''subsystem:'' @ sub_id s)
            \<lparr>severity = sev, plane = sub_plane s, source = ''convergence'', summary = text_or (sub_summary s) (sub_id s),
             details = take 8 (sub_details s), cond_state = the (sub_state s)\<rparr> found)"

definition signed_dec :: "int \<Rightarrow> string" where
  "signed_dec n = (if n < 0 then ''-'' @ dec (nat (- n)) else dec (nat n))"

definition unit_condition :: "(string, unit_state) odict \<Rightarrow> string \<times> unit_state \<Rightarrow> (string, cond) odict \<Rightarrow> (string, cond) odict" where
  "unit_condition previous_units u found =
     (case u of (unit, now) \<Rightarrow>
        let found1 = (if active now = ''failed'' then
              dict_set (''unit-failed:'' @ unit)
                \<lparr>severity = ''critical'', plane = Some ''mp'', source = ''systemd'',
                 summary = unit @ '' is failed ('' @ text_or (Some (unit_result now)) ''exit'' @ '')'', details = [], cond_state = ''failed''\<rparr> found
              else found);
            delta = restarts now - (case map_of previous_units unit of Some b \<Rightarrow> restarts b | None \<Rightarrow> restarts now)
        in if delta \<ge> RESTART_FLAP then
             dict_set (''unit-flapping:'' @ unit)
               \<lparr>severity = ''warning'', plane = Some ''mp'', source = ''systemd'',
                summary = unit @ '' restarted '' @ signed_dec delta @ '' times since the last evaluation'', details = [], cond_state = ''flapping''\<rparr> found1
           else found1)"

definition conditions :: "report option \<Rightarrow> (string, unit_state) odict \<Rightarrow> (string, unit_state) odict \<Rightarrow> (string, cond) odict" where
  "conditions rep units previous_units =
     fold (unit_condition previous_units) units
       (fold subsystem_condition (case rep of Some r \<Rightarrow> subsystems r | None \<Rightarrow> []) [])"

section \<open>Events\<close>

datatype event_kind = Raised | Cleared | Event

record event =
  at :: int
  kind :: event_kind
  e_id :: string
  e_severity :: string
  e_plane :: "string option"
  e_summary :: string
  e_details :: "string list"
  e_source :: string
  duration :: "int option"

text \<open>The letters \<^verbatim>\<open>str.upper\<close> changes, for the ASCII names of planes.\<close>

definition upper :: "string \<Rightarrow> string" where
  "upper s = map (\<lambda>c. let n = (of_char c :: nat) in if 97 \<le> n \<and> n \<le> 122 then char_of (n - 32) else c) s"

definition text_le :: "string \<Rightarrow> string \<Rightarrow> bool" where
  "text_le a b = lexordp_eq (map of_char a :: nat list) (map of_char b)"

fun insert_text :: "string \<Rightarrow> string list \<Rightarrow> string list" where
  "insert_text x [] = [x]"
| "insert_text x (y # ys) = (if text_le x y then x # y # ys else y # insert_text x ys)"

definition sort_text :: "string list \<Rightarrow> string list" where
  "sort_text xs = foldr insert_text xs []"

definition processor_events :: "int \<Rightarrow> report option \<Rightarrow> (string, string) odict option \<Rightarrow> event list \<times> (string, string) odict" where
  "processor_events now rep previous =
     (let boots = (case rep of Some r \<Rightarrow> processor_boots r | None \<Rightarrow> []) in
      (case previous of
         None \<Rightarrow> []
       | Some old \<Rightarrow>
           concat (map (\<lambda>role.
             let a = get_or [] role old; b = get_or [] role boots in
             if a \<noteq> [] \<and> b \<noteq> [] \<and> a \<noteq> b then
               [\<lparr>at = now, kind = Event, e_id = ''processor-rebooted:'' @ role, e_severity = ''critical'', e_plane = Some role,
                 e_summary = upper role @ '' processor booted again (boot '' @ take 8 b @ '')'', e_details = [], e_source = ''lifecycle'', duration = None\<rparr>]
             else []) (sort_text (remdups (map fst boots @ map fst old)))),
       boots))"

definition line :: "event \<Rightarrow> string" where
  "line e =
     (case kind e of Raised \<Rightarrow> ''ALERT raised'' | Cleared \<Rightarrow> ''ALERT cleared'' | Event \<Rightarrow> ''ALERT event'')
     @ '' ['' @ e_severity e @ ''] '' @ e_id e @ '' ('' @ text_or (e_plane e) ''-'' @ ''): '' @ e_summary e
     @ (if e_details e = [] then [] else '' -- '' @ join_with ''; '' (take 3 (e_details e)))"

text \<open>
  \<^verbatim>\<open>Outputs.emit\<close>: the journal always gets the line; a configured output that fails, by the
  given outcome, is recorded and does not stop the others. The result is the log and the failures.
\<close>

definition emit :: "string list \<Rightarrow> (string \<Rightarrow> event \<Rightarrow> string option) \<Rightarrow> event \<Rightarrow> string list \<times> string list \<Rightarrow> string list \<times> string list" where
  "emit configured outcome e st =
     fold (\<lambda>name (log, failures).
         if name \<in> set configured then
           (case outcome name e of
              None \<Rightarrow> (log, failures)
            | Some err \<Rightarrow> (log @ [''alert '' @ name @ '' output failed: '' @ take 120 err], failures @ [name @ '': '' @ take 120 err]))
         else (log, failures))
       [''email'', ''webhook''] (fst st @ [line e], snd st)"

definition append_events :: "(event \<Rightarrow> string) \<Rightarrow> string list \<Rightarrow> event list \<Rightarrow> string list" where
  "append_events dumps existing events =
     (let ls = filter (\<lambda>l. strip_by ws l \<noteq> []) existing @ map dumps events in drop (length ls - EVENTS_KEPT) ls)"

definition recent_events :: "(string \<Rightarrow> 'j option) \<Rightarrow> string list \<Rightarrow> 'j list" where
  "recent_events loads rows0 =
     (let rows = filter (\<lambda>l. strip_by ws l \<noteq> []) rows0 in rev (List.map_filter loads (drop (length rows - RECENT_SHOWN) rows)))"

section \<open>An evaluation\<close>

record entry = cond +
  first :: int
  count :: nat
  raised :: bool
  since :: "int option"
  seen_last :: int

record alert_state =
  held :: "(string, entry) odict"
  known_units :: "(string, unit_state) odict"
  known_boots :: "(string, string) odict option"
  evaluations :: nat
  state_overall :: "string option"
  output_failures :: "string list"

definition fresh_state :: alert_state where
  "fresh_state = \<lparr>held = [], known_units = [], known_boots = None, evaluations = 0, state_overall = None, output_failures = []\<rparr>"

definition new_entry :: "int \<Rightarrow> cond \<Rightarrow> entry" where
  "new_entry now c = cond.extend c \<lparr>first = now, count = 0, raised = False, since = None, seen_last = now\<rparr>"

definition update_entry :: "cond \<Rightarrow> entry \<Rightarrow> entry" where
  "update_entry c e =
     e\<lparr>severity := severity c, plane := plane c, source := source c, summary := summary c, details := details c, cond_state := cond_state c\<rparr>"

definition raised_event :: "int \<Rightarrow> string \<Rightarrow> entry \<Rightarrow> event" where
  "raised_event now ident e =
     \<lparr>at = now, kind = Raised, e_id = ident, e_severity = severity e, e_plane = plane e, e_summary = summary e, e_details = details e,
      e_source = source e, duration = None\<rparr>"

definition cleared_event :: "int \<Rightarrow> string \<Rightarrow> entry \<Rightarrow> event" where
  "cleared_event now ident e =
     \<lparr>at = now, kind = Cleared, e_id = ident, e_severity = severity e, e_plane = plane e, e_summary = summary e, e_details = [],
      e_source = source e, duration = Some (now - (case since e of Some t \<Rightarrow> t | None \<Rightarrow> now))\<rparr>"

text \<open>The first loop: one condition that is seen now.\<close>

definition see :: "int \<Rightarrow> string \<times> cond \<Rightarrow> (string, entry) odict \<times> event list \<Rightarrow> (string, entry) odict \<times> event list" where
  "see now ic st =
     (case (ic, st) of ((ident, c), (h, events)) \<Rightarrow>
        let e = (case map_of h ident of None \<Rightarrow> new_entry now c | Some e \<Rightarrow> update_entry c e);
            e = e\<lparr>count := count e + 1, seen_last := now\<rparr>
        in if \<not> raised e \<and> count e \<ge> CONFIRMATIONS
           then (let e = e\<lparr>raised := True, since := Some now\<rparr> in (dict_set ident e h, events @ [raised_event now ident e]))
           else (dict_set ident e h, events))"

text \<open>The second loop: held conditions that are not seen any more.\<close>

definition clear :: "int \<Rightarrow> (string, cond) odict \<Rightarrow> (string, entry) odict \<Rightarrow> (string, entry) odict \<times> event list" where
  "clear now seen h =
     (filter (\<lambda>(ident, e). map_of seen ident \<noteq> None) h,
      map (\<lambda>(ident, e). cleared_event now ident e) (filter (\<lambda>(ident, e). map_of seen ident = None \<and> raised e) h))"

record input =
  i_report :: "report option"
  i_units :: "(string, unit_state) odict"
  i_now :: int

definition transitions :: "input \<Rightarrow> alert_state \<Rightarrow> (string, entry) odict \<times> event list" where
  "transitions i s =
     (let seen = conditions (i_report i) (i_units i) (known_units s);
          (h, raised_events) = fold (see (i_now i)) seen (held s, []);
          (h, cleared_events) = clear (i_now i) seen h
      in (h, raised_events @ cleared_events))"

definition events_of :: "input \<Rightarrow> alert_state \<Rightarrow> event list" where
  "events_of i s = snd (transitions i s) @ fst (processor_events (i_now i) (i_report i) (known_boots s))"

definition next_state :: "string list \<Rightarrow> (string \<Rightarrow> event \<Rightarrow> string option) \<Rightarrow> input \<Rightarrow> alert_state \<Rightarrow> alert_state" where
  "next_state configured outcome i s =
     (let boots = snd (processor_events (i_now i) (i_report i) (known_boots s)) in
      \<lparr>held = fst (transitions i s), known_units = i_units i, known_boots = (if boots = [] then known_boots s else Some boots),
       evaluations = evaluations s + 1, state_overall = Option.bind (i_report i) overall,
       output_failures = snd (fold (emit configured outcome) (events_of i s) ([], []))\<rparr>)"

text \<open>The order of the view: by rank, then by time, then by name.\<close>

definition active_le :: "string \<times> entry \<Rightarrow> string \<times> entry \<Rightarrow> bool" where
  "active_le a b =
     (let ra = get_or 0 (severity (snd a)) RANK; rb = get_or 0 (severity (snd b)) RANK;
          ta = (case since (snd a) of Some t \<Rightarrow> t | None \<Rightarrow> 0); tb = (case since (snd b) of Some t \<Rightarrow> t | None \<Rightarrow> 0)
      in ra > rb \<or> ra = rb \<and> (ta < tb \<or> ta = tb \<and> text_le (fst a) (fst b)))"

fun insert_active :: "string \<times> entry \<Rightarrow> (string \<times> entry) list \<Rightarrow> (string \<times> entry) list" where
  "insert_active x [] = [x]"
| "insert_active x (y # ys) = (if active_le x y then x # y # ys else y # insert_active x ys)"

record view =
  v_active :: "(string \<times> entry) list"
  v_pending :: "string list"
  v_events :: "event list"
  v_overall :: "string option"
  v_generation :: "string option"
  v_failures :: "string list"
  v_at :: int

definition view_of :: "input \<Rightarrow> alert_state \<Rightarrow> alert_state \<Rightarrow> view" where
  "view_of i s s' =
     \<lparr>v_active = foldr insert_active (filter (\<lambda>(ident, e). raised e) (held s')) [],
      v_pending = sort_text (map fst (filter (\<lambda>(ident, e). \<not> raised e) (held s'))),
      v_events = events_of i s, v_overall = Option.bind (i_report i) overall, v_generation = Option.bind (i_report i) generation,
      v_failures = output_failures s', v_at = i_now i\<rparr>"

text \<open>State, event log and view after an evaluation.\<close>

definition evaluate ::
  "string list \<Rightarrow> (string \<Rightarrow> event \<Rightarrow> string option) \<Rightarrow> (event \<Rightarrow> string) \<Rightarrow> input \<Rightarrow> alert_state \<times> string list \<Rightarrow> alert_state \<times> string list \<times> view" where
  "evaluate configured outcome dumps i st =
     (case st of (s, log) \<Rightarrow>
        let s' = next_state configured outcome i s; events = events_of i s in
        (s', if events = [] then log else append_events dumps log events, view_of i s s'))"

text \<open>What the console is told of the view: its age, and whether it is stale.\<close>

definition status :: "int \<Rightarrow> view option \<Rightarrow> int option \<times> bool" where
  "status now v =
     (case v of
        None \<Rightarrow> (None, True)
      | Some w \<Rightarrow> if v_at w = 0 then (None, True) else (let age = max 0 (now - v_at w) in (Some age, age > 600)))"

section \<open>Confirmation over consecutive evaluations\<close>

text \<open>What one condition does to its entry, and whether it raises it.\<close>

definition counted :: "int \<Rightarrow> cond \<Rightarrow> entry option \<Rightarrow> entry" where
  "counted now c old = (let e = (case old of None \<Rightarrow> new_entry now c | Some e \<Rightarrow> update_entry c e) in e\<lparr>count := count e + 1, seen_last := now\<rparr>)"

definition raises :: "int \<Rightarrow> cond \<Rightarrow> entry option \<Rightarrow> bool" where
  "raises now c old \<longleftrightarrow> \<not> raised (counted now c old) \<and> count (counted now c old) \<ge> CONFIRMATIONS"

definition seen_entry :: "int \<Rightarrow> cond \<Rightarrow> entry option \<Rightarrow> entry" where
  "seen_entry now c old = (if raises now c old then (counted now c old)\<lparr>raised := True, since := Some now\<rparr> else counted now c old)"

lemma see_alt:
  "see now (ident, c) (h, ev) =
     (dict_set ident (seen_entry now c (map_of h ident)) h,
      ev @ (if raises now c (map_of h ident) then [raised_event now ident (seen_entry now c (map_of h ident))] else []))"
  by (simp add: see_def counted_def raises_def seen_entry_def Let_def)

lemma counted_fields [simp]:
  "count (counted now c old) = (case old of None \<Rightarrow> 1 | Some e \<Rightarrow> count e + 1)"
  "raised (counted now c old) = (case old of None \<Rightarrow> False | Some e \<Rightarrow> raised e)"
  by (auto simp: counted_def new_entry_def cond.extend_def update_entry_def split: option.splits)

lemma seen_entry_fields [simp]:
  "count (seen_entry now c old) = (case old of None \<Rightarrow> 1 | Some e \<Rightarrow> count e + 1)"
  "raised (seen_entry now c old) \<longleftrightarrow> (case old of None \<Rightarrow> False | Some e \<Rightarrow> raised e \<or> 1 \<le> count e)"
  by (auto simp: seen_entry_def raises_def CONFIRMATIONS_def split: option.splits)

lemma fold_see:
  "distinct (map fst seen) \<Longrightarrow>
   (\<forall>x. map_of (fst (fold (see now) seen (h, ev))) x = (case map_of seen x of None \<Rightarrow> map_of h x | Some c \<Rightarrow> Some (seen_entry now c (map_of h x))))
   \<and> snd (fold (see now) seen (h, ev)) =
       ev @ concat (map (\<lambda>(x, c). if raises now c (map_of h x) then [raised_event now x (seen_entry now c (map_of h x))] else []) seen)
   \<and> (distinct (map fst h) \<longrightarrow> distinct (map fst (fst (fold (see now) seen (h, ev)))))"
proof (induction seen arbitrary: h ev)
  case (Cons ic seen)
  obtain x c where x: "ic = (x, c)" by (cases ic)
  let ?h = "dict_set x (seen_entry now c (map_of h x)) h"
  have n: "map_of seen x = None" "x \<notin> fst ` set seen" using Cons.prems x by (auto simp: map_of_eq_None_iff)
  have same: "map (\<lambda>(y, c). if raises now c (map_of ?h y) then [raised_event now y (seen_entry now c (map_of ?h y))] else []) seen
     = map (\<lambda>(y, c). if raises now c (map_of h y) then [raised_event now y (seen_entry now c (map_of h y))] else []) seen"
    using n(2) by (intro map_cong) (auto simp: image_iff)
  have d: "distinct (map fst seen)" using Cons.prems by simp
  note IH = Cons.IH [OF d, of ?h "ev @ (if raises now c (map_of h x) then [raised_event now x (seen_entry now c (map_of h x))] else [])"]
  show ?case using IH n(1) unfolding x same by (auto simp: see_alt distinct_dict_set split: option.splits)
qed simp

lemma fold_dict_distinct: "(\<And>x d. distinct (map fst d) \<Longrightarrow> distinct (map fst (f x d))) \<Longrightarrow> distinct (map fst d) \<Longrightarrow> distinct (map fst (fold f xs d))"
  by (induction xs arbitrary: d) auto

lemma conditions_distinct: "distinct (map fst (conditions rep units previous))"
  unfolding conditions_def
  by (intro fold_dict_distinct)
     (auto simp: subsystem_condition_def unit_condition_def Let_def intro!: distinct_dict_set split: option.splits prod.splits)

lemma map_of_filter_key: "map_of (filter (\<lambda>(k, v). P k) d) k = (if P k then map_of d k else None)"
  by (induction d) auto

text \<open>The length of the last run of evaluations that saw a condition.\<close>

definition streak :: "string \<Rightarrow> (string, cond) odict list \<Rightarrow> nat" where
  "streak ident hist = length (takeWhile (\<lambda>d. map_of d ident \<noteq> None) (rev hist))"

lemma streak_snoc: "streak ident (hist @ [d]) = (if map_of d ident = None then 0 else Suc (streak ident hist))"
  by (simp add: streak_def)

fun seen_history :: "(string, unit_state) odict \<Rightarrow> input list \<Rightarrow> (string, cond) odict list" where
  "seen_history previous [] = []"
| "seen_history previous (i # is) = conditions (i_report i) (i_units i) previous # seen_history (i_units i) is"

definition held_ok :: "alert_state \<Rightarrow> (string, cond) odict list \<Rightarrow> bool" where
  "held_ok s hist \<longleftrightarrow> distinct (map fst (held s))
     \<and> (\<forall>ident. case map_of (held s) ident of
           None \<Rightarrow> streak ident hist = 0
         | Some e \<Rightarrow> 0 < streak ident hist \<and> count e = streak ident hist \<and> (raised e \<longleftrightarrow> 2 \<le> streak ident hist))"

definition seen_now :: "input \<Rightarrow> alert_state \<Rightarrow> (string, cond) odict" where
  "seen_now i s = conditions (i_report i) (i_units i) (known_units s)"

lemma transitions_held:
  "map_of (fst (transitions i s)) x = (case map_of (seen_now i s) x of None \<Rightarrow> None | Some c \<Rightarrow> Some (seen_entry (i_now i) c (map_of (held s) x)))"
  "distinct (map fst (held s)) \<Longrightarrow> distinct (map fst (fst (transitions i s)))"
  using fold_see [OF conditions_distinct [of "i_report i" "i_units i" "known_units s"], of "i_now i" "held s" "[]"]
  by (auto simp: transitions_def seen_now_def clear_def Let_def map_of_filter_key distinct_dict_filter split: option.splits prod.splits)

lemma held_ok_step:
  assumes "held_ok s hist"
  shows "held_ok (next_state cfg outcome i s) (hist @ [seen_now i s])"
proof -
  have d: "distinct (map fst (held (next_state cfg outcome i s)))"
    using assms transitions_held(2) by (simp add: held_ok_def next_state_def Let_def)
  have m: "map_of (held (next_state cfg outcome i s)) x =
      (case map_of (seen_now i s) x of None \<Rightarrow> None | Some c \<Rightarrow> Some (seen_entry (i_now i) c (map_of (held s) x)))" for x
    by (simp add: next_state_def Let_def transitions_held)
  have "case map_of (held (next_state cfg outcome i s)) x of
           None \<Rightarrow> streak x (hist @ [seen_now i s]) = 0
         | Some e \<Rightarrow> 0 < streak x (hist @ [seen_now i s]) \<and> count e = streak x (hist @ [seen_now i s]) \<and> (raised e \<longleftrightarrow> 2 \<le> streak x (hist @ [seen_now i s]))" for x
  proof (cases "map_of (seen_now i s) x")
    case None
    then show ?thesis using m [of x] by (simp add: streak_snoc)
  next
    case (Some c)
    have "case map_of (held s) x of None \<Rightarrow> streak x hist = 0
      | Some e \<Rightarrow> 0 < streak x hist \<and> count e = streak x hist \<and> (raised e \<longleftrightarrow> 2 \<le> streak x hist)" using assms by (simp add: held_ok_def)
    then show ?thesis using m [of x] Some by (auto simp: streak_snoc split: option.splits)
  qed
  then show ?thesis using d by (simp add: held_ok_def)
qed

lemma held_ok_run:
  "held_ok s hist \<Longrightarrow> held_ok (run (next_state cfg outcome) is s) (hist @ seen_history (known_units s) is)"
proof (induction "is" arbitrary: s hist)
  case (Cons i "is")
  have "known_units (next_state cfg outcome i s) = i_units i" by (simp add: next_state_def Let_def)
  then show ?case using Cons.IH [OF held_ok_step [OF Cons.prems, of cfg outcome i]] by (simp add: seen_now_def)
qed simp

lemma history_snoc: "seen_history u (is @ [i]) = seen_history u is @ [conditions (i_report i) (i_units i) (if is = [] then u else i_units (last is))]"
  by (induction "is" arbitrary: u) auto

lemma known_units_run: "known_units (run (next_state cfg outcome) is s) = (if is = [] then known_units s else i_units (last is))"
  by (induction "is" arbitrary: s) (auto simp: next_state_def Let_def)

definition has_event :: "event_kind \<Rightarrow> string \<Rightarrow> event list \<Rightarrow> bool" where
  "has_event k ident events \<longleftrightarrow> list_ex (\<lambda>e. kind e = k \<and> e_id e = ident) events"

lemma has_event_append: "has_event k x (as @ bs) \<longleftrightarrow> has_event k x as \<or> has_event k x bs"
  by (simp add: has_event_def)

lemma has_event_concat: "has_event k x (concat (map f xs)) \<longleftrightarrow> (\<exists>y \<in> set xs. has_event k x (f y))"
  by (auto simp: has_event_def list_ex_iff)

lemma processor_kind: "k \<noteq> Event \<Longrightarrow> \<not> has_event k x (fst (processor_events now rep old))"
  by (auto simp: has_event_def processor_events_def Let_def list_ex_iff split: option.splits if_splits)

lemma transitions_events:
  assumes "distinct (map fst (held s))"
  shows "has_event Raised x (snd (transitions i s)) \<longleftrightarrow> (\<exists>c. map_of (seen_now i s) x = Some c \<and> raises (i_now i) c (map_of (held s) x))"
    and "has_event Cleared x (snd (transitions i s)) \<longleftrightarrow> map_of (seen_now i s) x = None \<and> (\<exists>e. map_of (held s) x = Some e \<and> raised e)"
proof -
  let ?seen = "seen_now i s"
  let ?r = "fold (see (i_now i)) ?seen (held s, [])"
  have ds: "distinct (map fst ?seen)" unfolding seen_now_def by (rule conditions_distinct)
  note f = fold_see [OF ds, of "i_now i" "held s" "[]"]
  have t: "snd (transitions i s) = snd ?r @ snd (clear (i_now i) ?seen (fst ?r))"
    by (simp add: transitions_def seen_now_def Let_def split: prod.splits)
  have dh: "distinct (map fst (fst ?r))" using f assms by blast
  have m: "map_of (fst ?r) x = (case map_of ?seen x of None \<Rightarrow> map_of (held s) x | Some c \<Rightarrow> Some (seen_entry (i_now i) c (map_of (held s) x)))"
    using f by blast
  have ev: "snd ?r = concat (map (\<lambda>(x, c). if raises (i_now i) c (map_of (held s) x) then [raised_event (i_now i) x (seen_entry (i_now i) c (map_of (held s) x))] else []) ?seen)"
    using f by simp
  have r1: "has_event Raised x (snd ?r) \<longleftrightarrow> (\<exists>c. (x, c) \<in> set ?seen \<and> raises (i_now i) c (map_of (held s) x))"
    unfolding ev has_event_concat by (force simp: has_event_def raised_event_def split: if_splits)
  have r2: "\<not> has_event Cleared x (snd ?r)" unfolding ev has_event_concat by (auto simp: has_event_def raised_event_def split: if_splits)
  have c1: "\<not> has_event Raised x (snd (clear (i_now i) ?seen (fst ?r)))" by (auto simp: has_event_def list_ex_iff clear_def cleared_event_def)
  have c2: "has_event Cleared x (snd (clear (i_now i) ?seen (fst ?r))) \<longleftrightarrow> (\<exists>e. (x, e) \<in> set (fst ?r) \<and> map_of ?seen x = None \<and> raised e)"
    by (auto simp: has_event_def list_ex_iff clear_def cleared_event_def)
  show "has_event Raised x (snd (transitions i s)) \<longleftrightarrow> (\<exists>c. map_of ?seen x = Some c \<and> raises (i_now i) c (map_of (held s) x))"
    unfolding t has_event_append using r1 c1 map_of_eq_Some_iff [OF ds] by simp
  show "has_event Cleared x (snd (transitions i s)) \<longleftrightarrow> map_of ?seen x = None \<and> (\<exists>e. map_of (held s) x = Some e \<and> raised e)"
    unfolding t has_event_append c2 map_of_eq_Some_iff [OF dh, symmetric] m using r2 by (auto split: option.splits)
qed

lemma set_insert_active: "set (foldr insert_active xs []) = set xs"
proof -
  have "set (insert_active x ys) = insert x (set ys)" for x ys by (induction x ys rule: insert_active.induct) auto
  then show ?thesis by (induction xs) auto
qed

lemma active_iff:
  assumes "held_ok s' hist"
  shows "x \<in> fst ` set (v_active (view_of i s s')) \<longleftrightarrow> 2 \<le> streak x hist"
proof -
  have d: "distinct (map fst (held s'))" and h: "case map_of (held s') x of None \<Rightarrow> streak x hist = 0
      | Some e \<Rightarrow> 0 < streak x hist \<and> count e = streak x hist \<and> (raised e \<longleftrightarrow> 2 \<le> streak x hist)"
    using assms by (auto simp: held_ok_def)
  have "x \<in> fst ` set (v_active (view_of i s s')) \<longleftrightarrow> (\<exists>e. (x, e) \<in> set (held s') \<and> raised e)"
    by (auto simp: view_of_def set_insert_active image_iff)
  also have "\<dots> \<longleftrightarrow> (\<exists>e. map_of (held s') x = Some e \<and> raised e)" using map_of_eq_Some_iff [OF d, of x] by simp
  also have "\<dots> \<longleftrightarrow> 2 \<le> streak x hist" using h by (auto split: option.splits)
  finally show ?thesis .
qed

text \<open>
  (C26) The life of an alert, over any sequence of evaluations from an empty state: a condition is
  raised in the evaluation that sees it for the second time in a row, and only there; it is
  cleared in the first evaluation that misses it after it was raised, and only there; and the
  published active alerts are exactly the conditions seen by at least the last two evaluations.
  So raised and cleared events of a condition alternate, and a single sighting is never reported.
\<close>

theorem alert_life:
  "(has_event Raised x (events_of i (run (next_state cfg outcome) is fresh_state)) \<longleftrightarrow> streak x (seen_history [] (is @ [i])) = 2)
   \<and> (has_event Cleared x (events_of i (run (next_state cfg outcome) is fresh_state))
        \<longleftrightarrow> streak x (seen_history [] (is @ [i])) = 0 \<and> 2 \<le> streak x (seen_history [] is))
   \<and> (x \<in> fst ` set (v_active (snd (snd (evaluate cfg outcome dumps i (run (next_state cfg outcome) is fresh_state, log)))))
        \<longleftrightarrow> 2 \<le> streak x (seen_history [] (is @ [i])))"
proof -
  let ?s = "run (next_state cfg outcome) is fresh_state"
  have k: "held_ok ?s (seen_history [] is)" using held_ok_run [of fresh_state "[]" cfg outcome "is"]
    by (simp add: held_ok_def fresh_state_def streak_def)
  then have d: "distinct (map fst (held ?s))" and h: "case map_of (held ?s) x of None \<Rightarrow> streak x (seen_history [] is) = 0
      | Some e \<Rightarrow> 0 < streak x (seen_history [] is) \<and> count e = streak x (seen_history [] is) \<and> (raised e \<longleftrightarrow> 2 \<le> streak x (seen_history [] is))"
    by (auto simp: held_ok_def)
  have sn: "seen_history [] (is @ [i]) = seen_history [] is @ [seen_now i ?s]"
    by (simp add: history_snoc seen_now_def known_units_run fresh_state_def)
  have "has_event Raised x (events_of i ?s) \<longleftrightarrow> streak x (seen_history [] (is @ [i])) = 2"
    unfolding events_of_def has_event_append transitions_events(1) [OF d] sn streak_snoc
    using h by (auto simp: processor_kind raises_def CONFIRMATIONS_def split: option.splits)
  moreover have "has_event Cleared x (events_of i ?s) \<longleftrightarrow> streak x (seen_history [] (is @ [i])) = 0 \<and> 2 \<le> streak x (seen_history [] is)"
    unfolding events_of_def has_event_append transitions_events(2) [OF d] sn streak_snoc
    using h by (auto simp: processor_kind split: option.splits)
  moreover have "x \<in> fst ` set (v_active (snd (snd (evaluate cfg outcome dumps i (?s, log))))) \<longleftrightarrow> 2 \<le> streak x (seen_history [] (is @ [i]))"
    using active_iff [OF held_ok_step [OF k, of cfg outcome i]] by (simp add: evaluate_def Let_def sn)
  ultimately show ?thesis by blast
qed

section \<open>The event log\<close>

definition last_n :: "nat \<Rightarrow> 'a list \<Rightarrow> 'a list" where
  "last_n n xs = drop (length xs - n) xs"

lemma last_n_append: "last_n n (last_n n xs @ ys) = last_n n (xs @ ys)"
proof (cases "length xs \<le> n")
  case False
  then have "length xs + length ys - n = length ys + (length xs - n)" by simp
  then show ?thesis using False by (simp add: last_n_def)
qed (simp add: last_n_def)

fun log_run :: "string list \<Rightarrow> (string \<Rightarrow> event \<Rightarrow> string option) \<Rightarrow> (event \<Rightarrow> string) \<Rightarrow> input list \<Rightarrow> alert_state \<times> string list \<Rightarrow> alert_state \<times> string list" where
  "log_run cfg outcome dumps [] st = st"
| "log_run cfg outcome dumps (i # is) st =
     (case evaluate cfg outcome dumps i st of (s, log, v) \<Rightarrow> log_run cfg outcome dumps is (s, log))"

fun all_events :: "string list \<Rightarrow> (string \<Rightarrow> event \<Rightarrow> string option) \<Rightarrow> input list \<Rightarrow> alert_state \<Rightarrow> event list" where
  "all_events cfg outcome [] s = []"
| "all_events cfg outcome (i # is) s = events_of i s @ all_events cfg outcome is (next_state cfg outcome i s)"

lemma append_events_tail:
  assumes "list_all (\<lambda>l. strip_by ws l \<noteq> []) log"
  shows "append_events dumps log ev = last_n EVENTS_KEPT (log @ map dumps ev)"
proof -
  have "filter (\<lambda>l. strip_by ws l \<noteq> []) log = log" using assms by (simp add: filter_id_conv list_all_iff)
  then show ?thesis by (simp add: append_events_def last_n_def Let_def)
qed

text \<open>
  The event log is bounded and loses only old events: whatever the evaluations, outputs and
  failures, after each of them it holds the last five hundred of all the events so far, in order,
  when the JSON text of an event is not blank.
\<close>

theorem alert_log_tail:
  assumes "\<And>e. strip_by ws (dumps e) \<noteq> []"
  shows "snd (log_run cfg outcome dumps is (fresh_state, [])) = last_n 500 (map dumps (all_events cfg outcome is fresh_state))"
proof -
  have t: "snd (log_run cfg outcome dumps is (s, last_n 500 (map dumps past))) = last_n 500 (map dumps (past @ all_events cfg outcome is s))" for s past
  proof (induction "is" arbitrary: s past)
    case (Cons i "is")
    have "list_all (\<lambda>l. strip_by ws l \<noteq> []) (last_n 500 (map dumps past))"
      using assms by (auto simp: list_all_iff last_n_def dest!: in_set_dropD)
    then have "(if events_of i s = [] then last_n 500 (map dumps past) else append_events dumps (last_n 500 (map dumps past)) (events_of i s))
       = last_n 500 (map dumps (past @ events_of i s))"
      using append_events_tail [of "last_n 500 (map dumps past)" dumps "events_of i s"] by (simp add: EVENTS_KEPT_def last_n_append)
    then show ?case using Cons.IH [of "next_state cfg outcome i s" "past @ events_of i s"] by (simp add: evaluate_def Let_def)
  qed simp
  from t [of fresh_state "[]"] show ?thesis by (simp add: last_n_def)
qed

definition boot_report :: "string \<Rightarrow> report" where
  "boot_report b = \<lparr>subsystems = [\<lparr>sub_id = ''dhcp'', sub_state = Some ''failed'', sub_plane = Some ''dp'', sub_summary = None, sub_details = []\<rparr>],
     processor_boots = [(''dp'', b)], overall = Some ''failed'', generation = None\<rparr>"

definition sample_inputs :: "input list" where
  "sample_inputs = [\<lparr>i_report = Some (boot_report ''one''), i_units = [], i_now = 100\<rparr>, \<lparr>i_report = Some (boot_report ''two''), i_units = [], i_now = 220\<rparr>]"

theorem alert_log_tail_witness:
  "snd (log_run [''email''] (\<lambda>_ _. Some ''refused'') line sample_inputs (fresh_state, [])) =
     [''ALERT raised [critical] subsystem:dhcp (dp): dhcp'', ''ALERT event [critical] processor-rebooted:dp (dp): DP processor booted again (boot two)'']"
proof -
  have "strip_by ws (line e) \<noteq> []" for e
  proof -
    have "\<not> ws (hd (line e))" "line e \<noteq> []" by (cases "kind e"; simp add: line_def ws_def)+
    then show ?thesis by (cases "line e") (auto simp: strip_by_def)
  qed
  from alert_log_tail [of line, OF this] have "snd (log_run [''email''] (\<lambda>_ _. Some ''refused'') line sample_inputs (fresh_state, []))
     = last_n 500 (map line (all_events [''email''] (\<lambda>_ _. Some ''refused'') sample_inputs fresh_state))" .
  also have "\<dots> = [''ALERT raised [critical] subsystem:dhcp (dp): dhcp'', ''ALERT event [critical] processor-rebooted:dp (dp): DP processor booted again (boot two)'']"
    by code_simp
  finally show ?thesis .
qed

end
