(* ===== verification/Update_Agent.thy ===== *)
theory Update_Agent
  imports Cpu_Lists Transition
begin

text \<open>
  The update agent, \<^verbatim>\<open>src/opt/ffn_updated.py\<close>: its policy, the GRUB files it reads and edits, the
  slots, and the commands that arm a one-shot boot, apply what policy allows and confirm or give
  up a new slot. GRUB itself is a parameter with its documented behaviour; the texts and exit
  codes of the commands the agent runs are part of the surroundings. Log lines are not modelled.
\<close>

section \<open>Policy\<close>

text \<open>What reading a text file gives: every line ends with a newline character.\<close>

function universal :: "string \<Rightarrow> string" where
  "universal [] = []"
| "universal (c # cs) = (if c = CHR 0x0D then CHR 0x0A # universal (if take 1 cs = [CHR 0x0A] then drop 1 cs else cs) else c # universal cs)"
  by pat_completeness auto

termination by (relation "measure length") auto

definition file_lines :: "string \<Rightarrow> string list" where
  "file_lines s = split_on CHR 0x0A (universal s)"

definition DEFAULT_POLICY :: "(string, string) odict" where
  "DEFAULT_POLICY = [(''auto_content'', ''yes''), (''auto_software'', ''yes''), (''auto_image_write'', ''yes''),
     (''auto_image_arm'', ''no''), (''auto_reboot'', ''no''), (''confirm_timeout'', ''300'')]"

definition policy_line :: "string \<Rightarrow> (string, string) odict \<Rightarrow> (string, string) odict" where
  "policy_line raw p =
     (let line = strip_by ws raw in
      if line \<noteq> [] \<and> take 1 line \<noteq> ''#'' \<and> CHR ''='' \<in> set line
      then dict_set (strip_by ws (before CHR ''='' line)) (strip_by ws (after CHR ''='' line)) p else p)"

definition policy :: "string option \<Rightarrow> (string, string) odict" where
  "policy text = (case text of None \<Rightarrow> DEFAULT_POLICY | Some s \<Rightarrow> fold policy_line (file_lines s) DEFAULT_POLICY)"

definition yes :: "string option \<Rightarrow> bool" where
  "yes v = (case v of None \<Rightarrow> False | Some s \<Rightarrow> py_lower (strip_by ws s) \<in> {''1'', ''yes'', ''true'', ''on''})"

section \<open>Slots and menu entries\<close>

definition slot_of :: "string \<Rightarrow> (string \<times> string) list" where
  "slot_of line =
     (case words_from [] line of
        name # label # path # rest \<Rightarrow> if label \<in> {''ffn-root'', ''ffn-recovery''} then [(path, label)] else []
      | _ \<Rightarrow> [])"

definition slots :: "string option \<Rightarrow> (string \<times> string) list" where
  "slots out = (case out of None \<Rightarrow> [] | Some s \<Rightarrow> concat (map slot_of (lines_from [] s)))"

definition is_quote :: "char \<Rightarrow> bool" where
  "is_quote c \<longleftrightarrow> c = CHR 0x22 \<or> c = CHR 0x27"

text \<open>The quoted name after \<^verbatim>\<open>menuentry\<close> or \<^verbatim>\<open>submenu\<close>, by the code's regular expression.\<close>

definition quoted_name :: "string \<Rightarrow> string option" where
  "quoted_name s =
     (case dropWhile ws s of
        q # r \<Rightarrow> if is_quote q \<and> takeWhile (\<lambda>c. \<not> is_quote c) r \<noteq> [] then Some (takeWhile (\<lambda>c. \<not> is_quote c) r) else None
      | [] \<Rightarrow> None)"

definition entry_step :: "string \<Rightarrow> string list \<times> nat \<Rightarrow> string list \<times> nat" where
  "entry_step raw st =
     (case st of (ents, depth) \<Rightarrow>
        let s = strip_by ws raw in
        if take 10 s = ''menuentry '' \<and> depth = 0 then
          (ents @ [case quoted_name (drop 9 s) of Some n \<Rightarrow> n | None \<Rightarrow> ''(unnamed)''], depth)
        else if take 8 s = ''submenu '' \<and> depth = 0 then
          (ents @ [(case quoted_name (drop 7 s) of Some n \<Rightarrow> n | None \<Rightarrow> ''(submenu)'') @ '' [submenu]''], depth + 1)
        else if depth \<noteq> 0 \<and> s = ''}'' then (ents, depth - 1)
        else if s \<noteq> [] \<and> last s = CHR ''{'' \<and> depth \<noteq> 0 then (ents, depth + 1)
        else (ents, depth))"

definition grub_entries :: "string option \<Rightarrow> string list" where
  "grub_entries cfg = (case cfg of None \<Rightarrow> [] | Some s \<Rightarrow> fst (fold entry_step (file_lines s) ([], 0)))"

text \<open>The first \<^verbatim>\<open>GRUB_DEFAULT=\<close> line decides whether a one-shot boot works.\<close>

definition GRUB_DEFAULT :: string where "GRUB_DEFAULT = ''GRUB_DEFAULT=''"
definition GRUB_SAVEDEFAULT :: string where "GRUB_SAVEDEFAULT = ''GRUB_SAVEDEFAULT=''"

definition grub_saved_default_ok :: "string option \<Rightarrow> bool" where
  "grub_saved_default_ok text =
     (case text of
        None \<Rightarrow> False
      | Some s \<Rightarrow>
          (case List.find (starts_with GRUB_DEFAULT) (file_lines s) of
             None \<Rightarrow> False
           | Some l \<Rightarrow>
               strip_by (\<lambda>c. c = CHR 0x27) (strip_by (\<lambda>c. c = CHR 0x22) (strip_by ws (drop (length GRUB_DEFAULT) l))) = ''saved''))"

text \<open>\<^verbatim>\<open>re.sub('^KEY=.*$', line, text, count=1)\<close>, or the given text appended when there is no such line.\<close>

fun replace_first :: "(string \<Rightarrow> bool) \<Rightarrow> string \<Rightarrow> string list \<Rightarrow> string list" where
  "replace_first P new [] = []"
| "replace_first P new (l # ls) = (if P l then new # ls else l # replace_first P new ls)"

definition set_line :: "string \<Rightarrow> string \<Rightarrow> string \<Rightarrow> string \<Rightarrow> string" where
  "set_line key new extra s =
     (let ls = file_lines s in
      if list_ex (starts_with key) ls then join_with [CHR 0x0A] (replace_first (starts_with key) (key @ new) ls)
      else join_with [CHR 0x0A] ls @ extra)"

definition setup_text :: "string \<Rightarrow> string" where
  "setup_text s =
     set_line GRUB_SAVEDEFAULT ''false'' (GRUB_SAVEDEFAULT @ ''false'' @ [CHR 0x0A])
       (set_line GRUB_DEFAULT ''saved'' ([CHR 0x0A] @ GRUB_DEFAULT @ ''saved'' @ [CHR 0x0A]) s)"

text \<open>The label of the running root, from the output of \<^verbatim>\<open>lsblk\<close>.\<close>

definition root_label :: "string option \<Rightarrow> string" where
  "root_label out =
     (case out of
        None \<Rightarrow> []
      | Some s \<Rightarrow> if strip_by ws s = [] then [] else strip_by ws (hd (lines_from [] (strip_by ws s))))"

definition names_slot :: "string \<Rightarrow> string \<Rightarrow> bool" where
  "names_slot label e =
     (label = ''ffn-recovery'' \<and> contains ''Recovery'' e
      \<or> label = ''ffn-root'' \<and> \<not> contains ''Recovery'' e \<and> \<not> contains ''submenu'' e)"

definition first_index :: "('a \<Rightarrow> bool) \<Rightarrow> 'a list \<Rightarrow> nat option" where
  "first_index P xs = List.find (\<lambda>i. P (xs ! i)) [0..<length xs]"

section \<open>Surroundings and state\<close>

record surround =
  policy_text :: "string option"
  defaults_text :: "string option"
  cfg_text :: "string option"
  running_root :: string
  label_out :: "string option"
  payload_rc :: "string \<Rightarrow> int"
  url :: string
  now :: int
  manager_active :: bool
  api_responds :: bool
  rootfs_rw :: bool

definition current_entry_index :: "surround \<Rightarrow> nat option" where
  "current_entry_index e =
     (if running_root e = [] then None
      else
        (let ents = grub_entries (cfg_text e) in
         case first_index (names_slot (root_label (label_out e))) ents of
           Some i \<Rightarrow> Some i
         | None \<Rightarrow> if ents = [] then None else Some 0))"

definition inactive_slot_entry :: "surround \<Rightarrow> nat option \<times> string option" where
  "inactive_slot_entry e =
     (let cur = (if running_root e = [] then [] else root_label (label_out e)) in
      if cur \<notin> {''ffn-root'', ''ffn-recovery''} then (None, None)
      else
        (let want = (if cur = ''ffn-root'' then ''ffn-recovery'' else ''ffn-root'') in
         (first_index (names_slot want) (grub_entries (cfg_text e)), Some want)))"

text \<open>The four checks of \<^verbatim>\<open>health\<close>; all of them must hold.\<close>

definition health_checks :: "surround \<Rightarrow> (string \<times> bool) list" where
  "health_checks e = [(''manager_active'', manager_active e), (''api_responds'', api_responds e), (''root_mounted'', running_root e \<noteq> []), (''rootfs_rw'', rootfs_rw e)]"

definition health_ok :: "surround \<Rightarrow> bool" where
  "health_ok e = list_all snd (health_checks e)"

definition mgmt_port :: "string option \<Rightarrow> nat" where
  "mgmt_port v = (case py_nat (case v of Some s \<Rightarrow> s | None \<Rightarrow> ''443'') of Some n \<Rightarrow> if 1 \<le> n \<and> n \<le> 65535 then n else 443 | None \<Rightarrow> 443)"

record pending_boot =
  armed_at :: int
  target_entry :: nat
  target_label :: string
  from_root :: string
  from_entry :: "nat option"

record agent =
  last_run :: "int option"
  last_applied :: "string list"
  pending :: "pending_boot option"
  last_rollback :: "(int \<times> pending_boot) option"
  last_failed_confirm :: "(int \<times> (string \<times> bool) list) option"
  last_commit :: "(int \<times> nat) option"

text \<open>GRUB: its environment, with the commands that may fail, and a boot.\<close>

record 'g grub =
  grub_reboot :: "nat \<Rightarrow> 'g \<Rightarrow> 'g option"
  grub_set_default :: "nat \<Rightarrow> 'g \<Rightarrow> 'g option"
  default_entry :: "'g \<Rightarrow> nat"
  next_entry :: "'g \<Rightarrow> nat option"
  after_boot :: "'g \<Rightarrow> 'g"

record 'g box =
  grubenv :: 'g
  agent_state :: agent
  reboots :: nat

section \<open>Commands\<close>

definition do_arm :: "'g grub \<Rightarrow> surround \<Rightarrow> nat \<Rightarrow> string \<Rightarrow> bool \<Rightarrow> 'g box \<Rightarrow> int \<times> 'g box" where
  "do_arm g e idx label force b =
     (if \<not> grub_saved_default_ok (defaults_text e) then (2, b)
      else if \<not> force then (0, b)
      else (case grub_reboot g idx (grubenv b) of
          None \<Rightarrow> (1, b)
        | Some v \<Rightarrow>
            (0, b\<lparr>grubenv := v, agent_state := (agent_state b)\<lparr>pending := Some
                 \<lparr>armed_at = now e, target_entry = idx, target_label = label, from_root = running_root e, from_entry = current_entry_index e\<rparr>\<rparr>\<rparr>)))"

text \<open>The texts of the command that prepares GRUB: result, new defaults file, and the pinned default.\<close>

definition cmd_setup_grub :: "'g grub \<Rightarrow> surround \<Rightarrow> bool \<Rightarrow> bool \<Rightarrow> 'g box \<Rightarrow> int \<times> string option \<times> 'g box" where
  "cmd_setup_grub g e mkconfig_ok force b =
     (if grub_saved_default_ok (defaults_text e) \<or> \<not> force then (0, defaults_text e, b)
      else (case defaults_text e of
          None \<Rightarrow> (1, None, b)
        | Some s \<Rightarrow>
            if \<not> mkconfig_ok then (1, Some (setup_text s), b)
            else (0, Some (setup_text s),
              (case current_entry_index e of
                 None \<Rightarrow> b
               | Some cur \<Rightarrow> (case grub_set_default g cur (grubenv b) of Some v \<Rightarrow> b\<lparr>grubenv := v\<rparr> | None \<Rightarrow> b)))))"

definition cmd_arm :: "'g grub \<Rightarrow> surround \<Rightarrow> nat option \<Rightarrow> bool \<Rightarrow> 'g box \<Rightarrow> int \<times> 'g box" where
  "cmd_arm g e slot force b =
     (case slot of
        Some n \<Rightarrow> do_arm g e n (''entry '' @ dec n) force b
      | None \<Rightarrow>
          (case inactive_slot_entry e of
             (Some idx, lbl) \<Rightarrow> do_arm g e idx (case lbl of Some l \<Rightarrow> l | None \<Rightarrow> []) force b
           | (None, lbl) \<Rightarrow> (2, b)))"

text \<open>Content and software, as far as policy allows.\<close>

definition run_kinds :: "surround \<Rightarrow> (string, string) odict \<Rightarrow> bool \<Rightarrow> string list" where
  "run_kinds e p force =
     map fst (filter (\<lambda>(kind, gate). yes (map_of p gate) \<and> payload_rc e kind = 0 \<and> force) [(''content'', ''auto_content''), (''software'', ''auto_software'')])"

text \<open>
  \<^verbatim>\<open>cmd_run\<close> reads the state before it arms and saves it afterwards, so what \<^verbatim>\<open>do_arm\<close> stores
  meanwhile is overwritten.
\<close>

definition run_image :: "'g grub \<Rightarrow> surround \<Rightarrow> (string, string) odict \<Rightarrow> bool \<Rightarrow> 'g box \<Rightarrow> string list \<times> 'g box" where
  "run_image g e p force b =
     (if \<not> yes (map_of p ''auto_image_write'') \<or> payload_rc e ''image'' \<noteq> 0 \<or> \<not> force then ([], b)
      else if \<not> yes (map_of p ''auto_image_arm'') then ([''image-written''], b)
      else (case inactive_slot_entry e of
          (None, lbl) \<Rightarrow> ([''image-written''], b)
        | (Some idx, lbl) \<Rightarrow>
            (case do_arm g e idx (case lbl of Some l \<Rightarrow> l | None \<Rightarrow> []) force b of (r, b') \<Rightarrow>
               if r = 0 then ([''image-written'', ''image-armed''], if yes (map_of p ''auto_reboot'') \<and> force then b'\<lparr>reboots := reboots b' + 1\<rparr> else b')
               else ([''image-written''], b'))))"

definition cmd_run :: "'g grub \<Rightarrow> surround \<Rightarrow> bool \<Rightarrow> 'g box \<Rightarrow> int \<times> 'g box" where
  "cmd_run g e force b =
     (if url e = [] then (2, b)
      else
        (let p = policy (policy_text e); st = (agent_state b)\<lparr>last_run := Some (now e)\<rparr>;
             (applied, b') = run_image g e p force b
         in (0, b'\<lparr>agent_state := st\<lparr>last_applied := run_kinds e p force @ applied\<rparr>\<rparr>)))"

definition cmd_confirm :: "'g grub \<Rightarrow> surround \<Rightarrow> 'g box \<Rightarrow> int \<times> 'g box" where
  "cmd_confirm g e b =
     (let st = agent_state b in
      case pending st of
        None \<Rightarrow> (0, b)
      | Some pend \<Rightarrow>
          if running_root e = from_root pend then (0, b\<lparr>agent_state := st\<lparr>last_rollback := Some (now e, pend), pending := None\<rparr>\<rparr>)
          else if \<not> health_ok e then (1, b\<lparr>agent_state := st\<lparr>last_failed_confirm := Some (now e, health_checks e), pending := None\<rparr>\<rparr>)
          else (case grub_set_default g (target_entry pend) (grubenv b) of
              None \<Rightarrow> (1, b)
            | Some v \<Rightarrow> (0, b\<lparr>grubenv := v, agent_state := st\<lparr>last_commit := Some (now e, target_entry pend), pending := None\<rparr>\<rparr>)))"

section \<open>The default slot\<close>

text \<open>
  What GRUB documents of its environment block, for a menu generated with \<^verbatim>\<open>GRUB_DEFAULT=saved\<close>: the
  one-shot entry is booted once, otherwise the saved default.
\<close>

definition grub_ok :: "'g grub \<Rightarrow> bool" where
  "grub_ok g \<longleftrightarrow>
     (\<forall>i v v'. grub_reboot g i v = Some v' \<longrightarrow> next_entry g v' = Some i \<and> default_entry g v' = default_entry g v)
     \<and> (\<forall>i v v'. grub_set_default g i v = Some v' \<longrightarrow> default_entry g v' = i \<and> next_entry g v' = next_entry g v)
     \<and> (\<forall>v. next_entry g (after_boot g v) = None \<and> default_entry g (after_boot g v) = default_entry g v)"

datatype action = Arm surround "nat option" bool | Run surround bool | Confirm surround | Setup surround bool bool | Boot "nat option"

text \<open>
  The box with the menu entry it runs. \<open>Boot (Some n)\<close> is a boot of a menu that does not follow the saved
  default: GRUB boots its fixed entry and ignores the environment block.
\<close>

fun act :: "'g grub \<Rightarrow> action \<Rightarrow> 'g box \<times> nat \<Rightarrow> 'g box \<times> nat" where
  "act g (Arm e slot force) (b, cur) = (snd (cmd_arm g e slot force b), cur)"
| "act g (Run e force) (b, cur) = (snd (cmd_run g e force b), cur)"
| "act g (Confirm e) (b, cur) = (snd (cmd_confirm g e b), cur)"
| "act g (Setup e mkconfig_ok force) (b, cur) = (snd (snd (cmd_setup_grub g e mkconfig_ok force b)), cur)"
| "act g (Boot (Some n)) (b, cur) = (b, n)"
| "act g (Boot None) (b, cur) =
     (b\<lparr>grubenv := after_boot g (grubenv b)\<rparr>, case next_entry g (grubenv b) of Some i \<Rightarrow> i | None \<Rightarrow> default_entry g (grubenv b))"

abbreviation default_of :: "'g grub \<Rightarrow> 'g box \<times> nat \<Rightarrow> nat" where
  "default_of g st \<equiv> default_entry g (grubenv (fst st))"

text \<open>A confirmation on another root than the one the boot was armed from, with every check passed.\<close>

definition commits :: "'g box \<times> nat \<Rightarrow> action \<Rightarrow> nat \<Rightarrow> bool" where
  "commits st a n \<longleftrightarrow>
     (\<exists>e p. a = Confirm e \<and> pending (agent_state (fst st)) = Some p \<and> health_ok e \<and> running_root e \<noteq> from_root p \<and> target_entry p = n)"

text \<open>A forced preparation of GRUB that went through: it pins the entry that the running slot goes by, unchecked.\<close>

definition pins :: "action \<Rightarrow> nat \<Rightarrow> bool" where
  "pins a n \<longleftrightarrow> (\<exists>e. a = Setup e True True \<and> current_entry_index e = Some n)"

text \<open>A defaults file without a line that sets the default to the saved one.\<close>

definition unprepared :: "surround \<Rightarrow> bool" where
  "unprepared e \<longleftrightarrow>
     (case defaults_text e of
        None \<Rightarrow> True
      | Some s \<Rightarrow> \<forall>l \<in> set (file_lines s). \<not> (starts_with ''GRUB_DEFAULT='' l \<and> contains ''saved'' l))"

lemma contains_append: "contains p (x @ p @ y)"
proof (induction x)
  case Nil
  show ?case by (cases p; cases y) (simp_all add: starts_with_def)
qed simp

lemma strip_by_parts: "\<exists>a b. s = a @ strip_by P s @ b"
proof -
  let ?t = "dropWhile P s"
  have "?t = rev (dropWhile P (rev ?t)) @ rev (takeWhile P (rev ?t))" by (metis rev_append rev_rev_ident takeWhile_dropWhile_id)
  then show ?thesis using takeWhile_dropWhile_id [of P s] unfolding strip_by_def by metis
qed

lemma unprepared_refused: "unprepared e \<Longrightarrow> \<not> grub_saved_default_ok (defaults_text e)"
proof
  assume u: "unprepared e" and k: "grub_saved_default_ok (defaults_text e)"
  obtain s l where s: "defaults_text e = Some s" "List.find (starts_with GRUB_DEFAULT) (file_lines s) = Some l"
    "strip_by (\<lambda>c. c = CHR 0x27) (strip_by (\<lambda>c. c = CHR 0x22) (strip_by ws (drop (length GRUB_DEFAULT) l))) = ''saved''"
    using k by (auto simp: grub_saved_default_ok_def split: option.splits)
  have l: "l \<in> set (file_lines s)" "starts_with GRUB_DEFAULT l" using s(2) by (auto simp: find_Some_iff)
  obtain a b where "drop (length GRUB_DEFAULT) l = a @ ''saved'' @ b"
    using strip_by_parts [of "drop (length GRUB_DEFAULT) l" ws] strip_by_parts [of "strip_by ws (drop (length GRUB_DEFAULT) l)" "\<lambda>c. c = CHR 0x22"]
      strip_by_parts [of "strip_by (\<lambda>c. c = CHR 0x22) (strip_by ws (drop (length GRUB_DEFAULT) l))" "\<lambda>c. c = CHR 0x27"] unfolding s(3)
    by (metis append.assoc)
  then have "contains ''saved'' l" using contains_append [of "''saved''" "take (length GRUB_DEFAULT) l @ a" b] by (metis append.assoc append_take_drop_id)
  then show False using u l by (auto simp: unprepared_def s(1) GRUB_DEFAULT_def)
qed

lemma do_arm_default: "grub_ok g \<Longrightarrow> default_entry g (grubenv (snd (do_arm g e idx lbl force b))) = default_entry g (grubenv b)"
  by (auto simp: do_arm_def grub_ok_def split: option.splits)

lemma cmd_arm_default: "grub_ok g \<Longrightarrow> default_entry g (grubenv (snd (cmd_arm g e slot force b))) = default_entry g (grubenv b)"
  by (auto simp: cmd_arm_def do_arm_default split: option.splits prod.splits)

lemma run_image_default: "grub_ok g \<Longrightarrow> default_entry g (grubenv (snd (run_image g e p force b))) = default_entry g (grubenv b)"
  using do_arm_default [of g e] by (auto simp: run_image_def split: option.splits prod.splits) (metis snd_conv)+

lemma cmd_run_default: "grub_ok g \<Longrightarrow> default_entry g (grubenv (snd (cmd_run g e force b))) = default_entry g (grubenv b)"
  using run_image_default [of g e "policy (policy_text e)" force b] by (auto simp: cmd_run_def Let_def split: prod.splits)

lemma cmd_confirm_default:
  "grub_ok g \<Longrightarrow> default_entry g (grubenv (snd (cmd_confirm g e b))) = default_entry g (grubenv b)
     \<or> commits (b, cur) (Confirm e) (default_entry g (grubenv (snd (cmd_confirm g e b))))"
  by (auto simp: cmd_confirm_def Let_def grub_ok_def commits_def split: option.splits)

lemma setup_default:
  "grub_ok g \<Longrightarrow> default_entry g (grubenv (snd (snd (cmd_setup_grub g e mk force b)))) = default_entry g (grubenv b)
     \<or> pins (Setup e mk force) (default_entry g (grubenv (snd (snd (cmd_setup_grub g e mk force b)))))"
  by (auto simp: cmd_setup_grub_def grub_ok_def pins_def split: option.splits)

lemma act_default:
  assumes "grub_ok g"
  shows "default_of g (act g a st) = default_of g st \<or> commits st a (default_of g (act g a st)) \<or> pins a (default_of g (act g a st))"
proof (cases st)
  case (Pair b cur)
  have "default_entry g (after_boot g v) = default_entry g v" for v using assms by (simp add: grub_ok_def)
  note facts = this cmd_arm_default [OF assms] cmd_run_default [OF assms] cmd_confirm_default [OF assms] setup_default [OF assms]
  show ?thesis
  proof (cases a)
    case (Boot m)
    then show ?thesis using Pair facts(1) by (cases m) simp_all
  next
    case (Setup e mk force)
    then show ?thesis using Pair facts(5) [of e mk force b] by auto
  next
    case (Confirm e)
    then show ?thesis using Pair facts(4) [of e b cur] by auto
  qed (use Pair facts in simp_all)
qed

lemma run_default:
  assumes "grub_ok g"
  shows "default_of g (run (act g) acts st) = default_of g st
     \<or> (\<exists>pre a post. acts = pre @ a # post
          \<and> (commits (run (act g) pre st) a (default_of g (run (act g) acts st)) \<or> pins a (default_of g (run (act g) acts st))))"
proof (induction acts arbitrary: st)
  case (Cons a acts)
  show ?case
  proof (cases "default_of g (run (act g) acts (act g a st)) = default_of g (act g a st)")
    case True
    then show ?thesis using act_default [OF assms, of a st] by (metis append_Nil run_simps(1,2))
  next
    case False
    then obtain pre x post where "acts = pre @ x # post"
      "commits (run (act g) pre (act g a st)) x (default_of g (run (act g) acts (act g a st))) \<or> pins x (default_of g (run (act g) acts (act g a st)))"
      using Cons.IH by blast
    then have "a # acts = (a # pre) @ x # post" "commits (run (act g) (a # pre) st) x (default_of g (run (act g) (a # acts) st)) \<or> pins x (default_of g (run (act g) (a # acts) st))" by simp_all
    then show ?thesis by blast
  qed
qed simp

lemma do_arm_refused: "unprepared e \<Longrightarrow> do_arm g e idx lbl force b = (2, b)"
  using unprepared_refused by (simp add: do_arm_def)

lemma cmd_arm_refused: "unprepared e \<Longrightarrow> snd (cmd_arm g e slot force b) = b"
  by (auto simp: cmd_arm_def do_arm_refused split: option.split prod.split)

lemma cmd_run_refused: "unprepared e \<Longrightarrow> grubenv (snd (cmd_run g e force b)) = grubenv b"
  by (auto simp: cmd_run_def run_image_def Let_def do_arm_refused split: option.split prod.split)

text \<open>
  (C15) Committing takes a positive act and rolling back takes none: whatever the agent is asked to do
  (arm, run, confirm, set up GRUB), in whatever order with reboots, two boots in a row of a menu
  that follows the saved default end on the default entry; and the default entry is still the
  first one unless a confirmation, run on a root other than the one its pending boot was armed from
  and with every health check passed, has made the pending target the default, or a forced
  \<^verbatim>\<open>setup-grub\<close> has pinned the entry that the running slot goes by, which it does without a health
  check. Arming and unattended runs leave GRUB's environment alone while no line of the defaults file
  sets \<^verbatim>\<open>GRUB_DEFAULT=saved\<close>, that is, while a one-shot entry would be ignored.
\<close>

theorem update_falls_back:
  assumes "grub_ok g" "final = run (act g) (acts @ [Boot None, Boot None]) st"
  shows "snd final = default_of g final
     \<and> (default_of g final = default_of g st
        \<or> (\<exists>pre a post. acts = pre @ a # post \<and> (commits (run (act g) pre st) a (default_of g final) \<or> pins a (default_of g final))))
     \<and> (unprepared e \<longrightarrow> (\<forall>slot force b cur. grubenv (fst (act g (Arm e slot force) (b, cur))) = grubenv b \<and> grubenv (fst (act g (Run e force) (b, cur))) = grubenv b))"
proof -
  obtain b cur where m: "run (act g) acts st = (b, cur)" by fastforce
  have d: "default_entry g (after_boot g v) = default_entry g v" "next_entry g (after_boot g v) = None" for v
    using assms(1) by (auto simp: grub_ok_def)
  have "snd final = default_of g final" "default_of g final = default_of g (run (act g) acts st)" unfolding assms(2) by (simp_all add: m d)
  moreover have "unprepared e \<longrightarrow> (\<forall>slot force b cur. grubenv (fst (act g (Arm e slot force) (b, cur))) = grubenv b \<and> grubenv (fst (act g (Run e force) (b, cur))) = grubenv b)"
    by (simp add: cmd_arm_refused cmd_run_refused)
  ultimately show ?thesis using run_default [OF assms(1), of acts st] by metis
qed

section \<open>What unattended runs do\<close>

lemma run_pending: "pending (agent_state (snd (cmd_run g e force b))) = pending (agent_state b)"
  by (simp add: cmd_run_def Let_def split: prod.splits)

text \<open>
  (C27) An update that an unattended run arms, when no boot was pending before the run, is not committed by
  the next confirmation: the run saves the agent state it read before arming, so the pending boot that
  arming stored is lost, and the confirmation after the reboot finds nothing to confirm and leaves
  the default alone, however healthy the new slot. (A boot left pending by an earlier arming stays
  on record, and a confirmation commits its target.)
\<close>

theorem auto_armed_not_committed:
  assumes "pending (agent_state b) = None"
  shows "cmd_confirm g e' (snd (cmd_run g e force b)) = (0, snd (cmd_run g e force b))"
  using assms run_pending [of g e force b] by (simp add: cmd_confirm_def)

text \<open>
  An unattended run keeps to its policy: without force, or unless the policy says yes to
  arming, it leaves GRUB alone and asks for no reboot; and it asks for one only if the policy
  says yes to rebooting as well.
\<close>

theorem run_keeps_policy:
  "(\<not> force \<or> \<not> yes (map_of (policy (policy_text e)) ''auto_image_arm'')
      \<longrightarrow> grubenv (snd (cmd_run g e force b)) = grubenv b \<and> reboots (snd (cmd_run g e force b)) = reboots b)
   \<and> (\<not> yes (map_of (policy (policy_text e)) ''auto_reboot'') \<longrightarrow> reboots (snd (cmd_run g e force b)) = reboots b)"
  by (auto simp: cmd_run_def run_image_def do_arm_def Let_def split: prod.splits option.splits)

section \<open>Preparing GRUB\<close>

lemma universal_no_cr: "CHR 0x0D \<notin> set (universal s)"
  by (induction s rule: universal.induct) auto

lemma universal_id: "CHR 0x0D \<notin> set s \<Longrightarrow> universal s = s"
  by (induction s rule: universal.induct) auto

lemma split_on_chars: "p \<in> set (split_on c s) \<Longrightarrow> x \<in> set p \<Longrightarrow> x \<in> set s"
  by (induction s arbitrary: p) (fastforce split: list.splits if_splits)+

definition plain_line :: "string \<Rightarrow> bool" where
  "plain_line l \<longleftrightarrow> CHR 0x0A \<notin> set l \<and> CHR 0x0D \<notin> set l"

lemma file_lines_plain: "list_all plain_line (file_lines s)"
  using split_on_parts [of _ "CHR 0x0A" "universal s"] split_on_chars [of _ "CHR 0x0A" "universal s"] universal_no_cr [of s]
  by (auto simp: list_all_iff plain_line_def file_lines_def)

lemma file_lines_join: "ls \<noteq> [] \<Longrightarrow> list_all plain_line ls \<Longrightarrow> file_lines (join_with [CHR 0x0A] ls) = ls"
proof -
  assume a: "ls \<noteq> []" "list_all plain_line ls"
  have "CHR 0x0D \<notin> set (join_with [CHR 0x0A] ls)" using a(2) by (auto simp: list_all_iff plain_line_def dest!: join_chars)
  then show ?thesis using a split_join [of ls "CHR 0x0A"] by (simp add: file_lines_def universal_id list_all_iff plain_line_def)
qed

lemma join_last_empty: "join_with sep (ms @ [[]]) @ k @ sep = join_with sep (ms @ [k, []])"
proof (induction ms)
  case (Cons m ms)
  have "ms @ [[]] \<noteq> []" "ms @ [k, []] \<noteq> []" by simp_all
  then show ?case using Cons.IH by (simp add: join_Cons)
qed simp

lemma replace_first_plain: "list_all plain_line ls \<Longrightarrow> plain_line new \<Longrightarrow> list_all plain_line (replace_first P new ls)"
  by (induction ls) auto

lemma replace_first_nonempty: "ls \<noteq> [] \<Longrightarrow> replace_first P new ls \<noteq> []"
  by (cases ls) auto

lemma replace_first_last: "ls \<noteq> [] \<Longrightarrow> \<not> P (last ls) \<Longrightarrow> last (replace_first P new ls) = last ls"
  by (induction ls) (auto simp: replace_first_nonempty)

lemma find_replace_same: "list_ex P ls \<Longrightarrow> P new \<Longrightarrow> List.find P (replace_first P new ls) = Some new"
  by (induction ls) auto

lemma find_replace_other: "\<not> P new \<Longrightarrow> (\<And>l. Q l \<Longrightarrow> \<not> P l) \<Longrightarrow> List.find P (replace_first Q new ls) = List.find P ls"
  by (induction ls) auto

lemma find_append: "List.find P (xs @ ys) = (case List.find P xs of Some x \<Rightarrow> Some x | None \<Rightarrow> List.find P ys)"
  by (induction xs) auto

text \<open>The lines after \<^const>\<open>set_line\<close>, for a text whose last line is complete.\<close>

lemma set_line_lines:
  assumes "last (file_lines s) = []" "key \<noteq> []" "plain_line (key @ new)" "sep = [] \<or> sep = [CHR 0x0A]"
  shows "file_lines (set_line key new (sep @ (key @ new) @ [CHR 0x0A]) s) =
     (if list_ex (starts_with key) (file_lines s) then replace_first (starts_with key) (key @ new) (file_lines s)
      else butlast (file_lines s) @ (if sep = [CHR 0x0A] then [[], key @ new, []] else [key @ new, []]))"
proof -
  let ?ls = "file_lines s"
  have ne: "?ls \<noteq> []" by (simp add: file_lines_def split_on_nonempty)
  have ls: "?ls = butlast ?ls @ [[]]" using append_butlast_last_id [OF ne] assms(1) by simp
  have pl: "list_all plain_line ?ls" "list_all plain_line (butlast ?ls)" using file_lines_plain [of s] ls by (auto simp: list_all_iff dest: in_set_butlastD)
  have p0: "plain_line []" by (simp add: plain_line_def)
  show ?thesis
  proof (cases "list_ex (starts_with key) ?ls")
    case True
    then show ?thesis using ne pl(1) assms(3) by (simp add: set_line_def Let_def file_lines_join replace_first_nonempty replace_first_plain)
  next
    case False
    have j1: "join_with [CHR 0x0A] ?ls @ [CHR 0x0A] = join_with [CHR 0x0A] (butlast ?ls @ [[], []])"
      using join_last_empty [of "[CHR 0x0A]" "butlast ?ls" "[]"] ls by simp
    have "join_with [CHR 0x0A] ?ls @ [CHR 0x0A] @ (key @ new) @ [CHR 0x0A] = (join_with [CHR 0x0A] ?ls @ [CHR 0x0A]) @ (key @ new) @ [CHR 0x0A]" by simp
    also have "\<dots> = join_with [CHR 0x0A] (butlast ?ls @ [[], key @ new, []])"
      unfolding j1 using join_last_empty [of "[CHR 0x0A]" "butlast ?ls @ [[]]" "key @ new"] by simp
    finally have "join_with [CHR 0x0A] ?ls @ [CHR 0x0A] @ (key @ new) @ [CHR 0x0A] = join_with [CHR 0x0A] (butlast ?ls @ [[], key @ new, []])" .
    moreover have "join_with [CHR 0x0A] ?ls @ (key @ new) @ [CHR 0x0A] = join_with [CHR 0x0A] (butlast ?ls @ [key @ new, []])"
      using join_last_empty [of "[CHR 0x0A]" "butlast ?ls" "key @ new"] ls by simp
    moreover have "file_lines (join_with [CHR 0x0A] (butlast ?ls @ [key @ new, []])) = butlast ?ls @ [key @ new, []]"
      "file_lines (join_with [CHR 0x0A] (butlast ?ls @ [[], key @ new, []])) = butlast ?ls @ [[], key @ new, []]"
      using pl(2) assms(3) p0 by (simp_all add: file_lines_join)
    ultimately show ?thesis using False assms(4) by (auto simp: set_line_def Let_def)
  qed
qed

lemma prefixes:
  "plain_line (GRUB_DEFAULT @ ''saved'')" "plain_line (GRUB_SAVEDEFAULT @ ''false'')" "\<not> starts_with GRUB_DEFAULT []" "\<not> starts_with GRUB_SAVEDEFAULT []"
  "starts_with GRUB_DEFAULT (GRUB_DEFAULT @ ''saved'')" "\<not> starts_with GRUB_DEFAULT (GRUB_SAVEDEFAULT @ ''false'')"
  by (simp_all add: plain_line_def starts_with_def GRUB_DEFAULT_def GRUB_SAVEDEFAULT_def)

lemma prefixes_differ: "starts_with GRUB_SAVEDEFAULT l \<Longrightarrow> \<not> starts_with GRUB_DEFAULT l"
proof
  assume "starts_with GRUB_SAVEDEFAULT l" "starts_with GRUB_DEFAULT l"
  then have "l ! 5 = CHR ''S''" "l ! 5 = CHR ''D''"
    unfolding starts_with_def GRUB_SAVEDEFAULT_def GRUB_DEFAULT_def
    using nth_take [of 5 "length ''GRUB_SAVEDEFAULT=''" l] nth_take [of 5 "length ''GRUB_DEFAULT=''" l] by auto
  then show False by simp
qed

text \<open>
  Preparing GRUB makes one-shot boots work: after the edit of a defaults file whose last
  line is complete, whatever its lines are, the check that arming a slot depends on succeeds.
\<close>

theorem setup_grub_enables:
  assumes "last (file_lines s) = []"
  shows "grub_saved_default_ok (Some (setup_text s))"
proof -
  let ?t = "set_line GRUB_DEFAULT ''saved'' ([CHR 0x0A] @ (GRUB_DEFAULT @ ''saved'') @ [CHR 0x0A]) s"
  note k = prefixes
  have t: "file_lines ?t = (if list_ex (starts_with GRUB_DEFAULT) (file_lines s) then replace_first (starts_with GRUB_DEFAULT) (GRUB_DEFAULT @ ''saved'') (file_lines s)
      else butlast (file_lines s) @ [[], GRUB_DEFAULT @ ''saved'', []])"
    using set_line_lines [OF assms, of GRUB_DEFAULT "''saved''" "[CHR 0x0A]"] k(1) by (simp add: GRUB_DEFAULT_def)
  have ne: "file_lines s \<noteq> []" by (simp add: file_lines_def split_on_nonempty)
  have f: "List.find (starts_with GRUB_DEFAULT) (file_lines ?t) = Some (GRUB_DEFAULT @ ''saved'')"
  proof (cases "list_ex (starts_with GRUB_DEFAULT) (file_lines s)")
    case True
    then show ?thesis using t k(5) by (simp add: find_replace_same)
  next
    case False
    then have "List.find (starts_with GRUB_DEFAULT) (butlast (file_lines s)) = None"
      by (auto simp: find_None_iff list_ex_iff dest: in_set_butlastD)
    then show ?thesis using False t k(3,5) by (simp add: find_append)
  qed
  have l: "last (file_lines ?t) = []" using t assms ne k(3) by (simp add: replace_first_last)
  have u: "setup_text s = set_line GRUB_SAVEDEFAULT ''false'' ([] @ (GRUB_SAVEDEFAULT @ ''false'') @ [CHR 0x0A]) ?t" by (simp add: setup_text_def)
  have "file_lines (setup_text s) = (if list_ex (starts_with GRUB_SAVEDEFAULT) (file_lines ?t)
      then replace_first (starts_with GRUB_SAVEDEFAULT) (GRUB_SAVEDEFAULT @ ''false'') (file_lines ?t)
      else butlast (file_lines ?t) @ [GRUB_SAVEDEFAULT @ ''false'', []])"
    unfolding u using set_line_lines [OF l, of GRUB_SAVEDEFAULT "''false''" "[]"] k(2) by (simp add: GRUB_SAVEDEFAULT_def)
  moreover have "List.find (starts_with GRUB_DEFAULT) (butlast (file_lines ?t)) = Some (GRUB_DEFAULT @ ''saved'')"
  proof -
    have "file_lines ?t = butlast (file_lines ?t) @ [[]]" using l append_butlast_last_id [of "file_lines ?t"] by (simp add: file_lines_def split_on_nonempty)
    then have "List.find (starts_with GRUB_DEFAULT) (butlast (file_lines ?t) @ [[]]) = Some (GRUB_DEFAULT @ ''saved'')" using f by simp
    then show ?thesis using k(3) by (simp add: find_append split: option.splits)
  qed
  ultimately have "List.find (starts_with GRUB_DEFAULT) (file_lines (setup_text s)) = Some (GRUB_DEFAULT @ ''saved'')"
    using f k(6) find_replace_other [of "starts_with GRUB_DEFAULT" "GRUB_SAVEDEFAULT @ ''false''" "starts_with GRUB_SAVEDEFAULT"] prefixes_differ
    by (simp add: find_append)
  then show ?thesis by (simp add: grub_saved_default_ok_def) code_simp
qed

text \<open>
  Without a newline at the end of the file the second setting is appended to the first one's
  line, and the edit does not enable one-shot boots.
\<close>

lemma setup_grub_unterminated: "\<not> grub_saved_default_ok (Some (setup_text ''GRUB_DEFAULT=0''))"
  by code_simp

section \<open>A concrete box\<close>

record grubenv_block =
  saved :: nat
  once :: "nat option"

definition plain_grub :: "grubenv_block grub" where
  "plain_grub = \<lparr>grub_reboot = (\<lambda>i v. Some (v\<lparr>once := Some i\<rparr>)), grub_set_default = (\<lambda>i v. Some (v\<lparr>saved := i\<rparr>)),
     default_entry = saved, next_entry = once, after_boot = (\<lambda>v. v\<lparr>once := None\<rparr>)\<rparr>"

lemma plain_grub_ok: "grub_ok plain_grub"
  by (simp add: grub_ok_def plain_grub_def)

definition on_root :: "string \<Rightarrow> string \<Rightarrow> bool \<Rightarrow> surround" where
  "on_root r label healthy =
     \<lparr>policy_text = Some (''auto_image_arm = yes'' @ [CHR 0x0A]), defaults_text = Some ''GRUB_DEFAULT=saved'',
      cfg_text = Some (''menuentry '' @ [CHR 0x27] @ ''FFN NGFW'' @ [CHR 0x27] @ '' {'' @ [CHR 0x0A, CHR ''}'', CHR 0x0A]
        @ ''menuentry '' @ [CHR 0x27] @ ''FFN Recovery'' @ [CHR 0x27] @ '' {'' @ [CHR 0x0A, CHR ''}'', CHR 0x0A]),
      running_root = r, label_out = Some label, payload_rc = (\<lambda>_. 0), url = ''https://updates'', now = 7,
      manager_active = healthy, api_responds = healthy, rootfs_rw = True\<rparr>"

definition idle_box :: "grubenv_block box" where
  "idle_box = \<lparr>grubenv = \<lparr>saved = 0, once = None\<rparr>,
     agent_state = \<lparr>last_run = None, last_applied = [], pending = None, last_rollback = None, last_failed_confirm = None, last_commit = None\<rparr>, reboots = 0\<rparr>"

abbreviation failed_update :: "action list" where
  "failed_update \<equiv> [Arm (on_root ''/dev/sda2'' ''ffn-root'' True) None True, Boot None, Confirm (on_root ''/dev/sda3'' ''ffn-recovery'' False)]"

theorem update_falls_back_witness:
  "snd (run (act plain_grub) [Arm (on_root ''/dev/sda2'' ''ffn-root'' True) None True, Boot None] (idle_box, 0)) = 1
   \<and> snd (run (act plain_grub) (failed_update @ [Boot None, Boot None]) (idle_box, 0)) = 0"
proof -
  have "snd (run (act plain_grub) [Arm (on_root ''/dev/sda2'' ''ffn-root'' True) None True, Boot None] (idle_box, 0)) = 1" by code_simp
  moreover have "default_of plain_grub (run (act plain_grub) (failed_update @ [Boot None, Boot None]) (idle_box, 0)) = 0" by code_simp
  ultimately show ?thesis using update_falls_back [OF plain_grub_ok refl, of failed_update "(idle_box, 0)" "on_root ''/dev/sda2'' ''ffn-root'' True"] by simp
qed

theorem auto_armed_not_committed_witness:
  "last_applied (agent_state (snd (cmd_run plain_grub (on_root ''/dev/sda2'' ''ffn-root'' True) True idle_box))) = [''content'', ''software'', ''image-written'', ''image-armed'']
   \<and> once (grubenv (snd (cmd_run plain_grub (on_root ''/dev/sda2'' ''ffn-root'' True) True idle_box))) = Some 1
   \<and> last_commit (agent_state (snd (cmd_confirm plain_grub (on_root ''/dev/sda3'' ''ffn-recovery'' True)
        (snd (cmd_run plain_grub (on_root ''/dev/sda2'' ''ffn-root'' True) True idle_box))))) = None"
proof -
  let ?b = "snd (cmd_run plain_grub (on_root ''/dev/sda2'' ''ffn-root'' True) True idle_box)"
  have 1: "last_applied (agent_state ?b) = [''content'', ''software'', ''image-written'', ''image-armed'']" by code_simp
  have 2: "once (grubenv ?b) = Some 1" by code_simp
  have 3: "last_commit (agent_state ?b) = None" by code_simp
  have "pending (agent_state idle_box) = None" by (simp add: idle_box_def)
  from auto_armed_not_committed [OF this] have "snd (cmd_confirm plain_grub (on_root ''/dev/sda3'' ''ffn-recovery'' True) ?b) = ?b" by simp
  then show ?thesis using 1 2 3 by simp
qed

theorem run_keeps_policy_witness:
  "grubenv (snd (cmd_run plain_grub ((on_root ''/dev/sda2'' ''ffn-root'' True)\<lparr>policy_text := None\<rparr>) True idle_box)) = grubenv idle_box"
proof -
  have "\<not> yes (map_of (policy (policy_text ((on_root ''/dev/sda2'' ''ffn-root'' True)\<lparr>policy_text := None\<rparr>))) ''auto_image_arm'')" by code_simp
  then show ?thesis using run_keeps_policy [of True "(on_root ''/dev/sda2'' ''ffn-root'' True)\<lparr>policy_text := None\<rparr>" plain_grub idle_box] by blast
qed

theorem setup_grub_enables_witness: "grub_saved_default_ok (Some (setup_text (''GRUB_DEFAULT=0'' @ [CHR 0x0A])))"
proof -
  have "last (file_lines (''GRUB_DEFAULT=0'' @ [CHR 0x0A])) = []" by code_simp
  then show ?thesis by (rule setup_grub_enables)
qed

text \<open>
  A confirmation commits the armed target, not the slot it runs on: from a third root it makes a
  slot the default that has never come up.
\<close>

lemma confirm_commits_other_slot:
  "let st = run (act plain_grub) [Arm (on_root ''/dev/sda2'' ''ffn-root'' True) (Some 1) True, Boot None, Confirm (on_root ''/dev/sdb1'' ''rescue'' True)] (idle_box, 0)
   in default_of plain_grub st = 1"
  by code_simp

end
