(* ===== verification/Ed25519.thy ===== *)
theory Ed25519
  imports Prelude
begin

text \<open>
  Ed25519, \<^verbatim>\<open>src/opt/ffn_ed25519.py\<close>: the curve parameters, point arithmetic in extended
  coordinates, scalar multiplication, point encoding, and the signature functions. The hash
  \<^verbatim>\<open>SHA-512\<close> is a parameter, from byte strings to byte strings. Python's integers are \<^typ>\<open>int\<close>.
  An exception inside \<^verbatim>\<open>verify\<close> is its answer no.
\<close>

section \<open>Field and curve\<close>

text \<open>\<^verbatim>\<open>pow(x, n, m)\<close>\<close>

fun pow_mod :: "int \<Rightarrow> nat \<Rightarrow> int \<Rightarrow> int" where
  "pow_mod x n m =
     (if n = 0 then 1 mod m
      else let r = pow_mod x (n div 2) m; s = r * r mod m in if odd n then s * x mod m else s)"

declare pow_mod.simps [simp del]

definition Q :: int where "Q = 2 ^ 255 - 19"
definition L :: int where "L = 2 ^ 252 + 27742317777372353535851937790883648493"
definition D :: int where "D = (- 121665 * pow_mod 121666 (nat (Q - 2)) Q) mod Q"
definition I :: int where "I = pow_mod 2 (nat ((Q - 1) div 4)) Q"

definition inv :: "int \<Rightarrow> int" where
  "inv x = pow_mod x (nat (Q - 2)) Q"

definition xrecover :: "int \<Rightarrow> int" where
  "xrecover y =
     (let xx = (y * y - 1) * inv (D * y * y + 1);
          x = pow_mod xx (nat ((Q + 3) div 8)) Q;
          x = (if (x * x - xx) mod Q \<noteq> 0 then (x * I) mod Q else x)
      in if x mod 2 \<noteq> 0 then Q - x else x)"

type_synonym point = "int \<times> int \<times> int \<times> int"

definition By :: int where "By = 4 * inv 5 mod Q"
definition Bx :: int where "Bx = xrecover By"
definition B_EXT :: point where "B_EXT = (Bx mod Q, By mod Q, 1, Bx * By mod Q)"

definition ext_add :: "point \<Rightarrow> point \<Rightarrow> point" where
  "ext_add P1 P2 =
     (case (P1, P2) of ((X1, Y1, Z1, T1), (X2, Y2, Z2, T2)) \<Rightarrow>
        let a = (Y1 - X1) * (Y2 - X2) mod Q;
            b = (Y1 + X1) * (Y2 + X2) mod Q;
            c = T1 * 2 * D * T2 mod Q;
            dd = Z1 * 2 * Z2 mod Q;
            e = b - a; f = dd - c; g = dd + c; h = b + a
        in (e * f mod Q, g * h mod Q, f * g mod Q, e * h mod Q))"

definition ext_double :: "point \<Rightarrow> point" where
  "ext_double P =
     (case P of (X1, Y1, Z1, T1) \<Rightarrow>
        let a = X1 * X1 mod Q;
            b = Y1 * Y1 mod Q;
            c = 2 * Z1 * Z1 mod Q;
            h = (a + b) mod Q;
            e = (h - (X1 + Y1) * (X1 + Y1)) mod Q;
            g = (a - b) mod Q;
            f = (c + g) mod Q
        in (e * f mod Q, g * h mod Q, f * g mod Q, e * h mod Q))"

text \<open>The binary digits of a positive number, most significant first.\<close>

fun bits :: "nat \<Rightarrow> bool list" where
  "bits n = (if n < 2 then [n = 1] else bits (n div 2) @ [odd n])"

declare bits.simps [simp del]

definition mult_step :: "point \<Rightarrow> bool \<Rightarrow> point \<Rightarrow> point" where
  "mult_step P one R = (let R = ext_double R in if one then ext_add R P else R)"

definition scalarmult :: "point \<Rightarrow> nat \<Rightarrow> point" where
  "scalarmult P e = (if e = 0 then (0, 1, 1, 0) else fold (mult_step P) (bits e) (0, 1, 1, 0))"

definition affine :: "point \<Rightarrow> int \<times> int" where
  "affine P = (case P of (X, Y, Z, _) \<Rightarrow> let zi = inv Z in (X * zi mod Q, Y * zi mod Q))"

definition on_curve :: "point \<Rightarrow> bool" where
  "on_curve P = (case affine P of (x, y) \<Rightarrow> (- x * x + y * y - 1 - D * x * x * y * y) mod Q = 0)"

section \<open>Encoding\<close>

definition encode_point :: "point \<Rightarrow> bytes" where
  "encode_point P = (case affine P of (x, y) \<Rightarrow> to_le 32 (nat (y OR push_bit 255 (x AND 1))))"

text \<open>Of a string of 32 bytes: the top bit is the sign, the others are the coordinate.\<close>

definition decode_point :: "bytes \<Rightarrow> point res" where
  "decode_point s =
     (let y = int (from_le s) mod 2 ^ 255;
          sign = int (unat (s ! 31)) div 128 mod 2;
          x = xrecover y;
          x = (if x mod 2 \<noteq> sign then Q - x else x);
          P = (x, y, 1, x * y mod Q)
      in ok (on_curve P) (ValueError ''point is not on the curve'') (Inr P))"

definition clamp :: "bytes \<Rightarrow> nat" where
  "clamp h = (from_le (take 32 h) AND (2 ^ 254 - 8)) OR 2 ^ 254"

section \<open>Signatures\<close>

definition publickey :: "(bytes \<Rightarrow> bytes) \<Rightarrow> bytes \<Rightarrow> bytes res" where
  "publickey sha512 seed =
     ok (length seed = 32) (ValueError ''seed must be 32 bytes'') (Inr (encode_point (scalarmult B_EXT (clamp (sha512 seed)))))"

definition sign :: "(bytes \<Rightarrow> bytes) \<Rightarrow> bytes \<Rightarrow> bytes \<Rightarrow> bytes option \<Rightarrow> bytes res" where
  "sign sha512 msg seed pub0 =
     ok (length seed = 32) (ValueError ''seed must be 32 bytes'')
       (let h = sha512 seed; a = clamp h;
            pub = (case pub0 of Some p \<Rightarrow> p | None \<Rightarrow> encode_point (scalarmult B_EXT a));
            r = from_le (sha512 (drop 32 h @ msg)) mod nat L;
            R = encode_point (scalarmult B_EXT r);
            k = from_le (sha512 (R @ pub @ msg)) mod nat L;
            s = (r + k * a) mod nat L
        in Inr (R @ to_le 32 s))"

definition verify :: "(bytes \<Rightarrow> bytes) \<Rightarrow> bytes \<Rightarrow> bytes \<Rightarrow> bytes \<Rightarrow> bool" where
  "verify sha512 msg sig pub =
     (if length sig \<noteq> 64 \<or> length pub \<noteq> 32 then False
      else
        (case (decode_point (take 32 sig), decode_point pub) of
           (Inr R, Inr A) \<Rightarrow>
             (let s = from_le (drop 32 sig) in
              if int s \<ge> L then False
              else
                (let k = from_le (sha512 (take 32 sig @ pub @ msg)) mod nat L;
                     lhs = scalarmult B_EXT s;
                     rhs = ext_add R (scalarmult A k)
                 in affine lhs = affine rhs))
         | _ \<Rightarrow> False))"

section \<open>Points stay on the curve\<close>

text \<open>
  The extended twisted Edwards curve: \<^verbatim>\<open>-X\<^sup>2 + Y\<^sup>2 = Z\<^sup>2 + D T\<^sup>2\<close> and \<^verbatim>\<open>X Y = Z T\<close>, modulo the prime.
\<close>

definition ext_ok :: "point \<Rightarrow> bool" where
  "ext_ok P = (case P of (X, Y, Z, T) \<Rightarrow> (X * Y) mod Q = (Z * T) mod Q \<and> (Y * Y - X * X) mod Q = (Z * Z + D * (T * T)) mod Q)"

text \<open>The sum formulas without the inner reductions.\<close>

lemma ext_add_alt:
  "ext_add (X1, Y1, Z1, T1) (X2, Y2, Z2, T2) =
     (let E = 2 * (X1 * Y2 + X2 * Y1); H = 2 * (Y1 * Y2 + X1 * X2); F = 2 * (Z1 * Z2 - D * (T1 * T2)); G = 2 * (Z1 * Z2 + D * (T1 * T2))
      in (E * F mod Q, G * H mod Q, F * G mod Q, E * H mod Q))"
proof -
  let ?a = "(Y1 - X1) * (Y2 - X2)" and ?b = "(Y1 + X1) * (Y2 + X2)" and ?c = "T1 * 2 * D * T2" and ?d = "Z1 * 2 * Z2"
  have m: "(u mod Q - v mod Q) mod Q = (u - v) mod Q" "(u mod Q + v mod Q) mod Q = (u + v) mod Q" for u v :: int
    by (simp_all add: mod_simps)
  have p: "x * y mod Q = (x mod Q) * (y mod Q) mod Q" for x y :: int by (simp add: mod_mult_eq)
  have "?b - ?a = 2 * (X1 * Y2 + X2 * Y1)" "?b + ?a = 2 * (Y1 * Y2 + X1 * X2)" "?d - ?c = 2 * (Z1 * Z2 - D * (T1 * T2))" "?d + ?c = 2 * (Z1 * Z2 + D * (T1 * T2))"
    by (simp_all add: algebra_simps)
  moreover have "ext_add (X1, Y1, Z1, T1) (X2, Y2, Z2, T2) =
      ((?b - ?a) * (?d - ?c) mod Q, (?d + ?c) * (?b + ?a) mod Q, (?d - ?c) * (?d + ?c) mod Q, (?b - ?a) * (?b + ?a) mod Q)"
    unfolding ext_add_def prod.case Let_def
    by (simp only: prod.inject, intro conjI; subst p, subst (2) p, simp only: m)
  ultimately show ?thesis by (simp only: Let_def)
qed

lemma ext_double_alt:
  "ext_double (X, Y, Z, T) =
     (let e = - (2 * (X * Y)); g = X * X - Y * Y; f = 2 * (Z * Z) + g; h = X * X + Y * Y
      in (e * f mod Q, g * h mod Q, f * g mod Q, e * h mod Q))"
proof -
  let ?e = "X * X + Y * Y - (X + Y) * (X + Y)" and ?g = "X * X - Y * Y" and ?h = "X * X + Y * Y"
  have "?e = - (2 * (X * Y))" by (simp add: algebra_simps)
  moreover have "ext_double (X, Y, Z, T) =
      (?e * (2 * Z * Z + ?g) mod Q, ?g * ?h mod Q, (2 * Z * Z + ?g) * ?g mod Q, ?e * ?h mod Q)"
    unfolding ext_double_def prod.case Let_def by (simp add: mod_simps)
  ultimately show ?thesis by (simp only: Let_def mult.assoc)
qed

text \<open>
  The identity behind the addition law: with \<^verbatim>\<open>N\<^sub>i = Y\<^sub>i\<^sup>2 - X\<^sub>i\<^sup>2\<close>, \<^verbatim>\<open>P\<^sub>i = X\<^sub>i Y\<^sub>i\<close> and
  \<^verbatim>\<open>S\<^sub>i = X\<^sub>i\<^sup>2 + Y\<^sub>i\<^sup>2\<close>, the curve polynomial of the sum is one in these, the \<^verbatim>\<open>Z\<^sub>i\<close> and the \<^verbatim>\<open>T\<^sub>i\<close>.
\<close>

definition sum_poly :: "int \<Rightarrow> int \<Rightarrow> int \<Rightarrow> int \<Rightarrow> int \<Rightarrow> int \<Rightarrow> int \<Rightarrow> int \<Rightarrow> int \<Rightarrow> int" where
  "sum_poly d Z T N1 N2 P1 P2 S1 S2 =
     (Z * Z + d * d * (T * T)) * (N1 * N2) + 2 * d * (Z * T) * (S1 * S2 + 4 * (P1 * P2))
     - (Z * Z - d * d * (T * T)) * (Z * Z - d * d * (T * T))
     - d * (P1 * P1 * (N2 * N2 + 4 * (P2 * P2)) + P2 * P2 * (N1 * N1 + 4 * (P1 * P1)) + 2 * (P1 * P2) * (S1 * S2))"

lemma sum_poly_exact:
  fixes X1 X2 Y1 Y2 Z T d :: int
  defines "E \<equiv> X1 * Y2 + X2 * Y1" and "H \<equiv> Y1 * Y2 + X1 * X2" and "F \<equiv> Z - d * T" and "G \<equiv> Z + d * T"
  shows "G * G * (H * H) - F * F * (E * E) - F * F * (G * G) - d * (E * E * (H * H)) =
     sum_poly d Z T (Y1 * Y1 - X1 * X1) (Y2 * Y2 - X2 * X2) (X1 * Y1) (X2 * Y2) (X1 * X1 + Y1 * Y1) (X2 * X2 + Y2 * Y2)"
  unfolding sum_poly_def E_def H_def F_def G_def by algebra

lemma sum_poly_zero:
  "sum_poly d (Z1 * Z2) (T1 * T2) (Z1 * Z1 + d * (T1 * T1)) (Z2 * Z2 + d * (T2 * T2)) (Z1 * T1) (Z2 * T2) S1 S2 = 0"
proof -
  have "sum_poly d (Z1 * Z2) (T1 * T2) (Z1 * Z1 + d * (T1 * T1)) (Z2 * Z2 + d * (T2 * T2)) (Z1 * T1) (Z2 * T2) S1 S2
     = sum_poly d (Z1 * Z2) (T1 * T2) (Z1 * Z1 + d * (T1 * T1)) (Z2 * Z2 + d * (T2 * T2)) (Z1 * T1) (Z2 * T2) 0 0"
    unfolding sum_poly_def by algebra
  also have "\<dots> = 0" unfolding sum_poly_def by algebra
  finally show ?thesis .
qed

lemmas mod_poly_cong = mod_add_cong mod_diff_cong mod_mult_cong

lemma ext_ok_mod: "ext_ok (X mod Q, Y mod Q, Z mod Q, T mod Q) \<longleftrightarrow> ext_ok (X, Y, Z, T)"
proof -
  have "X mod Q * (Y mod Q) mod Q = X * Y mod Q" "Z mod Q * (T mod Q) mod Q = Z * T mod Q" by (simp_all add: mod_mult_eq)
  moreover have "(Y mod Q * (Y mod Q) - X mod Q * (X mod Q)) mod Q = (Y * Y - X * X) mod Q" by (intro mod_poly_cong) simp_all
  moreover have "(Z mod Q * (Z mod Q) + D * (T mod Q * (T mod Q))) mod Q = (Z * Z + D * (T * T)) mod Q" by (intro mod_poly_cong) simp_all
  ultimately show ?thesis by (simp add: ext_ok_def)
qed

lemma sum_poly_cong:
  assumes "N1 mod Q = N1' mod Q" "N2 mod Q = N2' mod Q" "P1 mod Q = P1' mod Q" "P2 mod Q = P2' mod Q"
  shows "sum_poly d Z T N1 N2 P1 P2 S1 S2 mod Q = sum_poly d Z T N1' N2' P1' P2' S1 S2 mod Q"
  unfolding sum_poly_def by (intro mod_poly_cong refl assms)

lemma ext_add_ok:
  assumes "ext_ok P1" "ext_ok P2"
  shows "ext_ok (ext_add P1 P2)"
proof -
  obtain X1 Y1 Z1 T1 X2 Y2 Z2 T2 where p: "P1 = (X1, Y1, Z1, T1)" "P2 = (X2, Y2, Z2, T2)" by (metis prod_cases4)
  define E H F G where d: "E = X1 * Y2 + X2 * Y1" "H = Y1 * Y2 + X1 * X2" "F = Z1 * Z2 - D * (T1 * T2)" "G = Z1 * Z2 + D * (T1 * T2)"
  have s: "ext_add P1 P2 = (2 * E * (2 * F) mod Q, 2 * G * (2 * H) mod Q, 2 * F * (2 * G) mod Q, 2 * E * (2 * H) mod Q)"
    unfolding p ext_add_alt Let_def d ..
  let ?K = "G * G * (H * H) - F * F * (E * E) - F * F * (G * G) - D * (E * E * (H * H))"
  have "?K mod Q = sum_poly D (Z1 * Z2) (T1 * T2) (Z1 * Z1 + D * (T1 * T1)) (Z2 * Z2 + D * (T2 * T2)) (Z1 * T1) (Z2 * T2)
      (X1 * X1 + Y1 * Y1) (X2 * X2 + Y2 * Y2) mod Q"
    unfolding d sum_poly_exact by (rule sum_poly_cong) (use assms in \<open>simp_all add: p ext_ok_def\<close>)
  then have k: "?K mod Q = 0" by (simp add: sum_poly_zero)
  have "2 * G * (2 * H) * (2 * G * (2 * H)) - 2 * E * (2 * F) * (2 * E * (2 * F)) - (2 * F * (2 * G) * (2 * F * (2 * G)) + D * (2 * E * (2 * H) * (2 * E * (2 * H)))) = 16 * ?K"
    by algebra
  moreover have "Q dvd 16 * ?K" by (rule dvd_mult) (use k in \<open>simp only: mod_eq_0_iff_dvd\<close>)
  ultimately have "Q dvd 2 * G * (2 * H) * (2 * G * (2 * H)) - 2 * E * (2 * F) * (2 * E * (2 * F)) - (2 * F * (2 * G) * (2 * F * (2 * G)) + D * (2 * E * (2 * H) * (2 * E * (2 * H))))"
    by (simp only:)
  then have "(2 * G * (2 * H) * (2 * G * (2 * H)) - 2 * E * (2 * F) * (2 * E * (2 * F))) mod Q = (2 * F * (2 * G) * (2 * F * (2 * G)) + D * (2 * E * (2 * H) * (2 * E * (2 * H)))) mod Q"
    by (simp only: mod_eq_dvd_iff)
  moreover have "2 * E * (2 * F) * (2 * G * (2 * H)) = 2 * F * (2 * G) * (2 * E * (2 * H))" by algebra
  ultimately show ?thesis unfolding s ext_ok_mod by (simp only: ext_ok_def prod.case simp_thms)
qed

lemma ext_double_add:
  assumes "ext_ok (X, Y, Z, T)" "ext_double (X, Y, Z, T) = (X2, Y2, Z2, T2)" "ext_add (X, Y, Z, T) (X, Y, Z, T) = (X3, Y3, Z3, T3)"
  shows "X3 = (- 4) * X2 mod Q \<and> Y3 = (- 4) * Y2 mod Q \<and> Z3 = (- 4) * Z2 mod Q \<and> T3 = (- 4) * T2 mod Q"
proof -
  define e g f h where d: "e = - (2 * (X * Y))" "g = X * X - Y * Y" "f = 2 * (Z * Z) + (X * X - Y * Y)" "h = X * X + Y * Y"
  define F G where F: "F = 2 * (Z * Z - D * (T * T))" "G = 2 * (Z * Z + D * (T * T))"
  have 2: "X2 = e * f mod Q" "Y2 = g * h mod Q" "Z2 = f * g mod Q" "T2 = e * h mod Q"
    using assms(2) by (simp_all add: ext_double_alt Let_def d)
  have E: "2 * (X * Y + X * Y) = - 2 * e" "2 * (Y * Y + X * X) = 2 * h" by (simp_all add: d)
  have 3: "X3 = - 2 * e * F mod Q" "Y3 = G * (2 * h) mod Q" "Z3 = F * G mod Q" "T3 = - 2 * e * (2 * h) mod Q"
    using assms(3) unfolding ext_add_alt Let_def E F by simp_all
  have c: "(Y * Y - X * X) mod Q = (Z * Z + D * (T * T)) mod Q" using assms(1) by (simp add: ext_ok_def)
  have "G mod Q = 2 * (Y * Y - X * X) mod Q" unfolding F by (intro mod_mult_cong refl c [symmetric])
  then have G: "G mod Q = (- 2 * g) mod Q" by (simp add: d)
  have "F = 4 * (Z * Z) - 2 * (Z * Z + D * (T * T))" by (simp add: F)
  then have "F mod Q = (4 * (Z * Z) - 2 * (Y * Y - X * X)) mod Q" by (simp only:) (intro mod_poly_cong refl c [symmetric])
  moreover have "4 * (Z * Z) - 2 * (Y * Y - X * X) = 2 * f" by (simp add: d)
  ultimately have F': "F mod Q = (2 * f) mod Q" by simp
  have "X3 = - 2 * e * (2 * f) mod Q" unfolding 3 by (intro mod_mult_cong refl F')
  moreover have "Y3 = - 2 * g * (2 * h) mod Q" unfolding 3 by (intro mod_mult_cong refl G)
  moreover have "Z3 = 2 * f * (- 2 * g) mod Q" unfolding 3 by (intro mod_mult_cong F' G)
  moreover have "T3 = - 2 * e * (2 * h) mod Q" by (rule 3)
  moreover have m: "(- 4) * (u mod Q) mod Q = (- 4) * u mod Q" for u by (rule mod_mult_right_eq)
  moreover have "- 2 * e * (2 * f) = (- 4) * (e * f)" "- 2 * g * (2 * h) = (- 4) * (g * h)" "2 * f * (- 2 * g) = (- 4) * (f * g)"
    "- 2 * e * (2 * h) = (- 4) * (e * h)" by simp_all
  ultimately show ?thesis unfolding 2 m by (simp only:)
qed

lemma ext_double_ok: "ext_ok P \<Longrightarrow> ext_ok (ext_double P)"
proof -
  assume a: "ext_ok P"
  obtain X Y Z T where p: "P = (X, Y, Z, T)" by (metis prod_cases4)
  define M where "M = Z * Z + D * (T * T)"
  have c: "(Y * Y - X * X) mod Q = M mod Q" "(X * Y) mod Q = (Z * T) mod Q" using a by (simp_all add: p ext_ok_def M_def)
  define e g f h where d: "e = - (2 * (X * Y))" "g = X * X - Y * Y" "f = 2 * (Z * Z) + (X * X - Y * Y)" "h = X * X + Y * Y"
  have s: "ext_double P = (e * f mod Q, g * h mod Q, f * g mod Q, e * h mod Q)" unfolding p ext_double_alt Let_def d ..
  let ?N = "Y * Y - X * X" and ?P = "X * Y"
  have ex: "g * h * (g * h) - e * f * (e * f) - (f * g * (f * g) + D * (e * h * (e * h)))
     = ?N * ?N * (?N * ?N + 4 * (?P * ?P)) - 4 * (?P * ?P) * ((2 * (Z * Z) - ?N) * (2 * (Z * Z) - ?N))
       - ((2 * (Z * Z) - ?N) * (2 * (Z * Z) - ?N) * (?N * ?N) + D * (4 * (?P * ?P) * (?N * ?N + 4 * (?P * ?P))))"
    unfolding d by algebra
  have z: "M * M * (M * M + 4 * (Z * T * (Z * T))) - 4 * (Z * T * (Z * T)) * ((2 * (Z * Z) - M) * (2 * (Z * Z) - M))
       - ((2 * (Z * Z) - M) * (2 * (Z * Z) - M) * (M * M) + D * (4 * (Z * T * (Z * T)) * (M * M + 4 * (Z * T * (Z * T))))) = 0"
    unfolding M_def by algebra
  have "(g * h * (g * h) - e * f * (e * f) - (f * g * (f * g) + D * (e * h * (e * h)))) mod Q
     = (M * M * (M * M + 4 * (Z * T * (Z * T))) - 4 * (Z * T * (Z * T)) * ((2 * (Z * Z) - M) * (2 * (Z * Z) - M))
       - ((2 * (Z * Z) - M) * (2 * (Z * Z) - M) * (M * M) + D * (4 * (Z * T * (Z * T)) * (M * M + 4 * (Z * T * (Z * T)))))) mod Q"
    unfolding ex by (intro mod_poly_cong refl c)
  then have "Q dvd g * h * (g * h) - e * f * (e * f) - (f * g * (f * g) + D * (e * h * (e * h)))" unfolding z by (simp add: mod_eq_0_iff_dvd)
  then have "(g * h * (g * h) - e * f * (e * f)) mod Q = (f * g * (f * g) + D * (e * h * (e * h))) mod Q" by (simp only: mod_eq_dvd_iff)
  moreover have "e * f * (g * h) = f * g * (e * h)" by algebra
  ultimately show ?thesis unfolding s ext_ok_mod by (simp only: ext_ok_def prod.case simp_thms)
qed

lemma neutral_ok: "ext_ok (0, 1, 1, 0)"
  by (simp add: ext_ok_def)

lemma scalarmult_ok: "ext_ok P \<Longrightarrow> ext_ok (scalarmult P e)"
proof -
  assume a: "ext_ok P"
  have "ext_ok (fold (mult_step P) bs R)" if "ext_ok R" for bs R
    using that by (induction bs arbitrary: R) (simp_all add: mult_step_def Let_def a ext_add_ok ext_double_ok)
  then show ?thesis by (simp add: scalarmult_def neutral_ok)
qed

lemma pow_mod_eq: "1 < m \<Longrightarrow> pow_mod x n m = x ^ n mod m"
proof (induction x n m rule: pow_mod.induct)
  case (1 x n m)
  show ?case
  proof (cases "n = 0")
    case True
    then show ?thesis by (simp add: pow_mod.simps [of x 0 m])
  next
    case False
    have r: "pow_mod x (n div 2) m = x ^ (n div 2) mod m" using 1 False by simp
    have sq: "pow_mod x (n div 2) m * pow_mod x (n div 2) m mod m = x ^ (n div 2 + n div 2) mod m"
      unfolding r by (simp add: mod_mult_eq power_add)
    show ?thesis
    proof (cases "odd n")
      case True
      then have "n = Suc (n div 2 + n div 2)" by presburger
      then have "x ^ n = x ^ (n div 2 + n div 2) * x" by (metis power_Suc2)
      then show ?thesis using True False mod_mult_cong [OF sq refl, of x] by (simp add: pow_mod.simps [of x n m] Let_def mod_mult_left_eq)
    next
      case even: False
      then have "n = n div 2 + n div 2" by presburger
      then show ?thesis using even False sq by (simp add: pow_mod.simps [of x n m] Let_def)
    qed
  qed
qed

lemma Q_pos: "1 < Q"
  by (simp add: Q_def)

lemma inv_one: "inv 1 = 1"
  using Q_pos by (simp add: inv_def pow_mod_eq)

lemma affine_unit: "affine (x, y, 1, t) = (x mod Q, y mod Q)"
  by (simp add: affine_def inv_one)

lemma decode_point_ok:
  assumes "decode_point s = Inr P"
  shows "ext_ok P"
proof -
  obtain x y where p: "P = (x, y, 1, x * y mod Q)" "on_curve P" using assms by (auto simp: decode_point_def Let_def ok_Inr_iff)
  have "(- (x mod Q) * (x mod Q) + y mod Q * (y mod Q) - 1 - D * (x mod Q) * (x mod Q) * (y mod Q) * (y mod Q)) mod Q = 0"
    using p(2) by (simp add: p(1) on_curve_def affine_unit)
  moreover have "(- (x mod Q) * (x mod Q) + y mod Q * (y mod Q) - 1 - D * (x mod Q) * (x mod Q) * (y mod Q) * (y mod Q)) mod Q
     = (- x * x + y * y - 1 - D * x * x * y * y) mod Q" by (intro mod_poly_cong mod_minus_cong refl) (simp_all add: mod_minus_eq)
  ultimately have "Q dvd - x * x + y * y - 1 - D * x * x * y * y" by (simp add: mod_eq_0_iff_dvd)
  moreover have "- x * x + y * y - 1 - D * x * x * y * y = (y * y - x * x) - (1 * 1 + D * (x * y * (x * y)))" by algebra
  ultimately have "(y * y - x * x) mod Q = (1 * 1 + D * (x * y * (x * y))) mod Q" by (simp only: mod_eq_dvd_iff)
  moreover have "(1 * 1 + D * (x * y mod Q * (x * y mod Q))) mod Q = (1 * 1 + D * (x * y * (x * y))) mod Q" by (intro mod_poly_cong refl) simp_all
  ultimately show ?thesis by (simp add: p(1) ext_ok_def)
qed

text \<open>
  (C25) Verification computes on the curve: a point that decoding accepts satisfies both equations
  of the extended curve, and so does every multiple of it that the double-and-add loop computes,
  and the sum of such a multiple with another accepted point, the right-hand side of the
  verification equation.
\<close>

theorem ed25519_on_curve:
  assumes "decode_point a = Inr A" "decode_point r = Inr R"
  shows "ext_ok A \<and> ext_ok (scalarmult A k) \<and> ext_ok (ext_add R (scalarmult A k))"
  using decode_point_ok [OF assms(1)] decode_point_ok [OF assms(2)] scalarmult_ok ext_add_ok by blast

text \<open>
  The doubling formula agrees with the addition formula: for a point of the curve, the sum of
  the point with itself is, coordinate by coordinate and modulo the prime, minus four times its
  double, so both stand for the same affine point.
\<close>

theorem ed25519_double_is_add:
  assumes "ext_ok (X, Y, Z, T)" "ext_double (X, Y, Z, T) = (X2, Y2, Z2, T2)" "ext_add (X, Y, Z, T) (X, Y, Z, T) = (X3, Y3, Z3, T3)"
  shows "X3 = (- 4) * X2 mod Q \<and> Y3 = (- 4) * Y2 mod Q \<and> Z3 = (- 4) * Z2 mod Q \<and> T3 = (- 4) * T2 mod Q"
  using ext_double_add [OF assms] .

lemma xrecover_one: "xrecover 1 = 0"
proof -
  define n where "n = nat ((Q + 3) div 8)"
  have "0 < n" by (simp add: Q_def n_def)
  then have "pow_mod 0 n Q = 0" by (simp add: pow_mod_eq Q_pos zero_power)
  then show ?thesis by (simp add: xrecover_def n_def)
qed

lemma decode_neutral: "decode_point (1 # replicate 31 0) = Inr (0, 1, 1, 0)"
proof -
  have v: "from_le (1 # replicate 31 0) = 1" "unat ((1 # replicate 31 0 :: bytes) ! 31) = 0" by code_simp+
  have o: "on_curve (0, 1, 1, 0)" using Q_pos by (simp add: on_curve_def affine_unit)
  show ?thesis using v(2) o by (simp add: decode_point_def v(1) xrecover_one Let_def)
qed

theorem ed25519_on_curve_witness: "ext_ok (scalarmult (0, 1, 1, 0) 5) \<and> ext_ok (ext_add (0, 1, 1, 0) (scalarmult (0, 1, 1, 0) 5))"
  using ed25519_on_curve [OF decode_neutral decode_neutral, of 5] by simp

lemma neutral_double: "ext_double (0, 1, 1, 0) = (0, Q - 1, Q - 1, 0)"
proof -
  have "(- 1) mod Q = Q - 1" using Q_pos by (simp add: zmod_minus1)
  then show ?thesis unfolding ext_double_alt Let_def by simp
qed

lemma neutral_add: "ext_add (0, 1, 1, 0) (0, 1, 1, 0) = (0, 4, 4, 0)"
proof -
  have "4 mod Q = 4" by (rule mod_pos_pos_trivial) (simp_all add: Q_def)
  then show ?thesis unfolding ext_add_alt Let_def by simp
qed

theorem ed25519_double_is_add_witness:
  "ext_double (0, 1, 1, 0) = (0, Q - 1, Q - 1, 0) \<and> ext_add (0, 1, 1, 0) (0, 1, 1, 0) = (0, 4, 4, 0) \<and> 4 = (- 4) * (Q - 1) mod Q"
  by (rule conjI [OF neutral_double conjI [OF neutral_add ed25519_double_is_add [OF neutral_ok neutral_double neutral_add, THEN conjunct2, THEN conjunct1]]])

section \<open>Secret scalars\<close>

lemma clamp_alt: "clamp h = (from_le (take 32 h) AND push_bit 3 (mask 251)) OR push_bit 254 1"
proof -
  have "(2 ^ 254 - 8 :: nat) = push_bit 3 (mask 251)" "(2 ^ 254 :: nat) = push_bit 254 1"
    by (simp_all add: push_bit_eq_mult mask_eq_exp_minus_1)
  then show ?thesis unfolding clamp_def by (simp only:)
qed

text \<open>
  The secret scalar is as RFC 8032 wants it, whatever the hash: a multiple of eight, with bit
  254 set and no higher one.
\<close>

theorem ed25519_clamp: "8 dvd clamp h \<and> 2 ^ 254 \<le> clamp h \<and> clamp h < 2 ^ 255"
proof -
  define a where "a = (from_le (take 32 h) AND push_bit 3 (mask 251))"
  have b: "bit a n \<Longrightarrow> 3 \<le> n \<and> n < 254" for n by (auto simp: a_def bit_and_iff bit_push_bit_iff bit_mask_iff)
  have "take_bit 254 a = a" by (rule bit_eqI) (use b in \<open>auto simp: bit_take_bit_iff\<close>)
  then have lt: "a < 2 ^ 254" by (simp only: take_bit_nat_eq_self_iff)
  have "take_bit 3 a = 0" by (rule bit_eqI) (use b in \<open>force simp: bit_take_bit_iff\<close>)
  then have 8: "8 dvd a" by (simp add: take_bit_eq_mod mod_eq_0_iff_dvd)
  have "a AND push_bit 254 1 = 0"
  proof (rule bit_eqI)
    fix n
    show "bit (a AND push_bit 254 1) n = bit (0 :: nat) n" using b [of n] by (simp only: bit_and_iff bit_push_bit_iff bit_1_iff bit_0_eq bot_apply) auto
  qed
  then have "clamp h = a + push_bit 254 1" unfolding clamp_alt a_def [symmetric] by (simp only: disjunctive_add_eq_or)
  then have "clamp h = a + 2 ^ 254" by (simp only: push_bit_eq_mult mult_1)
  moreover have "(8 :: nat) dvd 2 ^ 254" by simp
  ultimately show ?thesis using lt 8 by simp
qed

end
