(* ===== verification/Agent_Channel.thy ===== *)
theory Agent_Channel
  imports Complex_Main Json Transition
begin

text \<open>
  The observation pipes between the control daemon and the agents of the planes: the agent's
  answer and its validation, \<^verbatim>\<open>src/opt/ffn_agent_protocol.py\<close>, and the daemon's configuration,
  supervision and status, \<^verbatim>\<open>src/opt/ffn_control_plane.py\<close>. A request and
  a reply are JSON objects; of a frame its text is written out for the limit on its size. The clock is a rational number; nonces are arguments. The
  event log, which the pipes of the daemon share, is kept per pipe.
\<close>

type_synonym obj = "(string \<times> json) list"

section \<open>Protocol\<close>

text \<open>
  \<^verbatim>\<open>str(uuid.UUID(value)) == value\<close>: lower-case hexadecimal in groups of 8, 4, 4, 4 and 12. A string
  that is no UUID at all raises the same class of exception.
\<close>

definition uuid_char :: "nat \<Rightarrow> char \<Rightarrow> bool" where
  "uuid_char i ch = (if i \<in> {8, 13, 18, 23} then ch = CHR ''-'' else ch \<in> set ''0123456789abcdef'')"

definition uuid_text :: "string \<Rightarrow> bool" where
  "uuid_text s = (length s = 36 \<and> list_all (\<lambda>(i, ch). uuid_char i ch) (enumerate 0 s))"

definition canonical :: "json \<Rightarrow> string res" where
  "canonical v = (case v of JStr s \<Rightarrow> ok (uuid_text s) (ValueError ''canonical UUID required'') (Inr s) | _ \<Rightarrow> Inl (ValueError ''canonical UUID required''))"

definition REPLY_KEYS :: "string list" where
  "REPLY_KEYS = [''v'', ''nonce'', ''role'', ''platform'', ''instance'', ''boot_id'', ''sequence'', ''observed_at'', ''report'']"

definition item :: "string \<Rightarrow> obj \<Rightarrow> json" where
  "item key d = jget key JNull d"

definition has_keys :: "string list \<Rightarrow> obj \<Rightarrow> bool" where
  "has_keys ks d = (set (map fst d) = set ks)"

definition report_ok :: "json \<Rightarrow> bool" where
  "report_ok v = (case v of JObj r \<Rightarrow> as_bool (item ''ready'' r) \<noteq> None | _ \<Rightarrow> False)"

definition report_boot :: "json \<Rightarrow> json" where
  "report_boot v = (case v of JObj r \<Rightarrow> item ''boot_id'' r | _ \<Rightarrow> JNull)"

definition seq_of :: "obj \<Rightarrow> int" where
  "seq_of d = (case item ''sequence'' d of JInt n \<Rightarrow> n | _ \<Rightarrow> 0)"

definition identity_ok :: "obj \<Rightarrow> string \<Rightarrow> string \<Rightarrow> string \<Rightarrow> bool" where
  "identity_ok reply nonce role platform =
     (has_keys REPLY_KEYS reply \<and> item ''v'' reply = JInt 1 \<and> item ''nonce'' reply = JStr nonce \<and> item ''role'' reply = JStr role
      \<and> item ''platform'' reply = JStr platform \<and> as_int (item ''sequence'' reply) \<noteq> None \<and> seq_of reply \<ge> 1
      \<and> report_ok (item ''report'' reply) \<and> py_eq (report_boot (item ''report'' reply)) (item ''boot_id'' reply))"

definition follows :: "obj \<Rightarrow> obj \<Rightarrow> bool" where
  "follows prev reply =
     (item ''instance'' reply = item ''instance'' prev \<and> item ''boot_id'' reply = item ''boot_id'' prev \<and> seq_of reply = seq_of prev + 1)"

definition validate :: "obj \<Rightarrow> string \<Rightarrow> string \<Rightarrow> string \<Rightarrow> obj option \<Rightarrow> obj res" where
  "validate reply nonce role platform previous =
     ok (identity_ok reply nonce role platform) (ValueError ''agent identity or challenge mismatch'')
       (rbind (canonical (item ''instance'' reply)) (\<lambda>_.
        rbind (canonical (item ''boot_id'' reply)) (\<lambda>_.
        ok (case previous of Some prev \<Rightarrow> follows prev reply | None \<Rightarrow> True)
          (ValueError ''agent restarted or replayed a report within the channel'') (Inr reply))))"

section \<open>Frames\<close>

text \<open>
  The compact text of \<^verbatim>\<open>json.dumps\<close>, with everything outside printable ASCII escaped. Of a floating
  point number the values keep the whole part, so its text, \<^verbatim>\<open>float.__repr__\<close>, is a parameter;
  \<^verbatim>\<open>allow_nan=False\<close> has no values to refuse.
\<close>

definition hex4 :: "nat \<Rightarrow> string" where
  "hex4 n = map (\<lambda>d. ''0123456789abcdef'' ! d) [n div 4096 mod 16, n div 256 mod 16, n div 16 mod 16, n mod 16]"

definition esc_char :: "char \<Rightarrow> string" where
  "esc_char c =
     (let n = of_char c :: nat
      in if n = 34 \<or> n = 92 then [CHR 0x5C, c]
         else if n = 10 then [CHR 0x5C, CHR ''n''] else if n = 13 then [CHR 0x5C, CHR ''r''] else if n = 9 then [CHR 0x5C, CHR ''t'']
         else if n = 12 then [CHR 0x5C, CHR ''f''] else if n = 8 then [CHR 0x5C, CHR ''b'']
         else if 32 \<le> n \<and> n \<le> 126 then [c] else [CHR 0x5C, CHR ''u''] @ hex4 n)"

definition str_text :: "string \<Rightarrow> string" where
  "str_text s = [CHR 0x22] @ concat (map esc_char s) @ [CHR 0x22]"

definition int_text :: "int \<Rightarrow> string" where
  "int_text n = (if n < 0 then ''-'' @ dec (nat (- n)) else dec (nat n))"

fun dumps :: "(int \<Rightarrow> string) \<Rightarrow> json \<Rightarrow> string" where
  "dumps ft JNull = ''null''"
| "dumps ft (JBool b) = (if b then ''true'' else ''false'')"
| "dumps ft (JInt n) = int_text n"
| "dumps ft (JFloat n) = ft n"
| "dumps ft (JStr s) = str_text s"
| "dumps ft (JList vs) = ''['' @ join_with '','' (map (dumps ft) vs) @ '']''"
| "dumps ft (JObj kvs) = ''{'' @ join_with '','' (map (\<lambda>kv. str_text (fst kv) @ '':'' @ dumps ft (snd kv)) kvs) @ ''}''"

definition FRAME_LIMIT :: nat where "FRAME_LIMIT = 262144"

text \<open>The bytes of a frame, the text and a line feed; what the reader parses from them is the object again.\<close>

definition frame_len :: "(int \<Rightarrow> string) \<Rightarrow> obj \<Rightarrow> nat" where
  "frame_len ft d = length (dumps ft (JObj d)) + 1"

definition frame :: "(int \<Rightarrow> string) \<Rightarrow> obj \<Rightarrow> obj res" where
  "frame ft d = ok (frame_len ft d \<le> FRAME_LIMIT) (ValueError ''agent frame too large'') (Inr d)"

section \<open>The agent\<close>

text \<open>The agent: its instance and the number of its last reply; an exception ends it.\<close>

record agent =
  instance_id :: string
  sequence :: int

definition serve_request :: "(int \<Rightarrow> string) \<Rightarrow> string \<Rightarrow> string \<Rightarrow> json \<Rightarrow> json \<Rightarrow> json \<Rightarrow> agent \<Rightarrow> obj \<Rightarrow> (agent \<times> obj) res" where
  "serve_request ft role platform report sample now a request =
     ok (has_keys [''v'', ''nonce'', ''op''] request \<and> item ''v'' request = JInt 1 \<and> item ''op'' request = JStr ''observe'')
       (ValueError ''invalid observation request'')
       (rbind (canonical (item ''nonce'' request)) (\<lambda>nonce.
        need (as_obj report) (ValueError ''invalid provider report'') (\<lambda>r.
        ok (report_ok report) (ValueError ''invalid provider report'')
          (need (map_of r ''boot_id'') KeyError (\<lambda>b.
           rbind (canonical b) (\<lambda>boot.
           let a' = a\<lparr>sequence := sequence a + 1\<rparr>
           in rbind (frame ft
             [(''v'', JInt 1), (''nonce'', JStr nonce), (''role'', JStr role), (''platform'', JStr platform), (''instance'', JStr (instance_id a)),
              (''boot_id'', JStr boot), (''sequence'', JInt (sequence a')), (''observed_at'', now),
              (''report'', JObj (dict_set ''host_resources'' sample r))]) (\<lambda>reply. Inr (a', reply))))))))"

definition observe_request :: "string \<Rightarrow> obj" where
  "observe_request nonce = [(''v'', JInt 1), (''op'', JStr ''observe''), (''nonce'', JStr nonce)]"

section \<open>Configuration\<close>

record agent_cfg =
  argv :: "string list"
  role :: string
  platform :: string
  interval :: int
  timeout :: int
  stale_after :: int

record control_cfg =
  worker_socket :: "string option"
  agents :: "(string \<times> agent_cfg) list"

record cfg_file =
  st_uid :: nat
  st_mode :: nat
  st_size :: nat
  content :: obj

definition isabs :: "string \<Rightarrow> bool" where
  "isabs p = (p \<noteq> [] \<and> hd p = CHR ''/'')"

definition good_arg :: "json \<Rightarrow> bool" where
  "good_arg v = (case v of JStr s \<Rightarrow> s \<noteq> [] \<and> CHR 0x00 \<notin> set s | _ \<Rightarrow> False)"

definition argv_of :: "json \<Rightarrow> string list" where
  "argv_of v = (case v of JList vs \<Rightarrow> map (\<lambda>x. case x of JStr s \<Rightarrow> s | _ \<Rightarrow> []) vs | _ \<Rightarrow> [])"

definition good_argv :: "json \<Rightarrow> bool" where
  "good_argv v =
     (case v of JList vs \<Rightarrow> 1 \<le> length vs \<and> length vs \<le> 40 \<and> list_all good_arg vs \<and> isabs (hd (argv_of v)) | _ \<Rightarrow> False)"

definition timing :: "json \<Rightarrow> int res" where
  "timing v = need (as_int v) (ValueError ''invalid agent timing'') (\<lambda>n. ok (1 \<le> n \<and> n \<le> 300) (ValueError ''invalid agent timing'') (Inr n))"

text \<open>One entry of \<^verbatim>\<open>agents\<close>, an object; which exception another kind of value raises is not told apart.\<close>

definition check_agent :: "string \<times> json \<Rightarrow> (string \<times> agent_cfg) res" where
  "check_agent na =
     (case na of (name, v) \<Rightarrow>
        need (as_obj v) (ValueError ''invalid selected agent'') (\<lambda>a.
        ok (length name \<le> 64 \<and> has_keys [''argv'', ''role'', ''platform'', ''interval'', ''timeout'', ''stale_after''] a
            \<and> item ''role'' a \<in> {JStr ''cp'', JStr ''dp''} \<and> is_str (item ''platform'' a) \<and> good_argv (item ''argv'' a))
          (ValueError ''invalid selected agent'')
          (rbind (timing (item ''interval'' a)) (\<lambda>i. rbind (timing (item ''timeout'' a)) (\<lambda>t. rbind (timing (item ''stale_after'' a)) (\<lambda>s.
           need (as_str (item ''role'' a)) TypeError (\<lambda>r. need (as_str (item ''platform'' a)) TypeError (\<lambda>p.
           ok (s > i + t) (ValueError ''expiry must exceed interval plus observation timeout'')
             (Inr (name, \<lparr>argv = argv_of (item ''argv'' a), role = r, platform = p, interval = i, timeout = t, stale_after = s\<rparr>))))))))))"

text \<open>\<open>None\<close>: there is no file. \<open>own\<close> is the daemon's own socket.\<close>

definition load_config :: "string \<Rightarrow> cfg_file option \<Rightarrow> control_cfg res" where
  "load_config own f0 =
     (case f0 of
        None \<Rightarrow> Inr \<lparr>worker_socket = None, agents = []\<rparr>
      | Some f \<Rightarrow>
          ok (st_uid f = 0 \<and> st_mode f AND 0x12 = 0 \<and> st_size f \<le> 65536)
            (ValueError ''control configuration must be root-owned and not writable by others'')
            (let c = content f in
             ok (has_keys [''worker_socket'', ''agents''] c) (ValueError ''absolute worker socket and agents required'')
               (need (as_str (item ''worker_socket'' c)) TypeError (\<lambda>w.
                ok (isabs w) (ValueError ''absolute worker socket and agents required'')
                  (ok (w \<noteq> own) (ValueError ''control worker cannot be controld itself'')
                    (need (as_obj (item ''agents'' c)) (ValueError ''at most four selected agents required'') (\<lambda>as.
                     ok (length as \<le> 4) (ValueError ''at most four selected agents required'')
                       (rbind (map_res check_agent as) (\<lambda>acs. Inr \<lparr>worker_socket = Some w, agents = acs\<rparr>)))))))))"

section \<open>Supervision\<close>

record agent_state =
  connected :: bool
  received :: "rat option"
  last_sample :: "obj option"
  last_error :: "string option"
  reconnects :: nat

datatype chan_event = Agent_connected json | Agent_disconnected

text \<open>The coroutine's variables: \<^verbatim>\<open>previous\<close>, \<^verbatim>\<open>backoff\<close>, and whether an agent process is up.\<close>

record channel =
  ast :: agent_state
  previous :: "obj option"
  backoff :: nat
  proc_up :: bool
  chan_events :: "chan_event list"

definition new_channel :: channel where
  "new_channel =
     \<lparr>ast = \<lparr>connected = False, received = None, last_sample = None, last_error = Some ''awaiting agent'', reconnects = 0\<rparr>,
      previous = None, backoff = 1, proc_up = False, chan_events = []\<rparr>"

text \<open>\<^verbatim>\<open>deque(maxlen=256)\<close>\<close>

definition push_event :: "chan_event \<Rightarrow> channel \<Rightarrow> channel" where
  "push_event e c = (let es = chan_events c @ [e] in c\<lparr>chan_events := drop (length es - 256) es\<rparr>)"

definition spawned :: "channel \<Rightarrow> channel" where
  "spawned c = c\<lparr>previous := None, proc_up := True\<rparr>"

text \<open>The exception handler, the \<^verbatim>\<open>finally\<close> clause and the lines after it.\<close>

definition disconnect :: "channel \<Rightarrow> channel" where
  "disconnect c =
     (let c = push_event Agent_disconnected (c\<lparr>ast := (ast c)\<lparr>last_error := Some ''Agent disconnected, timed out, or returned an invalid report''\<rparr>\<rparr>)
      in c\<lparr>ast := (ast c)\<lparr>connected := False, reconnects := reconnects (ast c) + 1\<rparr>, proc_up := False, backoff := min 30 (backoff c * 2)\<rparr>)"

definition accept :: "obj \<Rightarrow> rat \<Rightarrow> channel \<Rightarrow> channel" where
  "accept reply t c =
     (let c = (if \<not> connected (ast c) then push_event (Agent_connected (item ''boot_id'' reply)) c else c)
      in c\<lparr>ast := (ast c)\<lparr>connected := True, received := Some t, last_sample := Some reply, last_error := None\<rparr>, previous := Some reply, backoff := 1\<rparr>)"

text \<open>
  What happens to the coroutine: starting the process succeeds or fails; a challenge with a nonce
  is answered by a reply at a time, or by none (\<open>None\<close>: a timeout, a broken pipe or a bad frame).
\<close>

datatype chan_input = Spawn bool | Challenge string "obj option" rat

fun chan_step :: "agent_cfg \<Rightarrow> chan_input \<Rightarrow> channel \<Rightarrow> channel" where
  "chan_step cfg (Spawn up) c = (if proc_up c then c else if up then spawned c else disconnect c)"
| "chan_step cfg (Challenge nonce raw t) c =
     (if \<not> proc_up c then c
      else
        (case raw of
           None \<Rightarrow> disconnect c
         | Some reply \<Rightarrow>
             (case validate reply nonce (role cfg) (platform cfg) (previous c) of
                Inl _ \<Rightarrow> disconnect c
              | Inr r \<Rightarrow> accept r t c)))"

definition chan_run :: "agent_cfg \<Rightarrow> chan_input list \<Rightarrow> channel" where
  "chan_run cfg is = run (chan_step cfg) is new_channel"

record agent_status =
  s_fresh :: bool
  s_age :: "rat option"
  s_ready :: bool
  s_error :: "string option"

definition age_of :: "rat \<Rightarrow> agent_state \<Rightarrow> rat option" where
  "age_of t s = map_option (\<lambda>r. max 0 (t - r)) (received s)"

definition fresh_at :: "agent_cfg \<Rightarrow> rat \<Rightarrow> agent_state \<Rightarrow> bool" where
  "fresh_at cfg t s = (connected s \<and> (case age_of t s of None \<Rightarrow> False | Some a \<Rightarrow> a < of_int (stale_after cfg)))"

definition sample_ready :: "obj \<Rightarrow> bool" where
  "sample_ready d = (case item ''report'' d of JObj r \<Rightarrow> truthy (item ''ready'' r) | _ \<Rightarrow> False)"

definition status :: "agent_cfg \<Rightarrow> rat \<Rightarrow> agent_state \<Rightarrow> agent_status" where
  "status cfg t s =
     \<lparr>s_fresh = fresh_at cfg t s, s_age = age_of t s,
      s_ready = (fresh_at cfg t s \<and> (case last_sample s of Some d \<Rightarrow> sample_ready d | None \<Rightarrow> False)),
      s_error = (if fresh_at cfg t s then None
                 else Some (case last_error s of Some e \<Rightarrow> if e \<noteq> [] then e else ''Observation expired'' | None \<Rightarrow> ''Observation expired''))\<rparr>"

section \<open>What the daemon believes\<close>

text \<open>The replies accepted from the current process, with the nonces they answer, oldest first.\<close>

fun track :: "agent_cfg \<Rightarrow> chan_input \<Rightarrow> channel \<times> (string \<times> obj) list \<Rightarrow> channel \<times> (string \<times> obj) list" where
  "track cfg (Spawn up) (c, xs) = (chan_step cfg (Spawn up) c, if proc_up c then xs else [])"
| "track cfg (Challenge nonce raw t) (c, xs) =
     (chan_step cfg (Challenge nonce raw t) c,
      case raw of
        None \<Rightarrow> xs
      | Some reply \<Rightarrow>
          if proc_up c \<and> validate reply nonce (role cfg) (platform cfg) (previous c) = Inr reply then xs @ [(nonce, reply)] else xs)"

definition linked :: "agent_cfg \<Rightarrow> obj \<Rightarrow> nat \<Rightarrow> string \<times> obj \<Rightarrow> bool" where
  "linked cfg d0 i x =
     (item ''nonce'' (snd x) = JStr (fst x) \<and> item ''role'' (snd x) = JStr (role cfg) \<and> item ''platform'' (snd x) = JStr (platform cfg)
      \<and> item ''v'' (snd x) = JInt 1 \<and> report_ok (item ''report'' (snd x)) \<and> 1 \<le> seq_of d0 \<and> seq_of (snd x) = seq_of d0 + int i
      \<and> item ''instance'' (snd x) = item ''instance'' d0 \<and> item ''boot_id'' (snd x) = item ''boot_id'' d0)"

definition chained :: "agent_cfg \<Rightarrow> (string \<times> obj) list \<Rightarrow> bool" where
  "chained cfg xs = (\<forall>i < length xs. linked cfg (snd (xs ! 0)) i (xs ! i))"

lemma chained_Nil [simp]: "chained cfg []"
  by (simp add: chained_def)

definition last_of :: "(string \<times> obj) list \<Rightarrow> obj option" where
  "last_of xs = (if xs = [] then None else Some (snd (last xs)))"

definition believes :: "agent_cfg \<Rightarrow> channel \<times> (string \<times> obj) list \<Rightarrow> bool" where
  "believes cfg s =
     (case s of (c, xs) \<Rightarrow>
        chained cfg xs \<and> (proc_up c \<longrightarrow> previous c = last_of xs)
        \<and> (connected (ast c) \<longrightarrow> proc_up c \<and> xs \<noteq> [] \<and> last_sample (ast c) = last_of xs \<and> received (ast c) \<noteq> None))"

lemma push_event_simps [simp]:
  "ast (push_event e c) = ast c" "previous (push_event e c) = previous c" "proc_up (push_event e c) = proc_up c" "backoff (push_event e c) = backoff c"
  by (simp_all add: push_event_def Let_def)

lemma disconnect_simps [simp]:
  "connected (ast (disconnect c)) = False" "proc_up (disconnect c) = False" "backoff (disconnect c) = min 30 (backoff c * 2)"
  "reconnects (ast (disconnect c)) = reconnects (ast c) + 1"
  by (simp_all add: disconnect_def Let_def)

lemma accept_simps [simp]:
  "ast (accept r t c) = (ast c)\<lparr>connected := True, received := Some t, last_sample := Some r, last_error := None\<rparr>"
  "previous (accept r t c) = Some r" "proc_up (accept r t c) = proc_up c" "backoff (accept r t c) = 1"
  by (simp_all add: accept_def Let_def)

lemma validate_Inr:
  "validate reply nonce rl pf prev = Inr r \<longleftrightarrow>
     r = reply \<and> identity_ok reply nonce rl pf \<and> (\<exists>s b. canonical (item ''instance'' reply) = Inr s \<and> canonical (item ''boot_id'' reply) = Inr b)
     \<and> (case prev of Some p \<Rightarrow> follows p reply | None \<Rightarrow> True)"
  by (auto simp: validate_def result_simps)

lemma chained_snoc:
  assumes "chained cfg xs" "identity_ok d nonce (role cfg) (platform cfg)" "case last_of xs of Some p \<Rightarrow> follows p d | None \<Rightarrow> True"
  shows "chained cfg (xs @ [(nonce, d)])"
proof (cases "xs = []")
  case True
  then show ?thesis using assms(2) by (simp add: chained_def linked_def identity_ok_def)
next
  case False
  then obtain n where n: "length xs = Suc n" by (cases xs) auto
  have "linked cfg (snd (xs ! 0)) n (xs ! n)" using assms(1) n by (simp add: chained_def)
  moreover have "follows (snd (xs ! n)) d" using assms(3) False n by (simp add: last_of_def last_conv_nth)
  ultimately have "linked cfg (snd (xs ! 0)) (Suc n) (nonce, d)" using assms(2) by (simp add: linked_def follows_def identity_ok_def)
  moreover have "(xs @ [(nonce, d)]) ! 0 = xs ! 0" using False by (simp add: nth_append)
  ultimately show ?thesis using assms(1) n by (simp add: chained_def nth_append less_Suc_eq)
qed

lemma believes_disconnect: "chained cfg xs \<Longrightarrow> believes cfg (disconnect c, xs)"
  by (simp add: believes_def)

lemma believes_chained: "believes cfg (c, xs) \<Longrightarrow> chained cfg xs"
  by (simp add: believes_def)

lemma challenge_cases:
  assumes "proc_up c"
  obtains (accepted) "validate d nonce (role cfg) (platform cfg) (previous c) = Inr d" "chan_step cfg (Challenge nonce (Some d) t) c = accept d t c"
  | (refused) "validate d nonce (role cfg) (platform cfg) (previous c) \<noteq> Inr d" "chan_step cfg (Challenge nonce (Some d) t) c = disconnect c"
proof (cases "validate d nonce (role cfg) (platform cfg) (previous c)")
  case (Inl e)
  then show ?thesis using refused assms by simp
next
  case (Inr r)
  then have "r = d" by (simp add: validate_Inr)
  then show ?thesis using Inr accepted assms by simp
qed

lemma track_challenge:
  assumes "believes cfg (c, xs)" "proc_up c"
  shows "believes cfg (track cfg (Challenge nonce (Some d) t) (c, xs))"
  using assms(2)
proof (cases rule: challenge_cases [where d = d and nonce = nonce and cfg = cfg and t = t])
  case accepted
  have "previous c = last_of xs" using assms by (simp add: believes_def)
  then have "chained cfg (xs @ [(nonce, d)])" using chained_snoc [OF believes_chained [OF assms(1)]] accepted(1) by (simp add: validate_Inr)
  then show ?thesis unfolding track.simps accepted(2) using accepted(1) assms(2) by (simp add: believes_def last_of_def)
next
  case refused
  then show ?thesis unfolding track.simps refused(2) using believes_disconnect [OF believes_chained [OF assms(1)]] by simp
qed

lemma track_believes:
  assumes "believes cfg s"
  shows "believes cfg (track cfg i s)"
proof -
  obtain c xs where s: "s = (c, xs)" by fastforce
  have b: "believes cfg (c, xs)" using assms s by simp
  consider (spawn) up where "i = Spawn up" | (silent) nonce t where "i = Challenge nonce None t" | (reply) nonce d t where "i = Challenge nonce (Some d) t"
    by (metis chan_input.exhaust option.exhaust)
  then show ?thesis
  proof cases
    case spawn
    then show ?thesis using b by (cases up; cases "proc_up c") (simp_all add: s believes_def spawned_def last_of_def)
  next
    case silent
    then show ?thesis using b believes_disconnect [OF believes_chained [OF b]] by (simp add: s)
  next
    case reply
    then show ?thesis using b track_challenge [OF b, of nonce d t] by (cases "proc_up c") (simp_all add: s)
  qed
qed

interpretation pipe: invariant_system "track cfg" "believes cfg" for cfg
  by unfold_locales (rule track_believes)

lemma run_believes: "believes cfg (run (track cfg) is (new_channel, []))"
  by (rule pipe.inv_run) (simp add: believes_def new_channel_def)

text \<open>
  (C21) An observation pipe accepts no replayed, reordered or foreign report: over every sequence of
  process starts, failures and answers, the reports accepted from one agent process answer their
  own nonces for the configured role and platform, come from one instance and one boot, and are
  numbered without a gap; while the agent counts as connected, the sample on show is the last of
  them.
\<close>

theorem agent_reports_in_order:
  assumes "run (track cfg) is (new_channel, []) = (c, xs)"
  shows "chained cfg xs \<and> (connected (ast c) \<longrightarrow> xs \<noteq> [] \<and> last_sample (ast c) = Some (snd (last xs)))"
  using run_believes [of cfg "is"] by (auto simp: assms believes_def last_of_def)

text \<open>
  Readiness is never stale: an agent whose status says ready has a process up, and the last
  report accepted from it says ready and was received less than the expiry ago.
\<close>

theorem agent_ready_sound:
  assumes "run (track cfg) is (new_channel, []) = (c, xs)" "s_ready (status cfg t (ast c))"
  shows "proc_up c \<and> (\<exists>nonce d r. last xs = (nonce, d) \<and> xs \<noteq> [] \<and> item ''report'' d = JObj r \<and> item ''ready'' r = JBool True)
    \<and> (\<exists>t0. received (ast c) = Some t0 \<and> t - t0 < of_int (stale_after cfg))"
proof -
  have f: "fresh_at cfg t (ast c)" and "case last_sample (ast c) of Some d \<Rightarrow> sample_ready d | None \<Rightarrow> False" using assms(2) by (simp_all add: status_def)
  then obtain d where d: "last_sample (ast c) = Some d" "sample_ready d" by (auto split: option.splits)
  have b: "chained cfg xs" "proc_up c" "xs \<noteq> []" "last_sample (ast c) = last_of xs"
    using run_believes [of cfg "is"] f by (auto simp: assms(1) believes_def fresh_at_def)
  then have l: "snd (last xs) = d" using d(1) by (simp add: last_of_def)
  have "report_ok (item ''report'' (snd (xs ! (length xs - 1))))" using b(1,3) by (simp add: chained_def linked_def)
  then have "report_ok (item ''report'' d)" using l b(3) by (simp add: last_conv_nth)
  then obtain r where r: "item ''report'' d = JObj r" "item ''ready'' r = JBool True"
    using d(2) by (auto simp: report_ok_def sample_ready_def as_bool_def split: json.splits)
  moreover obtain t0 where "received (ast c) = Some t0" "t - t0 < of_int (stale_after cfg)"
    using f by (auto simp: fresh_at_def age_of_def split: option.splits)
  moreover have "last xs = (fst (last xs), d)" using l by (simp add: prod_eq_iff)
  ultimately show ?thesis using b(2,3) by blast
qed

section \<open>No flapping\<close>

lemma check_agent_expiry: "check_agent na = Inr (name, a) \<Longrightarrow> interval a + timeout a < stale_after a"
  by (cases na) (auto simp: check_agent_def result_simps)

lemma load_config_expiry:
  assumes "load_config own f = Inr cfg" "(name, a) \<in> set (agents cfg)"
  shows "interval a + timeout a < stale_after a"
proof (cases f)
  case None
  then show ?thesis using assms by (auto simp: load_config_def)
next
  case (Some g)
  then obtain as where m: "map_res check_agent as = Inr (agents cfg)" using assms(1) by (auto simp: load_config_def Let_def result_simps)
  then obtain na where "check_agent na = Inr (name, a)" using assms(2) unfolding map_res_Inr list_all2_conv_all_nth in_set_conv_nth by metis
  then show ?thesis by (rule check_agent_expiry)
qed

text \<open>
  A configuration that loads leaves no gap between reports: from the moment a report is
  accepted until the next one is overdue, one interval and one timeout later, the agent's status
  stays fresh, shows no error, and is ready exactly when the report says so.
\<close>

theorem agent_no_flap:
  assumes "load_config own f = Inr cfg" "(name, a) \<in> set (agents cfg)" "proc_up c" "validate d nonce (role a) (platform a) (previous c) = Inr d"
    and "t0 \<le> t" "t \<le> t0 + of_int (interval a) + of_int (timeout a)"
  shows "let s = status a t (ast (chan_step a (Challenge nonce (Some d) t0) c)) in s_fresh s \<and> s_error s = None \<and> s_ready s = sample_ready d"
proof -
  have "of_int (interval a) + of_int (timeout a) < (of_int (stale_after a) :: rat)"
    using load_config_expiry [OF assms(1,2)] by (metis of_int_add of_int_less_iff)
  then have "t - t0 < of_int (stale_after a)" using assms(6) by linarith
  then show ?thesis using assms(3-5) by (simp add: status_def fresh_at_def age_of_def Let_def)
qed

section \<open>The agent and the daemon together\<close>

text \<open>A round of the conversation: the nonce, the provider's report, the resource sample, the agent's clock and the daemon's.\<close>

record talk =
  t_nonce :: string
  t_report :: json
  t_sample :: json
  t_now :: json
  t_at :: rat

definition converse :: "(int \<Rightarrow> string) \<Rightarrow> agent_cfg \<Rightarrow> talk \<Rightarrow> agent \<times> channel \<Rightarrow> agent \<times> channel" where
  "converse ft cfg k s =
     (case s of (a, c) \<Rightarrow>
        case serve_request ft (role cfg) (platform cfg) (t_report k) (t_sample k) (t_now k) a (observe_request (t_nonce k)) of
          Inl _ \<Rightarrow> (a, chan_step cfg (Challenge (t_nonce k) None (t_at k)) c)
        | Inr (a', reply) \<Rightarrow> (a', chan_step cfg (Challenge (t_nonce k) (Some reply) (t_at k)) c))"

definition good_talk :: "string \<Rightarrow> talk \<Rightarrow> bool" where
  "good_talk boot k = (uuid_text (t_nonce k) \<and> report_ok (t_report k) \<and> report_boot (t_report k) = JStr boot)"

lemma item_simps [simp]: "item key ((key', v) # d) = (if key = key' then v else item key d)" "item key [] = JNull"
  by (simp_all add: item_def jget_def)

lemma item_dict_set: "item key (dict_set key' v d) = (if key = key' then v else item key d)"
  by (simp add: item_def jget_def)

text \<open>The reply expected in the \<open>n\<close>th round.\<close>

definition reply_of :: "agent_cfg \<Rightarrow> string \<Rightarrow> string \<Rightarrow> nat \<Rightarrow> talk \<Rightarrow> obj" where
  "reply_of cfg inst boot n k =
     [(''v'', JInt 1), (''nonce'', JStr (t_nonce k)), (''role'', JStr (role cfg)), (''platform'', JStr (platform cfg)), (''instance'', JStr inst),
      (''boot_id'', JStr boot), (''sequence'', JInt (int n)), (''observed_at'', t_now k),
      (''report'', case t_report k of JObj r \<Rightarrow> JObj (dict_set ''host_resources'' (t_sample k) r) | v \<Rightarrow> v)]"

lemma reply_of_items:
  "seq_of (reply_of cfg inst boot n k) = int n" "item ''instance'' (reply_of cfg inst boot n k) = JStr inst" "item ''boot_id'' (reply_of cfg inst boot n k) = JStr boot"
  by (simp_all add: seq_of_def reply_of_def)

lemma reply_of_identity:
  assumes "good_talk boot k" "0 < n"
  shows "identity_ok (reply_of cfg inst boot n k) (t_nonce k) (role cfg) (platform cfg)"
proof -
  obtain r where r: "t_report k = JObj r" "as_bool (item ''ready'' r) \<noteq> None" using assms(1) by (auto simp: good_talk_def report_ok_def split: json.splits)
  have "item ''boot_id'' r = JStr boot" using assms(1) by (simp add: good_talk_def report_boot_def r(1))
  then show ?thesis using r assms(2)
    by (simp add: identity_ok_def reply_of_def has_keys_def REPLY_KEYS_def seq_of_def report_ok_def report_boot_def item_dict_set)
qed

text \<open>The reply to a challenge, and that the daemon accepts it.\<close>

lemma serve_request_ok:
  assumes "good_talk boot k" "uuid_text boot" "sequence a = int n" "frame_len ft (reply_of cfg (instance_id a) boot (Suc n) k) \<le> 262144"
  shows "serve_request ft (role cfg) (platform cfg) (t_report k) (t_sample k) (t_now k) a (observe_request (t_nonce k)) =
    Inr (a\<lparr>sequence := int (Suc n)\<rparr>, reply_of cfg (instance_id a) boot (Suc n) k)"
proof -
  obtain r where r: "t_report k = JObj r" "as_bool (item ''ready'' r) \<noteq> None" using assms(1) by (auto simp: good_talk_def report_ok_def split: json.splits)
  have "item ''boot_id'' r = JStr boot" using assms(1) by (simp add: good_talk_def report_boot_def r(1))
  then have m: "map_of r ''boot_id'' = Some (JStr boot)" by (auto simp: item_def jget_def split: option.splits)
  have n: "canonical (JStr (t_nonce k)) = Inr (t_nonce k)" "canonical (JStr boot) = Inr boot" using assms(1,2) by (simp_all add: canonical_def good_talk_def)
  have h: "has_keys [''v'', ''nonce'', ''op''] (observe_request (t_nonce k))" by (auto simp: has_keys_def observe_request_def)
  have i: "item ''v'' (observe_request (t_nonce k)) = JInt 1" "item ''op'' (observe_request (t_nonce k)) = JStr ''observe''" "item ''nonce'' (observe_request (t_nonce k)) = JStr (t_nonce k)"
    by (simp_all add: observe_request_def)
  have "frame ft (reply_of cfg (instance_id a) boot (Suc n) k) = Inr (reply_of cfg (instance_id a) boot (Suc n) k)"
    using assms(4) by (simp add: frame_def FRAME_LIMIT_def ok_def)
  then show ?thesis using r m n h i assms(3) by (simp add: serve_request_def report_ok_def Let_def reply_of_def add.commute)
qed

definition in_step :: "string \<Rightarrow> string \<Rightarrow> nat \<Rightarrow> nat \<Rightarrow> agent \<times> channel \<Rightarrow> bool" where
  "in_step inst boot recs n s =
     (case s of (a, c) \<Rightarrow>
        instance_id a = inst \<and> sequence a = int n \<and> proc_up c \<and> reconnects (ast c) = recs
        \<and> (if n = 0 then previous c = None
           else (\<exists>d. previous c = Some d \<and> seq_of d = int n \<and> item ''instance'' d = JStr inst \<and> item ''boot_id'' d = JStr boot)))"

lemma converse_in_step:
  assumes "in_step inst boot recs n s" "good_talk boot k" "uuid_text boot" "uuid_text inst" "frame_len ft (reply_of cfg inst boot (Suc n) k) \<le> 262144"
  shows "in_step inst boot recs (Suc n) (converse ft cfg k s) \<and> connected (ast (snd (converse ft cfg k s)))
    \<and> last_sample (ast (snd (converse ft cfg k s))) = Some (reply_of cfg inst boot (Suc n) k)"
proof -
  let ?d = "reply_of cfg inst boot (Suc n) k"
  obtain a c where s: "s = (a, c)" by fastforce
  have i: "instance_id a = inst" "sequence a = int n" "proc_up c" "reconnects (ast c) = recs" using assms(1) by (simp_all add: in_step_def s)
  have d: "serve_request ft (role cfg) (platform cfg) (t_report k) (t_sample k) (t_now k) a (observe_request (t_nonce k)) = Inr (a\<lparr>sequence := int (Suc n)\<rparr>, ?d)"
    using serve_request_ok [OF assms(2,3) i(2)] assms(5) i(1) by simp
  have "case previous c of Some p \<Rightarrow> follows p ?d | None \<Rightarrow> True"
    using assms(1) by (auto simp: in_step_def s follows_def reply_of_items split: if_splits option.splits)
  then have "validate ?d (t_nonce k) (role cfg) (platform cfg) (previous c) = Inr ?d"
    using reply_of_identity [OF assms(2)] assms(3,4) by (simp add: validate_Inr canonical_def reply_of_items)
  then have "converse ft cfg k s = (a\<lparr>sequence := int (Suc n)\<rparr>, accept ?d (t_at k) c)" using i(3) by (simp add: converse_def s d)
  then show ?thesis using i by (simp add: in_step_def reply_of_items)
qed

definition all_fit :: "(int \<Rightarrow> string) \<Rightarrow> agent_cfg \<Rightarrow> string \<Rightarrow> string \<Rightarrow> talk list \<Rightarrow> bool" where
  "all_fit ft cfg inst boot ks = (\<forall>i < length ks. frame_len ft (reply_of cfg inst boot (Suc i) (ks ! i)) \<le> 262144)"

lemma all_fit_snoc: "all_fit ft cfg inst boot (ks @ [k]) \<longleftrightarrow> all_fit ft cfg inst boot ks \<and> frame_len ft (reply_of cfg inst boot (Suc (length ks)) k) \<le> 262144"
  by (auto simp: all_fit_def nth_append less_Suc_eq)

lemma run_in_step:
  assumes "uuid_text boot" "uuid_text inst" "\<forall>k \<in> set ks. good_talk boot k" "all_fit ft cfg inst boot ks"
  shows "in_step inst boot (reconnects (ast c0)) (length ks) (run (converse ft cfg) ks (\<lparr>instance_id = inst, sequence = 0\<rparr>, spawned c0))"
  using assms(3,4)
proof (induction ks rule: rev_induct)
  case Nil
  then show ?case by (simp add: in_step_def spawned_def)
next
  case (snoc k ks)
  then show ?case using converse_in_step [OF snoc.IH _ assms(1,2)] by (simp add: all_fit_snoc)
qed

text \<open>
  (C22) A healthy agent stays connected: when every nonce and the boot identifier are canonical, the
  provider's reports are well formed and each reply fits the frame limit of 262144 bytes, every
  challenge of a freshly started agent is answered by a report that the daemon accepts, so after
  any number of rounds the agent is connected without a reconnection and its sample is the reply
  of the last round: its nonce, role, platform, instance, boot and number, and the report that
  the provider gave in that round with the resource sample added.
\<close>

theorem agent_observed:
  assumes "\<forall>k \<in> set ks. good_talk boot k" "uuid_text boot" "uuid_text inst" "ks \<noteq> []" "all_fit ft cfg inst boot ks"
    and "run (converse ft cfg) ks (\<lparr>instance_id = inst, sequence = 0\<rparr>, spawned c0) = (a, c)"
  shows "connected (ast c) \<and> reconnects (ast c) = reconnects (ast c0) \<and> sequence a = int (length ks)
    \<and> last_sample (ast c) = Some (reply_of cfg inst boot (length ks) (last ks))"
proof -
  obtain ks' k where ks: "ks = ks' @ [k]" using assms(4) by (metis rev_exhaust)
  have "in_step inst boot (reconnects (ast c0)) (length ks') (run (converse ft cfg) ks' (\<lparr>instance_id = inst, sequence = 0\<rparr>, spawned c0))"
    using assms(1,5) by (intro run_in_step assms(2,3)) (simp_all add: ks all_fit_snoc)
  note i = this
  have g: "good_talk boot k" using assms(1) by (simp add: ks)
  have l: "frame_len ft (reply_of cfg inst boot (Suc (length ks')) k) \<le> 262144" using assms(5) by (simp add: all_fit_snoc ks)
  have "in_step inst boot (reconnects (ast c0)) (Suc (length ks')) (a, c) \<and> connected (ast c) \<and> last_sample (ast c) = Some (reply_of cfg inst boot (Suc (length ks')) k)"
    using converse_in_step [OF i g assms(2,3) l] assms(6) by (simp add: ks)
  then show ?thesis by (simp add: in_step_def ks)
qed

section \<open>Concrete runs\<close>

definition sample_uuid :: string where "sample_uuid = ''01234567-89ab-cdef-0123-456789abcdef''"

definition sample_agent :: agent_cfg where
  "sample_agent = \<lparr>argv = [''/agent''], role = ''dp'', platform = ''x86'', interval = 5, timeout = 3, stale_after = 10\<rparr>"

definition sample_talk :: "json \<Rightarrow> talk" where
  "sample_talk ready =
     \<lparr>t_nonce = sample_uuid, t_report = JObj [(''ready'', ready), (''boot_id'', JStr sample_uuid)], t_sample = JNull, t_now = JFloat 7, t_at = 7\<rparr>"

definition sample_float :: "int \<Rightarrow> string" where
  "sample_float n = int_text n @ ''.0''"

definition sample_reply :: obj where
  "sample_reply =
     [(''v'', JInt 1), (''nonce'', JStr sample_uuid), (''role'', JStr ''dp''), (''platform'', JStr ''x86''), (''instance'', JStr sample_uuid),
      (''boot_id'', JStr sample_uuid), (''sequence'', JInt 1), (''observed_at'', JFloat 7), (''report'', JObj [(''ready'', JBool True), (''boot_id'', JStr sample_uuid)])]"

definition sample_pipe_inputs :: "chan_input list" where
  "sample_pipe_inputs = [Spawn False, Spawn True, Challenge sample_uuid (Some sample_reply) 7]"

definition sample_file :: cfg_file where
  "sample_file =
     \<lparr>st_uid = 0, st_mode = 0x180, st_size = 200,
      content = [(''worker_socket'', JStr ''/run/w''), (''agents'', JObj [(''a'', JObj [(''argv'', JList [JStr ''/agent'']), (''role'', JStr ''dp''),
        (''platform'', JStr ''x86''), (''interval'', JInt 5), (''timeout'', JInt 3), (''stale_after'', JInt 10)])])]\<rparr>"

lemma sample_uuid_ok: "uuid_text sample_uuid"
  by code_simp

lemma sample_valid: "validate sample_reply sample_uuid ''dp'' ''x86'' None = Inr sample_reply"
  using sample_uuid_ok
  by (simp add: validate_def identity_ok_def sample_reply_def has_keys_def REPLY_KEYS_def seq_of_def report_ok_def report_boot_def canonical_def)

lemma sample_pipe:
  "\<exists>c. run (track sample_agent) sample_pipe_inputs (new_channel, []) = (c, [(sample_uuid, sample_reply)]) \<and> connected (ast c) \<and> received (ast c) = Some 7
     \<and> last_sample (ast c) = Some sample_reply"
  by (simp add: sample_pipe_inputs_def new_channel_def spawned_def sample_agent_def sample_valid disconnect_def Let_def push_event_def)

theorem agent_reports_in_order_witness: "chained sample_agent [(sample_uuid, sample_reply)]"
proof -
  obtain c where "run (track sample_agent) sample_pipe_inputs (new_channel, []) = (c, [(sample_uuid, sample_reply)])" using sample_pipe by blast
  from agent_reports_in_order [OF this] show ?thesis by simp
qed

theorem agent_ready_sound_witness:
  "\<exists>c. run (track sample_agent) sample_pipe_inputs (new_channel, []) = (c, [(sample_uuid, sample_reply)]) \<and> s_ready (status sample_agent 12 (ast c)) \<and> proc_up c"
proof -
  obtain c where c: "run (track sample_agent) sample_pipe_inputs (new_channel, []) = (c, [(sample_uuid, sample_reply)])" "connected (ast c)" "received (ast c) = Some 7"
    "last_sample (ast c) = Some sample_reply" using sample_pipe by blast
  have r: "s_ready (status sample_agent 12 (ast c))"
    using c(2-4) by (simp add: status_def fresh_at_def age_of_def sample_agent_def sample_ready_def sample_reply_def)
  from agent_ready_sound [OF c(1) r] show ?thesis using c(1) r by blast
qed

lemma sample_load: "load_config ''/run/own'' (Some sample_file) = Inr \<lparr>worker_socket = Some ''/run/w'', agents = [(''a'', sample_agent)]\<rparr>"
  by (simp add: load_config_def sample_file_def sample_agent_def has_keys_def isabs_def Let_def check_agent_def timing_def good_argv_def good_arg_def argv_of_def insert_commute)

theorem agent_no_flap_witness:
  "let s = status sample_agent 15 (ast (chan_step sample_agent (Challenge sample_uuid (Some sample_reply) 7) (spawned new_channel))) in s_fresh s \<and> s_error s = None \<and> s_ready s = sample_ready sample_reply"
proof -
  have v: "validate sample_reply sample_uuid (role sample_agent) (platform sample_agent) (previous (spawned new_channel)) = Inr sample_reply"
    using sample_valid by (simp add: sample_agent_def spawned_def)
  show ?thesis by (rule agent_no_flap [where name = "''a''", OF sample_load _ _ v]) (simp_all add: spawned_def sample_agent_def)
qed

lemma sample_fits:
  "frame_len sample_float (reply_of sample_agent sample_uuid sample_uuid (Suc 0) (sample_talk (JBool False))) \<le> 262144"
  "frame_len sample_float (reply_of sample_agent sample_uuid sample_uuid (Suc (Suc 0)) (sample_talk (JBool True))) \<le> 262144"
  by code_simp+

theorem agent_observed_witness:
  "\<exists>a c. run (converse sample_float sample_agent) [sample_talk (JBool False), sample_talk (JBool True)] (\<lparr>instance_id = sample_uuid, sequence = 0\<rparr>, spawned new_channel) = (a, c)
     \<and> connected (ast c) \<and> sequence a = 2"
proof -
  obtain a c where f: "run (converse sample_float sample_agent) [sample_talk (JBool False), sample_talk (JBool True)] (\<lparr>instance_id = sample_uuid, sequence = 0\<rparr>, spawned new_channel) = (a, c)"
    by fastforce
  have g: "\<forall>k \<in> set [sample_talk (JBool False), sample_talk (JBool True)]. good_talk sample_uuid k"
    using sample_uuid_ok by (simp add: good_talk_def sample_talk_def report_ok_def report_boot_def)
  have "all_fit sample_float sample_agent sample_uuid sample_uuid [sample_talk (JBool False), sample_talk (JBool True)]"
    using sample_fits by (simp add: all_fit_def less_Suc_eq)
  then show ?thesis using agent_observed [OF g sample_uuid_ok sample_uuid_ok _ _ f] f by simp
qed

end
