(* ===== verification/Plane_Worker.thy ===== *)
theory Plane_Worker
  imports Agent_Channel "HOL-Library.List_Lexorder" "HOL-Library.Char_ord"
begin

text \<open>
  The plane worker, \<^verbatim>\<open>src/opt/ffn_planed.py\<close>: the request check, the controller budgets, the durable
  journal, the local execution of a request with its recovery actions, the relay to a peer and
  the description of a node. Requests are JSON values; a response is a JSON object. The controllers, the peer
  and the reboot flags are a world that answers; a daemon that dies during an apply is a fate of
  that request. The locks serialise the requests of a node, which come here one after another. The
  digest of a request is a parameter.
\<close>

section \<open>Requests\<close>

definition ACTIONS :: "string list" where
  "ACTIONS = [''status'', ''validate'', ''apply'', ''lookup'', ''result'', ''resolve'', ''inventory'', ''refresh'']"

definition COMMANDS :: "string list" where
  "COMMANDS = [''status'', ''validate'', ''apply'', ''lookup'', ''refresh'']"

definition DEFAULT_TIMEOUT :: "string \<Rightarrow> int option" where
  "DEFAULT_TIMEOUT a = (if a = ''apply'' then Some 90 else None)"

definition FALLBACK_TIMEOUT :: int where "FALLBACK_TIMEOUT = 20"
definition MAX_TIMEOUT :: int where "MAX_TIMEOUT = 110"
definition PEER_WAIT :: int where "PEER_WAIT = 120"
definition CLIENT_WAIT :: int where "CLIENT_WAIT = 125"
definition INVENTORY :: string where "INVENTORY = ''planes''"
definition BLOCKED_SHOWN :: nat where "BLOCKED_SHOWN = 32"
definition IDENTITY_KEYS :: "string list" where "IDENTITY_KEYS = [''expected_boot_id'', ''dp_boot_id'', ''boot_id'']"

record preq =
  q_id :: string
  q_resource :: string
  q_action :: string
  q_payload :: obj

definition resource_name :: "string \<Rightarrow> bool" where
  "resource_name s =
     (s \<noteq> [] \<and> hd s \<in> set ''abcdefghijklmnopqrstuvwxyz'' \<and> length s \<le> 32 \<and> list_all (\<lambda>c. c \<in> set ''abcdefghijklmnopqrstuvwxyz0123456789-'') s)"

definition check :: "json \<Rightarrow> preq res" where
  "check v =
     need (as_obj v) (ValueError ''invalid request fields'') (\<lambda>d.
     ok (has_keys [''v'', ''id'', ''resource'', ''action'', ''payload''] d) (ValueError ''invalid request fields'')
     (ok (item ''v'' d = JInt 1) (ValueError ''unsupported protocol version'')
     (rbind (case canonical (item ''id'' d) of Inl _ \<Rightarrow> Inl (ValueError ''request ID must be a canonical UUID'') | Inr i \<Rightarrow> Inr i) (\<lambda>i.
      need (as_str (item ''resource'' d)) (ValueError ''invalid resource'') (\<lambda>r.
      ok (resource_name r) (ValueError ''invalid resource'')
      (need (as_str (item ''action'' d)) (ValueError ''invalid action or payload'') (\<lambda>a.
       need (as_obj (item ''payload'' d)) (ValueError ''invalid action or payload'') (\<lambda>p.
       ok (a \<in> set ACTIONS) (ValueError ''invalid action or payload'')
       (ok ((a = ''inventory'') = (r = INVENTORY)) (ValueError (''inventory is the only action on the reserved '' @ [CHR 0x27] @ INVENTORY @ [CHR 0x27] @ '' resource''))
       (ok (\<not> (a \<in> {''status'', ''inventory''} \<and> p \<noteq> [])) (ValueError (a @ '' takes no payload''))
       (ok (\<not> (a = ''refresh'' \<and> p \<noteq> [])) (ValueError ''observation refresh takes no payload'')
       (ok (a \<in> {''apply'', ''validate''} \<longrightarrow> (\<exists>n \<in> set_option (as_int (item ''revision'' p)). 0 \<le> n)) (ValueError ''current revision is required'')
         (Inr \<lparr>q_id = i, q_resource = r, q_action = a, q_payload = p\<rparr>)))))))))))))"

section \<open>Budgets\<close>

text \<open>Per resource, per action, the argument vector of its controller.\<close>

type_synonym command_table = "(string \<times> (string \<times> string list) list) list"
type_synonym timeout_table = "((string \<times> string) \<times> int) list"

definition actions_of :: "command_table \<Rightarrow> string \<Rightarrow> (string \<times> string list) list" where
  "actions_of cs resource = (case map_of cs resource of Some as \<Rightarrow> as | None \<Rightarrow> [])"

definition timeout_entry :: "command_table \<Rightarrow> string \<Rightarrow> string \<times> json \<Rightarrow> timeout_table \<Rightarrow> timeout_table res" where
  "timeout_entry cs resource e table =
     (case e of (action, v) \<Rightarrow>
        ok (action \<in> set COMMANDS) (ValueError ''timeout for something that is not a controller command'')
        (ok (resource = ''default'' \<or> action \<in> fst ` set (actions_of cs resource)) (ValueError ''timeout for an operation this resource does not configure'')
        (need (as_int v) (ValueError ''timeout must be a whole number of seconds, 1 to 110'') (\<lambda>n.
         ok (1 \<le> n \<and> n \<le> MAX_TIMEOUT) (ValueError ''timeout must be a whole number of seconds, 1 to 110'')
           (Inr (dict_set (resource, action) n table))))))"

definition timeout_resource :: "command_table \<Rightarrow> string \<times> json \<Rightarrow> timeout_table \<Rightarrow> timeout_table res" where
  "timeout_resource cs e table =
     (case e of (resource, v) \<Rightarrow>
        ok (resource = ''default'' \<or> resource \<in> fst ` set cs) (ValueError ''timeout for unconfigured resource'')
        (need (as_obj v) (ValueError ''timeouts for a resource must be a nonempty object'') (\<lambda>actions.
         ok (actions \<noteq> []) (ValueError ''timeouts for a resource must be a nonempty object'')
           (fold_res (timeout_entry cs resource) actions table))))"

definition timeouts :: "json \<Rightarrow> command_table \<Rightarrow> timeout_table res" where
  "timeouts configured cs =
     need (as_obj configured) (ValueError ''timeouts must be an object'') (\<lambda>d. fold_res (timeout_resource cs) d [])"

record plane =
  p_role :: string
  p_commands :: command_table
  p_timeouts :: timeout_table
  p_peer :: "string list option"

text \<open>A budget is positive, so \<^verbatim>\<open>or\<close> takes the first one that is configured.\<close>

definition plane_timeout :: "plane \<Rightarrow> string \<Rightarrow> string \<Rightarrow> int" where
  "plane_timeout p resource action =
     (case map_of (p_timeouts p) (resource, action) of
        Some n \<Rightarrow> n
      | None \<Rightarrow>
          (case map_of (p_timeouts p) (''default'', action) of
             Some n \<Rightarrow> n
           | None \<Rightarrow> (case DEFAULT_TIMEOUT action of Some n \<Rightarrow> n | None \<Rightarrow> FALLBACK_TIMEOUT)))"

definition check_vector :: "string list \<Rightarrow> string list res" where
  "check_vector vs =
     ok (vs \<noteq> [] \<and> list_all (\<lambda>a. a \<noteq> [] \<and> CHR 0x00 \<notin> set a) vs) (ValueError ''controller argv must be a nonempty string array'')
       (ok (isabs (hd vs)) (ValueError ''executables must have absolute paths'') (Inr vs))"

definition new_plane :: "string \<Rightarrow> command_table \<Rightarrow> json \<Rightarrow> string list option \<Rightarrow> plane res" where
  "new_plane rl cs tm peer =
     ok (rl \<in> {''mp'', ''cp'', ''dp''}) (ValueError ''role must be mp, cp or dp'')
     (ok (INVENTORY \<notin> fst ` set cs) (ValueError ([CHR 0x27] @ INVENTORY @ [CHR 0x27] @ '' is reserved for describing a node''))
     (rbind (timeouts tm cs) (\<lambda>table.
      ok (\<not> (peer \<in> {None, Some []} \<and> cs = [])) (ValueError ''select peer argv or local commands'')
      (rbind (map_res check_vector ((case peer of Some v \<Rightarrow> if v \<noteq> [] then [v] else [] | None \<Rightarrow> []) @ concat (map (\<lambda>(_, as). map snd as) cs))) (\<lambda>_.
       Inr \<lparr>p_role = rl, p_commands = cs, p_timeouts = table, p_peer = (if peer = Some [] then None else peer)\<rparr>)))))"

section \<open>Journal and world\<close>

record prow =
  w_id :: string
  w_digest :: string
  w_resource :: string
  w_response :: obj
  w_state :: string
  w_intent :: preq

text \<open>A controller run: the request it serves, its resource and action, and the seconds \<^verbatim>\<open>command\<close> lets it take.\<close>

record pcall =
  c_id :: string
  c_resource :: string
  c_action :: string
  c_budget :: int

record pstate =
  rows :: "prow list"
  calls :: "pcall list"

text \<open>
  The answers of one request: of a controller by resource, action and payload, of the peer by
  request (\<open>None\<close> when asking it raises), and the reboot flags in the order of their names (an
  unreadable one ends the search).
\<close>

record pworld =
  controller :: "string \<Rightarrow> string \<Rightarrow> obj \<Rightarrow> json res"
  peer_answer :: "preq \<Rightarrow> json option"
  flags :: "(string \<times> json option) list"

datatype fate = Completes | Dies_before_apply | Dies_after_apply

definition response :: "plane \<Rightarrow> string option \<Rightarrow> string \<Rightarrow> json \<Rightarrow> string option \<Rightarrow> obj" where
  "response p i st result err =
     [(''v'', JInt 1), (''id'', case i of Some s \<Rightarrow> JStr s | None \<Rightarrow> JNull), (''ok'', JBool (err = None)), (''state'', JStr st),
      (''result'', result), (''error'', case err of Some e \<Rightarrow> JStr e | None \<Rightarrow> JNull), (''trace'', JList [JStr (p_role p)])]"

definition error_text :: "py_error \<Rightarrow> string" where
  "error_text e = (case e of ValueError m \<Rightarrow> m | _ \<Rightarrow> ''Controller unavailable or rejected request'')"

definition rejected :: "plane \<Rightarrow> preq \<Rightarrow> py_error \<Rightarrow> obj" where
  "rejected p q e = response p (Some (q_id q)) ''rejected'' JNull (Some (error_text e))"

definition command :: "plane \<Rightarrow> pworld \<Rightarrow> string \<Rightarrow> string \<Rightarrow> string \<Rightarrow> obj \<Rightarrow> pstate \<Rightarrow> obj res \<times> pstate" where
  "command p w ident resource action payload s =
     (case map_of (actions_of (p_commands p) resource) action of
        None \<Rightarrow> (Inl (ValueError ''unsupported resource operation''), s)
      | Some _ \<Rightarrow>
          (rbind (controller w resource action payload) (\<lambda>v. need (as_obj v) (ValueError ''controller response must be an object'') Inr),
           s\<lparr>calls := calls s @ [\<lparr>c_id = ident, c_resource = resource, c_action = action, c_budget = plane_timeout p resource action\<rparr>]\<rparr>))"

definition stored :: "pstate \<Rightarrow> string \<Rightarrow> prow option" where
  "stored s ident = find (\<lambda>r. w_id r = ident) (rows s)"

definition state_of :: "obj \<Rightarrow> string" where
  "state_of d = (case item ''state'' d of JStr st \<Rightarrow> st | _ \<Rightarrow> [])"

definition record_response :: "string \<Rightarrow> obj \<Rightarrow> pstate \<Rightarrow> pstate" where
  "record_response ident resp s =
     s\<lparr>rows := map (\<lambda>r. if w_id r = ident then r\<lparr>w_response := resp, w_state := state_of resp\<rparr> else r) (rows s)\<rparr>"

definition insert_row :: "(preq \<Rightarrow> string) \<Rightarrow> preq \<Rightarrow> obj \<Rightarrow> pstate \<Rightarrow> pstate" where
  "insert_row dg q resp s =
     s\<lparr>rows := rows s @ [\<lparr>w_id = q_id q, w_digest = dg q, w_resource = q_resource q, w_response = resp, w_state = ''unknown'', w_intent = q\<rparr>]\<rparr>"

definition unknown_rows :: "string \<Rightarrow> pstate \<Rightarrow> prow list" where
  "unknown_rows resource s = filter (\<lambda>r. w_resource r = resource \<and> w_state r = ''unknown'') (rows s)"

section \<open>Reboots\<close>

definition text_of :: "json \<Rightarrow> string option" where
  "text_of v = (case v of JStr s \<Rightarrow> if s \<noteq> [] then Some s else None | _ \<Rightarrow> None)"

fun first_text :: "string list \<Rightarrow> obj \<Rightarrow> string option" where
  "first_text [] d = None"
| "first_text (k # ks) d = (case text_of (item k d) of Some s \<Rightarrow> Some s | None \<Rightarrow> first_text ks d)"

definition bound_identity :: "obj \<Rightarrow> string option" where
  "bound_identity payload = first_text IDENTITY_KEYS payload"

definition obj_of :: "json \<Rightarrow> obj" where
  "obj_of v = (case v of JObj d \<Rightarrow> d | _ \<Rightarrow> [])"

fun first_boot :: "json list \<Rightarrow> string option" where
  "first_boot [] = None"
| "first_boot (v # vs) = (case first_text [''dp_boot_id'', ''boot_id''] (obj_of v) of Some s \<Rightarrow> Some s | None \<Rightarrow> first_boot vs)"

definition observed_identity :: "obj \<Rightarrow> string option" where
  "observed_identity st =
     (let attachment = obj_of (item ''attachment'' st)
      in first_boot [JObj st, item ''state'' st, JObj attachment, item ''attachment'' attachment, item ''dp'' st])"

fun rebooted :: "string \<Rightarrow> string \<Rightarrow> (string \<times> json option) list \<Rightarrow> string option" where
  "rebooted before after [] = None"
| "rebooted before after ((name, None) # fs) = None"
| "rebooted before after ((name, Some v) # fs) =
     (if item ''boot_id_before'' (obj_of v) = JStr before \<and> before \<noteq> after then Some name else rebooted before after fs)"

definition config_of :: "obj \<Rightarrow> obj" where
  "config_of st = (case item ''config'' st of JObj d \<Rightarrow> d | _ \<Rightarrow> st)"

definition supersede_row :: "plane \<Rightarrow> pworld \<Rightarrow> prow \<Rightarrow> string \<Rightarrow> obj \<Rightarrow> pstate \<Rightarrow> pstate" where
  "supersede_row p w r bound st s =
     (case observed_identity st of
        None \<Rightarrow> s
      | Some current \<Rightarrow>
          (case rebooted bound current (flags w) of
             None \<Rightarrow> s
           | Some fl \<Rightarrow>
               record_response (w_id r)
                 (response p (Some (w_id r)) ''reconciled''
                   (JObj [(''observed_revision'', item ''revision'' (config_of st)), (''superseded_by'', JStr current), (''reboot_flag'', JStr fl)]) None) s))"

fun supersede_rows :: "plane \<Rightarrow> pworld \<Rightarrow> string \<Rightarrow> string \<Rightarrow> prow list \<Rightarrow> obj option \<Rightarrow> pstate \<Rightarrow> pstate" where
  "supersede_rows p w ident resource [] st s = s"
| "supersede_rows p w ident resource (r # rs) st s =
     (case bound_identity (q_payload (w_intent r)) of
        None \<Rightarrow> supersede_rows p w ident resource rs st s
      | Some bound \<Rightarrow>
          (case st of
             Some o' \<Rightarrow> supersede_rows p w ident resource rs st (supersede_row p w r bound o' s)
           | None \<Rightarrow>
               (case command p w ident resource ''status'' [] s of
                  (Inl _, s') \<Rightarrow> s'
                | (Inr o', s') \<Rightarrow> supersede_rows p w ident resource rs (Some o') (supersede_row p w r bound o' s'))))"

definition supersede :: "plane \<Rightarrow> pworld \<Rightarrow> string \<Rightarrow> string \<Rightarrow> pstate \<Rightarrow> nat \<times> pstate" where
  "supersede p w ident resource s =
     (let s' = supersede_rows p w ident resource (unknown_rows resource s) None s
      in (length (unknown_rows resource s'), s'))"

section \<open>Local execution\<close>

text \<open>\<^verbatim>\<open>result\<close> and \<^verbatim>\<open>resolve\<close>\<close>

definition resolve :: "plane \<Rightarrow> pworld \<Rightarrow> preq \<Rightarrow> string \<Rightarrow> pstate \<Rightarrow> obj \<times> pstate" where
  "resolve p w q target s =
     (case command p w (q_id q) (q_resource q) ''status'' [] s of
        (Inl e, s') \<Rightarrow> (rejected p q e, s')
      | (Inr observed, s') \<Rightarrow>
          (let revision = item ''revision'' (config_of observed); given = item ''observed_revision'' (q_payload q) in
           if as_int given = None \<or> \<not> py_eq revision given
           then (rejected p q (ValueError ''observed revision changed; review runtime status again''), s')
           else
             (let resolved = response p (Some target) ''reconciled'' (JObj [(''observed_revision'', revision)]) None
              in (response p (Some (q_id q)) ''reconciled'' (JObj resolved) None, record_response target resolved s'))))"

definition recover :: "plane \<Rightarrow> pworld \<Rightarrow> preq \<Rightarrow> pstate \<Rightarrow> obj \<times> pstate" where
  "recover p w q s =
     (let allowed = (if q_action q = ''result'' then [''request_id''] else [''request_id'', ''observed_revision'']) in
      case (if has_keys allowed (q_payload q) then as_str (item ''request_id'' (q_payload q)) else None) of
        None \<Rightarrow> (rejected p q (ValueError ''invalid result/reconciliation request''), s)
      | Some target \<Rightarrow>
          (case stored s target of
             None \<Rightarrow> (rejected p q (ValueError ''request not found''), s)
           | Some row \<Rightarrow>
               if w_resource row \<noteq> q_resource q then (rejected p q (ValueError ''request not found''), s)
               else if q_action q = ''result'' then (response p (Some (q_id q)) ''observed'' (JObj (w_response row)) None, s)
               else if state_of (w_response row) \<noteq> ''unknown'' then (rejected p q (ValueError ''only unknown requests require reconciliation''), s)
               else resolve p w q target s))"

definition observe :: "plane \<Rightarrow> pworld \<Rightarrow> preq \<Rightarrow> pstate \<Rightarrow> obj \<times> pstate" where
  "observe p w q s =
     (case command p w (q_id q) (q_resource q) (q_action q) (q_payload q) s of
        (Inl e, s') \<Rightarrow> (rejected p q e, s')
      | (Inr result, s') \<Rightarrow> (response p (Some (q_id q)) (if q_action q = ''validate'' then ''validated'' else ''observed'') (JObj result) None, s'))"

text \<open>From the durable intent on; \<open>None\<close> when the daemon dies.\<close>

definition execute :: "plane \<Rightarrow> (preq \<Rightarrow> string) \<Rightarrow> pworld \<Rightarrow> fate \<Rightarrow> preq \<Rightarrow> pstate \<Rightarrow> obj option \<times> pstate" where
  "execute p dg w f q s =
     (let unknown = response p (Some (q_id q)) ''unknown'' JNull (Some ''Apply interrupted or incomplete; reconcile runtime state'');
          s = insert_row dg q unknown s
      in if f = Dies_before_apply then (None, s)
         else
           (case command p w (q_id q) (q_resource q) ''apply'' (q_payload q) s of
              (r, s') \<Rightarrow>
                if f = Dies_after_apply then (None, s')
                else
                  (case r of
                     Inl _ \<Rightarrow> (Some unknown, s')
                   | Inr result \<Rightarrow>
                       (let answer = response p (Some (q_id q)) ''applied'' (JObj result) None
                        in (Some answer, record_response (q_id q) answer s')))))"

definition apply_request :: "plane \<Rightarrow> (preq \<Rightarrow> string) \<Rightarrow> pworld \<Rightarrow> fate \<Rightarrow> preq \<Rightarrow> pstate \<Rightarrow> obj option \<times> pstate" where
  "apply_request p dg w f q s =
     (case stored s (q_id q) of
        Some row \<Rightarrow>
          if w_digest row \<noteq> dg q then (Some (rejected p q (ValueError ''request ID reused with different content'')), s)
          else (Some (w_response row), s)
      | None \<Rightarrow>
          (case (if unknown_rows (q_resource q) s \<noteq> [] then supersede p w (q_id q) (q_resource q) s else (0, s)) of
             (n, s) \<Rightarrow>
               if n \<noteq> 0 then (Some (rejected p q (ValueError ''resource has an unknown outcome; reconcile before another apply'')), s)
               else
                 (case command p w (q_id q) (q_resource q) ''validate'' (q_payload q) s of
                    (Inl e, s') \<Rightarrow> (Some (rejected p q e), s')
                  | (Inr _, s') \<Rightarrow> execute p dg w f q s')))"

definition plane_local :: "plane \<Rightarrow> (preq \<Rightarrow> string) \<Rightarrow> pworld \<Rightarrow> fate \<Rightarrow> preq \<Rightarrow> pstate \<Rightarrow> obj option \<times> pstate" where
  "plane_local p dg w f q s =
     (if q_resource q \<notin> fst ` set (p_commands p) then (Some (rejected p q (ValueError ''unsupported resource'')), s)
      else if q_action q \<in> {''result'', ''resolve''} then map_prod Some id (recover p w q s)
      else if q_action q \<noteq> ''apply'' then map_prod Some id (observe p w q s)
      else apply_request p dg w f q s)"

section \<open>Relay and dispatch\<close>

definition peer_trace :: "plane \<Rightarrow> preq \<Rightarrow> json \<Rightarrow> (obj \<times> json list) option" where
  "peer_trace p q v =
     (case v of
        JObj d \<Rightarrow>
          (case item ''trace'' d of
             JList tr \<Rightarrow>
               if py_eq (item ''v'' d) (JInt 1) \<and> item ''id'' d = JStr (q_id q) \<and> length tr < 3 \<and> JStr (p_role p) \<notin> set tr then Some (d, tr) else None
           | _ \<Rightarrow> None)
      | _ \<Rightarrow> None)"

text \<open>A missing state raises, and so does storing one that is a list or an object.\<close>

definition storable :: "json option \<Rightarrow> bool" where
  "storable v = (case v of None \<Rightarrow> False | Some (JList _) \<Rightarrow> False | Some (JObj _) \<Rightarrow> False | _ \<Rightarrow> True)"

definition ask_peer :: "plane \<Rightarrow> pworld \<Rightarrow> preq \<Rightarrow> pstate \<Rightarrow> obj \<times> pstate" where
  "ask_peer p w q s =
     (let lost = response p (Some (q_id q)) ''unknown'' JNull (Some ''Downstream outcome unknown; query request ID before retrying'') in
      case peer_answer w q of
        None \<Rightarrow> (lost, s)
      | Some v \<Rightarrow>
          (case peer_trace p q v of
             None \<Rightarrow> (lost, s)
           | Some (d, tr) \<Rightarrow>
               (let d = dict_set ''trace'' (JList (JStr (p_role p) # tr)) d
                in if q_action q = ''apply''
                   then if storable (map_of d ''state'') then (d, record_response (q_id q) d s) else (lost, s)
                   else (d, s))))"

definition relay :: "plane \<Rightarrow> (preq \<Rightarrow> string) \<Rightarrow> pworld \<Rightarrow> preq \<Rightarrow> pstate \<Rightarrow> obj \<times> pstate" where
  "relay p dg w q s =
     (if q_action q \<noteq> ''apply'' then ask_peer p w q s
      else
        (case stored s (q_id q) of
           Some row \<Rightarrow>
             if w_digest row \<noteq> dg q then (rejected p q (ValueError ''request ID reused with different content''), s)
             else if state_of (w_response row) \<in> {''applied'', ''reconciled''} then (w_response row, s)
             else ask_peer p w q s
         | None \<Rightarrow>
             ask_peer p w q (insert_row dg q (response p (Some (q_id q)) ''unknown'' JNull (Some ''Awaiting downstream outcome'')) s)))"

definition blocked_ids :: "string \<Rightarrow> pstate \<Rightarrow> string list" where
  "blocked_ids name s = map w_id (unknown_rows name s)"

definition describe_resource :: "plane \<Rightarrow> pstate \<Rightarrow> string \<Rightarrow> json" where
  "describe_resource p s name =
     (let ctl = sort (map fst (actions_of (p_commands p) name)); waiting = blocked_ids name s;
          actions = (if ''apply'' \<in> set ctl \<or> waiting \<noteq> [] then remdups (ctl @ [''result'', ''resolve'']) else ctl)
      in JObj [(''controller'', JList (map JStr ctl)), (''actions'', JList (map JStr (sort actions))),
           (''timeouts'', JObj (map (\<lambda>a. (a, JInt (plane_timeout p name a))) ctl)), (''relayed'', JBool (name \<notin> fst ` set (p_commands p))),
           (''blocked'', JList (map JStr (take BLOCKED_SHOWN waiting))), (''blocked_total'', JInt (int (length waiting)))])"

definition describe :: "plane \<Rightarrow> pstate \<Rightarrow> obj" where
  "describe p s =
     (let names = sort (remdups (map fst (p_commands p) @ map w_resource (filter (\<lambda>r. w_state r = ''unknown'') (rows s))))
      in [(''role'', JStr (p_role p)), (''relays'', JBool (p_peer p \<noteq> None)), (''resources'', JObj (map (\<lambda>n. (n, describe_resource p s n)) names))])"

definition inventory :: "plane \<Rightarrow> pworld \<Rightarrow> preq \<Rightarrow> pstate \<Rightarrow> obj" where
  "inventory p w probe s =
     (case p_peer p of
        None \<Rightarrow> describe p s
      | Some _ \<Rightarrow>
          (let unreachable = [(''reachable'', JBool False)];
               peer = (case peer_answer w probe of
                   Some v \<Rightarrow>
                     (case peer_trace p probe v of
                        Some (d, _) \<Rightarrow>
                          (case item ''result'' d of
                             JObj r \<Rightarrow> if truthy (item ''ok'' d) then dict_set ''reachable'' (JBool True) r else unreachable
                           | _ \<Rightarrow> unreachable)
                      | None \<Rightarrow> unreachable)
                 | None \<Rightarrow> unreachable)
           in describe p s @ [(''peer'', JObj peer)]))"

text \<open>\<open>probe\<close> is the identifier of the question an inventory asks the peer.\<close>

definition dispatch :: "plane \<Rightarrow> (preq \<Rightarrow> string) \<Rightarrow> string \<Rightarrow> pworld \<Rightarrow> fate \<Rightarrow> json \<Rightarrow> pstate \<Rightarrow> obj option \<times> pstate" where
  "dispatch p dg probe w f v s =
     (case check v of
        Inl _ \<Rightarrow> (Some (response p None ''rejected'' JNull (Some ''Invalid plane request'')), s)
      | Inr q \<Rightarrow>
          if q_action q = ''inventory''
          then (Some (response p (Some (q_id q)) ''observed''
                  (JObj (inventory p w \<lparr>q_id = probe, q_resource = INVENTORY, q_action = ''inventory'', q_payload = []\<rparr> s)) None), s)
          else if p_peer p \<noteq> None \<and> q_resource q \<notin> fst ` set (p_commands p) then map_prod Some id (relay p dg w q s)
          else plane_local p dg w f q s)"

section \<open>At most once\<close>

type_synonym pinput = "string \<times> pworld \<times> fate \<times> json"

definition plane_step :: "plane \<Rightarrow> (preq \<Rightarrow> string) \<Rightarrow> pinput \<Rightarrow> pstate \<Rightarrow> pstate" where
  "plane_step p dg i s = (case i of (probe, w, f, v) \<Rightarrow> snd (dispatch p dg probe w f v s))"

definition plane_run :: "plane \<Rightarrow> (preq \<Rightarrow> string) \<Rightarrow> pinput list \<Rightarrow> pstate \<Rightarrow> pstate" where
  "plane_run p dg is s = run (plane_step p dg) is s"

definition empty_journal :: pstate where
  "empty_journal = \<lparr>rows = [], calls = []\<rparr>"

text \<open>The runs of an apply controller for a request, and the journal's keys with their digests.\<close>

definition applies :: "string \<Rightarrow> pstate \<Rightarrow> pcall list" where
  "applies k s = filter (\<lambda>c. c_id c = k \<and> c_action c = ''apply'') (calls s)"

definition heads :: "pstate \<Rightarrow> (string \<times> string) list" where
  "heads s = map (\<lambda>r. (w_id r, w_digest r)) (rows s)"

definition keeps :: "pstate \<Rightarrow> pstate \<Rightarrow> bool" where
  "keeps s s' = (heads s' = heads s \<and> (\<forall>k. applies k s' = applies k s))"

lemma journal_keeps_refl [simp]: "keeps s s"
  by (simp add: keeps_def)

lemma journal_keeps_trans: "keeps a b \<Longrightarrow> keeps b c \<Longrightarrow> keeps a c"
  by (simp add: keeps_def)

text \<open>What every local operation but the execution of an apply does: it also leaves no new unknown row.\<close>

definition settles :: "pstate \<Rightarrow> pstate \<Rightarrow> bool" where
  "settles s s' = (keeps s s' \<and> (\<forall>res. length (unknown_rows res s') \<le> length (unknown_rows res s)))"

lemma settles_refl [simp]: "settles s s"
  by (simp add: settles_def)

lemma settles_trans: "settles a b \<Longrightarrow> settles b c \<Longrightarrow> settles a c"
  using journal_keeps_trans le_trans unfolding settles_def by blast

lemma settles_keeps: "settles s s' \<Longrightarrow> keeps s s'"
  by (simp add: settles_def)

lemma command_rows [simp]: "rows (snd (command p w i r a pl s)) = rows s"
  by (simp add: command_def split: option.split)

lemma command_settles: "a \<noteq> ''apply'' \<Longrightarrow> settles s (snd (command p w i r a pl s))"
  by (simp add: command_def settles_def keeps_def heads_def applies_def unknown_rows_def split: option.split)

lemma record_keeps [simp]: "keeps s (record_response i resp s)"
  by (auto simp: record_response_def keeps_def heads_def applies_def)

lemma record_unknown:
  "state_of resp \<noteq> ''unknown'' \<Longrightarrow>
     unknown_rows res (record_response i resp s) = filter (\<lambda>r. w_id r \<noteq> i) (unknown_rows res s)"
proof -
  assume a: "state_of resp \<noteq> ''unknown''"
  have "filter (\<lambda>r. w_resource r = res \<and> w_state r = ''unknown'') (map (\<lambda>r. if w_id r = i then r\<lparr>w_response := resp, w_state := state_of resp\<rparr> else r) rs)
     = filter (\<lambda>r. w_id r \<noteq> i) (filter (\<lambda>r. w_resource r = res \<and> w_state r = ''unknown'') rs)" for rs
    by (induction rs) (auto simp: a)
  then show ?thesis by (simp add: unknown_rows_def record_response_def)
qed

lemma record_settles: "state_of resp \<noteq> ''unknown'' \<Longrightarrow> settles s (record_response i resp s)"
  by (simp add: settles_def record_unknown)

lemma response_state [simp]: "state_of (response p i st res err) = st"
  by (simp add: response_def state_of_def)

lemma supersede_row_settles: "settles s (supersede_row p w r b st s)"
  by (simp add: supersede_row_def record_settles split: option.split)

lemma supersede_rows_settles: "settles s (supersede_rows p w i res rs st s)"
proof (induction rs arbitrary: st s)
  case (Cons r rs)
  have c: "settles s (snd (command p w i res ''status'' [] s))" by (rule command_settles) simp
  have step: "settles s' (supersede_rows p w i res rs st' (supersede_row p w r b o' s'))" for st' b o' s'
    using settles_trans [OF supersede_row_settles Cons.IH] .
  show ?case using Cons.IH [of s st] step c settles_trans [OF c step]
    by (auto split: option.split prod.split sum.split)
qed simp

lemma supersede_settles: "settles s (snd (supersede p w i res s))"
  by (simp add: supersede_def Let_def supersede_rows_settles)

lemma resolve_settles: "settles s (snd (resolve p w q t s))"
proof -
  obtain r s' where c: "command p w (q_id q) (q_resource q) ''status'' [] s = (r, s')" by fastforce
  have "settles s s'" using command_settles [of "''status''" s p w "q_id q" "q_resource q" "[]"] c by simp
  then show ?thesis using settles_trans [OF _ record_settles] by (auto simp: resolve_def c Let_def split: sum.split)
qed

lemma recover_settles: "settles s (snd (recover p w q s))"
  by (auto simp: recover_def Let_def resolve_settles split: option.split)

lemma observe_settles: "q_action q \<noteq> ''apply'' \<Longrightarrow> settles s (snd (observe p w q s))"
  using command_settles [of "q_action q" s p w "q_id q" "q_resource q" "q_payload q"]
  by (auto simp: observe_def split: prod.split sum.split)

lemma ask_peer_keeps: "keeps s (snd (ask_peer p w q s))"
  by (auto simp: ask_peer_def Let_def split: option.split prod.split)

text \<open>A step keeps the journal's keys and the apply runs, or adds one key and at most one run for it.\<close>

definition extends :: "pstate \<Rightarrow> pstate \<Rightarrow> bool" where
  "extends s s' =
     (keeps s s' \<or>
      (\<exists>k d. k \<notin> fst ` set (heads s) \<and> heads s' = heads s @ [(k, d)] \<and> (\<forall>j. j \<noteq> k \<longrightarrow> applies j s' = applies j s)
         \<and> length (applies k s') \<le> length (applies k s) + 1))"

lemma stored_None: "stored s k = None \<longleftrightarrow> k \<notin> fst ` set (heads s)"
  by (simp add: stored_def heads_def find_None_iff image_image) (metis image_iff)

lemma insert_row_heads [simp]: "heads (insert_row dg q resp s) = heads s @ [(q_id q, dg q)]" "applies k (insert_row dg q resp s) = applies k s"
  by (simp_all add: insert_row_def heads_def applies_def)

lemma command_apply: "heads (snd (command p w i r a pl s)) = heads s" "k \<noteq> i \<Longrightarrow> applies k (snd (command p w i r a pl s)) = applies k s"
  "length (applies k (snd (command p w i r a pl s))) \<le> length (applies k s) + 1"
  by (simp_all add: command_def heads_def applies_def split: option.split)

lemma execute_extends:
  assumes "q_id q \<notin> fst ` set (heads s)"
  shows "extends s (snd (execute p dg w f q s))"
proof -
  define s1 where "s1 = insert_row dg q (response p (Some (q_id q)) ''unknown'' JNull (Some ''Apply interrupted or incomplete; reconcile runtime state'')) s"
  obtain r s2 where c: "command p w (q_id q) (q_resource q) ''apply'' (q_payload q) s1 = (r, s2)" by fastforce
  have 1: "heads s1 = heads s @ [(q_id q, dg q)]" "applies k s1 = applies k s" for k by (simp_all add: s1_def)
  have 2: "heads s2 = heads s1" "k \<noteq> q_id q \<Longrightarrow> applies k s2 = applies k s1" "length (applies k s2) \<le> length (applies k s1) + 1" for k
    using command_apply [where p = p and w = w and i = "q_id q" and r = "q_resource q" and a = "''apply''" and pl = "q_payload q" and s = s1] by (simp_all add: c)
  have e: "snd (execute p dg w f q s) \<in> {s1, s2} \<or> (\<exists>resp. snd (execute p dg w f q s) = record_response (q_id q) resp s2)"
    by (auto simp: execute_def Let_def s1_def [symmetric] c split: sum.split)
  have x: "extends s t" if "keeps s1 t \<or> keeps s2 t" for t
    using that assms 1 2 unfolding extends_def keeps_def by auto
  from e show ?thesis using x by auto
qed

lemma keeps_extends: "keeps s s' \<Longrightarrow> extends s' s'' \<Longrightarrow> extends s s''"
  by (auto simp: extends_def keeps_def)

lemma keeps_imp_extends: "keeps s s' \<Longrightarrow> extends s s'"
  by (simp add: extends_def)

text \<open>The stages of an apply before its intent is stored.\<close>

lemma apply_cases:
  obtains (known) row where "stored s (q_id q) = Some row" "snd (apply_request p dg w f q s) = s"
  | (refused) "stored s (q_id q) = None" "settles s (snd (apply_request p dg w f q s))"
  | (runs) s1 where "stored s (q_id q) = None" "settles s s1" "unknown_rows (q_resource q) s1 = []" "apply_request p dg w f q s = execute p dg w f q s1"
proof (cases "stored s (q_id q)")
  case (Some row)
  then show ?thesis using known by (simp add: apply_request_def)
next
  case None
  define ns where "ns = (if unknown_rows (q_resource q) s \<noteq> [] then supersede p w (q_id q) (q_resource q) s else (0, s))"
  obtain n s0 where n: "ns = (n, s0)" by fastforce
  have k0: "settles s s0" using n supersede_settles [of s p w "q_id q" "q_resource q"] by (auto simp: ns_def split: if_splits)
  have u: "unknown_rows (q_resource q) s0 = []" if "n = 0" using n that by (auto simp: ns_def supersede_def Let_def split: if_splits)
  obtain r s1 where c: "command p w (q_id q) (q_resource q) ''validate'' (q_payload q) s0 = (r, s1)" by fastforce
  have r1: "rows s1 = rows s0" using command_rows [of p w "q_id q" "q_resource q" "''validate''" "q_payload q" s0] by (simp add: c)
  have k1: "settles s s1" using command_settles [of "''validate''" s0 p w "q_id q" "q_resource q" "q_payload q"] settles_trans [OF k0] by (simp add: c)
  have a: "apply_request p dg w f q s =
      (if n \<noteq> 0 then (Some (rejected p q (ValueError ''resource has an unknown outcome; reconcile before another apply'')), s0)
       else (case r of Inl e \<Rightarrow> (Some (rejected p q e), s1) | Inr _ \<Rightarrow> execute p dg w f q s1))"
    unfolding apply_request_def ns_def [symmetric] n by (simp add: None c)
  show ?thesis
  proof (cases "n = 0 \<and> (\<exists>x. r = Inr x)")
    case True
    then show ?thesis using runs [OF None k1 _] a u r1 by (auto simp: unknown_rows_def)
  next
    case False
    then show ?thesis using refused [OF None] a k0 k1 by (cases r) (auto split: if_splits)
  qed
qed

lemma apply_extends: "extends s (snd (apply_request p dg w f q s))"
proof (cases rule: apply_cases [of s q p dg w f])
  case known
  then show ?thesis by (simp add: keeps_imp_extends)
next
  case refused
  then show ?thesis by (simp add: keeps_imp_extends settles_keeps)
next
  case (runs s1)
  then have "q_id q \<notin> fst ` set (heads s1)" by (simp add: stored_None settles_def keeps_def)
  then show ?thesis unfolding runs(4) by (rule keeps_extends [OF settles_keeps [OF runs(2)] execute_extends])
qed

lemma relay_extends: "extends s (snd (relay p dg w q s))"
proof (cases "q_action q = ''apply'' \<and> stored s (q_id q) = None")
  case True
  let ?s = "insert_row dg q (response p (Some (q_id q)) ''unknown'' JNull (Some ''Awaiting downstream outcome'')) s"
  have "keeps ?s (snd (relay p dg w q s))" using True ask_peer_keeps [of ?s p w q] by (simp add: relay_def)
  then show ?thesis using True unfolding extends_def keeps_def by (auto simp: stored_None)
next
  case False
  then show ?thesis by (intro keeps_imp_extends) (auto simp: relay_def ask_peer_keeps split: option.split)
qed

lemma local_extends: "extends s (snd (plane_local p dg w f q s))"
  by (auto simp: plane_local_def apply_extends keeps_imp_extends settles_keeps recover_settles observe_settles)

lemma step_extends: "extends s (plane_step p dg i s)"
  by (cases i) (auto simp: plane_step_def dispatch_def local_extends relay_extends keeps_imp_extends split: sum.split)

definition once :: "pstate \<Rightarrow> bool" where
  "once s = (distinct (map fst (heads s)) \<and> (\<forall>k. length (applies k s) \<le> count_list (map fst (heads s)) k))"

lemma extends_once:
  assumes "extends s s'" "once s"
  shows "once s'"
  using assms(1) unfolding extends_def
proof
  assume "keeps s s'"
  then show ?thesis using assms(2) by (simp add: once_def keeps_def)
next
  assume "\<exists>k d. k \<notin> fst ` set (heads s) \<and> heads s' = heads s @ [(k, d)] \<and> (\<forall>j. j \<noteq> k \<longrightarrow> applies j s' = applies j s)
      \<and> length (applies k s') \<le> length (applies k s) + 1"
  then obtain k d where k: "k \<notin> fst ` set (heads s)" "heads s' = heads s @ [(k, d)]" "\<And>j. j \<noteq> k \<Longrightarrow> applies j s' = applies j s"
    "length (applies k s') \<le> length (applies k s) + 1" by blast
  have "length (applies j s') \<le> count_list (map fst (heads s')) j" for j
    using assms(2) k(3,4) by (cases "j = k") (simp_all add: once_def k(2) le_trans [OF k(4)])
  then show ?thesis using assms(2) k(1,2) by (simp add: once_def)
qed

interpretation plane_once: invariant_system "plane_step p dg" once for p dg
  by unfold_locales (rule extends_once [OF step_extends])

lemma run_once: "once s \<Longrightarrow> once (plane_run p dg is s)"
  unfolding plane_run_def by (rule plane_once.inv_run)

lemma empty_once: "once empty_journal"
  by (simp add: once_def empty_journal_def heads_def applies_def)

text \<open>
  (C7) A write runs at most once: over every sequence of requests, controller answers, peer answers
  and deaths of the daemon in the middle of an apply, the apply controller runs at most as often
  for a request as the journal has rows for its identifier, and the journal never has two.
\<close>

theorem plane_apply_at_most_once:
  "let s = plane_run p dg is empty_journal in length (applies k s) \<le> count_list (map w_id (rows s)) k \<and> distinct (map w_id (rows s))"
proof -
  have m: "map fst (heads s) = map w_id (rows s)" for s by (simp add: heads_def)
  show ?thesis using run_once [OF empty_once, of p dg "is"] unfolding once_def m Let_def by blast
qed

section \<open>Unknown outcomes\<close>

lemma unknown_rows_calls: "unknown_rows res (s\<lparr>calls := cs\<rparr>) = unknown_rows res s"
  by (simp add: unknown_rows_def)

lemma execute_unknown:
  "length (unknown_rows res (snd (execute p dg w f q s))) \<le> length (unknown_rows res s) + (if res = q_resource q then 1 else 0)"
proof -
  define s1 where "s1 = insert_row dg q (response p (Some (q_id q)) ''unknown'' JNull (Some ''Apply interrupted or incomplete; reconcile runtime state'')) s"
  obtain r s2 where c: "command p w (q_id q) (q_resource q) ''apply'' (q_payload q) s1 = (r, s2)" by fastforce
  have 1: "length (unknown_rows res s1) \<le> length (unknown_rows res s) + (if res = q_resource q then 1 else 0)"
    by (simp add: s1_def insert_row_def unknown_rows_def)
  have "rows s2 = rows s1" using command_rows [of p w "q_id q" "q_resource q" "''apply''" "q_payload q" s1] by (simp add: c)
  then have 2: "unknown_rows res s2 = unknown_rows res s1" by (simp add: unknown_rows_def)
  have "length (unknown_rows res (snd (execute p dg w f q s))) \<le> length (unknown_rows res s1)"
    by (auto simp: execute_def Let_def s1_def [symmetric] c 2 record_unknown split: sum.split)
  then show ?thesis using 1 by (rule le_trans)
qed

definition one_doubt :: "pstate \<Rightarrow> bool" where
  "one_doubt s = (\<forall>res. length (unknown_rows res s) \<le> 1)"

lemma settles_doubt: "settles s s' \<Longrightarrow> one_doubt s \<Longrightarrow> one_doubt s'"
  unfolding settles_def one_doubt_def by (meson le_trans)

lemma execute_doubt:
  assumes "one_doubt s" "unknown_rows (q_resource q) s = []"
  shows "one_doubt (snd (execute p dg w f q s))"
  unfolding one_doubt_def
proof
  fix res
  show "length (unknown_rows res (snd (execute p dg w f q s))) \<le> 1"
    using execute_unknown [of res p dg w f q s] assms by (cases "res = q_resource q") (auto simp: one_doubt_def intro: le_trans)
qed

lemma apply_doubt:
  assumes "one_doubt s"
  shows "one_doubt (snd (apply_request p dg w f q s))"
proof (cases rule: apply_cases [of s q p dg w f])
  case known
  then show ?thesis using assms by simp
next
  case refused
  then show ?thesis using settles_doubt assms by blast
next
  case (runs s1)
  then show ?thesis using execute_doubt [OF settles_doubt [OF runs(2) assms] runs(3)] by simp
qed

lemma step_doubt:
  assumes "p_peer p = None" "one_doubt s"
  shows "one_doubt (plane_step p dg i s)"
  using assms settles_doubt [OF recover_settles assms(2)] settles_doubt [OF observe_settles assms(2)] apply_doubt [OF assms(2)]
  by (cases i) (simp add: plane_step_def dispatch_def plane_local_def split: sum.split)

interpretation leaf: invariant_system "plane_step p dg" "\<lambda>s. p_peer p = None \<and> one_doubt s" for p dg
  by unfold_locales (use step_doubt in blast)

lemma run_doubt:
  assumes "p_peer p = None"
  shows "one_doubt s \<Longrightarrow> one_doubt (plane_run p dg is s)"
  unfolding plane_run_def using leaf.inv_run assms by blast

lemma empty_doubt: "one_doubt empty_journal"
  by (simp add: one_doubt_def empty_journal_def unknown_rows_def)

text \<open>
  (C16) A leaf never has two writes in doubt on one resource: over every sequence of requests and
  deaths of the daemon, a node without a peer has at most one row of unknown outcome per
  resource.
\<close>

theorem plane_one_unknown:
  assumes "p_peer p = None"
  shows "length (unknown_rows resource (plane_run p dg is empty_journal)) \<le> 1"
  using run_doubt [OF assms empty_doubt] unfolding one_doubt_def by blast

lemma supersede_row_no_flags: "flags w = [] \<Longrightarrow> supersede_row p w r b o' s = s"
  by (simp add: supersede_row_def split: option.split)

lemma supersede_rows_no_flags:
  assumes "flags w = []"
  shows "rows (supersede_rows p w i res rs st s) = rows s"
proof (induction rs arbitrary: st s)
  case (Cons r rs)
  obtain x s' where c: "command p w i res ''status'' [] s = (x, s')" by fastforce
  have s': "rows s' = rows s" using command_rows [of p w i res "''status''" "[]" s] by (simp add: c)
  show ?case
  proof (cases "bound_identity (q_payload (w_intent r))")
    case None
    then show ?thesis by (simp add: Cons.IH)
  next
    case (Some b)
    then show ?thesis by (cases st; cases x) (simp_all add: c s' Cons.IH supersede_row_no_flags [OF assms])
  qed
qed simp

text \<open>
  A write in doubt blocks the next one: while a resource has a row of unknown outcome and no
  reboot flag, an apply under a new identifier is refused, no apply controller runs for any
  request and the journal stays as it is.
\<close>

theorem plane_unknown_blocks:
  assumes "unknown_rows (q_resource q) s \<noteq> []" "flags w = []" "stored s (q_id q) = None" "q_action q = ''apply''" "q_resource q \<in> fst ` set (p_commands p)"
  shows "\<exists>s'. plane_local p dg w f q s = (Some (rejected p q (ValueError ''resource has an unknown outcome; reconcile before another apply'')), s')
    \<and> rows s' = rows s \<and> applies k s' = applies k s"
proof -
  obtain n s' where n: "supersede p w (q_id q) (q_resource q) s = (n, s')" by fastforce
  have r: "rows s' = rows s" using n supersede_rows_no_flags [OF assms(2)] by (auto simp: supersede_def Let_def)
  have "n = length (unknown_rows (q_resource q) s')" using n by (auto simp: supersede_def Let_def)
  then have "0 < n" using assms(1) r by (simp add: unknown_rows_def)
  then have "plane_local p dg w f q s = (Some (rejected p q (ValueError ''resource has an unknown outcome; reconcile before another apply'')), s')"
    using assms by (simp add: plane_local_def apply_request_def n)
  moreover have "applies k s' = applies k s" using supersede_settles [of s p w "q_id q" "q_resource q"] by (simp add: n settles_def keeps_def)
  ultimately show ?thesis using r by blast
qed

text \<open>
  (C19) Reconciliation unblocks a leaf: for the row in doubt, a resolve request that names the
  revision the status controller reports is accepted, and afterwards the resource has no row of
  unknown outcome.
\<close>

theorem plane_resolve_unblocks:
  assumes "s = plane_run p dg is empty_journal" "p_peer p = None" "row \<in> set (unknown_rows (q_resource q) s)" "state_of (w_response row) = ''unknown''"
    and "q_action q = ''resolve''" "q_payload q = [(''request_id'', JStr (w_id row)), (''observed_revision'', JInt n)]"
    and "map_of (actions_of (p_commands p) (q_resource q)) ''status'' = Some v" "controller w (q_resource q) ''status'' [] = Inr (JObj st)" "item ''revision'' (config_of st) = JInt n"
  shows "\<exists>resp s'. plane_local p dg w f q s = (Some resp, s') \<and> state_of resp = ''reconciled'' \<and> unknown_rows (q_resource q) s' = []"
proof -
  have "once s" using run_once [OF empty_once] assms(1) by simp
  then have d: "distinct (map w_id (rows s))" by (simp add: once_def heads_def comp_def)
  have r: "row \<in> set (rows s)" "w_resource row = q_resource q" using assms(3) by (auto simp: unknown_rows_def)
  have "stored s (w_id row) = Some row"
  proof -
    have "\<exists>x. stored s (w_id row) = Some x" using r(1) by (cases "stored s (w_id row)") (auto simp: stored_def find_None_iff)
    then obtain x where x: "stored s (w_id row) = Some x" by blast
    then have "x \<in> set (rows s)" "w_id x = w_id row" by (auto simp: stored_def find_Some_iff)
    then show ?thesis using x d r(1) by (metis distinct_map inj_on_def)
  qed
  moreover have "length (unknown_rows (q_resource q) s) \<le> 1" using run_doubt [OF assms(2) empty_doubt] unfolding assms(1) one_doubt_def by blast
  then have "unknown_rows (q_resource q) s = [row]" using assms(3) by (cases "unknown_rows (q_resource q) s") auto
  moreover have "q_resource q \<in> fst ` set (p_commands p)" using assms(7) by (auto simp: actions_of_def split: option.splits dest!: map_of_SomeD) force
  moreover have "has_keys [''request_id'', ''observed_revision''] (q_payload q)" by (simp add: has_keys_def assms(6))
  ultimately show ?thesis using assms(4-9) r(2)
    by (simp add: plane_local_def recover_def resolve_def command_def Let_def record_unknown unknown_rows_calls num_val_def)
qed

section \<open>The response ladder\<close>

definition budgets :: "timeout_table \<Rightarrow> bool" where
  "budgets t = (\<forall>x n. map_of t x = Some n \<longrightarrow> 1 \<le> n \<and> n \<le> MAX_TIMEOUT)"

lemma budgets_set: "budgets t \<Longrightarrow> 1 \<le> n \<Longrightarrow> n \<le> MAX_TIMEOUT \<Longrightarrow> budgets (dict_set x n t)"
  unfolding budgets_def map_of_dict_set by (metis fun_upd_apply option.inject)

lemma timeout_entry_budgets: "timeout_entry cs r e t = Inr t' \<Longrightarrow> budgets t \<Longrightarrow> budgets t'"
  by (cases e) (auto simp: timeout_entry_def result_simps intro: budgets_set)

lemma timeout_resource_budgets: "timeout_resource cs e t = Inr t' \<Longrightarrow> budgets t \<Longrightarrow> budgets t'"
proof (cases e)
  case (Pair r v)
  assume "timeout_resource cs e t = Inr t'" "budgets t"
  moreover from this(1) obtain as where "fold_res (timeout_entry cs r) as t = Inr t'" by (auto simp: timeout_resource_def Pair result_simps)
  ultimately show ?thesis using fold_res_inv [where P = budgets] timeout_entry_budgets by blast
qed

lemma timeouts_budgets:
  assumes "timeouts conf cs = Inr t"
  shows "budgets t"
proof -
  obtain d where "fold_res (timeout_resource cs) d [] = Inr t" using assms by (auto simp: timeouts_def result_simps)
  moreover have "budgets []" by (simp add: budgets_def)
  ultimately show ?thesis using fold_res_inv [where P = budgets] timeout_resource_budgets by blast
qed

lemma new_plane_budgets:
  assumes "new_plane rl cs conf peer = Inr p"
  shows "1 \<le> plane_timeout p resource action \<and> plane_timeout p resource action \<le> 110"
proof -
  have t: "timeouts conf cs = Inr (p_timeouts p)" using assms by (auto simp: new_plane_def result_simps)
  have b: "map_of (p_timeouts p) x = Some n \<Longrightarrow> 1 \<le> n \<and> n \<le> MAX_TIMEOUT" for x n using timeouts_budgets [OF t] unfolding budgets_def by blast
  have d: "1 \<le> FALLBACK_TIMEOUT \<and> FALLBACK_TIMEOUT \<le> MAX_TIMEOUT" "1 \<le> (90 :: int) \<and> 90 \<le> MAX_TIMEOUT" by (simp_all add: FALLBACK_TIMEOUT_def MAX_TIMEOUT_def)
  have "1 \<le> plane_timeout p resource action \<and> plane_timeout p resource action \<le> MAX_TIMEOUT"
    unfolding plane_timeout_def DEFAULT_TIMEOUT_def using b d by (auto split: option.split)
  then show ?thesis by (simp add: MAX_TIMEOUT_def)
qed

text \<open>The controller runs of a step are the old ones and runs with the budget of their resource and action.\<close>

definition budgeted :: "plane \<Rightarrow> pstate \<Rightarrow> bool" where
  "budgeted p s = (\<forall>c \<in> set (calls s). c_budget c = plane_timeout p (c_resource c) (c_action c))"

lemma budgeted_simps [simp]:
  "budgeted p (record_response i resp s) = budgeted p s" "budgeted p (insert_row dg q resp s) = budgeted p s"
  by (simp_all add: budgeted_def record_response_def insert_row_def)

lemma command_budgeted: "budgeted p s \<Longrightarrow> budgeted p (snd (command p w i r a pl s))"
  by (auto simp: command_def budgeted_def split: option.split)

lemma command_budgeted': "command p w i r a pl s = (x, s') \<Longrightarrow> budgeted p s \<Longrightarrow> budgeted p s'"
  using command_budgeted [of p s w i r a pl] by simp

lemma supersede_row_budgeted: "budgeted p s \<Longrightarrow> budgeted p (supersede_row p w r b st s)"
  by (simp add: supersede_row_def split: option.split)

lemma supersede_rows_budgeted: "budgeted p s \<Longrightarrow> budgeted p (supersede_rows p w i res rs st s)"
proof (induction rs arbitrary: st s)
  case (Cons r rs)
  then show ?case by (auto split: option.split prod.split sum.split intro!: Cons.IH supersede_row_budgeted dest: command_budgeted')
qed simp

lemma recover_budgeted: "budgeted p s \<Longrightarrow> budgeted p (snd (recover p w q s))"
  by (auto simp: recover_def resolve_def Let_def split: option.split prod.split sum.split dest: command_budgeted')

lemma observe_budgeted: "budgeted p s \<Longrightarrow> budgeted p (snd (observe p w q s))"
  by (auto simp: observe_def split: prod.split sum.split dest: command_budgeted')

lemma execute_budgeted: "budgeted p s \<Longrightarrow> budgeted p (snd (execute p dg w f q s))"
  by (auto simp: execute_def Let_def split: prod.split sum.split dest: command_budgeted')

lemma apply_request_budgeted:
  assumes "budgeted p s"
  shows "budgeted p (snd (apply_request p dg w f q s))"
proof -
  obtain n s1 where s1: "(if unknown_rows (q_resource q) s \<noteq> [] then supersede p w (q_id q) (q_resource q) s else (0, s)) = (n, s1)" by fastforce
  then have "budgeted p s1" using assms supersede_rows_budgeted by (auto simp: supersede_def Let_def split: if_splits)
  then show ?thesis using assms unfolding apply_request_def s1 by (auto split: option.split prod.split sum.split intro!: execute_budgeted dest: command_budgeted')
qed

lemma relay_budgeted: "budgeted p s \<Longrightarrow> budgeted p (snd (relay p dg w q s))"
  by (auto simp: relay_def ask_peer_def Let_def split: option.split prod.split)

lemma step_budgeted: "budgeted p s \<Longrightarrow> budgeted p (plane_step p dg i s)"
proof -
  assume b: "budgeted p s"
  obtain probe w f v where i: "i = (probe, w, f, v)" by (metis prod_cases4)
  have "budgeted p (snd (plane_local p dg w f q s))" for q
    using b by (simp add: plane_local_def recover_budgeted observe_budgeted apply_request_budgeted)
  then show ?thesis using b by (auto simp: i plane_step_def dispatch_def relay_budgeted split: sum.split)
qed

interpretation spending: invariant_system "plane_step p dg" "budgeted p" for p dg
  by unfold_locales (rule step_budgeted)

text \<open>
  (C20) Every controller run stays inside the response ladder: under any configuration that loads, over
  every sequence of requests and daemon deaths, each run the worker starts is given a budget of
  at least one second and at most 110 seconds, less than the 120 seconds a relay waits for its
  peer, which is less than the 125 seconds a client waits. This bounds single runs only; an apply
  makes two of them.
\<close>

theorem plane_timeout_ladder:
  assumes "new_plane rl cs conf peer = Inr p" "c \<in> set (calls (plane_run p dg ins empty_journal))"
  shows "1 \<le> c_budget c \<and> c_budget c \<le> 110 \<and> 110 < PEER_WAIT \<and> PEER_WAIT = 120 \<and> PEER_WAIT < CLIENT_WAIT \<and> CLIENT_WAIT = 125"
proof -
  have "budgeted p (plane_run p dg ins empty_journal)" unfolding plane_run_def by (rule spending.inv_run) (simp add: budgeted_def empty_journal_def)
  then have "c_budget c = plane_timeout p (c_resource c) (c_action c)" using assms(2) by (simp add: budgeted_def)
  then show ?thesis using new_plane_budgets [OF assms(1)] by (simp add: PEER_WAIT_def CLIENT_WAIT_def)
qed

text \<open>
  One apply takes two budgets: a first apply of a resource with no outcome in doubt, whose
  validation succeeds, runs exactly the validating and then the applying controller, each with its
  own whole budget. (The ladder bounds each budget, not their sum: with both configured at 110
  seconds the sum is 220 against the 120 seconds the relay waits, as the witness shows, although
  the comment of the ladder says that no controller may outlive its caller.)
\<close>

theorem plane_apply_two_budgets:
  assumes "stored s (q_id q) = None" "unknown_rows (q_resource q) s = []" "q_action q = ''apply''" "q_resource q \<in> fst ` set (p_commands p)"
    and "map_of (actions_of (p_commands p) (q_resource q)) ''validate'' = Some va" "map_of (actions_of (p_commands p) (q_resource q)) ''apply'' = Some aa"
    and "controller w (q_resource q) ''validate'' (q_payload q) = Inr (JObj d)" "f \<noteq> Dies_before_apply"
  shows "calls (snd (plane_local p dg w f q s)) = calls s @
    [\<lparr>c_id = q_id q, c_resource = q_resource q, c_action = ''validate'', c_budget = plane_timeout p (q_resource q) ''validate''\<rparr>,
     \<lparr>c_id = q_id q, c_resource = q_resource q, c_action = ''apply'', c_budget = plane_timeout p (q_resource q) ''apply''\<rparr>]"
  using assms
  by (auto simp: plane_local_def apply_request_def command_def execute_def Let_def insert_row_def record_response_def split: sum.split)

section \<open>Concrete runs\<close>

definition sample_table :: command_table where
  "sample_table = [(''port'', [(''status'', [''/s'']), (''validate'', [''/v'']), (''apply'', [''/a''])])]"

definition sample_plane :: plane where
  "sample_plane = \<lparr>p_role = ''dp'', p_commands = sample_table, p_timeouts = [((''port'', ''apply''), 100)], p_peer = None\<rparr>"

definition sample_answers :: pworld where
  "sample_answers = \<lparr>controller = (\<lambda>_ _ _. Inr (JObj [(''revision'', JInt 7)])), peer_answer = (\<lambda>_. None), flags = []\<rparr>"

definition sample_request :: preq where
  "sample_request = \<lparr>q_id = sample_uuid, q_resource = ''port'', q_action = ''apply'', q_payload = [(''revision'', JInt 6)]\<rparr>"

definition sample_message :: json where
  "sample_message = JObj [(''v'', JInt 1), (''id'', JStr sample_uuid), (''resource'', JStr ''port''), (''action'', JStr ''apply''), (''payload'', JObj [(''revision'', JInt 6)])]"

definition sample_row :: prow where
  "sample_row =
     \<lparr>w_id = sample_uuid, w_digest = ''d'', w_resource = ''port'',
      w_response = response sample_plane (Some sample_uuid) ''unknown'' JNull (Some ''Apply interrupted or incomplete; reconcile runtime state''),
      w_state = ''unknown'', w_intent = sample_request\<rparr>"

definition sample_crash :: "pinput list" where
  "sample_crash = [(''x'', sample_answers, Dies_after_apply, sample_message)]"

lemma sample_check: "check sample_message = Inr sample_request"
  using sample_uuid_ok
  by (simp add: check_def sample_message_def sample_request_def has_keys_def canonical_def resource_name_def ACTIONS_def INVENTORY_def)

lemma sample_plane_simps: "p_commands sample_plane = sample_table" "p_peer sample_plane = None"
  by (simp_all add: sample_plane_def)

lemma sample_dead: "rows (plane_run sample_plane (\<lambda>_. ''d'') sample_crash empty_journal) = [sample_row]"
  by (simp add: plane_run_def sample_crash_def plane_step_def dispatch_def sample_check)
    (simp add: sample_request_def sample_plane_def sample_table_def plane_local_def apply_request_def empty_journal_def stored_def unknown_rows_def
      command_def actions_of_def sample_answers_def execute_def Let_def insert_row_def sample_row_def response_def)

theorem plane_one_unknown_witness: "length (unknown_rows ''port'' (plane_run sample_plane (\<lambda>_. ''d'') sample_crash empty_journal)) \<le> 1"
  by (rule plane_one_unknown) (simp add: sample_plane_def)

theorem plane_unknown_blocks_witness:
  "\<exists>s'. plane_local sample_plane (\<lambda>_. ''d'') sample_answers Completes (sample_request\<lparr>q_id := ''other''\<rparr>) (plane_run sample_plane (\<lambda>_. ''d'') sample_crash empty_journal)
     = (Some (rejected sample_plane (sample_request\<lparr>q_id := ''other''\<rparr>) (ValueError ''resource has an unknown outcome; reconcile before another apply'')), s') \<and> rows s' = [sample_row]"
proof -
  let ?q = "sample_request\<lparr>q_id := ''other''\<rparr>" and ?s = "plane_run sample_plane (\<lambda>_. ''d'') sample_crash empty_journal"
  have "unknown_rows (q_resource ?q) ?s \<noteq> []" "flags sample_answers = []" "stored ?s (q_id ?q) = None" "q_action ?q = ''apply''" "q_resource ?q \<in> fst ` set (p_commands sample_plane)"
    by (simp_all add: unknown_rows_def stored_def sample_dead sample_row_def sample_answers_def sample_request_def sample_plane_simps sample_table_def sample_uuid_def)
  from plane_unknown_blocks [OF this] show ?thesis unfolding sample_dead by blast
qed

theorem plane_resolve_unblocks_witness:
  "\<exists>resp s'. plane_local sample_plane (\<lambda>_. ''d'') sample_answers Completes
       \<lparr>q_id = sample_uuid, q_resource = ''port'', q_action = ''resolve'', q_payload = [(''request_id'', JStr sample_uuid), (''observed_revision'', JInt 7)]\<rparr>
       (plane_run sample_plane (\<lambda>_. ''d'') sample_crash empty_journal) = (Some resp, s')
     \<and> state_of resp = ''reconciled'' \<and> unknown_rows ''port'' s' = []"
proof -
  let ?q = "\<lparr>q_id = sample_uuid, q_resource = ''port'', q_action = ''resolve'', q_payload = [(''request_id'', JStr sample_uuid), (''observed_revision'', JInt 7)]\<rparr> :: preq"
  have "sample_row \<in> set (unknown_rows (q_resource ?q) (plane_run sample_plane (\<lambda>_. ''d'') sample_crash empty_journal))" by (simp add: unknown_rows_def sample_dead sample_row_def)
  from plane_resolve_unblocks [OF refl _ this, where n = 7 and v = "[''/s'']" and w = sample_answers and st = "[(''revision'', JInt 7)]"]
  show ?thesis by (simp add: sample_plane_simps sample_table_def sample_row_def actions_of_def sample_answers_def config_of_def)
qed

definition slow_plane :: plane where
  "slow_plane = sample_plane\<lparr>p_timeouts := [((''port'', ''validate''), 110), ((''port'', ''apply''), 110)]\<rparr>"

lemma slow_loads:
  "new_plane ''dp'' sample_table (JObj [(''port'', JObj [(''validate'', JInt 110), (''apply'', JInt 110)])]) None = Inr slow_plane"
  by (simp add: new_plane_def sample_table_def sample_plane_def slow_plane_def INVENTORY_def timeouts_def timeout_resource_def timeout_entry_def COMMANDS_def actions_of_def
      MAX_TIMEOUT_def check_vector_def isabs_def)

theorem plane_timeout_ladder_witness:
  "calls (plane_run slow_plane (\<lambda>_. ''d'') sample_crash empty_journal) \<noteq> []
   \<and> c_budget (hd (calls (plane_run slow_plane (\<lambda>_. ''d'') sample_crash empty_journal))) \<le> 110"
proof -
  have "calls (plane_run slow_plane (\<lambda>_. ''d'') sample_crash empty_journal) \<noteq> []" by code_simp
  then show ?thesis using plane_timeout_ladder [OF slow_loads hd_in_set, where dg = "\<lambda>_. ''d''" and ins = sample_crash] by blast
qed

theorem plane_apply_two_budgets_witness:
  "sum_list (map c_budget (calls (snd (plane_local slow_plane (\<lambda>_. ''d'') sample_answers Completes sample_request empty_journal)))) = 220 \<and> (220 :: int) > PEER_WAIT"
proof -
  have "calls (snd (plane_local slow_plane (\<lambda>_. ''d'') sample_answers Completes sample_request empty_journal)) = calls empty_journal @
    [\<lparr>c_id = q_id sample_request, c_resource = q_resource sample_request, c_action = ''validate'', c_budget = plane_timeout slow_plane (q_resource sample_request) ''validate''\<rparr>,
     \<lparr>c_id = q_id sample_request, c_resource = q_resource sample_request, c_action = ''apply'', c_budget = plane_timeout slow_plane (q_resource sample_request) ''apply''\<rparr>]"
    by (rule plane_apply_two_budgets [where va = "[''/v'']" and aa = "[''/a'']" and d = "[(''revision'', JInt 7)]"])
      (simp_all add: stored_def unknown_rows_def empty_journal_def sample_request_def sample_answers_def slow_plane_def sample_plane_def sample_table_def actions_of_def)
  then show ?thesis by (simp add: slow_plane_def sample_plane_def plane_timeout_def sample_request_def empty_journal_def PEER_WAIT_def)
qed

end
