(* ===== verification/Watchdog.thy ===== *)
theory Watchdog
  imports Complex_Main "HOL-Library.List_Lexorder" "HOL-Library.Char_ord" Prelude
begin

text \<open>
  The hardware watchdog daemon, \<^verbatim>\<open>src/opt/ffn_watchdogd.py\<close>: the request codes, the configuration,
  the device wrapper, the health check and the service loop. The kernel's watchdog device is a
  parameter: what it answers to each request code, and whether it takes a write. What the daemon
  does to it is a trace of effects, in which a \<open>Nap\<close> is one half-second sleep and \<open>Spent n\<close> the time of
  everything else: the questions to \<^verbatim>\<open>systemctl\<close> and \<^verbatim>\<open>ffn-sysd\<close>, the writing of the state, a sleep that
  lasts longer. Time is counted in half seconds, a started one as a whole one. Every configured
  value has the type of its default. A reason is kept as the parts its text is made of, and the
  fields of a report that stay the same over a run (the device and its timeout) are left out.
\<close>

section \<open>Request codes\<close>

definition IOC :: "nat \<Rightarrow> char \<Rightarrow> nat \<Rightarrow> nat \<Rightarrow> nat" where
  "IOC direction typ nr sz = push_bit 30 direction OR push_bit 16 sz OR push_bit 8 (of_char typ) OR nr"

definition WD_INFO_SIZE :: nat where "WD_INFO_SIZE = 4 + 4 + 32"
definition WDIOC_GETSUPPORT :: nat where "WDIOC_GETSUPPORT = IOC 2 CHR ''W'' 0 WD_INFO_SIZE"
definition WDIOC_GETBOOTSTATUS :: nat where "WDIOC_GETBOOTSTATUS = IOC 2 CHR ''W'' 2 4"
definition WDIOC_KEEPALIVE :: nat where "WDIOC_KEEPALIVE = IOC 2 CHR ''W'' 5 4"
definition WDIOC_SETTIMEOUT :: nat where "WDIOC_SETTIMEOUT = IOC (2 OR 1) CHR ''W'' 6 4"
definition WDIOC_GETTIMEOUT :: nat where "WDIOC_GETTIMEOUT = IOC 2 CHR ''W'' 7 4"
definition WDIOC_GETTIMELEFT :: nat where "WDIOC_GETTIMELEFT = IOC 2 CHR ''W'' 10 4"

section \<open>Configuration\<close>

record wd_config =
  enable :: bool
  wd_device :: string
  timeout_sec :: int
  pet_interval_sec :: int
  require_health :: bool
  startup_grace_sec :: rat
  strikes_to_bite :: int
  critical_units :: "string list"
  sysd_heartbeats :: "string list"
  sysd_stale_sec :: rat
  disarm_on_exit :: bool

definition DEFAULT_CONFIG :: wd_config where
  "DEFAULT_CONFIG =
     \<lparr>enable = True, wd_device = '''', timeout_sec = 60, pet_interval_sec = 15, require_health = False,
      startup_grace_sec = 300, strikes_to_bite = 3, critical_units = [''ffn-configd'', ''ffn-manager-v2''],
      sysd_heartbeats = [], sysd_stale_sec = 90, disarm_on_exit = True\<rparr>"

datatype setting =
    Enable bool
  | Device string
  | Timeout_sec int
  | Pet_interval_sec int
  | Require_health bool
  | Startup_grace_sec rat
  | Strikes_to_bite int
  | Critical_units "string list"
  | Sysd_heartbeats "string list"
  | Sysd_stale_sec rat
  | Disarm_on_exit bool

fun update_config :: "setting \<Rightarrow> wd_config \<Rightarrow> wd_config" where
  "update_config (Enable b) c = c\<lparr>enable := b\<rparr>"
| "update_config (Device d) c = c\<lparr>wd_device := d\<rparr>"
| "update_config (Timeout_sec n) c = c\<lparr>timeout_sec := n\<rparr>"
| "update_config (Pet_interval_sec n) c = c\<lparr>pet_interval_sec := n\<rparr>"
| "update_config (Require_health b) c = c\<lparr>require_health := b\<rparr>"
| "update_config (Startup_grace_sec q) c = c\<lparr>startup_grace_sec := q\<rparr>"
| "update_config (Strikes_to_bite n) c = c\<lparr>strikes_to_bite := n\<rparr>"
| "update_config (Critical_units us) c = c\<lparr>critical_units := us\<rparr>"
| "update_config (Sysd_heartbeats ns) c = c\<lparr>sysd_heartbeats := ns\<rparr>"
| "update_config (Sysd_stale_sec q) c = c\<lparr>sysd_stale_sec := q\<rparr>"
| "update_config (Disarm_on_exit b) c = c\<lparr>disarm_on_exit := b\<rparr>"

text \<open>\<open>None\<close>: the file cannot be read or does not hold a JSON object.\<close>

definition load_config :: "setting list option \<Rightarrow> wd_config" where
  "load_config got = (case got of None \<Rightarrow> DEFAULT_CONFIG | Some settings \<Rightarrow> fold update_config settings DEFAULT_CONFIG)"

section \<open>The device\<close>

text \<open>Of the names in the device directory: the unnumbered one first, the numbered ones sorted.\<close>

definition numbered_device :: "string \<Rightarrow> bool" where
  "numbered_device p =
     (let n = length ''/dev/watchdog''; rest = drop n p
      in take n p = ''/dev/watchdog'' \<and> rest \<noteq> [] \<and> hd rest \<in> set ''0123456789'' \<and> CHR ''/'' \<notin> set rest)"

definition find_devices :: "string list \<Rightarrow> string list" where
  "find_devices paths =
     (if ''/dev/watchdog'' \<in> set paths then [''/dev/watchdog''] else []) @ sort (filter numbered_device paths)"

text \<open>
  A kernel device: whether it opens, the block \<^verbatim>\<open>GETSUPPORT\<close> fills in, the answer to an integer
  request and its argument (\<open>None\<close>: \<^verbatim>\<open>OSError\<close>), and whether a write succeeds.
\<close>

record kdevice =
  opens :: bool
  support :: "bytes option"
  ioctl :: "nat \<Rightarrow> int \<Rightarrow> int option"
  writable :: bool

datatype wd_effect = Set_timeout int | Pet | Nap | Spent nat | Magic | Close

record wd_handle =
  wd_path :: string
  identity :: bytes
  options :: nat
  supports_ioctl :: bool

definition wd_open :: "string \<Rightarrow> kdevice \<Rightarrow> wd_handle option" where
  "wd_open path k =
     (if \<not> opens k then None
      else Some (case support k of
          Some buf \<Rightarrow> \<lparr>wd_path = path, identity = takeWhile (\<lambda>b. b \<noteq> 0) (take 32 (drop 8 buf)), options = from_le (take 4 buf), supports_ioctl = True\<rparr>
        | None \<Rightarrow> \<lparr>wd_path = path, identity = [], options = 0, supports_ioctl = False\<rparr>))"

definition ioctl_int :: "kdevice \<Rightarrow> nat \<Rightarrow> int option \<Rightarrow> int option" where
  "ioctl_int k req val = ioctl k req (case val of Some v \<Rightarrow> v | None \<Rightarrow> 0)"

definition set_timeout :: "kdevice \<Rightarrow> int \<Rightarrow> int option" where
  "set_timeout k seconds = ioctl_int k WDIOC_SETTIMEOUT (Some seconds)"

definition get_timeout :: "kdevice \<Rightarrow> int option" where
  "get_timeout k = ioctl_int k WDIOC_GETTIMEOUT None"

definition time_left :: "kdevice \<Rightarrow> int option" where
  "time_left k = ioctl_int k WDIOC_GETTIMELEFT None"

definition boot_status :: "kdevice \<Rightarrow> int option" where
  "boot_status k = ioctl_int k WDIOC_GETBOOTSTATUS None"

datatype how = By_ioctl | By_write | SKIPPED

text \<open>\<open>None\<close>: the request and the write both fail, and the write's exception leaves the daemon.\<close>

definition pet :: "kdevice \<Rightarrow> how option" where
  "pet k = (if ioctl_int k WDIOC_KEEPALIVE None \<noteq> None then Some By_ioctl else if writable k then Some By_write else None)"

definition disarm :: "kdevice \<Rightarrow> wd_effect list" where
  "disarm k = (if writable k then [Magic] else [])"

definition wd_close :: "kdevice \<Rightarrow> bool \<Rightarrow> wd_effect list" where
  "wd_close k dis = (if dis then disarm k else []) @ [Close]"

section \<open>Health\<close>

datatype reason =
    Gating_disabled
  | Startup_grace
  | Units_inactive "string list"
  | No_heartbeat_checks
  | Sysd_unavailable
  | Heartbeats_bad "(string \<times> rat option) list"
  | Heartbeats_fresh

text \<open>
  What the outside answers in one round: the clock, the output of \<^verbatim>\<open>systemctl is-active\<close> per unit
  (\<open>None\<close> when it fails), the heartbeat ages of \<^verbatim>\<open>ffn-sysd\<close> (\<open>None\<close> when it is not reachable), the time
  the checks take before the pet and the rest of the round beside its naps, and after how many naps
  of this round a signal asks to stop.
\<close>

record wd_round =
  now :: rat
  is_active :: "string \<Rightarrow> string option"
  hbstat :: "(string \<Rightarrow> rat option) option"
  check_time :: nat
  rest_time :: nat
  stop_after :: "nat option"

definition unit_active :: "wd_round \<Rightarrow> string \<Rightarrow> bool" where
  "unit_active r u = (case is_active r u of Some out \<Rightarrow> out = ''active'' | None \<Rightarrow> True)"

definition bad_heartbeats :: "(string \<Rightarrow> rat option) \<Rightarrow> rat \<Rightarrow> string list \<Rightarrow> (string \<times> rat option) list" where
  "bad_heartbeats hb stale names =
     concat (map (\<lambda>n. case hb n of None \<Rightarrow> [(n, None)] | Some age \<Rightarrow> if age > stale then [(n, Some age)] else []) names)"

definition sysd_heartbeats_ok :: "wd_round \<Rightarrow> string list \<Rightarrow> rat \<Rightarrow> bool \<times> reason" where
  "sysd_heartbeats_ok r names stale =
     (if names = [] then (True, No_heartbeat_checks)
      else
        (case hbstat r of
           None \<Rightarrow> (True, Sysd_unavailable)
         | Some hb \<Rightarrow>
             (let bad = bad_heartbeats hb stale names
              in (bad = [], if bad \<noteq> [] then Heartbeats_bad bad else Heartbeats_fresh))))"

definition evaluate_health :: "wd_config \<Rightarrow> wd_round \<Rightarrow> bool \<times> reason" where
  "evaluate_health c r =
     (let dead = filter (\<lambda>u. \<not> unit_active r u) (critical_units c)
      in if dead \<noteq> [] then (False, Units_inactive dead)
         else
           (case sysd_heartbeats_ok r (sysd_heartbeats c) (sysd_stale_sec c) of
              (good, why) \<Rightarrow> if \<not> good then (False, why) else (True, why)))"

section \<open>The service loop\<close>

record wd_report =
  r_interval :: int
  r_pets :: nat
  r_how :: how
  r_healthy :: bool
  r_reason :: reason
  r_strikes :: nat
  r_ts :: rat

record daemon =
  strikes :: nat
  pets :: nat
  trace :: "wd_effect list"
  reports :: "wd_report list"

definition decide :: "wd_config \<Rightarrow> rat \<Rightarrow> wd_round \<Rightarrow> bool \<times> reason" where
  "decide c started r =
     (if require_health c
      then if now r - started < startup_grace_sec c then (True, Startup_grace) else evaluate_health c r
      else (True, Gating_disabled))"

definition add_report :: "int \<Rightarrow> wd_round \<Rightarrow> bool \<times> reason \<Rightarrow> how \<Rightarrow> daemon \<Rightarrow> daemon" where
  "add_report interval r h hw d =
     d\<lparr>reports := reports d @
       [\<lparr>r_interval = interval, r_pets = pets d, r_how = hw, r_healthy = fst h, r_reason = snd h, r_strikes = strikes d, r_ts = now r\<rparr>]\<rparr>"

text \<open>One pass of the loop body up to the sleep; \<open>None\<close> when petting raises.\<close>

definition pass :: "nat \<Rightarrow> daemon \<Rightarrow> daemon" where
  "pass n d = d\<lparr>trace := trace d @ [Spent n]\<rparr>"

definition check_and_pet :: "wd_config \<Rightarrow> kdevice \<Rightarrow> rat \<Rightarrow> int \<Rightarrow> wd_round \<Rightarrow> daemon \<Rightarrow> daemon option" where
  "check_and_pet c k started interval r d =
     (let h = decide c started r; d = pass (check_time r) d in
      if fst h
      then (case pet k of
              None \<Rightarrow> None
            | Some hw \<Rightarrow> Some (add_report interval r h hw (d\<lparr>strikes := 0, pets := pets d + 1, trace := trace d @ [Pet]\<rparr>)))
      else Some (add_report interval r h SKIPPED (d\<lparr>strikes := strikes d + 1\<rparr>)))"

text \<open>The sleep in slices: \<open>slept\<close> counts half seconds.\<close>

function naps :: "nat \<Rightarrow> int \<Rightarrow> nat option \<Rightarrow> nat" where
  "naps slept interval stop = (if int slept < 2 * interval \<and> \<not> (\<exists>n \<in> set_option stop. n \<le> slept) then naps (Suc slept) interval stop else slept)"
  by pat_completeness auto
termination by (relation "measure (\<lambda>(slept, interval, _). nat (2 * interval - int slept))") auto

declare naps.simps [simp del]

datatype wd_status = Running | Stopped | Crashed

fun wd_loop :: "wd_config \<Rightarrow> kdevice \<Rightarrow> rat \<Rightarrow> int \<Rightarrow> wd_round list \<Rightarrow> daemon \<Rightarrow> wd_status \<times> daemon" where
  "wd_loop c k started interval [] d = (Running, d)"
| "wd_loop c k started interval (r # rs) d =
     (case check_and_pet c k started interval r d of
        None \<Rightarrow> (Crashed, d)
      | Some d' \<Rightarrow>
          (let d' = pass (rest_time r) d'; d'' = d'\<lparr>trace := trace d' @ replicate (naps 0 interval (stop_after r)) Nap\<rparr>
           in if stop_after r \<noteq> None then (Stopped, d'') else wd_loop c k started interval rs d''))"

definition pet_interval :: "wd_config \<Rightarrow> int \<Rightarrow> int" where
  "pet_interval c actual = (let interval = pet_interval_sec c in if interval \<ge> actual then max 1 (actual div 3) else interval)"

definition actual_timeout :: "wd_config \<Rightarrow> kdevice \<Rightarrow> int" where
  "actual_timeout c k = (case get_timeout k of Some t \<Rightarrow> if t \<noteq> 0 then t else timeout_sec c | None \<Rightarrow> timeout_sec c)"

datatype outcome = Disabled | No_device | Cannot_open | Served wd_status daemon

fun return_code :: "outcome \<Rightarrow> int option" where
  "return_code Disabled = Some 0"
| "return_code No_device = Some 1"
| "return_code Cannot_open = Some 1"
| "return_code (Served Stopped _) = Some 0"
| "return_code (Served _ _) = None"

text \<open>\<open>paths\<close> are the existing files; \<open>kdev\<close> is the device behind a path.\<close>

definition used_device :: "wd_config \<Rightarrow> string list \<Rightarrow> string option" where
  "used_device c paths =
     (case filter (\<lambda>d. d \<noteq> [] \<and> d \<in> set paths) (if wd_device c \<noteq> [] then [wd_device c] else find_devices paths) of
        [] \<Rightarrow> None
      | path # _ \<Rightarrow> Some path)"

definition start_daemon :: "wd_config \<Rightarrow> kdevice \<Rightarrow> daemon" where
  "start_daemon c k =
     \<lparr>strikes = 0, pets = 0, trace = (case set_timeout k (timeout_sec c) of Some t \<Rightarrow> [Set_timeout t] | None \<Rightarrow> []), reports = []\<rparr>"

definition serve :: "wd_config \<Rightarrow> string list \<Rightarrow> (string \<Rightarrow> kdevice) \<Rightarrow> rat \<Rightarrow> wd_round list \<Rightarrow> outcome" where
  "serve c paths kdev started rs =
     (if \<not> enable c then Disabled
      else
        (case used_device c paths of
           None \<Rightarrow> No_device
         | Some path \<Rightarrow>
             (let k = kdev path in
              case wd_open path k of
                None \<Rightarrow> Cannot_open
              | Some w \<Rightarrow>
                  (let interval = pet_interval c (actual_timeout c k)
                   in case wd_loop c k started interval rs (start_daemon c k) of
                        (Stopped, d) \<Rightarrow> Served Stopped (d\<lparr>trace := trace d @ wd_close k (disarm_on_exit c)\<rparr>)
                      | (Running, d) \<Rightarrow> Served Running d
                      | (Crashed, d) \<Rightarrow> Served Crashed d))))"

text \<open>
  The hardware: \<open>n\<close> half seconds after it was last petted, does the trace let it reach its limit?
\<close>

fun starved :: "nat \<Rightarrow> nat \<Rightarrow> wd_effect list \<Rightarrow> bool" where
  "starved bound n [] = False"
| "starved bound n (Pet # t) = starved bound 0 t"
| "starved bound n (Nap # t) = (bound \<le> Suc n \<or> starved bound (Suc n) t)"
| "starved bound n (Spent m # t) = (bound \<le> n + m \<or> starved bound (n + m) t)"
| "starved bound n (Set_timeout _ # t) = starved bound n t"
| "starved bound n (Magic # t) = starved bound n t"
| "starved bound n (Close # t) = starved bound n t"

section \<open>Feeding and starving\<close>

text \<open>The request codes are those of \<^verbatim>\<open>linux/watchdog.h\<close>.\<close>

lemma wdioc_codes:
  "WDIOC_KEEPALIVE = 0x80045705" "WDIOC_SETTIMEOUT = 0xC0045706" "WDIOC_GETTIMEOUT = 0x80045707" "WDIOC_GETBOOTSTATUS = 0x80045702"
  by code_simp+

lemma naps_full: "naps slept i None = max slept (nat (2 * i))"
proof (induction slept i "None :: nat option" rule: naps.induct)
  case (1 slept i)
  then show ?case by (subst naps.simps) auto
qed

lemma naps_le: "naps slept i s \<le> max slept (nat (2 * i))"
proof (induction slept i s rule: naps.induct)
  case (1 slept i s)
  then show ?case by (subst naps.simps) auto
qed

lemma pet_interval_less: "1 < a \<Longrightarrow> pet_interval c a < a"
  by (auto simp: pet_interval_def Let_def)

text \<open>The time since the last pet, and the time a trace takes.\<close>

fun effect_time :: "wd_effect \<Rightarrow> nat" where
  "effect_time Nap = 1"
| "effect_time (Spent m) = m"
| "effect_time _ = 0"

definition elapsed :: "wd_effect list \<Rightarrow> nat" where
  "elapsed t = sum_list (map effect_time t)"

fun since :: "nat \<Rightarrow> wd_effect list \<Rightarrow> nat" where
  "since n [] = n"
| "since n (e # t) = since (if e = Pet then 0 else n + effect_time e) t"

lemma elapsed_simps [simp]:
  "elapsed [] = 0" "elapsed (e # t) = effect_time e + elapsed t" "elapsed (t @ u) = elapsed t + elapsed u" "elapsed (replicate m Nap) = m"
  by (simp_all add: elapsed_def sum_list_replicate)

lemma starved_append: "starved bound n (u @ t) \<longleftrightarrow> starved bound n u \<or> starved bound (since n u) t"
  by (induction bound n u rule: starved.induct) auto

lemma since_append [simp]: "since n (u @ t) = since (since n u) t"
  by (induction u arbitrary: n) simp_all

lemma since_elapsed: "Pet \<notin> set t \<Longrightarrow> since n t = n + elapsed t"
  by (induction t arbitrary: n) auto

lemma elapsed_starved: "Pet \<notin> set t \<Longrightarrow> 0 < elapsed t \<Longrightarrow> bound \<le> n + elapsed t \<Longrightarrow> starved bound n t"
proof (induction bound n t rule: starved.induct)
  case (3 bound n t)
  then show ?case by (cases "elapsed t = 0") auto
next
  case (4 bound n m t)
  then show ?case by (cases "elapsed t = 0") (auto simp: add.assoc)
qed auto

lemma not_starved_elapsed: "Pet \<notin> set t \<Longrightarrow> n + elapsed t < bound \<Longrightarrow> \<not> starved bound n t"
  by (induction bound n t rule: starved.induct) (auto simp: add.assoc)

lemma not_starved_close: "\<not> starved bound n (wd_close k b)"
  by (simp add: wd_close_def disarm_def)

lemma not_starved_start: "\<not> starved bound n (trace (start_daemon c k))"
  by (simp add: start_daemon_def split: option.split)

lemma since_start [simp]: "since 0 (trace (start_daemon c k)) = 0"
  by (simp add: start_daemon_def split: option.split)

lemma add_report_simps [simp]: "trace (add_report i r h hw d) = trace d" "strikes (add_report i r h hw d) = strikes d" "pets (add_report i r h hw d) = pets d"
  by (simp_all add: add_report_def)

lemma pass_simps [simp]: "trace (pass n d) = trace d @ [Spent n]" "strikes (pass n d) = strikes d" "pets (pass n d) = pets d"
  by (simp_all add: pass_def)

text \<open>The effects of a round that passes and of one that fails.\<close>

definition fed_round :: "int \<Rightarrow> wd_round \<Rightarrow> wd_effect list" where
  "fed_round i r = [Spent (check_time r), Pet, Spent (rest_time r)] @ replicate (naps 0 i (stop_after r)) Nap"

definition missed_round :: "int \<Rightarrow> wd_round \<Rightarrow> wd_effect list" where
  "missed_round i r = [Spent (check_time r), Spent (rest_time r)] @ replicate (naps 0 i (stop_after r)) Nap"

lemma missed_round_time: "Pet \<notin> set (missed_round i r)" "nat (2 * i) \<le> elapsed (missed_round i r) \<or> stop_after r \<noteq> None"
  by (auto simp: missed_round_def naps_full)

text \<open>One round of the loop.\<close>

lemma loop_fed_step:
  assumes "fst (decide c started r)" "pet k \<noteq> None"
  shows "\<exists>d'. trace d' = trace d @ fed_round i r \<and> strikes d' = 0 \<and> pets d' = pets d + 1
    \<and> wd_loop c k started i (r # rs) d = (if stop_after r \<noteq> None then (Stopped, d') else wd_loop c k started i rs d')"
proof -
  obtain hw where hw: "pet k = Some hw" using assms(2) by blast
  define d1 where "d1 = add_report i r (decide c started r) hw ((pass (check_time r) d)\<lparr>strikes := 0, pets := pets d + 1, trace := trace (pass (check_time r) d) @ [Pet]\<rparr>)"
  define d2 where "d2 = (pass (rest_time r) d1)\<lparr>trace := trace (pass (rest_time r) d1) @ replicate (naps 0 i (stop_after r)) Nap\<rparr>"
  have "check_and_pet c k started i r d = Some d1" using assms(1) hw by (simp add: check_and_pet_def d1_def Let_def)
  then have "wd_loop c k started i (r # rs) d = (if stop_after r \<noteq> None then (Stopped, d2) else wd_loop c k started i rs d2)" by (simp add: d2_def Let_def)
  moreover have "trace d2 = trace d @ fed_round i r" "strikes d2 = 0" "pets d2 = pets d + 1" by (simp_all add: d2_def d1_def fed_round_def)
  ultimately show ?thesis by blast
qed

lemma loop_missed_step:
  assumes "\<not> fst (decide c started r)"
  shows "\<exists>d'. trace d' = trace d @ missed_round i r \<and> strikes d' = strikes d + 1 \<and> pets d' = pets d
    \<and> wd_loop c k started i (r # rs) d = (if stop_after r \<noteq> None then (Stopped, d') else wd_loop c k started i rs d')"
proof -
  define d1 where "d1 = add_report i r (decide c started r) SKIPPED ((pass (check_time r) d)\<lparr>strikes := strikes d + 1\<rparr>)"
  define d2 where "d2 = (pass (rest_time r) d1)\<lparr>trace := trace (pass (rest_time r) d1) @ replicate (naps 0 i (stop_after r)) Nap\<rparr>"
  have "check_and_pet c k started i r d = Some d1" using assms by (simp add: check_and_pet_def d1_def Let_def)
  then have "wd_loop c k started i (r # rs) d = (if stop_after r \<noteq> None then (Stopped, d2) else wd_loop c k started i rs d2)" by (simp add: d2_def Let_def)
  moreover have "trace d2 = trace d @ missed_round i r" "strikes d2 = strikes d + 1" "pets d2 = pets d" by (simp_all add: d2_def d1_def missed_round_def)
  ultimately show ?thesis by blast
qed

lemma serve_eq:
  assumes "enable c" "used_device c paths = Some path" "opens (kdev path)"
  shows "serve c paths kdev started rs =
    (case wd_loop c (kdev path) started (pet_interval c (actual_timeout c (kdev path))) rs (start_daemon c (kdev path)) of
       (st, d) \<Rightarrow> Served st (if st = Stopped then d\<lparr>trace := trace d @ wd_close (kdev path) (disarm_on_exit c)\<rparr> else d))"
  using assms by (auto simp: serve_def wd_open_def Let_def split: prod.split wd_status.split)

lemma loop_fed:
  assumes "C + W + nat (2 * i) < bound" "pet k \<noteq> None"
  shows "\<forall>r \<in> set rs. fst (decide c started r) \<and> check_time r \<le> C \<and> rest_time r \<le> W \<Longrightarrow> \<not> starved bound 0 (trace d) \<Longrightarrow> since 0 (trace d) \<le> W + nat (2 * i) \<Longrightarrow>
    \<exists>st d'. wd_loop c k started i rs d = (st, d') \<and> st \<noteq> Crashed \<and> \<not> starved bound 0 (trace d')"
proof (induction rs arbitrary: d)
  case (Cons r rs)
  have n: "naps 0 i (stop_after r) \<le> nat (2 * i)" using naps_le [of 0 i "stop_after r"] by simp
  have r: "check_time r \<le> C" "rest_time r \<le> W" "fst (decide c started r)" using Cons.prems(1) by simp_all
  obtain d' where d': "trace d' = trace d @ fed_round i r" "wd_loop c k started i (r # rs) d = (if stop_after r \<noteq> None then (Stopped, d') else wd_loop c k started i rs d')"
    using loop_fed_step [OF r(3) assms(2)] by blast
  have "\<not> starved bound 0 (replicate (naps 0 i (stop_after r)) Nap)" "\<not> starved bound (rest_time r) (replicate (naps 0 i (stop_after r)) Nap)"
    using n r assms(1) by (auto simp: not_starved_elapsed)
  then have "\<not> starved bound 0 (trace d')" using Cons.prems(2,3) r n assms(1) by (simp add: d'(1) starved_append fed_round_def)
  moreover have "since 0 (trace d') \<le> W + nat (2 * i)" using r n since_elapsed [of "replicate (naps 0 i (stop_after r)) Nap" "rest_time r"] by (simp add: d'(1) fed_round_def)
  ultimately show ?case unfolding d'(2) using Cons.IH [of d'] Cons.prems(1) by (cases "stop_after r") (auto simp del: wd_loop.simps)
qed simp

text \<open>A run whose rounds are not stopped and do not crash passes through every prefix.\<close>

lemma loop_append:
  assumes "pet k \<noteq> None" "\<forall>r \<in> set as. stop_after r = None"
  shows "\<exists>d'. (\<forall>bs. wd_loop c k started i (as @ bs) d = wd_loop c k started i bs d')"
  using assms(2)
proof (induction as arbitrary: d)
  case (Cons r rs)
  obtain d1 where d1: "check_and_pet c k started i r d = Some d1" using assms(1) by (cases "fst (decide c started r)") (auto simp: check_and_pet_def Let_def)
  show ?case using Cons.IH [of "(pass (rest_time r) d1)\<lparr>trace := trace (pass (rest_time r) d1) @ replicate (naps 0 i None) Nap\<rparr>"] Cons.prems by (simp add: d1 Let_def)
qed auto

lemma loop_unhealthy:
  "\<forall>r \<in> set rs. stop_after r = None \<and> \<not> fst (decide c started r) \<Longrightarrow>
    \<exists>d' t. wd_loop c k started i rs d = (Running, d') \<and> trace d' = trace d @ t \<and> Pet \<notin> set t \<and> length rs * nat (2 * i) \<le> elapsed t"
proof (induction rs arbitrary: d)
  case (Cons r rs)
  obtain d1 where d1: "trace d1 = trace d @ missed_round i r" "wd_loop c k started i (r # rs) d = wd_loop c k started i rs d1"
    using loop_missed_step [of c started r d i k rs] Cons.prems by auto
  obtain d' t where "wd_loop c k started i rs d1 = (Running, d')" "trace d' = trace d1 @ t" "Pet \<notin> set t" "length rs * nat (2 * i) \<le> elapsed t"
    using Cons.IH [of d1] Cons.prems by auto
  then show ?case using missed_round_time [of i r] Cons.prems unfolding d1(2) by (intro exI [of _ d'] exI [of _ "missed_round i r @ t"]) (auto simp: d1(1))
qed auto

text \<open>
  (C23) A healthy box is not reset: suppose every check passes (the gate is off, the grace period
  runs, or the health check answers yes), takes at most \<open>C\<close> half seconds, and leaves at most \<open>W\<close> half
  seconds for the rest of its round beside the sleep; the device takes writes and is disarmed on
  exit. The interval is the configured one, or a third of the device's timeout (at least a second)
  when the configured one is not below it. If \<open>C\<close>, \<open>W\<close> and the interval together stay below the timeout, then the daemon
  never leaves the device without a pet for its timeout and does not crash, whenever a signal
  stops it; and a daemon that stopped has written the magic character before it closed the device.
\<close>

theorem watchdog_fed:
  assumes "enable c" "used_device c paths = Some path" "opens (kdev path)" "writable (kdev path)" "disarm_on_exit c"
    and "\<forall>r \<in> set rs. fst (decide c started r) \<and> check_time r \<le> C \<and> rest_time r \<le> W"
    and "interval = (if pet_interval_sec c < actual_timeout c (kdev path) then pet_interval_sec c else max 1 (actual_timeout c (kdev path) div 3))"
    and "C + W + nat (2 * interval) < nat (2 * actual_timeout c (kdev path))"
  shows "\<exists>st d. serve c paths kdev started rs = Served st d \<and> st \<noteq> Crashed \<and> \<not> starved (nat (2 * actual_timeout c (kdev path))) 0 (trace d)
    \<and> (st = Stopped \<longrightarrow> (\<exists>t. trace d = t @ [Magic, Close]))"
proof -
  let ?k = "kdev path" and ?a = "actual_timeout c (kdev path)"
  have p: "pet ?k \<noteq> None" using assms(4) by (simp add: pet_def)
  have i: "pet_interval c ?a = interval" by (simp add: pet_interval_def assms(7) not_less)
  obtain st d where l: "wd_loop c ?k started (pet_interval c ?a) rs (start_daemon c ?k) = (st, d)" "st \<noteq> Crashed" "\<not> starved (nat (2 * ?a)) 0 (trace d)"
    unfolding i using loop_fed [OF assms(8) p assms(6) not_starved_start, of c ?k] by (auto simp del: wd_loop.simps)
  show ?thesis unfolding serve_eq [where kdev = kdev, OF assms(1-3)] l(1)
    using l(2,3) assms(4,5) by (auto simp: starved_append not_starved_close wd_close_def disarm_def)
qed

text \<open>
  A wedged box is reset: with the health gate on, after any rounds without a stop, a series
  of failed checks that spans the timeout leaves the device without a pet for as long, however
  many strikes are configured.
\<close>

theorem watchdog_bites:
  assumes "enable c" "used_device c paths = Some path" "opens (kdev path)" "pet (kdev path) \<noteq> None"
    and "\<forall>r \<in> set (as @ bs). stop_after r = None" "\<forall>r \<in> set bs. \<not> fst (decide c started r)"
    and "0 < pet_interval c (actual_timeout c (kdev path))" "actual_timeout c (kdev path) \<le> int (length bs) * pet_interval c (actual_timeout c (kdev path))" "0 < length bs"
  shows "\<exists>d. serve c paths kdev started (as @ bs) = Served Running d \<and> starved (nat (2 * actual_timeout c (kdev path))) 0 (trace d)"
proof -
  let ?k = "kdev path" and ?a = "actual_timeout c (kdev path)"
  let ?i = "pet_interval c ?a"
  obtain d1 where "wd_loop c ?k started ?i (as @ bs) (start_daemon c ?k) = wd_loop c ?k started ?i bs d1"
    using loop_append [OF assms(4), of as c started ?i "start_daemon c ?k"] assms(5) by auto
  moreover obtain d t where d: "wd_loop c ?k started ?i bs d1 = (Running, d)" "trace d = trace d1 @ t" "Pet \<notin> set t" "length bs * nat (2 * ?i) \<le> elapsed t"
    using loop_unhealthy [of bs c started ?k ?i d1] assms(5,6) by auto
  ultimately have s: "serve c paths kdev started (as @ bs) = Served Running d" by (simp add: serve_eq [where kdev = kdev, OF assms(1-3)])
  have "nat (2 * ?a) \<le> nat (2 * (int (length bs) * ?i))" by (rule nat_mono) (use assms(8) in simp)
  also have "\<dots> = length bs * nat (2 * ?i)" using assms(7) by (simp add: nat_mult_distrib)
  finally have "nat (2 * ?a) \<le> since 0 (trace d1) + elapsed t" using d(4) by linarith
  moreover have "0 < length bs * nat (2 * ?i)" using assms(7,9) by simp
  moreover from this have "0 < elapsed t" using d(4) by linarith
  ultimately have "starved (nat (2 * ?a)) (since 0 (trace d1)) t" using d(3) by (intro elapsed_starved)
  then have "starved (nat (2 * ?a)) 0 (trace d)" by (simp add: d(2) starved_append)
  then show ?thesis using s by blast
qed

text \<open>
  (C24) One failed check can reset the box: with an interval of at least half the device's timeout,
  a single failed check after a passed one leaves the device without a pet for the timeout, with
  the count at one strike, whatever number of strikes is configured.
\<close>

theorem watchdog_single_miss:
  assumes "enable c" "used_device c paths = Some path" "opens (kdev path)" "pet (kdev path) \<noteq> None"
    and "stop_after ra = None" "stop_after rb = None" "fst (decide c started ra)" "\<not> fst (decide c started rb)"
    and "0 < pet_interval c (actual_timeout c (kdev path))" "actual_timeout c (kdev path) \<le> 2 * pet_interval c (actual_timeout c (kdev path))"
  shows "\<exists>d. serve c paths kdev started [ra, rb] = Served Running d \<and> strikes d = 1 \<and> pets d = 1 \<and> starved (nat (2 * actual_timeout c (kdev path))) 0 (trace d)"
proof -
  let ?k = "kdev path" and ?i = "pet_interval c (actual_timeout c (kdev path))"
  let ?b = "nat (2 * actual_timeout c (kdev path))"
  obtain d1 where d1: "trace d1 = trace (start_daemon c ?k) @ fed_round ?i ra" "strikes d1 = 0" "pets d1 = 1"
    "wd_loop c ?k started ?i [ra, rb] (start_daemon c ?k) = wd_loop c ?k started ?i [rb] d1"
    using loop_fed_step [OF assms(7,4), where d = "start_daemon c ?k" and i = ?i and rs = "[rb]"] assms(5) by (auto simp: start_daemon_def)
  obtain d2 where d2: "trace d2 = trace d1 @ missed_round ?i rb" "strikes d2 = 1" "pets d2 = 1" "wd_loop c ?k started ?i [rb] d1 = (Running, d2)"
    using loop_missed_step [OF assms(8), where d = d1 and i = ?i and rs = "[]" and k = ?k] assms(6) d1(2,3) by auto
  define t where "t = Spent (rest_time ra) # replicate (naps 0 ?i None) Nap @ missed_round ?i rb"
  have "Pet \<notin> set t" "0 < elapsed t" "?b \<le> elapsed t" using assms(6,9,10) by (auto simp: t_def missed_round_def naps_full)
  then have "starved ?b 0 t" by (intro elapsed_starved) simp_all
  moreover have "trace d2 = (trace (start_daemon c ?k) @ [Spent (check_time ra), Pet]) @ t" by (simp add: d2(1) d1(1) t_def fed_round_def assms(5))
  ultimately have "starved ?b 0 (trace d2)" by (simp add: starved_append)
  then show ?thesis using d1(4) d2(2-4) by (simp add: serve_eq [where kdev = kdev, OF assms(1-3)])
qed

section \<open>Concrete runs\<close>

definition sample_config :: wd_config where
  "sample_config = load_config (Some [Require_health True, Pet_interval_sec 45, Startup_grace_sec 10])"

definition sample_device :: "string \<Rightarrow> kdevice" where
  "sample_device _ = \<lparr>opens = True, support = None, ioctl = (\<lambda>req v. if req = WDIOC_GETTIMEOUT then Some 60 else Some v), writable = True\<rparr>"

definition sample_round :: "rat \<Rightarrow> string \<Rightarrow> wd_round" where
  "sample_round t st = \<lparr>now = t, is_active = (\<lambda>_. Some st), hbstat = None, check_time = 20, rest_time = 2, stop_after = None\<rparr>"

lemma sample_used: "used_device sample_config [''/dev/watchdog0'', ''/dev/watchdog''] = Some ''/dev/watchdog''"
  by (simp add: used_device_def sample_config_def load_config_def DEFAULT_CONFIG_def find_devices_def)

lemma sample_facts:
  "enable sample_config" "opens (sample_device p)" "pet (sample_device p) \<noteq> None" "actual_timeout sample_config (sample_device p) = 60"
  "pet_interval sample_config 60 = 45" "writable (sample_device p)" "disarm_on_exit sample_config" "stop_after (sample_round t st) = None"
  by (simp_all add: sample_config_def load_config_def DEFAULT_CONFIG_def sample_device_def sample_round_def actual_timeout_def
      get_timeout_def ioctl_int_def pet_def pet_interval_def Let_def)

lemma sample_interval: "pet_interval_sec sample_config = 45"
  by (simp add: sample_config_def load_config_def DEFAULT_CONFIG_def)

lemma sample_decide: "fst (decide sample_config 0 (sample_round 5 ''inactive''))" "fst (decide sample_config 0 (sample_round 50 ''active''))"
  "\<not> fst (decide sample_config 0 (sample_round 95 ''inactive''))"
  by (simp_all add: sample_config_def load_config_def DEFAULT_CONFIG_def sample_round_def decide_def evaluate_health_def unit_active_def
      sysd_heartbeats_ok_def Let_def)

theorem watchdog_fed_witness:
  "\<exists>st d. serve sample_config [''/dev/watchdog0'', ''/dev/watchdog''] sample_device 0 [sample_round 5 ''inactive'', (sample_round 50 ''active'')\<lparr>stop_after := Some 3\<rparr>] = Served st d
     \<and> st \<noteq> Crashed \<and> \<not> starved 120 0 (trace d)"
proof -
  have r: "\<forall>r \<in> set [sample_round 5 ''inactive'', (sample_round 50 ''active'')\<lparr>stop_after := Some 3\<rparr>]. fst (decide sample_config 0 r) \<and> check_time r \<le> 20 \<and> rest_time r \<le> 2"
    using sample_decide by (auto simp: sample_round_def decide_def evaluate_health_def unit_active_def sysd_heartbeats_ok_def Let_def)
  show ?thesis
    using watchdog_fed [where kdev = sample_device, OF sample_facts(1) sample_used sample_facts(2) _ _ r refl] sample_interval by (simp add: sample_facts) blast
qed

theorem watchdog_bites_witness:
  "\<exists>d. serve sample_config [''/dev/watchdog0'', ''/dev/watchdog''] sample_device 0
       ([sample_round 50 ''active''] @ [sample_round 95 ''inactive'', sample_round 95 ''inactive'']) = Served Running d \<and> starved 120 0 (trace d)"
  using watchdog_bites [where kdev = sample_device and started = 0 and as = "[sample_round 50 ''active'']" and bs = "[sample_round 95 ''inactive'', sample_round 95 ''inactive'']", OF sample_facts(1) sample_used sample_facts(2,3)]
  by (simp add: sample_facts sample_decide)

theorem watchdog_single_miss_witness:
  "\<exists>d. serve sample_config [''/dev/watchdog0'', ''/dev/watchdog''] sample_device 0 [sample_round 50 ''active'', sample_round 95 ''inactive''] = Served Running d
     \<and> strikes d = 1 \<and> pets d = 1 \<and> starved 120 0 (trace d)"
  using watchdog_single_miss [where kdev = sample_device and started = 0 and ra = "sample_round 50 ''active''" and rb = "sample_round 95 ''inactive''", OF sample_facts(1) sample_used sample_facts(2,3)]
  by (simp add: sample_facts sample_decide)

end
