(* ===== verification/License.thy ===== *)
theory License
  imports Complex_Main Json "HOL-Library.List_Lexorder" "HOL-Library.Char_ord"
begin

text \<open>
  Host licensing, \<^verbatim>\<open>src/opt/ffn_license.py\<close>: the host identity, the licence token, its verification
  and the store that answers feature queries. The cryptography package and the hash are
  parameters. Texts read from the system come stripped, as \<^verbatim>\<open>_read_first_line\<close> returns them.
\<close>

section \<open>Constants\<close>

definition NGFW_LIC_MAGIC :: bytes where "NGFW_LIC_MAGIC = map of_char ''FFN-LIC1''"
definition NGFW_LIC_VERSION :: nat where "NGFW_LIC_VERSION = 1"
definition NGFW_LIC_PAYLOAD_BYTES :: nat where "NGFW_LIC_PAYLOAD_BYTES = 84"
definition NGFW_DEVICE_DNA_BYTES :: nat where "NGFW_DEVICE_DNA_BYTES = 12"
definition NGFW_SIG_ALG_ECDSA_P384 :: nat where "NGFW_SIG_ALG_ECDSA_P384 = 4"
definition NGFW_SIG_BYTES_ECDSA_P384 :: nat where "NGFW_SIG_BYTES_ECDSA_P384 = 96"
definition P384_SCALAR_BYTES :: nat where "P384_SCALAR_BYTES = 48"
definition NGFW_MASTER_PUBKEY_BLOB_BYTES :: nat where "NGFW_MASTER_PUBKEY_BLOB_BYTES = 144"
definition NGFW_PUBKEY_BYTES_ECDSA_P384 :: nat where "NGFW_PUBKEY_BYTES_ECDSA_P384 = 97"
definition NGFW_LIC_FLAG_REVOKED :: nat where "NGFW_LIC_FLAG_REVOKED = 4"
definition NGFW_LIC_FEAT_BASE :: nat where "NGFW_LIC_FEAT_BASE = 0x100"
definition NGFW_LIC_FEAT_ACCEL :: nat where "NGFW_LIC_FEAT_ACCEL = 0x130"
definition TIER_GBPS :: "nat \<Rightarrow> nat" where
  "TIER_GBPS f = (if f = 0x101 then 10 else if f = 0x102 then 40 else if f = 0x103 then 100 else if f = 0x104 then 400 else 0)"
definition MASTER_SIGNER_ZERO :: bytes where "MASTER_SIGNER_ZERO = replicate 16 0"
definition DMI_IGNORE :: "string list" where
  "DMI_IGNORE = ['''', ''to be filled by o.e.m.'', ''default string'', ''none'', ''0'', ''system serial number'']"

section \<open>Host identity\<close>

record nic =
  ifname :: string
  perm_addr :: string
  sys_addr :: string

record host =
  etc_machine_id :: string
  dbus_machine_id :: string
  product_uuid :: string
  board_serial :: string
  product_serial :: string
  nics :: "nic list"

definition machine_id :: "host \<Rightarrow> string" where
  "machine_id h = (if etc_machine_id h \<noteq> [] then etc_machine_id h else dbus_machine_id h)"

definition ZERO_MAC :: string where "ZERO_MAC = ''00:00:00:00:00:00''"

definition nic_mac :: "nic \<Rightarrow> string" where
  "nic_mac n = (if perm_addr n = [] \<or> perm_addr n = ZERO_MAC then sys_addr n else perm_addr n)"

fun first_mac :: "nic list \<Rightarrow> string" where
  "first_mac [] = []"
| "first_mac (n # ns) =
     (if ifname n = ''lo'' then first_mac ns
      else if nic_mac n \<noteq> [] \<and> nic_mac n \<noteq> ZERO_MAC then nic_mac n else first_mac ns)"

definition first_permanent_mac :: "host \<Rightarrow> string" where
  "first_permanent_mac h = first_mac (sort_key ifname (nics h))"

definition H1_FIELDS :: "host \<Rightarrow> (string \<times> string) list" where
  "H1_FIELDS h =
     [(''machine_id'', machine_id h), (''product_uuid'', product_uuid h), (''board_serial'', board_serial h),
      (''product_serial'', product_serial h), (''permmac'', first_permanent_mac h)]"

definition h1_part :: "string \<times> string \<Rightarrow> string list" where
  "h1_part kv =
     (case kv of (key, val) \<Rightarrow>
        if val = [] then []
        else if key = ''permmac'' then (if val = ZERO_MAC then [] else [key @ ''='' @ val])
        else if py_lower val \<in> set DMI_IGNORE then [] else [key @ ''='' @ val])"

definition stream :: "host \<Rightarrow> string" where
  "stream h = join_with ''|'' (''h1'' # concat (map h1_part (H1_FIELDS h)))"

definition hex_digit :: "nat \<Rightarrow> char" where
  "hex_digit n = ''0123456789abcdef'' ! n"

definition hex_byte :: "byte \<Rightarrow> string" where
  "hex_byte b = [hex_digit (unat b div 16), hex_digit (unat b mod 16)]"

definition dna_to_hex :: "bytes \<Rightarrow> string" where
  "dna_to_hex dna = join_with '':'' (map hex_byte dna)"

definition dna_bytes :: "(string \<Rightarrow> bytes) \<Rightarrow> host \<Rightarrow> bytes" where
  "dna_bytes sha256 h = (if CHR ''|'' \<notin> set (stream h) then [] else take NGFW_DEVICE_DNA_BYTES (sha256 (stream h)))"

definition dna_hex :: "(string \<Rightarrow> bytes) \<Rightarrow> host \<Rightarrow> string" where
  "dna_hex sha256 h = (let d = dna_bytes sha256 h in if d \<noteq> [] then dna_to_hex d else [])"

definition hex_val :: "char \<Rightarrow> nat option" where
  "hex_val c = (let n = of_char c :: nat in
     if 48 \<le> n \<and> n \<le> 57 then Some (n - 48) else if 97 \<le> n \<and> n \<le> 102 then Some (n - 87) else if 65 \<le> n \<and> n \<le> 70 then Some (n - 55) else None)"

text \<open>\<^verbatim>\<open>bytes.fromhex\<close>, which skips white space between two bytes.\<close>

definition is_space :: "char \<Rightarrow> bool" where
  "is_space c = (of_char c \<in> {9, 10, 11, 12, 13, 32 :: nat})"

fun from_hex :: "string \<Rightarrow> bytes option" where
  "from_hex [] = Some []"
| "from_hex [c] = (if is_space c then Some [] else None)"
| "from_hex (c # d # cs) =
     (if is_space c then from_hex (d # cs)
      else
        (case (hex_val c, hex_val d) of
           (Some x, Some y) \<Rightarrow> map_option (\<lambda>bs. word_of_nat (16 * x + y) # bs) (from_hex cs)
         | _ \<Rightarrow> None))"

text \<open>The callers give texts; a surrounding \<^verbatim>\<open>strip\<close> changes nothing that \<^verbatim>\<open>fromhex\<close> does not skip.\<close>

definition dna_from_any :: "string \<Rightarrow> bytes" where
  "dna_from_any s = (case from_hex (filter (\<lambda>c. c \<noteq> CHR '':'') s) of Some bs \<Rightarrow> take NGFW_DEVICE_DNA_BYTES bs | None \<Rightarrow> [])"

section \<open>Tokens\<close>

record token =
  payload :: bytes
  sig :: bytes
  magic :: bytes
  version :: nat
  dna :: bytes
  feature_id :: nat
  subfeature_id :: nat
  issued_unix_s :: nat
  expiry_unix_s :: nat
  tflags :: nat
  signer_id :: bytes
  sig_alg :: nat
  reserved :: bytes

definition parse_token :: "bytes \<Rightarrow> token res" where
  "parse_token blob =
     ok (NGFW_LIC_PAYLOAD_BYTES \<le> length blob) (ValueError ''token too short'')
       (let b = take NGFW_LIC_PAYLOAD_BYTES blob
        in Inr \<lparr>payload = b, sig = drop NGFW_LIC_PAYLOAD_BYTES blob, magic = seg 0 8 b, version = from_le (seg 8 12 b), dna = seg 12 24 b,
             feature_id = from_le (seg 24 28 b), subfeature_id = from_le (seg 28 32 b), issued_unix_s = from_le (seg 32 40 b),
             expiry_unix_s = from_le (seg 40 48 b), tflags = from_le (seg 48 52 b), signer_id = seg 52 68 b, sig_alg = from_le (seg 68 72 b),
             reserved = seg 72 84 b\<rparr>)"

definition is_master :: "token \<Rightarrow> bool" where
  "is_master t = (signer_id t = MASTER_SIGNER_ZERO)"

definition magic_ok :: "token \<Rightarrow> bool" where
  "magic_ok t = (magic t = NGFW_LIC_MAGIC)"

definition expired :: "token \<Rightarrow> rat \<Rightarrow> bool" where
  "expired t now = (expiry_unix_s t \<noteq> 0 \<and> of_nat (expiry_unix_s t) < now)"

section \<open>Verification\<close>

text \<open>
  The cryptography package: whether it is there, which points it loads, and whether a pair \<open>(r, s)\<close>
  signs a payload under a point.
\<close>

record crypto =
  crypto_ok :: bool
  loads_point :: "bytes \<Rightarrow> bool"
  ecdsa_p384 :: "bytes \<Rightarrow> nat \<Rightarrow> nat \<Rightarrow> bytes \<Rightarrow> bool"

text \<open>\<open>None\<close>: the key file cannot be read. The key is its point.\<close>

definition load_master_pubkey :: "crypto \<Rightarrow> bytes option \<Rightarrow> bytes option" where
  "load_master_pubkey cr pub =
     (case pub of
        None \<Rightarrow> None
      | Some blob \<Rightarrow>
          (let point = seg 1 (1 + NGFW_PUBKEY_BYTES_ECDSA_P384) blob in
           if \<not> crypto_ok cr \<or> length blob < NGFW_MASTER_PUBKEY_BLOB_BYTES \<or> unat (blob ! 0) \<noteq> NGFW_SIG_ALG_ECDSA_P384
              \<or> length point \<noteq> NGFW_PUBKEY_BYTES_ECDSA_P384 \<or> point ! 0 \<noteq> 4 \<or> \<not> loads_point cr point
           then None else Some point))"

definition verify_ecdsa_p384 :: "crypto \<Rightarrow> bytes \<Rightarrow> bytes \<Rightarrow> bytes \<Rightarrow> bool" where
  "verify_ecdsa_p384 cr point pl sg =
     (crypto_ok cr \<and> length sg = NGFW_SIG_BYTES_ECDSA_P384
      \<and> ecdsa_p384 cr point (from_be (take P384_SCALAR_BYTES sg)) (from_be (seg P384_SCALAR_BYTES (2 * P384_SCALAR_BYTES) sg)) pl)"

definition verify :: "crypto \<Rightarrow> bytes option \<Rightarrow> token \<Rightarrow> string list \<Rightarrow> rat \<Rightarrow> bool" where
  "verify cr pub t live_dnas now =
     (if \<not> crypto_ok cr then False
      else if \<not> magic_ok t then False
      else if version t \<noteq> NGFW_LIC_VERSION then False
      else if \<not> is_master t then False
      else if sig_alg t \<noteq> NGFW_SIG_ALG_ECDSA_P384 then False
      else if dna t \<notin> set (map dna_from_any live_dnas) - {[]} then False
      else if expired t now then False
      else (case load_master_pubkey cr pub of None \<Rightarrow> False | Some point \<Rightarrow> verify_ecdsa_p384 cr point (payload t) (sig t)))"

section \<open>The store\<close>

text \<open>A directory entry: its name, whether it is a file, and its content unless reading fails.\<close>

record dirent =
  d_name :: string
  is_file :: bool
  d_content :: "bytes option"

definition is_lic :: "string \<Rightarrow> bool" where
  "is_lic n = (4 < length n \<and> drop (length n - 4) n = ''.lic'')"

definition lic_files :: "dirent list \<Rightarrow> dirent list" where
  "lic_files ds = sort_key d_name (filter (\<lambda>d. is_file d \<and> is_lic (d_name d)) ds)"

definition accept_file :: "crypto \<Rightarrow> bytes option \<Rightarrow> string list \<Rightarrow> rat \<Rightarrow> dirent \<Rightarrow> token list" where
  "accept_file cr pub candidates now d =
     (case d_content d of
        None \<Rightarrow> []
      | Some blob \<Rightarrow>
          if length blob < NGFW_LIC_PAYLOAD_BYTES \<or> take 8 blob \<noteq> NGFW_LIC_MAGIC then []
          else (case parse_token blob of Inl _ \<Rightarrow> [] | Inr t \<Rightarrow> if verify cr pub t candidates now then [t] else []))"

record license_store =
  accepted :: "token list"
  cache :: bytes
  total :: nat

definition candidate_dnas :: "(string \<Rightarrow> bytes) \<Rightarrow> host \<Rightarrow> string list option \<Rightarrow> string list" where
  "candidate_dnas sha256 h override =
     (case override of Some ds \<Rightarrow> ds | None \<Rightarrow> (let d = dna_hex sha256 h in if d \<noteq> [] then [d] else []))"

definition reload :: "crypto \<Rightarrow> bytes option \<Rightarrow> string list \<Rightarrow> rat \<Rightarrow> dirent list \<Rightarrow> license_store" where
  "reload cr pub candidates now ds =
     (let files = lic_files ds; acc = concat (map (accept_file cr pub candidates now) files)
      in \<lparr>accepted = acc, cache = concat (map payload acc), total = length files\<rparr>)"

fun best_tier :: "rat \<Rightarrow> token list \<Rightarrow> nat \<Rightarrow> nat" where
  "best_tier now [] best = best"
| "best_tier now (t # ts) best =
     (if expired t now then best_tier now ts best
      else let g = TIER_GBPS (feature_id t) in best_tier now ts (if g > best then g else best))"

definition tier_gbps :: "license_store \<Rightarrow> rat \<Rightarrow> nat" where
  "tier_gbps s now = best_tier now (accepted s) 0"

definition licensed :: "license_store \<Rightarrow> nat \<Rightarrow> rat \<Rightarrow> bool" where
  "licensed s f now = list_ex (\<lambda>t. feature_id t = f \<and> \<not> expired t now) (accepted s)"

definition base_ok :: "license_store \<Rightarrow> rat \<Rightarrow> bool" where
  "base_ok s now = (licensed s NGFW_LIC_FEAT_BASE now \<and> tier_gbps s now > 0)"

definition query :: "license_store \<Rightarrow> nat \<Rightarrow> rat \<Rightarrow> bool" where
  "query s f now =
     (if f = NGFW_LIC_FEAT_ACCEL then False
      else if f = NGFW_LIC_FEAT_BASE then base_ok s now
      else licensed s f now)"

definition features :: "license_store \<Rightarrow> rat \<Rightarrow> nat list" where
  "features s now = sort (remdups (map feature_id (filter (\<lambda>t. \<not> expired t now) (accepted s))))"

record license_status =
  st_base_ok :: bool
  st_features :: "nat list"
  st_tier :: nat
  st_expiry :: nat
  st_accepted :: nat

definition license_status :: "license_store \<Rightarrow> rat \<Rightarrow> license_status" where
  "license_status s now =
     (let expiries = filter (\<lambda>e. e \<noteq> 0) (map expiry_unix_s (accepted s))
      in \<lparr>st_base_ok = base_ok s now, st_features = features s now, st_tier = tier_gbps s now,
          st_expiry = (if expiries \<noteq> [] then Min (set expiries) else 0), st_accepted = length (accepted s)\<rparr>)"

text \<open>The layout helper \<^verbatim>\<open>_build_payload\<close> of the module's self test: the signed region of a token; \<open>issued\<close> is the clock.\<close>

definition build_payload :: "bytes \<Rightarrow> nat \<Rightarrow> nat \<Rightarrow> bytes \<Rightarrow> nat \<Rightarrow> nat \<Rightarrow> bytes" where
  "build_payload d f expiry signer alg issued =
     put 68 (to_le 4 alg) (put 52 signer (put 48 (to_le 4 0) (put 40 (to_le 8 expiry) (put 32 (to_le 8 issued) (put 28 (to_le 4 0)
       (put 24 (to_le 4 f) (put 12 d (put 8 (to_le 4 NGFW_LIC_VERSION) (put 0 NGFW_LIC_MAGIC (replicate NGFW_LIC_PAYLOAD_BYTES 0))))))))))"

section \<open>What the store grants\<close>

definition genuine :: "crypto \<Rightarrow> bytes option \<Rightarrow> string list \<Rightarrow> rat \<Rightarrow> token \<Rightarrow> bool" where
  "genuine cr pub candidates t0 t =
     (magic t = NGFW_LIC_MAGIC \<and> version t = 1 \<and> signer_id t = replicate 16 0 \<and> sig_alg t = 4 \<and> dna t \<noteq> [] \<and> dna t \<in> dna_from_any ` set candidates
      \<and> \<not> expired t t0 \<and> (\<exists>point. load_master_pubkey cr pub = Some point \<and> verify_ecdsa_p384 cr point (payload t) (sig t)))"

lemma verify_genuine: "verify cr pub t candidates t0 \<longleftrightarrow> genuine cr pub candidates t0 t"
proof -
  have "crypto_ok cr" if "verify_ecdsa_p384 cr point pl sg" for point pl sg using that by (simp add: verify_ecdsa_p384_def)
  then show ?thesis
    by (auto simp: verify_def genuine_def magic_ok_def is_master_def NGFW_LIC_VERSION_def NGFW_SIG_ALG_ECDSA_P384_def MASTER_SIGNER_ZERO_def split: option.splits)
qed

definition holds_token :: "dirent \<Rightarrow> token \<Rightarrow> bool" where
  "holds_token d t = (is_file d \<and> is_lic (d_name d) \<and> (\<exists>blob. d_content d = Some blob \<and> parse_token blob = Inr t))"

lemma parse_token_magic: "parse_token blob = Inr t \<Longrightarrow> magic t = take 8 blob \<and> 84 \<le> length blob"
  by (auto simp: parse_token_def result_simps NGFW_LIC_PAYLOAD_BYTES_def seg_def Let_def min_def)

lemma accept_file_iff:
  "t \<in> set (accept_file cr pub candidates t0 d) \<longleftrightarrow> (\<exists>blob. d_content d = Some blob \<and> parse_token blob = Inr t) \<and> genuine cr pub candidates t0 t"
proof (cases "d_content d")
  case (Some blob)
  show ?thesis
  proof (cases "parse_token blob")
    case (Inr u)
    have "magic u = take 8 blob" "84 \<le> length blob" using parse_token_magic [OF Inr] by auto
    then show ?thesis by (auto simp: accept_file_def Some Inr verify_genuine NGFW_LIC_PAYLOAD_BYTES_def) (auto simp: genuine_def)
  qed (simp add: accept_file_def Some)
qed (simp add: accept_file_def)

lemma accepted_iff:
  "t \<in> set (accepted (reload cr pub candidates t0 ds)) \<longleftrightarrow> (\<exists>d \<in> set ds. holds_token d t) \<and> genuine cr pub candidates t0 t"
  by (auto simp: reload_def Let_def lic_files_def accept_file_iff holds_token_def)

lemma licensed_iff: "licensed s f now \<longleftrightarrow> (\<exists>t \<in> set (accepted s). feature_id t = f \<and> \<not> expired t now)"
  by (simp add: licensed_def list_ex_iff)

text \<open>
  The documented layout of a licence, read from the bytes of the file by offset: the magic, the
  format version, the identity of the device, the feature, the expiry (zero for none), the master
  signer, the algorithm, and the two numbers of the signature after the signed region of 84 bytes.
\<close>

definition licence_bytes :: "crypto \<Rightarrow> bytes \<Rightarrow> bytes set \<Rightarrow> rat \<Rightarrow> rat \<Rightarrow> nat \<Rightarrow> bytes \<Rightarrow> bool" where
  "licence_bytes cr point ids t0 now f blob \<longleftrightarrow>
     length blob = 180 \<and> take 8 blob = map of_char ''FFN-LIC1'' \<and> from_le (seg 8 12 blob) = 1 \<and> seg 12 24 blob \<in> ids \<and> from_le (seg 24 28 blob) = f
     \<and> (let expiry = from_le (seg 40 48 blob) in expiry = 0 \<or> t0 \<le> of_nat expiry \<and> now \<le> of_nat expiry)
     \<and> seg 52 68 blob = replicate 16 0 \<and> from_le (seg 68 72 blob) = 4
     \<and> ecdsa_p384 cr point (from_be (seg 84 132 blob)) (from_be (seg 132 180 blob)) (take 84 blob)"

definition master_point :: "crypto \<Rightarrow> bytes option \<Rightarrow> bytes \<Rightarrow> bool" where
  "master_point cr pub point \<longleftrightarrow>
     crypto_ok cr \<and> (\<exists>key. pub = Some key \<and> 144 \<le> length key \<and> key ! 0 = 4 \<and> key ! 1 = 4 \<and> point = seg 1 98 key \<and> loads_point cr point)"

lemma master_point: "load_master_pubkey cr pub = Some point \<longleftrightarrow> master_point cr pub point"
proof (cases pub)
  case (Some key)
  have "unat (key ! 0) = 4 \<longleftrightarrow> key ! 0 = 4" by (simp add: word_unat_eq_iff)
  moreover have "seg 1 98 key ! 0 = key ! 1" if "144 \<le> length key" using that by (simp add: seg_def)
  ultimately show ?thesis
    by (auto simp: load_master_pubkey_def master_point_def Some Let_def NGFW_PUBKEY_BYTES_ECDSA_P384_def NGFW_MASTER_PUBKEY_BLOB_BYTES_def NGFW_SIG_ALG_ECDSA_P384_def)
qed (simp add: load_master_pubkey_def master_point_def)

lemma seg_take: "j \<le> n \<Longrightarrow> seg i j (take n xs) = seg i j xs"
  by (simp add: seg_def drop_take min_def)

lemma licence_bytes_iff:
  "(\<exists>t. parse_token blob = Inr t \<and> genuine cr pub candidates t0 t \<and> feature_id t = f \<and> \<not> expired t now)
   \<longleftrightarrow> (\<exists>point. master_point cr pub point \<and> licence_bytes cr point (dna_from_any ` set candidates) t0 now f blob)"
proof (cases "84 \<le> length blob")
  case True
  have e: "seg 0 8 (take 84 blob) = take 8 blob" using True by (simp add: seg_def min_def)
  have s: "seg 84 132 blob = take 48 (drop 84 blob)" "seg 132 180 blob = seg 48 96 (drop 84 blob)" by (simp_all add: seg_def)
  have d: "seg 12 24 blob \<noteq> []" using True by (simp add: seg_def)
  have c: "crypto_ok cr" if "master_point cr pub point" for point using that by (simp add: master_point_def)
  show ?thesis using True d c
    by (auto simp: parse_token_def NGFW_LIC_PAYLOAD_BYTES_def ok_def Let_def genuine_def expired_def licence_bytes_def master_point verify_ecdsa_p384_def e s seg_take
        NGFW_LIC_MAGIC_def NGFW_SIG_BYTES_ECDSA_P384_def P384_SCALAR_BYTES_def not_less)
qed (auto simp: parse_token_def NGFW_LIC_PAYLOAD_BYTES_def ok_def licence_bytes_def)

lemma is_lic_iff: "is_lic n \<longleftrightarrow> (\<exists>stem. stem \<noteq> [] \<and> n = stem @ ''.lic'')"
proof
  assume "is_lic n"
  then have "take (length n - 4) n \<noteq> []" "n = take (length n - 4) n @ ''.lic''" unfolding is_lic_def by auto (metis append_take_drop_id)
  then show "\<exists>stem. stem \<noteq> [] \<and> n = stem @ ''.lic''" by blast
qed (auto simp: is_lic_def)

text \<open>
  (C17) A feature is granted exactly on a genuine licence: for every feature but the base and the
  accelerator, the store answers yes if and only if some file of the directory named
  \<^verbatim>\<open><stem>.lic\<close> holds 180 bytes which, read by their documented offsets, name that feature, one of
  the host's identities and an expiry that is zero or not before the time of the reading and the
  time of the query, and which the package accepts as signed under the point of the master key.
\<close>

theorem license_query_exact:
  assumes "f \<noteq> NGFW_LIC_FEAT_BASE" "f \<noteq> NGFW_LIC_FEAT_ACCEL"
  shows "query (reload cr pub candidates t0 ds) f now \<longleftrightarrow>
    (\<exists>d \<in> set ds. \<exists>stem blob point. is_file d \<and> d_name d = stem @ ''.lic'' \<and> stem \<noteq> [] \<and> d_content d = Some blob
       \<and> master_point cr pub point \<and> licence_bytes cr point (dna_from_any ` set candidates) t0 now f blob)"
proof -
  have "query (reload cr pub candidates t0 ds) f now \<longleftrightarrow>
    (\<exists>d \<in> set ds. \<exists>t. holds_token d t \<and> genuine cr pub candidates t0 t \<and> feature_id t = f \<and> \<not> expired t now)"
    using assms unfolding query_def licensed_iff Bex_def accepted_iff by simp blast
  also have "\<dots> \<longleftrightarrow> (\<exists>d \<in> set ds. is_file d \<and> is_lic (d_name d) \<and> (\<exists>blob. d_content d = Some blob
      \<and> (\<exists>t. parse_token blob = Inr t \<and> genuine cr pub candidates t0 t \<and> feature_id t = f \<and> \<not> expired t now)))"
    unfolding holds_token_def by blast
  finally show ?thesis unfolding licence_bytes_iff is_lic_iff by blast
qed

lemma best_tier_le: "b \<le> best_tier now ts b"
  by (induction ts arbitrary: b) (auto simp: Let_def intro: le_trans less_imp_le)

lemma best_tier_pos: "0 < best_tier now ts b \<longleftrightarrow> 0 < b \<or> (\<exists>t \<in> set ts. \<not> expired t now \<and> 0 < TIER_GBPS (feature_id t))"
  by (induction ts arbitrary: b) (auto simp: Let_def)

text \<open>
  The base licence needs a capacity tier: the store answers yes for the base feature if and
  only if it has accepted an unexpired base token and an unexpired token of a tier, and the
  accelerator feature is never granted.
\<close>

theorem license_base_exact:
  "(query s NGFW_LIC_FEAT_BASE now \<longleftrightarrow> licensed s NGFW_LIC_FEAT_BASE now \<and> (\<exists>f \<in> {0x101, 0x102, 0x103, 0x104}. licensed s f now))
   \<and> \<not> query s NGFW_LIC_FEAT_ACCEL now"
proof -
  have "0 < TIER_GBPS f \<longleftrightarrow> f \<in> {0x101, 0x102, 0x103, 0x104}" for f by (simp add: TIER_GBPS_def)
  then have "0 < tier_gbps s now \<longleftrightarrow> (\<exists>f \<in> {0x101, 0x102, 0x103, 0x104}. licensed s f now)"
    unfolding tier_gbps_def best_tier_pos licensed_iff by auto
  moreover have "NGFW_LIC_FEAT_BASE \<noteq> NGFW_LIC_FEAT_ACCEL" by (simp add: NGFW_LIC_FEAT_BASE_def NGFW_LIC_FEAT_ACCEL_def)
  ultimately show ?thesis by (simp add: query_def base_ok_def)
qed

text \<open>
  The list of features contradicts the query: once an unexpired token of the accelerator is
  accepted, the list names the feature that the query refuses.
\<close>

theorem license_features_accel:
  assumes "t \<in> set (accepted s)" "feature_id t = NGFW_LIC_FEAT_ACCEL" "\<not> expired t now"
  shows "NGFW_LIC_FEAT_ACCEL \<in> set (st_features (license_status s now)) \<and> \<not> query s NGFW_LIC_FEAT_ACCEL now"
  using assms by (force simp: license_status_def features_def query_def Let_def)

section \<open>Issued tokens\<close>

lemma payload_parses:
  assumes "length d = 12" "length signer = 16" "f < 2 ^ 32" "expiry < 2 ^ 64" "alg < 2 ^ 32" "issued < 2 ^ 64"
  shows "parse_token (build_payload d f expiry signer alg issued @ sg) =
    Inr \<lparr>payload = build_payload d f expiry signer alg issued, sig = sg, magic = NGFW_LIC_MAGIC, version = 1, dna = d, feature_id = f, subfeature_id = 0,
      issued_unix_s = issued, expiry_unix_s = expiry, tflags = 0, signer_id = signer, sig_alg = alg, reserved = replicate 12 0\<rparr>"
proof -
  have m: "length NGFW_LIC_MAGIC = 8" by (simp add: NGFW_LIC_MAGIC_def)
  have l: "length (build_payload d f expiry signer alg issued) = 84" using assms(1,2) by (simp add: build_payload_def m NGFW_LIC_PAYLOAD_BYTES_def)
  have "from_le (to_le 4 x) = x" if "x < 2 ^ 32" for x using that by (simp add: from_le_to_le)
  moreover have "from_le (to_le 8 x) = x" if "x < 2 ^ 64" for x using that by (simp add: from_le_to_le)
  moreover have "seg 72 84 (replicate 84 (0 :: byte)) = replicate 12 0" by (simp add: seg_def)
  moreover have "from_le (to_le 4 NGFW_LIC_VERSION) = 1" "from_le (to_le 4 0) = 0" by (simp_all add: from_le_to_le NGFW_LIC_VERSION_def)
  ultimately show ?thesis using assms
    by (simp add: parse_token_def Let_def NGFW_LIC_PAYLOAD_BYTES_def l) (simp add: build_payload_def NGFW_LIC_PAYLOAD_BYTES_def m seg_put_same seg_put_before seg_put_after)
qed

lemma hex_val_digit: "n < 16 \<Longrightarrow> hex_val (hex_digit n) = Some n \<and> \<not> is_space (hex_digit n) \<and> hex_digit n \<noteq> CHR '':''"
proof -
  have "list_all (\<lambda>n. hex_val (hex_digit n) = Some n \<and> \<not> is_space (hex_digit n) \<and> hex_digit n \<noteq> CHR '':'') [0..<16]" by code_simp
  then show "n < 16 \<Longrightarrow> hex_val (hex_digit n) = Some n \<and> \<not> is_space (hex_digit n) \<and> hex_digit n \<noteq> CHR '':''" by (simp add: list_all_iff)
qed

lemma nibbles: "unat (b :: byte) div 16 < 16" "unat b mod 16 < 16"
proof -
  have "unat b < 16 * 16" using unsigned_less [of b, where ?'a = nat] by simp
  then show "unat b div 16 < 16" by (rule less_mult_imp_div_less)
qed simp

lemma from_hex_byte: "from_hex (hex_byte b @ cs) = map_option (\<lambda>bs. b # bs) (from_hex cs)"
proof -
  have "word_of_nat (16 * (unat b div 16) + unat b mod 16) = b" by simp
  then show ?thesis using hex_val_digit [OF nibbles(1), of b] hex_val_digit [OF nibbles(2), of b] by (simp add: hex_byte_def)
qed

lemma filter_hex: "filter (\<lambda>c. c \<noteq> CHR '':'') (dna_to_hex ds) = concat (map hex_byte ds)"
proof -
  have h: "filter (\<lambda>c. c \<noteq> CHR '':'') (hex_byte b) = hex_byte b" for b
    using hex_val_digit [OF nibbles(1), of b] hex_val_digit [OF nibbles(2), of b] by (simp add: hex_byte_def)
  have "filter (\<lambda>c. c \<noteq> CHR '':'') (join_with '':'' (map hex_byte ds)) = concat (map hex_byte ds)"
    by (induction ds rule: induct_list012) (simp_all add: h)
  then show ?thesis by (simp add: dna_to_hex_def)
qed

lemma dna_from_hex: "length ds \<le> 12 \<Longrightarrow> dna_from_any (dna_to_hex ds) = ds"
proof -
  have "from_hex (concat (map hex_byte ds)) = Some ds" for ds by (induction ds) (simp_all add: from_hex_byte)
  then show "length ds \<le> 12 \<Longrightarrow> dna_from_any (dna_to_hex ds) = ds" by (simp add: dna_from_any_def filter_hex NGFW_DEVICE_DNA_BYTES_def)
qed

text \<open>
  (C18) A licence laid out for this host works, for every feature but the base and the accelerator:
  the signed region that the layout helper of the self test assembles for the host's own
  identity, with a signature of it that the package accepts under the master key, stored as a
  licence file and read before its expiry, makes the store grant its feature until then. (The base
  alone is refused without a capacity tier, and the accelerator is never granted by the host.)
\<close>

theorem license_issue_grants:
  assumes "length (dna_bytes sha256 h) = 12" "f < 2 ^ 32" "f \<noteq> NGFW_LIC_FEAT_BASE" "f \<noteq> NGFW_LIC_FEAT_ACCEL" "expiry < 2 ^ 64" "issued < 2 ^ 64"
    and "pl = build_payload (dna_bytes sha256 h) f expiry MASTER_SIGNER_ZERO NGFW_SIG_ALG_ECDSA_P384 issued"
    and "load_master_pubkey cr pub = Some point" "verify_ecdsa_p384 cr point pl sg"
    and "d \<in> set ds" "is_file d" "is_lic (d_name d)" "d_content d = Some (pl @ sg)" "expiry = 0 \<or> t0 \<le> of_nat expiry \<and> now \<le> of_nat expiry"
  shows "query (reload cr pub (candidate_dnas sha256 h None) t0 ds) f now"
proof -
  let ?t = "\<lparr>payload = pl, sig = sg, magic = NGFW_LIC_MAGIC, version = 1, dna = dna_bytes sha256 h, feature_id = f, subfeature_id = 0,
      issued_unix_s = issued, expiry_unix_s = expiry, tflags = 0, signer_id = MASTER_SIGNER_ZERO, sig_alg = NGFW_SIG_ALG_ECDSA_P384, reserved = replicate 12 0\<rparr>"
  have "parse_token (pl @ sg) = Inr ?t"
    unfolding assms(7) using assms(1,2,5,6) by (intro payload_parses) (simp_all add: MASTER_SIGNER_ZERO_def NGFW_SIG_ALG_ECDSA_P384_def)
  then have h: "holds_token d ?t" using assms(11-13) by (auto simp: holds_token_def)
  have "dna_to_hex (dna_bytes sha256 h) \<noteq> []" using dna_from_hex [of "dna_bytes sha256 h"] assms(1) by (auto simp: dna_from_any_def NGFW_DEVICE_DNA_BYTES_def)
  then have c: "candidate_dnas sha256 h None = [dna_to_hex (dna_bytes sha256 h)]" using assms(1) by (auto simp: candidate_dnas_def dna_hex_def Let_def)
  have "genuine cr pub (candidate_dnas sha256 h None) t0 ?t"
    using assms(1,8,9,14) by (auto simp: genuine_def c dna_from_hex MASTER_SIGNER_ZERO_def NGFW_SIG_ALG_ECDSA_P384_def expired_def)
  then have "?t \<in> set (accepted (reload cr pub (candidate_dnas sha256 h None) t0 ds))" using h assms(10) by (auto simp: accepted_iff)
  moreover have "\<not> expired ?t now" using assms(14) by (auto simp: expired_def)
  moreover have "feature_id ?t = f" by simp
  ultimately have "licensed (reload cr pub (candidate_dnas sha256 h None) t0 ds) f now" unfolding licensed_iff by blast
  then show ?thesis using assms(3,4) by (simp add: query_def)
qed

section \<open>Concrete licences\<close>

definition sample_host :: host where
  "sample_host = \<lparr>etc_machine_id = ''m1'', dbus_machine_id = [], product_uuid = ''None'', board_serial = [], product_serial = ''S7'',
     nics = [\<lparr>ifname = ''lo'', perm_addr = [], sys_addr = ZERO_MAC\<rparr>, \<lparr>ifname = ''eth0'', perm_addr = ''02:00:00:00:00:01'', sys_addr = []\<rparr>]\<rparr>"

definition sample_hash :: "string \<Rightarrow> bytes" where
  "sample_hash _ = replicate 32 7"

text \<open>A package that takes a signature whose numbers are the lengths of the payload and of the point.\<close>

definition sample_crypto :: crypto where
  "sample_crypto = \<lparr>crypto_ok = True, loads_point = (\<lambda>_. True), ecdsa_p384 = (\<lambda>point r s pl. r = length pl \<and> s = length point)\<rparr>"

definition sample_pub :: bytes where
  "sample_pub = [4, 4] @ replicate 142 0"

definition sample_sig :: bytes where
  "sample_sig = to_be 48 84 @ to_be 48 97"

definition sample_lic :: "nat \<Rightarrow> dirent" where
  "sample_lic f = \<lparr>d_name = ''a.lic'', is_file = True,
     d_content = Some (build_payload (dna_bytes sample_hash sample_host) f 100 MASTER_SIGNER_ZERO NGFW_SIG_ALG_ECDSA_P384 50 @ sample_sig)\<rparr>"

lemma sample_stream: "stream sample_host = ''h1|machine_id=m1|product_serial=S7|permmac=02:00:00:00:00:01''"
  by code_simp

lemma sample_dna: "length (dna_bytes sample_hash sample_host) = 12"
  by (simp add: dna_bytes_def sample_stream sample_hash_def NGFW_DEVICE_DNA_BYTES_def)

lemma sample_key: "load_master_pubkey sample_crypto (Some sample_pub) = Some (seg 1 98 sample_pub)"
  by (simp add: load_master_pubkey_def sample_pub_def sample_crypto_def NGFW_PUBKEY_BYTES_ECDSA_P384_def NGFW_MASTER_PUBKEY_BLOB_BYTES_def NGFW_SIG_ALG_ECDSA_P384_def seg_def)

lemma sample_signed: "length pl = 84 \<Longrightarrow> verify_ecdsa_p384 sample_crypto (seg 1 98 sample_pub) pl sample_sig"
  by (simp add: verify_ecdsa_p384_def sample_crypto_def sample_sig_def sample_pub_def NGFW_SIG_BYTES_ECDSA_P384_def P384_SCALAR_BYTES_def seg_def from_be_to_be)

lemma sample_length: "length (build_payload (dna_bytes sample_hash sample_host) f 100 MASTER_SIGNER_ZERO NGFW_SIG_ALG_ECDSA_P384 50) = 84"
  using sample_dna by (simp add: build_payload_def NGFW_LIC_MAGIC_def NGFW_LIC_PAYLOAD_BYTES_def MASTER_SIGNER_ZERO_def)

theorem license_issue_grants_witness:
  "query (reload sample_crypto (Some sample_pub) (candidate_dnas sample_hash sample_host None) 60 [sample_lic 0x120]) 0x120 99"
proof -
  have l: "is_file (sample_lic 0x120)" "is_lic (d_name (sample_lic 0x120))"
    "d_content (sample_lic 0x120) = Some (build_payload (dna_bytes sample_hash sample_host) 0x120 100 MASTER_SIGNER_ZERO NGFW_SIG_ALG_ECDSA_P384 50 @ sample_sig)"
    by (simp_all add: sample_lic_def is_lic_def)
  show ?thesis
    by (rule license_issue_grants [OF sample_dna _ _ _ _ _ refl sample_key sample_signed [OF sample_length] _ l])
      (simp_all add: NGFW_LIC_FEAT_BASE_def NGFW_LIC_FEAT_ACCEL_def)
qed

theorem license_query_exact_witness:
  "query (reload sample_crypto (Some sample_pub) [] 60 [sample_lic 0x120]) 0x120 99 = False"
proof -
  have f: "(0x120 :: nat) \<noteq> NGFW_LIC_FEAT_BASE" "(0x120 :: nat) \<noteq> NGFW_LIC_FEAT_ACCEL" by (simp_all add: NGFW_LIC_FEAT_BASE_def NGFW_LIC_FEAT_ACCEL_def)
  show ?thesis using license_query_exact [OF f, of sample_crypto "Some sample_pub" "[]" 60 "[sample_lic 0x120]" 99] by (simp add: licence_bytes_def)
qed

end
