(* ===== verification/Patch_Install.thy ===== *)
theory Patch_Install
  imports Json "HOL-Library.List_Lexorder" "HOL-Library.Char_ord"
begin

unbundle bit_operations_syntax

text \<open>
  The patch installer, \<^verbatim>\<open>src/opt/ffn_patch.py\<close>: the paths a patch may touch, the checks on an unpacked
  package and on the installed files, the journalled installation, the rollback and the
  recovery. The disk is a flat map of files (directories and links are outside the model), the
  backups, the journal and the installed release. Each change of the disk is atomic and durable,
  as \<^verbatim>\<open>atomic\<close> and \<^verbatim>\<open>remove\<close> make it, and an installation is a sequence of such changes that can stop
  after any of them. The hash is a parameter; the answers of the service manager are arguments.
\<close>

section \<open>Paths and packages\<close>

definition path_char :: "char \<Rightarrow> bool" where
  "path_char c = (c \<in> set ''ABCDEFGHIJKLMNOPQRSTUVWXYZabcdefghijklmnopqrstuvwxyz0123456789_./-'')"

definition ends_with :: "string \<Rightarrow> string \<Rightarrow> bool" where
  "ends_with s suf = (length suf \<le> length s \<and> drop (length s - length suf) s = suf)"

text \<open>\<^verbatim>\<open>Path(name).suffix\<close>: the last dot of the last part and what follows, unless the dot is first or last.\<close>

definition path_suffix :: "string \<Rightarrow> string" where
  "path_suffix name =
     (let l = last (split_on CHR ''/'' name); parts = split_on CHR ''.'' l; e = last parts
      in if length parts < 2 \<or> e = [] \<or> length l \<le> length e + 1 then [] else CHR ''.'' # e)"

definition ASSETS :: "string list" where
  "ASSETS = [''.html'', ''.css'', ''.js'', ''.json'', ''.svg'', ''.png'', ''.ico'', ''.woff'', ''.woff2'']"

definition code_path :: "string \<Rightarrow> string res" where
  "code_path name =
     ok (length name \<le> 200 \<and> name \<noteq> [] \<and> list_all path_char name \<and> hd name \<notin> {CHR ''.'', CHR ''/''}) (ValueError ''Invalid code path'')
     (let parts = split_on CHR ''/'' name in
      ok (list_all (\<lambda>p. p \<notin> {'''', ''.'', ''..''}) parts) (ValueError ''Invalid code path'')
      (ok ((length parts = 1 \<and> ends_with name ''.py'') \<or> (hd parts = ''static'' \<and> py_lower (path_suffix name) \<in> set ASSETS))
        (ValueError ''Patches may contain only Python code and WebUI assets'') (Inr name)))"

text \<open>An entry of the manifest, with the content of the archive member for a file that stays.\<close>

record pentry =
  e_path :: string
  e_before :: "string option"
  e_after :: "string option"
  e_mode :: nat
  e_content :: bytes

definition hash_text :: "string option \<Rightarrow> bool" where
  "hash_text h = (case h of None \<Rightarrow> True | Some s \<Rightarrow> length s = 64 \<and> list_all (\<lambda>c. c \<in> set ''0123456789abcdef'') s)"

definition check_entry :: "(bytes \<Rightarrow> string) \<Rightarrow> pentry \<Rightarrow> string list \<Rightarrow> string list res" where
  "check_entry dg e seen =
     rbind (code_path (e_path e)) (\<lambda>name.
     ok (name \<notin> set seen) (ValueError ''Duplicate patch target'')
     (ok (hash_text (e_before e) \<and> hash_text (e_after e)) (ValueError ''Invalid file hash'')
     (ok (e_before e \<noteq> e_after e) (ValueError ''Patch entry does not change a file'')
     (ok (e_after e \<noteq> None \<longrightarrow> e_after e = Some (dg (e_content e))) (ValueError ''Patch file hash mismatch'')
     (ok (e_mode e \<in> {0x1A4, 0x1ED}) (ValueError ''Unsafe file mode'') (Inr (seen @ [name])))))))"

fun overlaps :: "string list \<Rightarrow> bool" where
  "overlaps (l # r # ps) = (take (length l + 1) r = l @ ''/'' \<or> overlaps (r # ps))"
| "overlaps ps = False"

definition check_package :: "(bytes \<Rightarrow> string) \<Rightarrow> pentry list \<Rightarrow> pentry list res" where
  "check_package dg es =
     ok (es \<noteq> [] \<and> length es < 4096) (ValueError ''Unsupported or empty patch manifest'')
     (rbind (fold_res (check_entry dg) es []) (\<lambda>seen.
      ok (\<not> overlaps (sort seen)) (ValueError ''Patch paths overlap'') (Inr es)))"

section \<open>The disk\<close>

record release =
  r_sha256 :: string
  r_version :: string
  r_published :: int

datatype phase = Prepared | Committed | Restoring

record jentry =
  j_path :: string
  j_before :: "string option"
  j_after :: "string option"
  j_old_mode :: "nat option"

record journal =
  j_phase :: phase
  j_backup :: string
  j_files :: "jentry list"
  j_previous :: "release option"
  j_release :: release

record disk =
  tree :: "string \<Rightarrow> (bytes \<times> nat) option"
  backups :: "string \<times> string \<Rightarrow> bytes option"
  jrnl :: "journal option"
  installed :: "release option"

datatype act =
    Put_backup string string bytes
  | Put_journal journal
  | Put_file string bytes nat
  | Del_file string
  | Put_installed "release option"
  | Del_journal

fun do_act :: "act \<Rightarrow> disk \<Rightarrow> disk" where
  "do_act (Put_backup b p c) d = d\<lparr>backups := (backups d)((b, p) := Some c)\<rparr>"
| "do_act (Put_journal j) d = d\<lparr>jrnl := Some j\<rparr>"
| "do_act (Put_file p c m) d = d\<lparr>tree := (tree d)(p := Some (c, m))\<rparr>"
| "do_act (Del_file p) d = d\<lparr>tree := (tree d)(p := None)\<rparr>"
| "do_act (Put_installed r) d = d\<lparr>installed := r\<rparr>"
| "do_act Del_journal d = d\<lparr>jrnl := None\<rparr>"

definition do_acts :: "act list \<Rightarrow> disk \<Rightarrow> disk" where
  "do_acts as d = fold do_act as d"

section \<open>Restoring\<close>

definition old_content :: "(bytes \<Rightarrow> string) \<Rightarrow> journal \<Rightarrow> disk \<Rightarrow> jentry \<Rightarrow> bytes option res" where
  "old_content dg j d e =
     (case j_before e of
        None \<Rightarrow> Inr None
      | Some h \<Rightarrow>
          need (backups d (j_backup j, j_path e)) (RuntimeError ''FileNotFoundError'') (\<lambda>c.
          ok (dg c = h) (ValueError ''Rollback backup is damaged'') (Inr (Some c))))"

definition restore_entry :: "jentry \<times> bytes option \<Rightarrow> act" where
  "restore_entry ec =
     (case ec of (e, c) \<Rightarrow>
        case c of Some b \<Rightarrow> Put_file (j_path e) b (case j_old_mode e of Some m \<Rightarrow> m | None \<Rightarrow> 0x1A4) | None \<Rightarrow> Del_file (j_path e))"

definition restore_acts :: "(bytes \<Rightarrow> string) \<Rightarrow> journal \<Rightarrow> disk \<Rightarrow> act list res" where
  "restore_acts dg j d =
     rbind (map_res (old_content dg j d) (j_files j)) (\<lambda>cs.
     Inr ([Put_journal (j\<lparr>j_phase := Restoring\<rparr>)] @ map restore_entry (zip (j_files j) cs) @ [Put_installed (j_previous j), Del_journal]))"

definition unchanged :: "(bytes \<Rightarrow> string) \<Rightarrow> disk \<Rightarrow> jentry \<Rightarrow> bool" where
  "unchanged dg d e = (map_option (\<lambda>(c, _). dg c) (tree d (j_path e)) = j_after e)"

text \<open>
  \<open>steps\<close> is how many of the changes are made: all of them, or fewer when the services do not stop
  (one), do not start (all but the last two), or the power fails.
\<close>

definition restore :: "(bytes \<Rightarrow> string) \<Rightarrow> bool \<Rightarrow> nat \<Rightarrow> disk \<Rightarrow> disk res" where
  "restore dg check_current steps d =
     need (jrnl d) (ValueError ''No rollback journal exists'') (\<lambda>j.
     ok (\<not> (check_current \<and> j_phase j \<noteq> Committed)) (ValueError ''Use recovery for an interrupted operation'')
     (ok (check_current \<longrightarrow> list_all (unchanged dg d) (j_files j)) (ValueError ''Local changes prevent rollback'')
     (rbind (restore_acts dg j d) (\<lambda>as. Inr (do_acts (take steps as) d)))))"

text \<open>The worker's \<^verbatim>\<open>recover\<close>, which does nothing when no operation was interrupted.\<close>

definition recover :: "(bytes \<Rightarrow> string) \<Rightarrow> nat \<Rightarrow> disk \<Rightarrow> disk res" where
  "recover dg steps d =
     (case jrnl d of None \<Rightarrow> Inr d | Some j \<Rightarrow> if j_phase j = Committed then Inr d else restore dg False steps d)"

section \<open>Installing\<close>

definition baseline :: "(bytes \<Rightarrow> string) \<Rightarrow> disk \<Rightarrow> pentry \<Rightarrow> bool" where
  "baseline dg d e = (map_option (\<lambda>(c, _). dg c) (tree d (e_path e)) = e_before e)"

definition preflight :: "(bytes \<Rightarrow> string) \<Rightarrow> release \<Rightarrow> pentry list \<Rightarrow> disk \<Rightarrow> unit res" where
  "preflight dg r es d =
     rbind (check_package dg es) (\<lambda>_.
     ok (case installed d of Some i \<Rightarrow> r_sha256 i \<noteq> r_sha256 r | None \<Rightarrow> True) (ValueError ''This patch is already installed'')
     (ok ((case installed d of Some i \<Rightarrow> r_published i | None \<Rightarrow> 0) < r_published r) (ValueError ''Release is not newer; use rollback to restore previous code'')
     (ok (list_all (baseline dg d) es) (ValueError ''Installed file differs from patch baseline'') (Inr ()))))"

definition backup_acts :: "string \<Rightarrow> disk \<Rightarrow> pentry list \<Rightarrow> act list" where
  "backup_acts b d es = concat (map (\<lambda>e. case tree d (e_path e) of Some (c, _) \<Rightarrow> [Put_backup b (e_path e) c] | None \<Rightarrow> []) es)"

definition journal_entry :: "disk \<Rightarrow> pentry \<Rightarrow> jentry" where
  "journal_entry d e = \<lparr>j_path = e_path e, j_before = e_before e, j_after = e_after e, j_old_mode = map_option (\<lambda>(_, m). m AND 0x1FF) (tree d (e_path e))\<rparr>"

definition file_act :: "pentry \<Rightarrow> act" where
  "file_act e = (if e_after e \<noteq> None then Put_file (e_path e) (e_content e) (e_mode e) else Del_file (e_path e))"

definition prepared_journal :: "release \<Rightarrow> string \<Rightarrow> pentry list \<Rightarrow> disk \<Rightarrow> journal" where
  "prepared_journal r b es d = \<lparr>j_phase = Prepared, j_backup = b, j_files = map (journal_entry d) es, j_previous = installed d, j_release = r\<rparr>"

definition install_acts :: "release \<Rightarrow> string \<Rightarrow> pentry list \<Rightarrow> disk \<Rightarrow> act list" where
  "install_acts r b es d =
     backup_acts b d es @ [Put_journal (prepared_journal r b es d)] @ map file_act es
     @ [Put_installed (Some r), Put_journal ((prepared_journal r b es d)\<lparr>j_phase := Committed\<rparr>)]"

text \<open>The changes an installation makes; \<open>b\<close> is the fresh name of its backup, \<open>manager\<close> whether the management service runs.\<close>

definition install :: "(bytes \<Rightarrow> string) \<Rightarrow> release \<Rightarrow> string \<Rightarrow> pentry list \<Rightarrow> bool \<Rightarrow> disk \<Rightarrow> act list res" where
  "install dg r b es manager d =
     rbind (preflight dg r es d) (\<lambda>_.
     ok (case jrnl d of None \<Rightarrow> True | Some j \<Rightarrow> j_phase j = Committed) (ValueError ''Recover the interrupted operation first'')
     (ok manager (ValueError ''The management service must be active before installation'') (Inr (install_acts r b es d))))"

section \<open>Sequences of changes\<close>

lemma do_acts_simps [simp]: "do_acts [] d = d" "do_acts (a # as) d = do_acts as (do_act a d)" "do_acts (as @ bs) d = do_acts bs (do_acts as d)"
  by (simp_all add: do_acts_def)

text \<open>Changes of files that give each path its value in \<open>f\<close>, and backups that hold the files of a tree.\<close>

definition sets :: "(string \<Rightarrow> (bytes \<times> nat) option) \<Rightarrow> act \<Rightarrow> bool" where
  "sets f a = (case a of Put_file p c m \<Rightarrow> f p = Some (c, m) | Del_file p \<Rightarrow> f p = None | _ \<Rightarrow> False)"

fun act_path :: "act \<Rightarrow> string" where
  "act_path (Put_file p c m) = p"
| "act_path (Del_file p) = p"
| "act_path (Put_backup b p c) = p"
| "act_path _ = []"

lemma sets_step: "sets f a \<Longrightarrow> do_act a d = d\<lparr>tree := (tree d)(act_path a := f (act_path a))\<rparr>"
  by (cases a) (simp_all add: sets_def)

lemma sets_acts:
  assumes "\<forall>a \<in> set as. sets f a"
  shows "do_acts as d = d\<lparr>tree := (\<lambda>p. if p \<in> act_path ` set as then f p else tree d p)\<rparr>"
  using assms
proof (induction as arbitrary: d)
  case (Cons a as)
  then show ?case by (auto simp: sets_step fun_eq_iff)
qed simp

definition saves :: "string \<Rightarrow> (string \<Rightarrow> (bytes \<times> nat) option) \<Rightarrow> act \<Rightarrow> bool" where
  "saves b f a = (case a of Put_backup b' p c \<Rightarrow> b' = b \<and> map_option fst (f p) = Some c | _ \<Rightarrow> False)"

lemma saves_step: "saves b f a \<Longrightarrow> do_act a d = d\<lparr>backups := (backups d)((b, act_path a) := map_option fst (f (act_path a)))\<rparr>"
  by (cases a) (auto simp: saves_def)

lemma saves_acts:
  assumes "\<forall>a \<in> set as. saves b f a"
  shows "do_acts as d = d\<lparr>backups := (\<lambda>(b', p). if b' = b \<and> p \<in> act_path ` set as then map_option fst (f p) else backups d (b', p))\<rparr>"
  using assms
proof (induction as arbitrary: d)
  case (Cons a as)
  then show ?case by (auto simp: saves_step fun_eq_iff)
qed simp

lemma backup_saves: "\<forall>a \<in> set (backup_acts b d es). saves b (tree d) a"
  by (auto simp: backup_acts_def saves_def split: option.splits) metis

lemma backup_paths: "e \<in> set es \<Longrightarrow> tree d (e_path e) = Some cm \<Longrightarrow> e_path e \<in> act_path ` set (backup_acts b d es)"
  by (cases cm) (force simp: backup_acts_def image_iff split: option.splits)

section \<open>Interrupted installations\<close>

definition target :: "pentry \<Rightarrow> (bytes \<times> nat) option" where
  "target e = (if e_after e \<noteq> None then Some (e_content e, e_mode e) else None)"

text \<open>
  The journal keeps the permission bits of a file, \<^verbatim>\<open>st_mode & 0o777\<close>, so a file that is put back has
  its content and these bits. A disk from which the files of \<open>d0\<close> can be restored, and one where they
  are as before: outside the package unchanged, inside unchanged or put back.
\<close>

definition perm_view :: "(bytes \<times> nat) option \<Rightarrow> (bytes \<times> nat) option" where
  "perm_view f = map_option (\<lambda>(c, m). (c, m AND 0x1FF)) f"

definition recoverable :: "release \<Rightarrow> string \<Rightarrow> pentry list \<Rightarrow> disk \<Rightarrow> disk \<Rightarrow> bool" where
  "recoverable r b es d0 d =
     ((\<exists>ph \<in> {Prepared, Restoring}. jrnl d = Some ((prepared_journal r b es d0)\<lparr>j_phase := ph\<rparr>))
      \<and> (\<forall>e \<in> set es. \<forall>cm. tree d0 (e_path e) = Some cm \<longrightarrow> backups d (b, e_path e) = Some (fst cm))
      \<and> (\<forall>p. p \<notin> e_path ` set es \<longrightarrow> tree d p = tree d0 p))"

definition as_before :: "pentry list \<Rightarrow> disk \<Rightarrow> disk \<Rightarrow> bool" where
  "as_before es d0 d =
     (\<forall>p. tree d p = tree d0 p \<or> p \<in> e_path ` set es \<and> tree d p = perm_view (tree d0 p))"

definition settled :: "pentry list \<Rightarrow> disk \<Rightarrow> disk \<Rightarrow> bool" where
  "settled es d0 d = (as_before es d0 d \<and> installed d = installed d0 \<and> (jrnl d = None \<or> jrnl d = jrnl d0))"

lemma map_res_map: "\<forall>x \<in> set xs. f x = Inr (g x) \<Longrightarrow> map_res f xs = Inr (map g xs)"
  by (induction xs) simp_all

definition undo :: "disk \<Rightarrow> pentry \<Rightarrow> act" where
  "undo d0 e = (case tree d0 (e_path e) of Some (c, m) \<Rightarrow> Put_file (e_path e) c (m AND 0x1FF) | None \<Rightarrow> Del_file (e_path e))"

lemma undo_sets: "sets (\<lambda>p. perm_view (tree d0 p)) (undo d0 e)" "act_path (undo d0 e) = e_path e"
  by (auto simp: undo_def sets_def perm_view_def split: option.split)

lemma restore_acts_eq:
  assumes "\<forall>e \<in> set es. baseline dg d0 e" "\<forall>e \<in> set es. \<forall>cm. tree d0 (e_path e) = Some cm \<longrightarrow> backups d (b, e_path e) = Some (fst cm)"
    and "j = (prepared_journal r b es d0)\<lparr>j_phase := ph\<rparr>"
  shows "restore_acts dg j d = Inr ([Put_journal (j\<lparr>j_phase := Restoring\<rparr>)] @ map (undo d0) es @ [Put_installed (installed d0), Del_journal])"
proof -
  have j: "j_files j = map (journal_entry d0) es" "j_backup j = b" "j_previous j = installed d0" by (simp_all add: assms(3) prepared_journal_def)
  have c: "old_content dg j d (journal_entry d0 e) = Inr (map_option fst (tree d0 (e_path e)))" if "e \<in> set es" for e
  proof -
    have "e_before e = map_option (\<lambda>(c, _). dg c) (tree d0 (e_path e))" using assms(1) that by (simp add: baseline_def)
    moreover have "tree d0 (e_path e) = Some cm \<Longrightarrow> backups d (b, e_path e) = Some (fst cm)" for cm using assms(2) that by blast
    ultimately show ?thesis by (cases "tree d0 (e_path e)") (auto simp: old_content_def journal_entry_def j(2))
  qed
  have "map_res (old_content dg j d) (map (journal_entry d0) es) = Inr (map (\<lambda>e. map_option fst (tree d0 (e_path e))) es)"
    using c by (induction es) simp_all
  moreover have "map restore_entry (zip (map (journal_entry d0) es) (map (\<lambda>e. map_option fst (tree d0 (e_path e))) es)) = map (undo d0) es"
    by (induction es) (auto simp: restore_entry_def journal_entry_def undo_def split: option.split)
  ultimately show ?thesis by (simp add: restore_acts_def j)
qed

lemma undo_acts:
  "do_acts (map (undo d0) es) d = d\<lparr>tree := (\<lambda>p. if p \<in> e_path ` set es then perm_view (tree d0 p) else tree d p)\<rparr>"
proof -
  have "act_path ` set (map (undo d0) es) = e_path ` set es" by (simp add: image_image undo_sets(2))
  then show ?thesis using sets_acts [of "map (undo d0) es" "\<lambda>p. perm_view (tree d0 p)" d] by (simp add: undo_sets(1))
qed

lemma take_map_undo: "take n (map (undo d0) es) = map (undo d0) (take n es)"
  by (simp add: take_map)

lemma recover_recoverable:
  assumes "\<forall>e \<in> set es. baseline dg d0 e" "recoverable r b es d0 d"
  shows "\<exists>d'. recover dg k d = Inr d' \<and> (recoverable r b es d0 d' \<or> settled es d0 d') \<and> (3 + length es \<le> k \<longrightarrow> settled es d0 d')"
proof -
  obtain ph where ph: "ph \<in> {Prepared, Restoring}" "jrnl d = Some ((prepared_journal r b es d0)\<lparr>j_phase := ph\<rparr>)" using assms(2) by (auto simp: recoverable_def)
  define j where "j = (prepared_journal r b es d0)\<lparr>j_phase := ph\<rparr>"
  have u: "p \<notin> e_path ` set es \<Longrightarrow> tree d p = tree d0 p" for p using assms(2) by (simp add: recoverable_def)
  have s: "\<forall>e \<in> set es. \<forall>cm. tree d0 (e_path e) = Some cm \<longrightarrow> backups d (b, e_path e) = Some (fst cm)" using assms(2) by (simp add: recoverable_def)
  define rs where "rs = map (undo d0) es"
  define as where "as = [Put_journal (j\<lparr>j_phase := Restoring\<rparr>)] @ rs @ [Put_installed (installed d0), Del_journal]"
  have r: "recover dg k d = Inr (do_acts (take k as) d)"
    using restore_acts_eq [OF assms(1) s j_def] ph(1) by (auto simp: recover_def restore_def ph(2) j_def [symmetric] as_def rs_def) (auto simp: j_def)
  consider "k = 0" | n where "k = Suc n" "n \<le> length es" | "k = Suc (Suc (length es))" | "3 + length es \<le> k" by (cases k) (auto, linarith)
  then show ?thesis
  proof cases
    case 1
    then show ?thesis using r assms(2) by simp
  next
    case (2 n)
    have "do_acts (take k as) d = do_acts (map (undo d0) (take n es)) (d\<lparr>jrnl := Some (j\<lparr>j_phase := Restoring\<rparr>)\<rparr>)"
      using 2 by (simp add: as_def rs_def take_map)
    moreover have "e_path ` set (take n es) \<subseteq> e_path ` set es" using set_take_subset by fast
    ultimately have "recoverable r b es d0 (do_acts (take k as) d)" using s u by (auto simp: recoverable_def undo_acts j_def)
    then show ?thesis using r 2 by simp
  next
    case 3
    have "do_acts (take k as) d = (do_acts rs (d\<lparr>jrnl := Some (j\<lparr>j_phase := Restoring\<rparr>)\<rparr>))\<lparr>installed := installed d0\<rparr>"
      using 3 by (simp add: as_def rs_def)
    then have "recoverable r b es d0 (do_acts (take k as) d)" using s u by (auto simp: recoverable_def rs_def undo_acts j_def)
    then show ?thesis using r 3 by simp
  next
    case 4
    then have "take k as = as" by (simp add: as_def rs_def)
    then have "settled es d0 (do_acts (take k as) d)" using u by (auto simp: as_def rs_def undo_acts settled_def as_before_def)
    then show ?thesis using r by blast
  qed
qed

lemma install_Inr:
  assumes "install dg r b es manager d0 = Inr acts"
  shows "acts = install_acts r b es d0" "\<forall>e \<in> set es. baseline dg d0 e" "case jrnl d0 of None \<Rightarrow> True | Some j \<Rightarrow> j_phase j = Committed"
    "\<exists>seen. fold_res (check_entry dg) es [] = Inr seen"
  using assms by (auto simp: install_def preflight_def check_package_def result_simps list_all_iff)

lemma file_acts:
  "jrnl (do_acts (map file_act xs) d) = jrnl d \<and> backups (do_acts (map file_act xs) d) = backups d
   \<and> (\<forall>p. p \<notin> e_path ` set xs \<longrightarrow> tree (do_acts (map file_act xs) d) p = tree d p)"
  by (induction xs arbitrary: d) (auto simp: file_act_def)

lemma install_prefix:
  assumes "n < length (install_acts r b es d0)"
  shows "recoverable r b es d0 (do_acts (take n (install_acts r b es d0)) d0) \<or> settled es d0 (do_acts (take n (install_acts r b es d0)) d0)"
proof -
  define bs where "bs = backup_acts b d0 es"
  define fs where "fs = map file_act es"
  define j where "j = prepared_journal r b es d0"
  have i: "install_acts r b es d0 = bs @ [Put_journal j] @ fs @ [Put_installed (Some r), Put_journal (j\<lparr>j_phase := Committed\<rparr>)]"
    by (simp add: install_acts_def bs_def fs_def j_def)
  have bk: "\<forall>a \<in> set bs. saves b (tree d0) a" by (simp add: bs_def backup_saves)
  show ?thesis
  proof (cases "n \<le> length bs")
    case True
    have "\<forall>a \<in> set (take n bs). saves b (tree d0) a" using bk set_take_subset by fast
    then have "settled es d0 (do_acts (take n bs) d0)" by (simp add: saves_acts settled_def as_before_def)
    then show ?thesis using True by (simp add: i)
  next
    case False
    have bp: "e_path e \<in> act_path ` set bs" if "e \<in> set es" "tree d0 (e_path e) = Some cm" for e cm using backup_paths [OF that] by (simp add: bs_def)
    define d1 where "d1 = do_act (Put_journal j) (do_acts bs d0)"
    have d1: "recoverable r b es d0 x" if "jrnl x = jrnl d1" "backups x = backups d1" "\<forall>p. p \<notin> e_path ` set es \<longrightarrow> tree x p = tree d0 p" for x
      using that bp by (auto simp: recoverable_def d1_def saves_acts [OF bk] j_def prepared_journal_def)
    obtain m where m: "n = length bs + Suc m" using False by (metis add_Suc_right less_imp_Suc_add not_le)
    have "m \<le> Suc (length fs)" using assms m by (simp add: i)
    define f where "f = take m fs"
    have td: "tree d1 = tree d0" by (simp add: d1_def saves_acts [OF bk])
    have sub: "e_path ` set (take m es) \<subseteq> e_path ` set es" using set_take_subset by fast
    have fa: "jrnl (do_acts f d1) = jrnl d1 \<and> backups (do_acts f d1) = backups d1 \<and> (\<forall>p. p \<notin> e_path ` set (take m es) \<longrightarrow> tree (do_acts f d1) p = tree d1 p)"
      unfolding f_def fs_def take_map by (rule file_acts)
    have t: "tree (do_acts f d1) p = tree d0 p" if "p \<notin> e_path ` set es" for p
    proof -
      have "p \<notin> e_path ` set (take m es)" using that sub by (rule contra_subsetD [rotated])
      then show ?thesis using fa td by simp
    qed
    have "do_acts (take n (install_acts r b es d0)) d0 = (if m \<le> length fs then do_acts f d1 else (do_acts f d1)\<lparr>installed := Some r\<rparr>)"
      using m \<open>m \<le> Suc (length fs)\<close> by (auto simp: i f_def d1_def le_Suc_eq)
    moreover have "recoverable r b es d0 (do_acts f d1)" "recoverable r b es d0 ((do_acts f d1)\<lparr>installed := Some r\<rparr>)" using d1 t fa by simp_all
    ultimately show ?thesis by simp
  qed
qed

fun recoveries :: "(bytes \<Rightarrow> string) \<Rightarrow> nat list \<Rightarrow> disk \<Rightarrow> disk res" where
  "recoveries dg [] d = Inr d"
| "recoveries dg (k # ks) d = rbind (recover dg k d) (recoveries dg ks)"

text \<open>
  (C8) An interrupted installation is undone: stopped after any of its changes but the last, by a
  service that fails or by a loss of power, and followed by any number of recoveries that are
  themselves interrupted anywhere, an installation is taken back by one recovery that completes:
  every file outside the package is as it was, every file of the package is as it was or has the
  content it had with the permission bits it had (the journal keeps \<^verbatim>\<open>st_mode & 0o777\<close>, so set-user-id,
  set-group-id and sticky bits are lost), a file that did not exist is gone, the release on record is
  the old one, and no interrupted operation is left.
\<close>

theorem patch_crash_safe:
  assumes "install dg r b es manager d0 = Inr acts" "n < length acts"
  shows "\<exists>d. recoveries dg (ks @ [3 + length es]) (do_acts (take n acts) d0) = Inr d
    \<and> (\<forall>p. tree d p = tree d0 p \<or> p \<in> e_path ` set es \<and> tree d p = map_option (\<lambda>(c, m). (c, m AND 0x1FF)) (tree d0 p))
    \<and> installed d = installed d0 \<and> (jrnl d = None \<or> jrnl d = jrnl d0)"
proof -
  note i = install_Inr [OF assms(1)]
  have st: "recover dg k d = Inr d" if "settled es d0 d" for k d using that i(3) by (auto simp: recover_def settled_def split: option.splits)
  have "\<exists>d'. recoveries dg (ks @ [3 + length es]) d = Inr d' \<and> settled es d0 d'" if "recoverable r b es d0 d \<or> settled es d0 d" for d
    using that
  proof (induction ks arbitrary: d)
    case Nil
    then show ?case using recover_recoverable [OF i(2), of r b d "3 + length es"] st by auto
  next
    case (Cons k ks)
    then obtain d' where "recover dg k d = Inr d'" "recoverable r b es d0 d' \<or> settled es d0 d'" using recover_recoverable [OF i(2), of r b d k] st by blast
    then show ?case using Cons.IH by simp
  qed
  then show ?thesis using install_prefix [of n r b es d0] assms(2) i(1) by (auto simp: settled_def as_before_def perm_view_def)
qed

section \<open>Completed installations\<close>

lemma check_entry_Inr: "check_entry dg e seen = Inr seen' \<Longrightarrow> seen' = seen @ [e_path e] \<and> e_path e \<notin> set seen \<and> (e_after e \<noteq> None \<longrightarrow> e_after e = Some (dg (e_content e)))"
  by (auto simp: check_entry_def code_path_def result_simps Let_def)

lemma checked_entries:
  "fold_res (check_entry dg) es seen = Inr seen' \<Longrightarrow> distinct seen \<Longrightarrow>
     seen' = seen @ map e_path es \<and> distinct seen' \<and> (\<forall>e \<in> set es. e_after e \<noteq> None \<longrightarrow> e_after e = Some (dg (e_content e)))"
proof (induction es arbitrary: seen)
  case (Cons e es)
  then obtain s1 where "check_entry dg e seen = Inr s1" "fold_res (check_entry dg) es s1 = Inr seen'" by (auto simp: result_simps)
  then have 1: "s1 = seen @ [e_path e]" "e_path e \<notin> set seen" "e_after e \<noteq> None \<longrightarrow> e_after e = Some (dg (e_content e))"
    and 2: "distinct s1 \<Longrightarrow> seen' = s1 @ map e_path es \<and> distinct seen' \<and> (\<forall>e \<in> set es. e_after e \<noteq> None \<longrightarrow> e_after e = Some (dg (e_content e)))"
    using check_entry_Inr [of dg e seen s1] Cons.IH [of s1] by blast+
  have "distinct s1" using 1 Cons.prems(2) by simp
  note 3 = 2 [OF this]
  have "seen' = seen @ map e_path (e # es)" using 3 1(1) by simp
  moreover have "\<forall>e \<in> set (e # es). e_after e \<noteq> None \<longrightarrow> e_after e = Some (dg (e_content e))" using 1(3) 3 by (metis set_ConsD)
  ultimately show ?case using 3 by blast
qed simp

lemma file_acts_target:
  "distinct (map e_path es) \<Longrightarrow> e \<in> set es \<Longrightarrow> tree (do_acts (map file_act es) d) (e_path e) = target e"
proof (induction es arbitrary: d)
  case (Cons a es)
  show ?case
  proof (cases "e = a")
    case True
    then have "e_path e \<notin> e_path ` set es" using Cons.prems(1) by auto
    then have "tree (do_acts (map file_act es) (do_act (file_act a) d)) (e_path e) = tree (do_act (file_act a) d) (e_path e)"
      using file_acts [of es "do_act (file_act a) d"] by blast
    moreover have "tree (do_act (file_act a) d) (e_path a) = target a" by (simp add: file_act_def target_def)
    ultimately show ?thesis using True by simp
  next
    case False
    then show ?thesis using Cons by simp
  qed
qed simp

lemma complete_install:
  assumes "install dg r b es manager d0 = Inr acts"
  shows "jrnl (do_acts acts d0) = Some ((prepared_journal r b es d0)\<lparr>j_phase := Committed\<rparr>) \<and> installed (do_acts acts d0) = Some r
    \<and> (\<forall>e \<in> set es. tree (do_acts acts d0) (e_path e) = target e) \<and> (\<forall>p. p \<notin> e_path ` set es \<longrightarrow> tree (do_acts acts d0) p = tree d0 p)
    \<and> (\<forall>e \<in> set es. \<forall>cm. tree d0 (e_path e) = Some cm \<longrightarrow> backups (do_acts acts d0) (b, e_path e) = Some (fst cm))"
proof -
  note i = install_Inr [OF assms]
  obtain seen where "fold_res (check_entry dg) es [] = Inr seen" using i(4) by blast
  from checked_entries [OF this] have ds: "distinct (map e_path es)" by auto
  define d1 where "d1 = do_act (Put_journal (prepared_journal r b es d0)) (do_acts (backup_acts b d0 es) d0)"
  have d1: "tree d1 = tree d0" "e \<in> set es \<Longrightarrow> tree d0 (e_path e) = Some cm \<Longrightarrow> backups d1 (b, e_path e) = Some (fst cm)" for e cm
    using backup_paths [of e es d0 cm b] by (simp_all add: d1_def saves_acts [OF backup_saves])
  have "do_acts acts d0 = (do_acts (map file_act es) d1)\<lparr>installed := Some r, jrnl := Some ((prepared_journal r b es d0)\<lparr>j_phase := Committed\<rparr>)\<rparr>"
    by (simp add: i(1) install_acts_def d1_def)
  then show ?thesis using file_acts [of es d1] file_acts_target [OF ds, of _ d1] d1 by auto
qed

text \<open>
  (C9) A completed installation leaves exactly the package: every file of the package has its new
  content and mode or is gone, no other file changed, the release is on record, and a rollback
  from there is accepted, brings back every file of the package with its old content and its old
  permission bits (\<^verbatim>\<open>st_mode & 0o777\<close>) or removes it when there was none, leaves every other file as it
  was, and restores the old release.
\<close>

theorem patch_install_rollback:
  assumes "install dg r b es manager d0 = Inr acts"
  shows "(\<forall>e \<in> set es. tree (do_acts acts d0) (e_path e) = target e) \<and> (\<forall>p. p \<notin> e_path ` set es \<longrightarrow> tree (do_acts acts d0) p = tree d0 p)
    \<and> installed (do_acts acts d0) = Some r
    \<and> (\<exists>d. restore dg True (3 + length es) (do_acts acts d0) = Inr d
      \<and> (\<forall>p. tree d p = (if p \<in> e_path ` set es then map_option (\<lambda>(c, m). (c, m AND 0x1FF)) (tree d0 p) else tree d0 p))
      \<and> installed d = installed d0 \<and> jrnl d = None)"
proof -
  note i = install_Inr [OF assms]
  define d where "d = do_acts acts d0"
  define j where "j = (prepared_journal r b es d0)\<lparr>j_phase := Committed\<rparr>"
  have c: "jrnl d = Some j" "installed d = Some r" "\<And>e. e \<in> set es \<Longrightarrow> tree d (e_path e) = target e" "\<And>p. p \<notin> e_path ` set es \<Longrightarrow> tree d p = tree d0 p"
    "\<forall>e \<in> set es. \<forall>cm. tree d0 (e_path e) = Some cm \<longrightarrow> backups d (b, e_path e) = Some (fst cm)"
    using complete_install [OF assms] unfolding d_def j_def by blast+
  obtain seen where "fold_res (check_entry dg) es [] = Inr seen" using i(4) by blast
  from checked_entries [OF this] have h: "\<forall>e \<in> set es. e_after e \<noteq> None \<longrightarrow> e_after e = Some (dg (e_content e))" by simp
  have "unchanged dg d (journal_entry d0 e)" if "e \<in> set es" for e
    using c(3) [OF that] h that by (cases "e_after e") (auto simp: unchanged_def journal_entry_def target_def)
  then have u: "list_all (unchanged dg d) (j_files j)" by (simp add: j_def prepared_journal_def list_all_iff)
  define as where "as = [Put_journal (j\<lparr>j_phase := Restoring\<rparr>)] @ map (undo d0) es @ [Put_installed (installed d0), Del_journal]"
  have "restore dg True (3 + length es) d = Inr (do_acts as d)"
    using restore_acts_eq [OF i(2) c(5) j_def] u by (simp add: restore_def c(1) as_def j_def)
  moreover have "\<forall>p. tree (do_acts as d) p = (if p \<in> e_path ` set es then map_option (\<lambda>(c, m). (c, m AND 0x1FF)) (tree d0 p) else tree d0 p)" "installed (do_acts as d) = installed d0" "jrnl (do_acts as d) = None"
    using c(4) by (auto simp: as_def undo_acts perm_view_def)
  ultimately show ?thesis using c(2-4) unfolding d_def by blast
qed

section \<open>A concrete patch\<close>

definition sample_digest :: "bytes \<Rightarrow> string" where
  "sample_digest c = replicate 63 CHR ''0'' @ (if c = [1] then ''1'' else ''2'')"

definition sample_disk :: disk where
  "sample_disk = \<lparr>tree = (\<lambda>p. if p = ''old.py'' then Some ([1], 0x9ED) else None), backups = (\<lambda>_. None), jrnl = None, installed = None\<rparr>"

definition sample_patch :: "pentry list" where
  "sample_patch = [\<lparr>e_path = ''old.py'', e_before = Some (sample_digest [1]), e_after = None, e_mode = 0x1A4, e_content = []\<rparr>,
     \<lparr>e_path = ''static/new.js'', e_before = None, e_after = Some (sample_digest [2]), e_mode = 0x1A4, e_content = [2]\<rparr>]"

definition sample_release :: release where
  "sample_release = \<lparr>r_sha256 = ''aa'', r_version = ''2'', r_published = 5\<rparr>"

lemma sample_package: "check_package sample_digest sample_patch = Inr sample_patch"
  by code_simp

lemma sample_install:
  "install sample_digest sample_release ''b'' sample_patch True sample_disk = Inr (install_acts sample_release ''b'' sample_patch sample_disk)"
proof -
  have "list_all (baseline sample_digest sample_disk) sample_patch" by (simp add: sample_patch_def baseline_def sample_disk_def)
  then show ?thesis by (simp add: install_def preflight_def sample_package) (simp add: sample_disk_def sample_release_def)
qed

lemma sample_acts: "length (install_acts sample_release ''b'' sample_patch sample_disk) = 6"
  by (simp add: install_acts_def backup_acts_def sample_patch_def sample_disk_def)

theorem patch_crash_safe_witness:
  "\<exists>d. recoveries sample_digest ([1, 2] @ [3 + length sample_patch]) (do_acts (take 4 (install_acts sample_release ''b'' sample_patch sample_disk)) sample_disk) = Inr d
     \<and> tree d ''old.py'' \<in> {Some ([1], 0x9ED), Some ([1], 0x1ED)} \<and> installed d = None"
proof -
  obtain d where d: "recoveries sample_digest ([1, 2] @ [3 + length sample_patch]) (do_acts (take 4 (install_acts sample_release ''b'' sample_patch sample_disk)) sample_disk) = Inr d"
    "\<forall>p. tree d p = tree sample_disk p \<or> p \<in> e_path ` set sample_patch \<and> tree d p = map_option (\<lambda>(c, m). (c, m AND 0x1FF)) (tree sample_disk p)" "installed d = installed sample_disk"
    using patch_crash_safe [OF sample_install, of 4 "[1, 2]"] by (auto simp: sample_acts)
  from d(2) [THEN spec, of "''old.py''"] have "tree d ''old.py'' \<in> {Some ([1], 0x9ED), Some ([1], 0x1ED)}" by (auto simp: sample_disk_def)
  then show ?thesis using d(1,3) by (auto simp: sample_disk_def)
qed

theorem patch_install_rollback_witness:
  "\<exists>d. restore sample_digest True (3 + length sample_patch) (do_acts (install_acts sample_release ''b'' sample_patch sample_disk) sample_disk) = Inr d
     \<and> tree d ''old.py'' = Some ([1], 0x1ED)"
proof -
  obtain d where d: "restore sample_digest True (3 + length sample_patch) (do_acts (install_acts sample_release ''b'' sample_patch sample_disk) sample_disk) = Inr d"
    "\<forall>p. tree d p = (if p \<in> e_path ` set sample_patch then map_option (\<lambda>(c, m). (c, m AND 0x1FF)) (tree sample_disk p) else tree sample_disk p)"
    using patch_install_rollback [OF sample_install] by blast
  have "''old.py'' \<in> e_path ` set sample_patch" by (simp add: sample_patch_def)
  then have "tree d ''old.py'' = Some ([1], 0x1ED)" using d(2) by (simp add: sample_disk_def)
  then show ?thesis using d(1) by blast
qed

text \<open>
  Only neighbours of the sorted list are compared: a file and a directory of the same name pass when
  a third path sorts between them.
\<close>

lemma patch_overlap_missed: "\<not> overlaps (sort [''static/a.js'', ''static/a.js.js'', ''static/a.js/b.js''])"
  by code_simp

end
