(* ===== verification/Spec2Isabelle.thy ===== *)
theory Spec2Isabelle
  imports Ipv6_Translation Dhcp_Server Dp_Ring Config_Lock Jwt_Keys Static_Routes Commit_Apply Sysd Inline_Detector Fpga_Emu Session_Journal Mpdp_Wire L3_Offload Policy_Match Cpu_Planes Alerts Update_Agent Ed25519 Plane_Worker Watchdog License Patch_Install
begin

text \<open>
  Verification library for the management, control and inspection code of FFN-NGFW.

  \<^bold>\<open>The program.\<close> FFN-NGFW is a firewall appliance whose Python programs live under
  \<^verbatim>\<open>src/opt/\<close>. A web manager edits a candidate configuration under a lock and commits it; the
  commit is applied to the runtime owners in dependency order; the runtime owners share their
  state over a bus, talk to the dataplane over shared-memory rings and byte frames, serve DHCP,
  translate IPv6, monitor static routes, offload flows, follow the kernel's connection events,
  inspect payloads, raise alerts and install signed updates; a worker applies changes on the
  planes, whose agents are observed over pipes, and a daemon feeds the hardware watchdog. Each
  part below is one theory or a small group of theories; the model follows the order of the code
  and keeps its names.

  \<^bold>\<open>Shared theories.\<close>
  \<^item> \<^verbatim>\<open>Prelude\<close>: results (\<^verbatim>\<open>error + 'a\<close>, with the guards \<^verbatim>\<open>ok\<close>, \<^verbatim>\<open>need\<close> and the bind \<^verbatim>\<open>rbind\<close>), bytes
    as 8-bit words, big- and little-endian fields, decimal text, splitting and joining, and
    the lemma collections used by the component proofs.
  \<^item> \<^verbatim>\<open>Transition\<close>: a locale of a state machine with an invariant, its reachable states and the
    induction over them; \<^verbatim>\<open>Json\<close>: Python's JSON values and their type tests; \<^verbatim>\<open>Ipaddr\<close>: the part
    of \<^verbatim>\<open>ipaddress\<close> the code uses, with parse/print laws.

  \<^bold>\<open>Components, their sources and what is proved.\<close>
  \<^item> DHCPv4 server (\<^verbatim>\<open>ffn_dhcp_server.py\<close>; \<^verbatim>\<open>Inet_Checksum\<close>, \<^verbatim>\<open>Dhcp_Codec\<close>, \<^verbatim>\<open>Dhcp_Server\<close>): the
    checksum, the frame parser and the reply builder; the lease table with its file, the
    allocation and one definition per message handler. Shown: a client frame is parsed back,
    every reply carries valid checksums; over every sequence of frames, restarts and clock
    readings no address is bound to two clients at once, offers and acknowledgements are sound,
    a discover on a pool with a free address is answered, a binding survives a restart.
  \<^item> IPv6 translation (\<^verbatim>\<open>ffn_ipv6_translation.py\<close>; \<^verbatim>\<open>Ipv6_Translation\<close>): NAT64 address synthesis
    for the RFC 6052 prefix lengths, NPTv6 and both packet oracles. Shown: round trips, checksum
    neutrality, validity of the emitted packets.
  \<^item> Dataplane ring (\<^verbatim>\<open>ffn_dpring.py\<close>; \<^verbatim>\<open>Dp_Ring\<close>): the region's layout, handshake, the rings with
    their 64-bit counters, the port table. Shown: over every sequence of pushes and pops a ring
    gives the results of a bounded FIFO queue, a full and an empty one included.
  \<^item> State bus (\<^verbatim>\<open>ffn_sysd.py\<close>; \<^verbatim>\<open>Sysd\<close>): store, name service, persistence, subscriptions,
    heartbeats, request handler and connections. Shown: last write wins, the configuration
    survives a restart, a closed client keeps no subscription, and one defect: while a subscription
    is held whose prefix is not a string, every changing set raises after storing its value, and
    the value reaches the file only with a later snapshot.
  \<^item> Commit application (\<^verbatim>\<open>ffn_commit_apply.py\<close>; \<^verbatim>\<open>Commit_Apply\<close>): paths are applied in dependency
    order (definitions, interfaces by layer, zones, virtual routers, rules), and the checkpoint records only what every owner acknowledged.
  \<^item> Configuration lock (\<^verbatim>\<open>ffn_config_lock.py\<close>; \<^verbatim>\<open>Config_Lock\<close>): the lock is exclusive until it
    expires, is released or is overridden.
  \<^item> Session signing keys (\<^verbatim>\<open>ffn_jwt_keys.py\<close>; \<^verbatim>\<open>Jwt_Keys\<close>): a token survives the rotations its
    lifetime covers; the cached reader returns what a fresh read returns.
  \<^item> Route monitor (\<^verbatim>\<open>ffn_route_monitor.py\<close>; \<^verbatim>\<open>Route_Monitor\<close>): validated settings are well typed,
    and a path is healthy exactly if the configured number of good rounds in a row was seen since
    the last run of bad rounds as long as the configured number of failures.
  \<^item> Static-route reconciler (\<^verbatim>\<open>ffn_static_routes.py\<close>, with what it calls of
    \<^verbatim>\<open>ffn_linux_network.py\<close>; \<^verbatim>\<open>Static_Routes\<close>, on the monitor): after a tick the kernel has exactly the
    tracked routes whose records say so, all of them eligible, and its other routes are untouched.
    The \<^verbatim>\<open>ip\<close> command is a parameter.
  \<^item> Payload inspection (\<^verbatim>\<open>inline_payload_det.py\<close>; \<^verbatim>\<open>Aho_Corasick\<close>, \<^verbatim>\<open>Inline_Detector\<close>): the
    automaton reports exactly the occurrences of its patterns; an inspection reports exactly the
    added signatures whose contents occur in their windows, and its action is the largest of
    theirs; the flow buffer is the tail of the stream;
    carved files are parts of the payload.
  \<^item> DPI emulator (\<^verbatim>\<open>ffn_fpga_emu.py\<close>; \<^verbatim>\<open>Regex_Nfa\<close>, \<^verbatim>\<open>Regex_Lang\<close>, \<^verbatim>\<open>Regex_Dfa\<close>, \<^verbatim>\<open>Fpga_Emu\<close>): pattern
    parser, Thompson construction, subset construction, table matcher, and both engines with
    their counters. The compiled table matches exactly the language of the pattern, for every
    pattern the compiler accepts; the language is given by a grammar of patterns that reads each
    pattern in one way only; the number of table rows keeps to the limit.
  \<^item> Session events (\<^verbatim>\<open>ffn_session_events.py\<close>; \<^verbatim>\<open>Session_Decode\<close>, \<^verbatim>\<open>Session_Journal\<close>): the netlink
    decoder accepts exactly the datagrams of a grammar of the format, with exactly their events,
    and reports loss; the journal keeps its invariant, a
    session is accounted once, and a reconciliation makes the live table that of the snapshot.
  \<^item> MP-DP wire (\<^verbatim>\<open>ffn_mpdp_wire.py\<close>; \<^verbatim>\<open>Mpdp_Wire\<close>): every message parses back; the file channel
    delivers what was sent, in order. Each table's codec is an interpretation of one locale.
  \<^item> L3 offload (\<^verbatim>\<open>ffn_l3_offload.py\<close>; \<^verbatim>\<open>L3_Offload\<close>): the chosen route is a longest prefix of least
    metric, and a plan names only authorised devices.
  \<^item> Policy simulation (\<^verbatim>\<open>ffn_policy_plan.py\<close>, \<^verbatim>\<open>ffn_nat_policy.py\<close>; \<^verbatim>\<open>Policy_Match\<close>): packet validation,
    three-valued matching, first-match selection. A decision does not change when the packet
    supplies more fields.
  \<^item> CPU planes (\<^verbatim>\<open>ffn_cpu_planes.py\<close>, \<^verbatim>\<open>ffn_cpuisol.py\<close>; \<^verbatim>\<open>Cpu_Lists\<close>, \<^verbatim>\<open>Cpu_Planes\<close>): CPU list text, the
    plane file, physical cores by union-find, plans and isolation. The plane file reads back; the
    union-find search ends and its groups are the chains of siblings; a balanced plan shares
    all CPUs below four physical cores and otherwise partitions them without splitting a core; isolation never takes the core of CPU 0.
  \<^item> Alerts (\<^verbatim>\<open>ffn_alerts.py\<close>; \<^verbatim>\<open>Alerts\<close>): conditions from the subsystem report and the unit states, their
    confirmation, the event log and the view. Over every sequence of evaluations a condition is
    raised only after two consecutive sightings, and its raised and cleared events alternate.
  \<^item> Update agent (\<^verbatim>\<open>ffn_updated.py\<close>; \<^verbatim>\<open>Update_Agent\<close>): policy, GRUB files, boot slots, and the arm,
    run, confirm and setup commands over a box with a saved default and a one-shot entry. Only
    a healthy confirmation or a setup on the running system moves the default, and an update is
    armed only where GRUB follows it, so an update that is not confirmed falls back at the next
    boot. Two defects: an update armed by an unattended run with no boot pending is not
    committed, and a confirmation from a third root commits a slot that was not booted.
  \<^item> Ed25519 (\<^verbatim>\<open>ffn_ed25519.py\<close>; \<^verbatim>\<open>Ed25519\<close>): field, extended coordinates, encodings, keys, signing and
    verification over a hash parameter. Decoded points, their multiples and sums satisfy the
    curve's equations; doubling and addition agree; the secret scalar is clamped as RFC 8032
    wants. That a signature verifies rests on the group law and the primality of the field
    order and is not shown.
  \<^item> Agent pipes (\<^verbatim>\<open>ffn_agent_protocol.py\<close>, \<^verbatim>\<open>ffn_control_plane.py\<close>; \<^verbatim>\<open>Agent_Channel\<close>): the agent's answer, its
    validation, and the daemon's configuration, supervision and status of one pipe. Accepted
    reports are numbered without a gap and carry the nonce, role and platform they were asked for; a ready status rests on a
    report that has not expired; a configuration that loads leaves no gap between two reports;
    agent and daemon composed stay connected while the frames fit the size limit, and the sample
    is the report of the last round.
  \<^item> Plane worker (\<^verbatim>\<open>ffn_planed.py\<close>; \<^verbatim>\<open>Plane_Worker\<close>): the durable journal of writes, their execution,
    reconciliation and relay, and the budgets of the controllers. Over every sequence of requests
    and deaths of the daemon a write runs at most once, a leaf has at most one write in doubt per
    resource, a resolve with the observed revision ends the doubt, and every single controller run has
    a budget below the wait of the relay (an apply runs two controllers, so the two together can
    outlast it).
  \<^item> Watchdog (\<^verbatim>\<open>ffn_watchdogd.py\<close>; \<^verbatim>\<open>Watchdog\<close>): configuration, device, health check and service loop, as
    a trace of pets, half-second naps and the time the checks and writes take. A healthy box is
    petted in time when a round's checks and the interval together stay below the timeout, a wedged
    one is not petted; one defect: a single failed check already withholds a pet, whatever number of
    strikes is configured.
  \<^item> Host licences (\<^verbatim>\<open>ffn_license.py\<close>; \<^verbatim>\<open>License\<close>): the host identity, the 84-byte token, its verification
    and the store. A feature is granted exactly on a file of the store whose bytes are a
    genuine, unexpired token for this host, and a token laid out for the host's own identity works,
    the base and the accelerator apart; the revocation flag is never looked at.
  \<^item> Patch installer (\<^verbatim>\<open>ffn_patch.py\<close>; \<^verbatim>\<open>Patch_Install\<close>): package checks, the journalled installation,
    rollback and recovery, as sequences of atomic changes of a disk. An installation stopped after
    any change, and recoveries that are stopped themselves, are undone by one complete recovery;
    a completed installation is exactly the package and rolls back to what was there. Contents come
    back as they were, modes up to the nine permission bits that the journal keeps.

  \<^bold>\<open>State, errors, machine integers.\<close> Objects are records and their methods take and return
  them; a raise is an \<^verbatim>\<open>Inl\<close> with the code's exception class and message. Python integers are
  \<^verbatim>\<open>int\<close> or \<^verbatim>\<open>nat\<close>; packed fields are words or naturals with the bounds that \<^verbatim>\<open>struct.pack\<close>
  enforces. Clock readings, random bytes, hashes and the contents of files are arguments.

  \<^bold>\<open>Bounds and fuel.\<close> The pattern parser recurses with fuel \<^verbatim>\<open>Suc (length p)\<close>, and \<^verbatim>\<open>parse_total\<close>
  shows that this is enough for every pattern. The subset construction runs with fuel
  \<^verbatim>\<open>Suc (max 1 M)\<close> for a state limit \<^verbatim>\<open>M\<close>; \<^verbatim>\<open>subset_construct_bounded\<close> shows that it then ends with a
  table within the limit or with the code's error. The union-find search is a partial function
  whose result \<^verbatim>\<open>owner_correct\<close> shows to exist. All other loops are structural or have a
  termination proof.

  \<^bold>\<open>Not modelled.\<close> Sockets, threads, subprocesses, SQLite statements beyond the rows they read and
  write, argument parsing and printing are I/O. The web manager (\<^verbatim>\<open>ffn_manager.py\<close>) is mostly HTTP
  routing and shell commands around the parts above. The gateway, image builder, vendor tools,
  hardware detection and machine-learning programs drive external devices and libraries. The
  compilers from the XML configuration to policy, NAT and route plans are left out, as are the C
  dataplanes, the static web pages and the tests.
\<close>

end
